(* ===== verification/Prelude.thy ===== *)
theory Prelude
imports Complex_Main "HOL-Library.Multiset" "HOL-Library.Product_Lexorder"
begin

text \<open>
  Shared vocabulary of the development: Python errors as values and their sequencing, Python
  slices, indexing a list or a one-dimensional tensor by an index list, and the generic list
  facts the component theories use.  A raised exception is the left value of a sum, a normal
  result the right value.
\<close>

section \<open>Errors as values\<close>

datatype py_error =
    IndexError
  | KeyError
  | ValueError
  | RuntimeError
  | AssertionError
  | TypeError
  | AttributeError
  | ZeroDivisionError
  | SystemExit
  | StopIteration
  | NotImplementedError

type_synonym 'a res = "py_error + 'a"

abbreviation Ok :: "'a \<Rightarrow> 'a res" where "Ok \<equiv> Inr"
abbreviation Err :: "py_error \<Rightarrow> 'a res" where "Err \<equiv> Inl"

text \<open>Sequencing: the rest of a statement list runs only when the first statement returned.\<close>

definition rbind :: "'a res \<Rightarrow> ('a \<Rightarrow> 'b res) \<Rightarrow> 'b res" where
  "rbind m k = (case m of Inl e \<Rightarrow> Inl e | Inr x \<Rightarrow> k x)"

definition assertR :: "bool \<Rightarrow> unit res" where
  "assertR b = (if b then Ok () else Err AssertionError)"

named_theorems res_simps \<open>evaluation rules of the error sum\<close>

lemma rbind_Ok [simp, res_simps]: "rbind (Ok x) k = k x"
  by (simp add: rbind_def)

lemma rbind_Err [simp, res_simps]: "rbind (Err e) k = Err e"
  by (simp add: rbind_def)

lemma rbind_eq_Ok [res_simps]: "rbind m k = Ok y \<longleftrightarrow> (\<exists>x. m = Ok x \<and> k x = Ok y)"
  by (cases m) (auto simp: rbind_def)

lemma rbind_OkE: "rbind m k = Ok y \<Longrightarrow> (\<And>x. m = Ok x \<Longrightarrow> k x = Ok y \<Longrightarrow> P) \<Longrightarrow> P"
  by (auto simp: rbind_eq_Ok)

lemma assertR_Ok [simp, res_simps]: "assertR b = Ok u \<longleftrightarrow> b"
  by (simp add: assertR_def)

lemma assertR_True [simp]: "assertR True = Ok ()"
  by (simp add: assertR_def)

lemma assertR_False [simp]: "assertR False = Err AssertionError"
  by (simp add: assertR_def)

text \<open>A loop that collects the results of a fallible call on each element.\<close>

fun mapR :: "('a \<Rightarrow> 'b res) \<Rightarrow> 'a list \<Rightarrow> 'b list res" where
  "mapR f [] = Ok []"
| "mapR f (x # xs) = rbind (f x) (\<lambda>y. rbind (mapR f xs) (\<lambda>ys. Ok (y # ys)))"

lemma mapR_Ok_iff [res_simps]: "mapR f xs = Ok ys \<longleftrightarrow> list_all2 (\<lambda>x y. f x = Ok y) xs ys"
  by (induction xs arbitrary: ys) (auto simp: rbind_eq_Ok list_all2_Cons1)

lemma mapR_length: "mapR f xs = Ok ys \<Longrightarrow> length ys = length xs"
  by (simp add: mapR_Ok_iff list_all2_lengthD)

text \<open>A loop that threads a state through a fallible call per element.\<close>

fun foldR :: "('a \<Rightarrow> 's \<Rightarrow> 's res) \<Rightarrow> 'a list \<Rightarrow> 's \<Rightarrow> 's res" where
  "foldR f [] s = Ok s"
| "foldR f (x # xs) s = rbind (f x s) (foldR f xs)"

text \<open>Attribute access on an optional object: Python raises when it is \<^verbatim>\<open>None\<close>.\<close>

definition the_obj :: "'a option \<Rightarrow> 'a res" where
  "the_obj x = (case x of None \<Rightarrow> Err AttributeError | Some y \<Rightarrow> Ok y)"

lemma the_obj_Some [simp, res_simps]: "the_obj (Some y) = Ok y"
  by (simp add: the_obj_def)

lemma the_obj_None [simp, res_simps]: "the_obj None = Err AttributeError"
  by (simp add: the_obj_def)

lemma the_obj_eq_Ok [res_simps]: "the_obj x = Ok y \<longleftrightarrow> x = Some y"
  by (cases x) auto

text \<open>Python's \<^verbatim>\<open>any\<close> and \<^verbatim>\<open>all\<close> over a generator are \<open>list_ex\<close> and \<open>list_all\<close>;
  the truth value of an optional list is false for \<^verbatim>\<open>None\<close> and for the empty list.\<close>

definition truthy :: "'a list option \<Rightarrow> bool" where
  "truthy xs = (case xs of None \<Rightarrow> False | Some ys \<Rightarrow> ys \<noteq> [])"

definition opt_list :: "'a list option \<Rightarrow> 'a list" where
  "opt_list xs = (case xs of None \<Rightarrow> [] | Some ys \<Rightarrow> ys)"

lemma opt_list_simps [simp]: "opt_list None = []" "opt_list (Some ys) = ys"
  by (simp_all add: opt_list_def)

section \<open>Python slices and indexing\<close>

text \<open>The clamping of a slice bound: negative bounds count from the end.\<close>

definition py_bound :: "int \<Rightarrow> nat \<Rightarrow> nat" where
  "py_bound i n = (if i < 0 then nat (int n + i) else min (nat i) n)"

definition py_slice :: "'a list \<Rightarrow> int \<Rightarrow> int \<Rightarrow> 'a list" where
  "py_slice xs a b =
     (let n = length xs; a' = py_bound a n; b' = py_bound b n in take (b' - a') (drop a' xs))"

definition py_take :: "'a list \<Rightarrow> int \<Rightarrow> 'a list" where
  "py_take xs b = take (py_bound b (length xs)) xs"

definition py_drop :: "'a list \<Rightarrow> int \<Rightarrow> 'a list" where
  "py_drop xs a = drop (py_bound a (length xs)) xs"

definition py_index :: "'a list \<Rightarrow> int \<Rightarrow> 'a res" where
  "py_index xs i =
     (let n = int (length xs); j = (if i < 0 then n + i else i)
      in if 0 \<le> j \<and> j < n then Ok (xs ! nat j) else Err IndexError)"

lemma py_take_nat [simp]: "py_take xs (int k) = take k xs"
  by (simp add: py_take_def py_bound_def min_def)

lemma py_drop_nat [simp]: "py_drop xs (int k) = drop k xs"
  by (simp add: py_drop_def py_bound_def min_def)

lemma py_take_nonneg: "0 \<le> k \<Longrightarrow> py_take xs k = take (nat k) xs"
  using py_take_nat [of xs "nat k"] by simp

lemma py_drop_nonneg: "0 \<le> k \<Longrightarrow> py_drop xs k = drop (nat k) xs"
  using py_drop_nat [of xs "nat k"] by simp

lemma py_slice_nat: "py_slice xs (int a) (int b) = take (b - a) (drop a xs)"
proof -
  have "take (min b (length xs) - min a (length xs)) (drop (min a (length xs)) xs)
      = take (b - a) (drop a xs)"
    by (cases "a \<le> length xs"; cases "b \<le> length xs") (auto simp: min_def)
  then show ?thesis by (simp add: py_slice_def py_bound_def Let_def)
qed

lemma py_index_nat: "k < length xs \<Longrightarrow> py_index xs (int k) = Ok (xs ! k)"
  by (simp add: py_index_def)

text \<open>\<^verbatim>\<open>t[idx]\<close> for an index list or an index tensor: one row per index, in the
  index list's order; an index past the end raises.\<close>

definition gather :: "'a list \<Rightarrow> nat list \<Rightarrow> 'a list res" where
  "gather xs js = (if list_all (\<lambda>j. j < length xs) js then Ok (map ((!) xs) js) else Err IndexError)"

named_theorems gather_simps \<open>facts about indexing by an index list\<close>

lemma gather_eq_Ok [gather_simps]:
  "gather xs js = Ok ys \<longleftrightarrow> (\<forall>j \<in> set js. j < length xs) \<and> ys = map ((!) xs) js"
  by (auto simp: gather_def list_all_iff)

lemma gather_Ok: "(\<And>j. j \<in> set js \<Longrightarrow> j < length xs) \<Longrightarrow> gather xs js = Ok (map ((!) xs) js)"
  by (simp add: gather_def list_all_iff)

lemma gather_length: "gather xs js = Ok ys \<Longrightarrow> length ys = length js"
  by (simp add: gather_eq_Ok)

text \<open>An optional tensor stays absent when it is indexed.\<close>

definition gather_opt :: "'a list option \<Rightarrow> nat list \<Rightarrow> 'a list option res" where
  "gather_opt x js = (case x of None \<Rightarrow> Ok None | Some xs \<Rightarrow> rbind (gather xs js) (\<lambda>ys. Ok (Some ys)))"

lemma gather_opt_None [simp, gather_simps]: "gather_opt None js = Ok None"
  by (simp add: gather_opt_def)

lemma gather_opt_Some [simp, gather_simps]:
  "gather_opt (Some xs) js = rbind (gather xs js) (\<lambda>ys. Ok (Some ys))"
  by (simp add: gather_opt_def)

section \<open>Generic list facts\<close>

lemma map_nth_range: "b \<le> length xs \<Longrightarrow> map ((!) xs) [a..<b] = take (b - a) (drop a xs)"
  by (rule nth_equalityI) auto

lemma map_nth_filter:
  "map ((!) xs) (filter (\<lambda>i. P (xs ! i)) [0..<length xs]) = filter P xs"
proof (induction xs rule: rev_induct)
  case Nil
  then show ?case by simp
next
  case (snoc x xs)
  have *: "filter (\<lambda>i. P ((xs @ [x]) ! i)) [0..<length xs]
      = filter (\<lambda>i. P (xs ! i)) [0..<length xs]"
    by (rule filter_cong) (auto simp: nth_append)
  have **: "map ((!) (xs @ [x])) (filter (\<lambda>i. P (xs ! i)) [0..<length xs])
      = map ((!) xs) (filter (\<lambda>i. P (xs ! i)) [0..<length xs])"
    by (rule map_cong) (auto simp: nth_append)
  show ?case using snoc by (simp add: * **)
qed

lemma filter_indices_all:
  assumes "length (filter P [0..<n]) = n"
  shows "filter P [0..<n] = [0..<n]"
proof -
  have "length (filter P [0..<n]) = length [0..<n]" using assms by simp
  then have "\<forall>i \<in> set [0..<n]. P i"
    by (metis filter_id_conv length_filter_less nat_neq_iff)
  then show ?thesis by simp
qed

lemma mset_map_nth_split:
  assumes "mset (js @ ks) = mset [0..<length xs]"
  shows "mset (map ((!) xs) js) + mset (map ((!) xs) ks) = mset xs"
proof -
  have "mset (map ((!) xs) js) + mset (map ((!) xs) ks) = image_mset ((!) xs) (mset (js @ ks))"
    by simp
  also have "\<dots> = mset (map ((!) xs) [0..<length xs])" using assms by simp
  also have "\<dots> = mset xs" by (simp add: map_nth)
  finally show ?thesis .
qed

lemma in_set_takeE: "x \<in> set (take n xs) \<Longrightarrow> x \<in> set xs"
  by (rule in_set_takeD)

lemma sum_list_map_add:
  "sum_list (map (\<lambda>x. f x + g x) xs) = sum_list (map f xs) + (sum_list (map g xs) :: 'a :: comm_monoid_add)"
  by (induction xs) (auto simp: ac_simps)

text \<open>A multiset with no repetition: its parts are duplicate-free and disjoint.\<close>

definition simple_mset :: "'a multiset \<Rightarrow> bool" where
  "simple_mset M \<longleftrightarrow> (\<forall>s. count M s \<le> 1)"

lemma simple_mset_distinct: "simple_mset (mset xs) \<longleftrightarrow> distinct xs"
proof
  assume s: "simple_mset (mset xs)"
  have "count (mset xs) a = (if a \<in> set xs then 1 else 0)" for a
  proof (cases "a \<in> set xs")
    case True
    then have "0 < count (mset xs) a" by simp
    with s True show ?thesis unfolding simple_mset_def by (metis One_nat_def Suc_leI le_antisym)
  qed (simp add: count_eq_zero_iff)
  then show "distinct xs" by (simp add: distinct_count_atmost_1)
next
  assume "distinct xs"
  then show "simple_mset (mset xs)"
    by (auto simp: simple_mset_def distinct_count_atmost_1)
qed

lemma simple_mset_unionD:
  assumes "simple_mset (A + B)"
  shows "simple_mset A" "simple_mset B" "set_mset A \<inter> set_mset B = {}"
proof -
  have c: "count A s + count B s \<le> 1" for s
    using assms by (simp add: simple_mset_def)
  show "simple_mset A" "simple_mset B"
    using c unfolding simple_mset_def by (metis add_leD1, metis add_leD2)
  show "set_mset A \<inter> set_mset B = {}"
  proof (rule ccontr)
    assume "set_mset A \<inter> set_mset B \<noteq> {}"
    then obtain s where "s \<in># A" "s \<in># B" by auto
    then have "0 < count A s" "0 < count B s" by simp_all
    with c [of s] show False by simp
  qed
qed

text \<open>Python's \<^verbatim>\<open>max(xs)\<close> of a list returns the first maximal element by its key; it raises on
  an empty one.\<close>

fun first_max_by :: "('a \<Rightarrow> 'k :: linorder) \<Rightarrow> 'a \<Rightarrow> 'a list \<Rightarrow> 'a" where
  "first_max_by f best [] = best"
| "first_max_by f best (x # xs) = first_max_by f (if f best < f x then x else best) xs"

lemma first_max_by_in: "first_max_by f b xs \<in> set (b # xs)"
proof (induction xs arbitrary: b)
  case (Cons x xs)
  show ?case using Cons [of "if f b < f x then x else b"] by (auto split: if_splits)
qed simp

lemma first_max_by_ge: "f b \<le> f (first_max_by f b xs)"
proof (induction xs arbitrary: b)
  case (Cons x xs)
  then show ?case
    by (cases "f b < f x") (simp_all, meson less_imp_le order_trans)
qed simp

lemma first_max_by_max: "y \<in> set (b # xs) \<Longrightarrow> f y \<le> f (first_max_by f b xs)"
proof (induction xs arbitrary: b)
  case (Cons x xs)
  show ?case
  proof (cases "f b < f x")
    case True
    then have "y = b \<Longrightarrow> f y \<le> f x" by simp
    with True Cons show ?thesis
      using first_max_by_ge [of f x xs] by (auto intro: order_trans)
  next
    case False
    then have "y = x \<Longrightarrow> f y \<le> f b" by simp
    with False Cons show ?thesis
      using first_max_by_ge [of f b xs] by (auto intro: order_trans)
  qed
qed simp

definition py_max :: "int list \<Rightarrow> int res" where
  "py_max xs = (case xs of [] \<Rightarrow> Err ValueError | y # ys \<Rightarrow> Ok (foldl max y ys))"

definition py_min :: "int list \<Rightarrow> int res" where
  "py_min xs = (case xs of [] \<Rightarrow> Err ValueError | y # ys \<Rightarrow> Ok (foldl min y ys))"

lemma foldl_max: "foldl max y ys = Max (set (y # ys))" for y :: int
proof (induction ys arbitrary: y)
  case (Cons z zs)
  then have "foldl max (max y z) zs = Max (set (max y z # zs))" by simp
  also have "\<dots> = Max (set (y # z # zs))"
    by (cases zs) (auto simp: max.assoc)
  finally show ?case by simp
qed simp

lemma foldl_min: "foldl min y ys = Min (set (y # ys))" for y :: int
proof (induction ys arbitrary: y)
  case (Cons z zs)
  then have "foldl min (min y z) zs = Min (set (min y z # zs))" by simp
  also have "\<dots> = Min (set (y # z # zs))"
    by (cases zs) (auto simp: min.assoc)
  finally show ?case by simp
qed simp

lemma py_max_Ok: "xs \<noteq> [] \<Longrightarrow> py_max xs = Ok (Max (set xs))"
  by (cases xs) (simp_all add: py_max_def foldl_max)

lemma py_min_Ok: "xs \<noteq> [] \<Longrightarrow> py_min xs = Ok (Min (set xs))"
  by (cases xs) (simp_all add: py_min_def foldl_min)

text \<open>NumPy's mean of a non-empty list of floats.\<close>

definition mean :: "real list \<Rightarrow> real" where
  "mean xs = sum_list xs / real (length xs)"

lemma mean_le:
  assumes "xs \<noteq> []" "\<And>x. x \<in> set xs \<Longrightarrow> x \<le> b"
  shows "mean xs \<le> b"
proof -
  have "sum_list xs \<le> real (length xs) * b"
    using assms(2)
  proof (induction xs)
    case (Cons a xs)
    then have "a \<le> b" "sum_list xs \<le> real (length xs) * b" by auto
    then show ?case by (simp add: algebra_simps)
  qed simp
  with assms(1) show ?thesis by (simp add: mean_def field_simps)
qed

end
