(* ===== verification/PP_Counter.thy ===== *)
theory PP_Counter
imports Prelude
begin

text \<open>
  The micro-batch counter of the pipeline (class \<^verbatim>\<open>PPCounter\<close> of
  \<^verbatim>\<open>python/sglang/srt/utils.py\<close>).  Every scheduler iteration takes one step of it: the stage
  with rank \<open>r\<close> launches micro-batch \<open>current_idx\<close> and consumes the result of micro-batch
  \<open>process_pp_idx\<close>.
\<close>

record pp_counter =
  ppc_size :: int
  ppc_rank :: int
  current_idx :: int
  process_pp_idx :: int
  process_pp_idx_last :: int

definition ppc_init :: "int \<Rightarrow> int \<Rightarrow> pp_counter res" where
  "ppc_init pp_size pp_rank =
     (if pp_size \<le> 0 then Err ValueError
      else Ok \<lparr>ppc_size = pp_size, ppc_rank = pp_rank, current_idx = -1,
               process_pp_idx = pp_rank, process_pp_idx_last = pp_rank - 1\<rparr>)"

definition ppc_next :: "pp_counter \<Rightarrow> int \<times> pp_counter" where
  "ppc_next c =
     (let c1 = c\<lparr>current_idx := (current_idx c + 1) mod ppc_size c\<rparr>;
          c2 = c1\<lparr>process_pp_idx := (process_pp_idx c1 + 1) mod ppc_size c1\<rparr>;
          c3 = c2\<lparr>process_pp_idx_last := (process_pp_idx_last c2 + 1) mod ppc_size c2\<rparr>
      in (current_idx c3, c3))"

definition ppc_reset :: "pp_counter \<Rightarrow> pp_counter" where
  "ppc_reset c = c\<lparr>current_idx := -1\<rparr>"

definition ppc_get :: "pp_counter \<Rightarrow> int" where
  "ppc_get c = current_idx c"

definition ppc_get_pp :: "pp_counter \<Rightarrow> int" where
  "ppc_get_pp c = process_pp_idx c"

definition ppc_get_pp_last :: "pp_counter \<Rightarrow> int" where
  "ppc_get_pp_last c = process_pp_idx_last c"

text \<open>The counter after a number of scheduler iterations.\<close>

fun ppc_steps :: "nat \<Rightarrow> pp_counter \<Rightarrow> pp_counter" where
  "ppc_steps 0 c = c"
| "ppc_steps (Suc k) c = snd (ppc_next (ppc_steps k c))"

lemma ppc_steps_size [simp]: "ppc_size (ppc_steps k c) = ppc_size c"
  by (induction k) (simp_all add: ppc_next_def Let_def)

lemma ppc_steps_fields:
  "current_idx (ppc_steps (Suc k) c) = (current_idx c + int (Suc k)) mod ppc_size c
   \<and> process_pp_idx (ppc_steps (Suc k) c) = (process_pp_idx c + int (Suc k)) mod ppc_size c
   \<and> process_pp_idx_last (ppc_steps (Suc k) c)
       = (process_pp_idx_last c + int (Suc k)) mod ppc_size c"
proof (induction k)
  case 0
  show ?case by (simp add: ppc_next_def Let_def)
next
  case (Suc k)
  then show ?case
    by (simp add: ppc_next_def Let_def mod_simps ac_simps del: of_nat_Suc)
      (simp add: algebra_simps)
qed

text \<open>After any positive number of iterations, a stage of rank \<open>r\<close> launches micro-batch
  \<open>k - 1 mod P\<close> and processes micro-batch \<open>r + k mod P\<close>, which lies \<open>r + 1\<close> positions after the
  launched one; the index used for the overlapped transfer is one behind it.\<close>

theorem ppc_schedule:
  assumes "ppc_init P r = Ok c" and "0 < k"
  shows "ppc_get (ppc_steps k c) = (int k - 1) mod P
       \<and> ppc_get_pp (ppc_steps k c) = (r + int k) mod P
       \<and> ppc_get_pp (ppc_steps k c) = (ppc_get (ppc_steps k c) + 1 + r) mod P
       \<and> ppc_get_pp_last (ppc_steps k c) = (ppc_get_pp (ppc_steps k c) - 1) mod P"
proof -
  obtain j where k: "k = Suc j" using assms(2) by (cases k) auto
  have c: "ppc_size c = P" "current_idx c = -1" "process_pp_idx c = r"
      "process_pp_idx_last c = r - 1"
    using assms(1) by (auto simp: ppc_init_def split: if_splits)
  have shift: "(1 + (r + int j mod P)) mod P = (1 + (r + int j)) mod P"
    by (metis add.assoc mod_add_right_eq)
  show ?thesis
    using ppc_steps_fields [of j c] shift
    by (auto simp add: k c ppc_get_def ppc_get_pp_def ppc_get_pp_last_def mod_simps ac_simps
        del: ppc_steps.simps)
qed

theorem ppc_schedule_witness:
  "\<exists>c. ppc_init 4 1 = Ok c
     \<and> ppc_get (ppc_steps 6 c) = 1 \<and> ppc_get_pp (ppc_steps 6 c) = 3 \<and> ppc_get_pp_last (ppc_steps 6 c) = 2"
proof -
  let ?c = "\<lparr>ppc_size = 4, ppc_rank = 1, current_idx = -1, process_pp_idx = 1,
             process_pp_idx_last = 0\<rparr>"
  have i: "ppc_init 4 1 = Ok ?c" by (simp add: ppc_init_def)
  show ?thesis using i ppc_schedule [OF i, of 6] by auto
qed

text \<open>The indices a stage processes in \<open>P\<close> consecutive iterations are all \<open>P\<close> micro-batches, each
  once.\<close>

lemma int_window_inj:
  fixes P a x y :: int
  assumes "0 \<le> x" "x < P" "0 \<le> y" "y < P" and eq: "(a + x) mod P = (a + y) mod P"
  shows "x = y"
proof -
  have "P dvd ((a + x) - (a + y))" using eq by (simp add: mod_eq_dvd_iff)
  then have "P dvd (x - y)" by simp
  moreover have "\<bar>x - y\<bar> < P" using assms by arith
  ultimately show ?thesis using zdvd_not_zless [of "\<bar>x - y\<bar>" P] by (cases "x = y") auto
qed

text \<open>In any window of \<open>P\<close> consecutive iterations a stage processes each of the \<open>P\<close> micro-batches
  exactly once (the pipeline round robin is fair).\<close>

theorem ppc_round_robin:
  assumes "ppc_init P r = Ok c" and "0 < k"
  shows "distinct (map (\<lambda>j. ppc_get_pp (ppc_steps j c)) [k..<k + nat P])
       \<and> set (map (\<lambda>j. ppc_get_pp (ppc_steps j c)) [k..<k + nat P]) = {0..<P}"
proof -
  have P: "0 < P" using assms(1) by (auto simp: ppc_init_def split: if_splits)
  let ?f = "\<lambda>j. ppc_get_pp (ppc_steps j c)"
  have f: "?f j = (r + int j) mod P" if "j \<in> set [k..<k + nat P]" for j
    using ppc_schedule [OF assms(1), of j] that assms(2) by auto
  have inj: "inj_on ?f (set [k..<k + nat P])"
  proof (rule inj_onI)
    fix i j assume ij: "i \<in> set [k..<k + nat P]" "j \<in> set [k..<k + nat P]" "?f i = ?f j"
    have "(r + int k + (int i - int k)) mod P = (r + int k + (int j - int k)) mod P"
      using ij f by simp
    moreover have "0 \<le> int i - int k" "int i - int k < P" "0 \<le> int j - int k" "int j - int k < P"
      using ij P by auto
    ultimately have "int i - int k = int j - int k" by (rule int_window_inj [rotated 4])
    then show "i = j" by simp
  qed
  have sub: "?f ` set [k..<k + nat P] \<subseteq> {0..<P}" using f P by auto
  have "card (?f ` set [k..<k + nat P]) = nat P" using inj by (simp add: card_image)
  then have "?f ` set [k..<k + nat P] = {0..<P}"
    using sub by (intro card_subset_eq) auto
  then show ?thesis using inj by (simp add: distinct_map)
qed

theorem ppc_round_robin_witness:
  "\<exists>c. ppc_init 3 2 = Ok c
     \<and> set (map (\<lambda>j. ppc_get_pp (ppc_steps j c)) [5..<8]) = {0..<3}"
proof -
  let ?c = "\<lparr>ppc_size = 3, ppc_rank = 2, current_idx = -1, process_pp_idx = 2,
             process_pp_idx_last = 1\<rparr>"
  have i: "ppc_init 3 2 = Ok ?c" by (simp add: ppc_init_def)
  show ?thesis using i ppc_round_robin [OF i, of 5] by auto
qed

end
