(* ===== verification/Memory_Pool.thy ===== *)
theory Memory_Pool
imports Prelude
begin

text \<open>
  The two memory pools of \<^verbatim>\<open>python/sglang/srt/mem_cache/memory_pool.py\<close>:
  \<^verbatim>\<open>ReqToTokenPool\<close> (request slots and the table of their token locations) and the
  allocator part of \<^verbatim>\<open>BaseTokenToKVPool\<close> (KV-cache slots).  Tensors are lists; the tables'
  devices and dtypes are not modelled.  The interface both pools give their clients is the locale
  \<open>slot_pool\<close>: slots are handed out and returned, and none is created, lost or duplicated.
\<close>

section \<open>ReqToTokenPool\<close>

text \<open>The index of a table write: a slice of one row, or a list of rows with a column each.\<close>

datatype write_index = RowSlice nat nat nat | Points "nat list" "nat list"

record req_pool =
  rp_size :: nat
  max_context_len :: nat
  req_to_token :: "nat list list"
  rp_free :: "nat list"
  write_records :: "(write_index \<times> nat list) list"
  use_records :: bool

definition req_pool_init :: "nat \<Rightarrow> nat \<Rightarrow> bool \<Rightarrow> req_pool" where
  "req_pool_init n max_len recs =
     \<lparr>rp_size = n, max_context_len = max_len,
      req_to_token = replicate n (replicate max_len 0),
      rp_free = [0..<n], write_records = [], use_records = recs\<rparr>"

definition rp_available_size :: "req_pool \<Rightarrow> nat" where
  "rp_available_size p = length (rp_free p)"

definition rp_alloc :: "nat \<Rightarrow> req_pool \<Rightarrow> nat list option \<times> req_pool" where
  "rp_alloc need_size p =
     (if need_size > length (rp_free p) then (None, p)
      else (Some (take need_size (rp_free p)), p\<lparr>rp_free := drop need_size (rp_free p)\<rparr>))"

text \<open>\<^verbatim>\<open>free\<close> takes an index or a list of indices.\<close>

datatype free_arg = FreeInt nat | FreeList "nat list"

fun rp_release :: "free_arg \<Rightarrow> req_pool \<Rightarrow> req_pool" where
  "rp_release (FreeInt i) p = p\<lparr>rp_free := rp_free p @ [i]\<rparr>"
| "rp_release (FreeList js) p = p\<lparr>rp_free := rp_free p @ js\<rparr>"

definition rp_clear :: "req_pool \<Rightarrow> req_pool" where
  "rp_clear p = p\<lparr>rp_free := [0..<rp_size p], write_records := []\<rparr>"

text \<open>Tensor assignment: a value list of length one is broadcast, any other length must be the
  length of the place written.\<close>

definition bcast :: "nat \<Rightarrow> nat list \<Rightarrow> nat list res" where
  "bcast n vs =
     (if length vs = n then Ok vs
      else if length vs = 1 then Ok (replicate n (hd vs)) else Err RuntimeError)"

definition put_point :: "nat \<times> nat \<times> nat \<Rightarrow> nat list list \<Rightarrow> nat list list" where
  "put_point rcv t = (case rcv of (r, c, v) \<Rightarrow> t[r := (t ! r)[c := v]])"

fun table_write :: "nat list list \<Rightarrow> write_index \<Rightarrow> nat list \<Rightarrow> nat list list res" where
  "table_write t (RowSlice i a b) vs =
     (if i \<ge> length t then Err IndexError
      else let row = t ! i; b' = min b (length row); a' = min a (length row)
           in rbind (bcast (b' - a') vs) (\<lambda>ws.
                Ok (t[i := take a' row @ ws @ drop (a' + length ws) row])))"
| "table_write t (Points rs cs) vs =
     (let n = (if length rs = 1 then length cs else length rs)
      in rbind (bcast n rs) (\<lambda>rs'. rbind (bcast n cs) (\<lambda>cs'. rbind (bcast n vs) (\<lambda>vs'.
           if list_all (\<lambda>(r, c). r < length t \<and> c < length (t ! r)) (zip rs' cs')
           then Ok (fold put_point (zip rs' (zip cs' vs')) t)
           else Err IndexError))))"

definition write_without_records :: "req_pool \<Rightarrow> write_index \<Rightarrow> nat list \<Rightarrow> req_pool res" where
  "write_without_records p idx vs =
     rbind (table_write (req_to_token p) idx vs) (\<lambda>t. Ok (p\<lparr>req_to_token := t\<rparr>))"

definition write_with_records :: "req_pool \<Rightarrow> write_index \<Rightarrow> nat list \<Rightarrow> req_pool res" where
  "write_with_records p idx vs =
     rbind (table_write (req_to_token p) idx vs) (\<lambda>t.
       Ok (p\<lparr>req_to_token := t, write_records := write_records p @ [(idx, vs)]\<rparr>))"

text \<open>\<^verbatim>\<open>self.write\<close> is bound to one of the two at construction.\<close>

definition rp_write :: "req_pool \<Rightarrow> write_index \<Rightarrow> nat list \<Rightarrow> req_pool res" where
  "rp_write p idx vs =
     (if use_records p then write_with_records p idx vs else write_without_records p idx vs)"

definition get_write_records :: "req_pool \<Rightarrow> (write_index \<times> nat list) list \<times> req_pool" where
  "get_write_records p = (write_records p, p\<lparr>write_records := []\<rparr>)"

fun apply_write_records :: "(write_index \<times> nat list) list \<Rightarrow> req_pool \<Rightarrow> req_pool res" where
  "apply_write_records [] p = Ok p"
| "apply_write_records ((idx, vs) # rs) p =
     rbind (table_write (req_to_token p) idx vs) (\<lambda>t. apply_write_records rs (p\<lparr>req_to_token := t\<rparr>))"

text \<open>The row prefix \<^verbatim>\<open>req_to_token[i, :n]\<close> that the caches read.\<close>

definition row_prefix :: "req_pool \<Rightarrow> nat \<Rightarrow> nat \<Rightarrow> nat list res" where
  "row_prefix p i n = (if i < length (req_to_token p) then Ok (take n (req_to_token p ! i)) else Err IndexError)"

section \<open>BaseTokenToKVPool\<close>

text \<open>The attribute \<^verbatim>\<open>is_in_free_group\<close> is written by \<^verbatim>\<open>clear\<close> only and read nowhere; the flag the
  other methods use is \<open>is_not_in_free_group\<close>.\<close>

record kv_pool =
  kv_size :: nat
  kv_free :: "nat list"
  is_not_in_free_group :: bool
  is_in_free_group :: bool
  free_group :: "nat list list"

definition kv_clear :: "kv_pool \<Rightarrow> kv_pool" where
  "kv_clear p = p\<lparr>kv_free := [1..<kv_size p + 1], is_in_free_group := False, free_group := []\<rparr>"

definition kv_pool_init :: "nat \<Rightarrow> kv_pool" where
  "kv_pool_init n =
     kv_clear \<lparr>kv_size = n, kv_free = [], is_not_in_free_group = True,
               is_in_free_group = False, free_group = []\<rparr>"

definition kv_available_size :: "kv_pool \<Rightarrow> nat" where
  "kv_available_size p = length (kv_free p)"

definition kv_alloc :: "nat \<Rightarrow> kv_pool \<Rightarrow> nat list option \<times> kv_pool" where
  "kv_alloc need_size p =
     (if need_size > length (kv_free p) then (None, p)
      else (Some (take need_size (kv_free p)), p\<lparr>kv_free := drop need_size (kv_free p)\<rparr>))"

definition kv_release :: "nat list \<Rightarrow> kv_pool \<Rightarrow> kv_pool" where
  "kv_release js p =
     (if length js = 0 then p
      else if is_not_in_free_group p then p\<lparr>kv_free := kv_free p @ js\<rparr>
      else p\<lparr>free_group := free_group p @ [js]\<rparr>)"

definition free_group_begin :: "kv_pool \<Rightarrow> kv_pool" where
  "free_group_begin p = p\<lparr>is_not_in_free_group := False, free_group := []\<rparr>"

definition free_group_end :: "kv_pool \<Rightarrow> kv_pool" where
  "free_group_end p =
     (let p = p\<lparr>is_not_in_free_group := True\<rparr>
      in if free_group p \<noteq> [] then kv_release (concat (free_group p)) p else p)"

section \<open>What a slot pool promises\<close>

text \<open>
  \<open>owned\<close> are the slots the pool holds (free or waiting to be freed).  Clients hold the others.
  A ledger of what the clients hold changes with every successful call; a client returns only
  slots it holds.  \<open>ctl\<close> are the pool's other operations, defined where their protocol allows them.
\<close>

datatype 'c pool_event = EAlloc nat | EFree "nat list" | ECtl 'c

fun ledger_run ::
  "(nat \<Rightarrow> 'p \<Rightarrow> nat list option \<times> 'p) \<Rightarrow> (nat list \<Rightarrow> 'p \<Rightarrow> 'p) \<Rightarrow> ('c \<Rightarrow> 'p \<Rightarrow> 'p option)
    \<Rightarrow> 'c pool_event list \<Rightarrow> 'p \<times> nat multiset \<Rightarrow> ('p \<times> nat multiset) option" where
  "ledger_run al fr ct [] s = Some s"
| "ledger_run al fr ct (EAlloc n # es) (p, held) =
     (case al n p of
        (None, p') \<Rightarrow> ledger_run al fr ct es (p', held)
      | (Some xs, p') \<Rightarrow> ledger_run al fr ct es (p', held + mset xs))"
| "ledger_run al fr ct (EFree xs # es) (p, held) =
     (if mset xs \<subseteq># held then ledger_run al fr ct es (fr xs p, held - mset xs) else None)"
| "ledger_run al fr ct (ECtl c # es) (p, held) =
     (case ct c p of None \<Rightarrow> None | Some p' \<Rightarrow> ledger_run al fr ct es (p', held))"

locale slot_pool =
  fixes alloc_op :: "nat \<Rightarrow> 'p \<Rightarrow> nat list option \<times> 'p"
    and free_op :: "nat list \<Rightarrow> 'p \<Rightarrow> 'p"
    and ctl_op :: "'c \<Rightarrow> 'p \<Rightarrow> 'p option"
    and owned :: "'p \<Rightarrow> nat multiset"
  assumes alloc_none: "alloc_op n p = (None, p') \<Longrightarrow> p' = p"
    and alloc_some: "alloc_op n p = (Some xs, p') \<Longrightarrow> owned p = mset xs + owned p' \<and> length xs = n"
    and free_owned: "owned (free_op xs p) = owned p + mset xs"
    and ctl_owned: "ctl_op c p = Some p' \<Longrightarrow> owned p' = owned p"
begin

lemma ledger_conserved:
  "ledger_run alloc_op free_op ctl_op es (p, held) = Some (p', held') \<Longrightarrow> owned p' + held' = owned p + held"
proof (induction es arbitrary: p held)
  case Nil
  then show ?case by simp
next
  case (Cons e es)
  show ?case
  proof (cases e)
    case (EAlloc n)
    obtain r q where r: "alloc_op n p = (r, q)" by fastforce
    show ?thesis
    proof (cases r)
      case None
      with r EAlloc Cons show ?thesis using alloc_none by fastforce
    next
      case (Some xs)
      with r EAlloc Cons have "owned p' + held' = owned q + (held + mset xs)" by simp
      also have "\<dots> = owned p + held" using alloc_some r Some by (simp add: ac_simps)
      finally show ?thesis .
    qed
  next
    case (EFree xs)
    with Cons.prems have sub: "mset xs \<subseteq># held"
      and run: "ledger_run alloc_op free_op ctl_op es (free_op xs p, held - mset xs) = Some (p', held')"
      by (auto split: if_splits)
    from Cons.IH [OF run] have "owned p' + held' = owned p + (mset xs + (held - mset xs))"
      by (simp add: free_owned ac_simps)
    also have "mset xs + (held - mset xs) = held" using sub by simp
    finally show ?thesis .
  next
    case (ECtl c)
    with Cons.prems obtain q where q: "ctl_op c p = Some q"
      and run: "ledger_run alloc_op free_op ctl_op es (q, held) = Some (p', held')"
      by (auto split: option.splits)
    show ?thesis using Cons.IH [OF run] ctl_owned [OF q] by simp
  qed
qed

text \<open>A slot that is handed out is held by nobody else, and is not handed out twice.\<close>

lemma alloc_fresh:
  assumes universe: "simple_mset (owned p + held)"
    and run: "ledger_run alloc_op free_op ctl_op es (p, held) = Some (q, held')"
    and al: "alloc_op n q = (Some xs, q')"
  shows "distinct xs \<and> set xs \<inter> set_mset held' = {} \<and> set xs \<inter> set_mset (owned q') = {}
         \<and> length xs = n"
proof -
  have own: "owned q = mset xs + owned q'" "length xs = n" using alloc_some [OF al] by auto
  have "owned p + held = mset xs + (owned q' + held')"
    using ledger_conserved [OF run] own by (simp add: ac_simps)
  then have s: "simple_mset (mset xs + (owned q' + held'))" using universe by simp
  from simple_mset_unionD [OF s] show ?thesis
    using own by (auto simp: simple_mset_distinct)
qed

end


section \<open>The two pools keep the promise\<close>

text \<open>Control operations of the request pool: table writes and the record exchange.\<close>

datatype rp_ctl = RWrite write_index "nat list" | RTakeRecords | RApply "(write_index \<times> nat list) list"

fun rp_ctl_step :: "rp_ctl \<Rightarrow> req_pool \<Rightarrow> req_pool option" where
  "rp_ctl_step (RWrite idx vs) p = (case rp_write p idx vs of Inl e \<Rightarrow> None | Inr q \<Rightarrow> Some q)"
| "rp_ctl_step RTakeRecords p = Some (snd (get_write_records p))"
| "rp_ctl_step (RApply rs) p = (case apply_write_records rs p of Inl e \<Rightarrow> None | Inr q \<Rightarrow> Some q)"

text \<open>Control operations of the KV pool: a free group is opened outside a group and closed inside
  one, as the scheduler's result handlers do.\<close>

datatype kv_ctl = KBegin | KEnd

fun kv_ctl_step :: "kv_ctl \<Rightarrow> kv_pool \<Rightarrow> kv_pool option" where
  "kv_ctl_step KBegin p = (if is_not_in_free_group p then Some (free_group_begin p) else None)"
| "kv_ctl_step KEnd p = (if is_not_in_free_group p then None else Some (free_group_end p))"

definition rp_owned :: "req_pool \<Rightarrow> nat multiset" where
  "rp_owned p = mset (rp_free p)"

definition kv_owned :: "kv_pool \<Rightarrow> nat multiset" where
  "kv_owned p = mset (kv_free p) + (if is_not_in_free_group p then {#} else mset (concat (free_group p)))"

lemma rp_write_free [simp]: "rp_write p idx vs = Ok q \<Longrightarrow> rp_free q = rp_free p"
  by (auto simp: rp_write_def write_with_records_def write_without_records_def rbind_eq_Ok
      split: if_splits)

lemma apply_write_records_free: "apply_write_records rs p = Ok q \<Longrightarrow> rp_free q = rp_free p"
  by (induction rs p rule: apply_write_records.induct) (auto simp: rbind_eq_Ok)

lemma mset_take_drop: "mset (take n xs) + mset (drop n xs) = mset xs"
  by (metis append_take_drop_id mset_append)

interpretation rp: slot_pool rp_alloc "\<lambda>xs. rp_release (FreeList xs)" rp_ctl_step rp_owned
proof unfold_locales
  fix n p p' assume "rp_alloc n p = (None, p')"
  then show "p' = p" by (auto simp: rp_alloc_def split: if_splits)
next
  fix n p xs p' assume "rp_alloc n p = (Some xs, p')"
  then show "rp_owned p = mset xs + rp_owned p' \<and> length xs = n"
    by (auto simp: rp_alloc_def rp_owned_def mset_take_drop split: if_splits)
next
  fix xs p show "rp_owned (rp_release (FreeList xs) p) = rp_owned p + mset xs"
    by (simp add: rp_owned_def)
next
  fix c p p' assume "rp_ctl_step c p = Some p'"
  then show "rp_owned p' = rp_owned p"
    by (cases c) (auto simp: rp_owned_def get_write_records_def apply_write_records_free
        split: sum.splits)
qed

lemma kv_release_owned: "kv_owned (kv_release xs p) = kv_owned p + mset xs"
  by (auto simp: kv_release_def kv_owned_def ac_simps)

lemma free_group_end_owned:
  "\<not> is_not_in_free_group p \<Longrightarrow> kv_owned (free_group_end p) = kv_owned p"
  by (auto simp: free_group_end_def kv_owned_def kv_release_def Let_def)

interpretation kv: slot_pool kv_alloc kv_release kv_ctl_step kv_owned
proof unfold_locales
  fix n p p' assume "kv_alloc n p = (None, p')"
  then show "p' = p" by (auto simp: kv_alloc_def split: if_splits)
next
  fix n p xs p' assume "kv_alloc n p = (Some xs, p')"
  then show "kv_owned p = mset xs + kv_owned p' \<and> length xs = n"
    by (auto simp: kv_alloc_def kv_owned_def split: if_splits)
      (metis add.assoc mset_take_drop)+
next
  fix xs p show "kv_owned (kv_release xs p) = kv_owned p + mset xs" by (rule kv_release_owned)
next
  fix c p p' assume "kv_ctl_step c p = Some p'"
  then show "kv_owned p' = kv_owned p"
  proof (cases c)
    case KEnd
    with \<open>kv_ctl_step c p = Some p'\<close> show ?thesis
      by (auto simp: free_group_end_owned split: if_splits)
  qed (auto simp: kv_owned_def free_group_begin_def split: if_splits)
qed

lemma kv_owned_init [simp]: "kv_owned (kv_pool_init n) = mset [1..<n + 1]"
  by (simp add: kv_owned_def kv_pool_init_def kv_clear_def)

lemma rp_owned_init [simp]: "rp_owned (req_pool_init n m r) = mset [0..<n]"
  by (simp add: rp_owned_def req_pool_init_def)

text \<open>C10: Whatever sequence of allocations, returns of held slots and bracketed free groups ran
  before, a successful KV allocation returns exactly the requested number of distinct slots of
  \<open>1..size\<close>, none of which is held by a client, still free, or waiting in an open free group.\<close>

theorem kv_alloc_never_aliases:
  assumes run: "ledger_run kv_alloc kv_release kv_ctl_step es (kv_pool_init n, {#}) = Some (p, held)"
    and al: "kv_alloc k p = (Some xs, p')"
  shows "length xs = k \<and> distinct xs \<and> set xs \<subseteq> {1..n}
       \<and> set xs \<inter> set_mset held = {} \<and> set xs \<inter> set_mset (kv_owned p') = {}"
proof -
  have "simple_mset (kv_owned (kv_pool_init n) + {#})"
    by (simp only: kv_owned_init add_0_right simple_mset_distinct distinct_upt)
  note fresh = kv.alloc_fresh [OF this run al]
  have "kv_owned p + held = mset [1..<n + 1]"
    using kv.ledger_conserved [OF run] by simp
  then have "mset xs \<subseteq># mset [1..<n + 1]"
    using kv.alloc_some [OF al] by (metis mset_subset_eq_add_left add.assoc)
  then have "set xs \<subseteq> {1..n}" using set_mset_mono by fastforce
  with fresh show ?thesis by auto
qed

theorem kv_alloc_never_aliases_witness:
  "\<exists>p held. ledger_run kv_alloc kv_release kv_ctl_step
       [EAlloc 3, ECtl KBegin, EFree [2], ECtl KEnd, EAlloc 1] (kv_pool_init 4, {#}) = Some (p, held)
     \<and> kv_alloc 1 p = (Some [2], snd (kv_alloc 1 p)) \<and> 2 \<notin># held"
proof -
  let ?es = "[EAlloc 3, ECtl KBegin, EFree [2], ECtl KEnd, EAlloc 1]"
  have run: "ledger_run kv_alloc kv_release kv_ctl_step ?es (kv_pool_init 4, {#})
    = Some (\<lparr>kv_size = 4, kv_free = [2], is_not_in_free_group = True, is_in_free_group = False,
             free_group = [[2]]\<rparr>, {#1, 3, 4#})"
    by (simp add: kv_alloc_def kv_release_def kv_pool_init_def kv_clear_def free_group_begin_def
        free_group_end_def Let_def upt_rec eval_nat_numeral)
  show ?thesis
    using run kv_alloc_never_aliases [OF run, of 1 "[2]"]
    by (auto simp: kv_alloc_def)
qed

text \<open>Slots are conserved: after any such sequence the slots in the pool (free or in the open
  group) and the slots held by clients are together exactly \<open>1..size\<close>, so outside a free group the
  reported available size is the capacity minus what is held.\<close>

theorem kv_slots_conserved:
  assumes run: "ledger_run kv_alloc kv_release kv_ctl_step es (kv_pool_init n, {#}) = Some (p, held)"
  shows "kv_owned p + held = mset [1..<n + 1]
       \<and> (is_not_in_free_group p \<longrightarrow> kv_available_size p + size held = n)"
proof -
  have c: "kv_owned p + held = mset [1..<n + 1]" using kv.ledger_conserved [OF run] by simp
  have "size (kv_owned p) + size held = n"
    using arg_cong [OF c, of size] by simp
  then have "is_not_in_free_group p \<longrightarrow> kv_available_size p + size held = n"
    by (auto simp: kv_owned_def kv_available_size_def)
  with c show ?thesis by blast
qed

theorem kv_slots_conserved_witness:
  "\<exists>p held. ledger_run kv_alloc kv_release kv_ctl_step [EAlloc 2, EAlloc 9, EFree [1]] (kv_pool_init 3, {#})
       = Some (p, held) \<and> kv_available_size p + size held = 3"
proof -
  have run: "ledger_run kv_alloc kv_release kv_ctl_step [EAlloc 2, EAlloc 9, EFree [1]] (kv_pool_init 3, {#})
    = Some (\<lparr>kv_size = 3, kv_free = [3, 1], is_not_in_free_group = True, is_in_free_group = False,
             free_group = []\<rparr>, {#2#})"
    by (simp add: kv_alloc_def kv_release_def kv_pool_init_def kv_clear_def upt_rec eval_nat_numeral)
  show ?thesis using run kv_slots_conserved [OF run] by auto
qed

text \<open>The same for request slots: an allocation from \<^verbatim>\<open>ReqToTokenPool\<close> after any history of
  allocations, returns, table writes and record exchanges yields distinct row indices below the
  pool size that no live request holds.\<close>

theorem req_slot_alloc_never_aliases:
  assumes run: "ledger_run rp_alloc (\<lambda>xs. rp_release (FreeList xs)) rp_ctl_step es
                  (req_pool_init n m r, {#}) = Some (p, held)"
    and al: "rp_alloc k p = (Some xs, p')"
  shows "length xs = k \<and> distinct xs \<and> set xs \<subseteq> {0..<n}
       \<and> set xs \<inter> set_mset held = {} \<and> set xs \<inter> set (rp_free p') = {}"
proof -
  have "simple_mset (rp_owned (req_pool_init n m r) + {#})"
    by (simp only: rp_owned_init add_0_right simple_mset_distinct distinct_upt)
  note fresh = rp.alloc_fresh [OF this run al]
  have "rp_owned p + held = mset [0..<n]" using rp.ledger_conserved [OF run] by simp
  then have "mset xs \<subseteq># mset [0..<n]"
    using rp.alloc_some [OF al] by (metis mset_subset_eq_add_left add.assoc)
  then have "set xs \<subseteq> {0..<n}" using set_mset_mono by fastforce
  with fresh show ?thesis by (auto simp: rp_owned_def)
qed

theorem req_slot_alloc_never_aliases_witness:
  "\<exists>p held. ledger_run rp_alloc (\<lambda>xs. rp_release (FreeList xs)) rp_ctl_step
       [EAlloc 2, ECtl (RWrite (RowSlice 1 0 2) [7, 8]), EFree [0]] (req_pool_init 3 4 True, {#})
       = Some (p, held)
     \<and> fst (rp_alloc 2 p) = Some [2, 0] \<and> held = {#1#}"
proof -
  let ?es = "[EAlloc 2, ECtl (RWrite (RowSlice 1 0 2) [7, 8]), EFree [0]]"
  have run: "ledger_run rp_alloc (\<lambda>xs. rp_release (FreeList xs)) rp_ctl_step ?es (req_pool_init 3 4 True, {#})
    = Some (\<lparr>rp_size = 3, max_context_len = 4,
             req_to_token = [[0,0,0,0],[7,8,0,0],[0,0,0,0]], rp_free = [2, 0],
             write_records = [(RowSlice 1 0 2, [7, 8])], use_records = True\<rparr>, {#1#})"
    by (simp add: rp_alloc_def req_pool_init_def rp_write_def write_with_records_def bcast_def
        Let_def upt_rec eval_nat_numeral)
  have al: "rp_alloc 2 (\<lparr>rp_size = 3, max_context_len = 4,
             req_to_token = [[0,0,0,0],[7,8,0,0],[0,0,0,0]], rp_free = [2, 0],
             write_records = [(RowSlice 1 0 2, [7, 8])], use_records = True\<rparr>)
    = (Some [2, 0], \<lparr>rp_size = 3, max_context_len = 4,
             req_to_token = [[0,0,0,0],[7,8,0,0],[0,0,0,0]], rp_free = [],
             write_records = [(RowSlice 1 0 2, [7, 8])], use_records = True\<rparr>)"
    by (simp add: rp_alloc_def)
  show ?thesis using run al req_slot_alloc_never_aliases [OF run al] by auto
qed

section \<open>Free groups\<close>

text \<open>A free group is an optimisation only: opening a group, freeing any lists of slots and
  closing it leaves the free list exactly as freeing them one by one would, and while the group is
  open no slot becomes allocatable.\<close>

theorem free_group_equiv:
  assumes "is_not_in_free_group p"
  shows "kv_free (free_group_end (fold kv_release xss (free_group_begin p))) = kv_free (fold kv_release xss p)
       \<and> is_not_in_free_group (free_group_end (fold kv_release xss (free_group_begin p)))
       \<and> kv_free (fold kv_release xss (free_group_begin p)) = kv_free p"
proof -
  have direct: "kv_free (fold kv_release yss q) = kv_free q @ concat yss"
    if "is_not_in_free_group q" for yss q
    using that by (induction yss arbitrary: q) (auto simp: kv_release_def)
  have grouped: "\<not> is_not_in_free_group (fold kv_release yss q)
       \<and> kv_free (fold kv_release yss q) = kv_free q
       \<and> concat (free_group (fold kv_release yss q)) = concat (free_group q) @ concat yss"
    if "\<not> is_not_in_free_group q" for yss q
    using that by (induction yss arbitrary: q) (auto simp: kv_release_def)
  let ?g = "fold kv_release xss (free_group_begin p)"
  have g: "\<not> is_not_in_free_group ?g" "kv_free ?g = kv_free p" "concat (free_group ?g) = concat xss"
    using grouped [of "free_group_begin p" xss] by (auto simp: free_group_begin_def)
  have "free_group ?g = [] \<Longrightarrow> concat xss = []" using g(3) by simp
  then show ?thesis
    using g assms by (auto simp: free_group_end_def Let_def kv_release_def direct)
qed

theorem free_group_equiv_witness:
  "kv_free (free_group_end (fold kv_release [[3], [], [1, 2]] (free_group_begin
      (snd (kv_alloc 3 (kv_pool_init 4)))))) = [4, 3, 1, 2]"
proof -
  let ?p = "snd (kv_alloc 3 (kv_pool_init 4))"
  have p: "is_not_in_free_group ?p" "kv_free ?p = [4]"
    by (simp_all add: kv_alloc_def kv_pool_init_def kv_clear_def upt_rec eval_nat_numeral)
  show ?thesis
    using free_group_equiv [OF p(1), of "[[3], [], [1, 2]]"] p by (simp add: kv_release_def)
qed

text \<open>\<^verbatim>\<open>clear\<close> does not leave an open free group: it writes the attribute
  \<^verbatim>\<open>is_in_free_group\<close>, which no method reads, instead of resetting
  \<^verbatim>\<open>is_not_in_free_group\<close>.  A pool cleared inside a group still withholds every slot freed
  afterwards until the next \<^verbatim>\<open>free_group_end\<close>.\<close>

theorem kv_clear_keeps_group_open:
  "kv_available_size (kv_clear (free_group_begin p)) = kv_size p
   \<and> kv_available_size (kv_release xs (kv_clear (free_group_begin p))) = kv_size p
   \<and> (\<forall>ys. kv_available_size (kv_release xs (snd (kv_alloc (length ys) (kv_clear (free_group_begin p)))))
        = kv_available_size (snd (kv_alloc (length ys) (kv_clear (free_group_begin p)))))"
  by (auto simp: kv_clear_def free_group_begin_def kv_release_def kv_available_size_def kv_alloc_def)

section \<open>Replaying write records\<close>

fun rp_writes :: "(write_index \<times> nat list) list \<Rightarrow> req_pool \<Rightarrow> req_pool res" where
  "rp_writes [] p = Ok p"
| "rp_writes ((idx, vs) # ws) p = rbind (rp_write p idx vs) (rp_writes ws)"

lemma rp_writes_records:
  "use_records p \<Longrightarrow> rp_writes ws p = Ok q
    \<Longrightarrow> write_records q = write_records p @ ws \<and> use_records q"
proof (induction ws p rule: rp_writes.induct)
  case (2 idx vs ws p)
  then obtain p1 where p1: "rp_write p idx vs = Ok p1" "rp_writes ws p1 = Ok q"
    by (auto simp: rbind_eq_Ok)
  with 2(2) have "use_records p1" "write_records p1 = write_records p @ [(idx, vs)]"
    by (auto simp: rp_write_def write_with_records_def rbind_eq_Ok)
  with 2(1) [OF _ p1(2)] show ?case by simp
qed simp

lemma apply_after_writes:
  assumes "rp_writes ws p = Ok q" and "req_to_token r = req_to_token p"
  shows "\<exists>r'. apply_write_records ws r = Ok r' \<and> req_to_token r' = req_to_token q"
  using assms
proof (induction ws p arbitrary: r rule: rp_writes.induct)
  case (2 idx vs ws p)
  then obtain t p1 where t: "table_write (req_to_token p) idx vs = Ok t"
    and p1: "rp_writes ws p1 = Ok q" "req_to_token p1 = t" "rp_write p idx vs = Ok p1"
    by (auto simp: rbind_eq_Ok rp_write_def write_with_records_def write_without_records_def
        split: if_splits)
  from 2(1) [OF p1(1), of "r\<lparr>req_to_token := t\<rparr>"] p1 t 2(3)
  show ?case by simp
qed simp

text \<open>Write records are a complete log: after any successful writes on a recording pool, the
  records taken from it, applied to another pool whose table was equal at the start, succeed and
  give exactly the same table, and the log is empty afterwards.\<close>

theorem write_records_replay:
  assumes "use_records p" and "write_records p = []" and "rp_writes ws p = Ok q"
    and "req_to_token r = req_to_token p"
  shows "fst (get_write_records q) = ws \<and> write_records (snd (get_write_records q)) = []
       \<and> (\<exists>r'. apply_write_records (fst (get_write_records q)) r = Ok r'
              \<and> req_to_token r' = req_to_token q)"
  using rp_writes_records [OF assms(1,3)] apply_after_writes [OF assms(3,4)] assms(2)
  by (simp add: get_write_records_def)

theorem write_records_replay_witness:
  "\<exists>q r'. rp_writes [(RowSlice 0 1 3, [5, 6]), (Points [0, 1] [0, 2], [8, 9])] (req_pool_init 2 3 True) = Ok q
     \<and> apply_write_records (fst (get_write_records q)) (req_pool_init 2 3 False) = Ok r'
     \<and> req_to_token r' = [[8, 5, 6], [0, 0, 9]]"
proof -
  let ?ws = "[(RowSlice 0 1 3, [5, 6]), (Points [0, 1] [0, 2], [8, 9])]"
  let ?q = "\<lparr>rp_size = 2, max_context_len = 3, req_to_token = [[8, 5, 6], [0, 0, 9]],
             rp_free = [0, 1], write_records = ?ws, use_records = True\<rparr>"
  have q: "rp_writes ?ws (req_pool_init 2 3 True) = Ok ?q"
    by (simp add: req_pool_init_def rp_write_def write_with_records_def bcast_def put_point_def
        Let_def upt_rec eval_nat_numeral)
  have "use_records (req_pool_init 2 3 True)" "write_records (req_pool_init 2 3 True) = []"
       "req_to_token (req_pool_init 2 3 False) = req_to_token (req_pool_init 2 3 True)"
    by (simp_all add: req_pool_init_def)
  from write_records_replay [OF this(1,2) q this(3)] q show ?thesis by auto
qed

end
