(* ===== verification/Sampling_Params.thy ===== *)
theory Sampling_Params
imports Prelude
begin

text \<open>
  The per-request sampling parameters (\<^verbatim>\<open>python/sglang/srt/sampling/sampling_params.py\<close>): the
  constructor's normalisation, the range checks of \<^verbatim>\<open>verify\<close> in their order, and
  \<^verbatim>\<open>normalize\<close>, which prepares the stop strings.  Python floats are reals here; strings are
  lists of code points.
\<close>

type_synonym pystr = "nat list"

text \<open>\<^verbatim>\<open>stop\<close> is absent, one string, or a list of strings.\<close>

datatype stop_arg = StopNone | StopStr pystr | StopList "pystr list"

record sampling_params =
  temperature :: real
  top_p :: real
  top_k :: int
  min_p :: real
  frequency_penalty :: real
  presence_penalty :: real
  repetition_penalty :: real
  stop :: stop_arg
  stop_token_ids :: "int list option"
  max_new_tokens :: "int option"
  min_new_tokens :: int
  ignore_eos :: bool
  skip_special_tokens :: bool
  spaces_between_special_tokens :: bool
  regex :: "pystr option"
  json_schema :: "pystr option"
  no_stop_trim :: bool
  n_samples :: int
  stop_str_max_len :: nat

definition SAMPLING_EPS :: real where
  "SAMPLING_EPS = 1 / 1000000"

text \<open>The constructor: \<open>a\<close> holds the arguments as given by the client.\<close>

definition sampling_params_init :: "sampling_params \<Rightarrow> sampling_params" where
  "sampling_params_init a =
     (let p = a\<lparr>stop_token_ids := (if truthy (stop_token_ids a) then stop_token_ids a else None)\<rparr>;
          p = (if temperature p < SAMPLING_EPS then p\<lparr>temperature := 1, top_k := 1\<rparr> else p)
      in (if top_k p = -1 then p\<lparr>top_k := 2 ^ 30\<rparr> else p))"

text \<open>Each \<^verbatim>\<open>raise ValueError\<close> of \<^verbatim>\<open>verify\<close> is told apart by the parameter it names.\<close>

datatype verify_error =
    BadTemperature | BadTopP | BadMinP | BadTopK | BadFrequencyPenalty | BadPresencePenalty
  | BadRepetitionPenalty | BadMinNewTokens | BadMaxNewTokens | MinAboveMax | RegexAndSchema

definition verify :: "sampling_params \<Rightarrow> verify_error + unit" where
  "verify p =
     (if temperature p < 0 then Inl BadTemperature
      else if \<not> (0 < top_p p \<and> top_p p \<le> 1) then Inl BadTopP
      else if \<not> (0 \<le> min_p p \<and> min_p p \<le> 1) then Inl BadMinP
      else if top_k p < -1 \<or> top_k p = 0 then Inl BadTopK
      else if \<not> (-2 \<le> frequency_penalty p \<and> frequency_penalty p \<le> 2) then Inl BadFrequencyPenalty
      else if \<not> (-2 \<le> presence_penalty p \<and> presence_penalty p \<le> 2) then Inl BadPresencePenalty
      else if \<not> (0 \<le> repetition_penalty p \<and> repetition_penalty p \<le> 2) then Inl BadRepetitionPenalty
      else if \<not> (0 \<le> min_new_tokens p) then Inl BadMinNewTokens
      else if (case max_new_tokens p of Some m \<Rightarrow> m < 0 | None \<Rightarrow> False) then Inl BadMaxNewTokens
      else if (case max_new_tokens p of Some m \<Rightarrow> \<not> (min_new_tokens p \<le> m) | None \<Rightarrow> False)
        then Inl MinAboveMax
      else if regex p \<noteq> None \<and> json_schema p \<noteq> None then Inl RegexAndSchema
      else Inr ())"

text \<open>\<^verbatim>\<open>normalize\<close>: the tokenizer is not code of this repository; only its \<^verbatim>\<open>encode\<close> is used,
  as the optional function \<open>enc\<close>.\<close>

definition stop_len :: "(pystr \<Rightarrow> int list) option \<Rightarrow> pystr \<Rightarrow> nat" where
  "stop_len enc s = (case enc of Some f \<Rightarrow> length (f s) | None \<Rightarrow> length s)"

definition normalize :: "(pystr \<Rightarrow> int list) option \<Rightarrow> sampling_params \<Rightarrow> sampling_params" where
  "normalize enc p =
     (case stop p of
        StopNone \<Rightarrow> p\<lparr>stop := StopList [], stop_str_max_len := 0\<rparr>
      | StopStr s \<Rightarrow> p\<lparr>stop := StopList [s], stop_str_max_len := foldl (\<lambda>m t. max m (stop_len enc t)) 0 [s]\<rparr>
      | StopList ss \<Rightarrow> p\<lparr>stop := StopList ss, stop_str_max_len := foldl (\<lambda>m t. max m (stop_len enc t)) 0 ss\<rparr>)"

text \<open>The stop strings after \<^verbatim>\<open>normalize\<close>.\<close>

definition stop_strs :: "sampling_params \<Rightarrow> pystr list" where
  "stop_strs p = (case stop p of StopNone \<Rightarrow> [] | StopStr s \<Rightarrow> [s] | StopList ss \<Rightarrow> ss)"

lemma stop_strs_normalize [simp]: "stop_strs (normalize enc p) = stop_strs p"
  by (simp add: stop_strs_def normalize_def split: stop_arg.splits)

lemma foldl_max_ge: "(m :: nat) \<le> foldl (\<lambda>m t. max m (f t)) m ts"
  by (induction ts arbitrary: m) (auto intro: order_trans [OF max.cobounded1])

lemma foldl_max_bound: "t \<in> set ts \<Longrightarrow> f t \<le> foldl (\<lambda>m t. max m (f t)) m ts" for m :: nat
proof (induction ts arbitrary: m)
  case (Cons u us)
  then show ?case
    using foldl_max_ge [of "max m (f u)" f us] by auto
qed simp

text \<open>\<^verbatim>\<open>normalize\<close> makes the recorded length bound every stop string's token count (its
  character count without a tokenizer), so the decoded tail window covers any stop string.\<close>

theorem normalize_bounds_stops:
  "s \<in> set (stop_strs p) \<Longrightarrow> stop_len enc s \<le> stop_str_max_len (normalize enc p)"
  by (auto simp: normalize_def stop_strs_def foldl_max_bound split: stop_arg.splits)

definition default_params :: sampling_params where
  "default_params =
     \<lparr>temperature = 1, top_p = 1, top_k = -1, min_p = 0, frequency_penalty = 0,
      presence_penalty = 0, repetition_penalty = 1, stop = StopNone, stop_token_ids = None,
      max_new_tokens = Some 128, min_new_tokens = 0, ignore_eos = False,
      skip_special_tokens = True, spaces_between_special_tokens = True, regex = None,
      json_schema = None, no_stop_trim = False, n_samples = 1, stop_str_max_len = 0\<rparr>"

theorem normalize_bounds_stops_witness:
  "stop_len None [65, 66, 67] \<le> stop_str_max_len (normalize None (default_params\<lparr>stop := StopList [[65], [65, 66, 67]]\<rparr>))"
  by (rule normalize_bounds_stops) (simp add: stop_strs_def)

text \<open>The checks that are left after the constructor, stated on the client's arguments.\<close>

definition accepted_args :: "sampling_params \<Rightarrow> bool" where
  "accepted_args a \<longleftrightarrow>
     0 < top_p a \<and> top_p a \<le> 1 \<and> 0 \<le> min_p a \<and> min_p a \<le> 1
   \<and> (temperature a < SAMPLING_EPS \<or> top_k a = -1 \<or> 1 \<le> top_k a)
   \<and> -2 \<le> frequency_penalty a \<and> frequency_penalty a \<le> 2
   \<and> -2 \<le> presence_penalty a \<and> presence_penalty a \<le> 2
   \<and> 0 \<le> repetition_penalty a \<and> repetition_penalty a \<le> 2
   \<and> 0 \<le> min_new_tokens a
   \<and> (\<forall>m. max_new_tokens a = Some m \<longrightarrow> 0 \<le> m \<and> min_new_tokens a \<le> m)
   \<and> (regex a = None \<or> json_schema a = None)"

text \<open>Verification accepts a constructed parameter object exactly when the remaining range
  checks hold for the client's arguments: the constructor has already replaced every temperature
  below the sampling epsilon, negative ones included, by greedy sampling, so the documented
  rejection of a negative temperature never happens (and an invalid \<^verbatim>\<open>top_k\<close> is forgiven with
  it).\<close>

theorem verify_after_init:
  "(verify (sampling_params_init a) = Inr () \<longleftrightarrow> accepted_args a)
   \<and> verify (sampling_params_init a) \<noteq> Inl BadTemperature
   \<and> SAMPLING_EPS \<le> temperature (sampling_params_init a)"
proof -
  let ?p = "sampling_params_init a"
  have t: "SAMPLING_EPS \<le> temperature ?p"
    by (auto simp: sampling_params_init_def Let_def SAMPLING_EPS_def)
  then have t0: "\<not> temperature ?p < 0" by (simp add: SAMPLING_EPS_def)
  have k: "\<not> (top_k ?p < -1 \<or> top_k ?p = 0) \<longleftrightarrow> (temperature a < SAMPLING_EPS \<or> top_k a = -1 \<or> 1 \<le> top_k a)"
    by (auto simp: sampling_params_init_def Let_def)
  have fields: "top_p ?p = top_p a" "min_p ?p = min_p a" "frequency_penalty ?p = frequency_penalty a"
      "presence_penalty ?p = presence_penalty a" "repetition_penalty ?p = repetition_penalty a"
      "min_new_tokens ?p = min_new_tokens a" "max_new_tokens ?p = max_new_tokens a"
      "regex ?p = regex a" "json_schema ?p = json_schema a"
    by (simp_all add: sampling_params_init_def Let_def)
  have "verify ?p = Inr () \<longleftrightarrow> accepted_args a"
    unfolding verify_def accepted_args_def fields using t0 k
    by (cases "max_new_tokens a") auto
  moreover have "verify ?p \<noteq> Inl BadTemperature"
    unfolding verify_def using t0 by (simp split: option.splits)
  ultimately show ?thesis using t by blast
qed

end
