(* ===== verification/Request.thy ===== *)
theory Request
imports Sampling_Params "HOL-Library.Sublist"
begin

text \<open>
  The request object \<^verbatim>\<open>Req\<close> of \<^verbatim>\<open>python/sglang/srt/managers/schedule_batch.py\<close>: prefix
  matching input, the finish test, incremental detokenisation, jump-forward and retraction.

  A tokenizer is not code of the repository: the record \<open>tokenizer\<close> holds the functions and ids the
  code uses of it.  A grammar object is opaque (type variable) and its one operation used here is a
  parameter.  Python objects have an identity, \<open>oid\<close>, which is what \<^verbatim>\<open>is\<close> compares.
\<close>

record tokenizer =
  tk_decode :: "int list \<Rightarrow> pystr"
  tk_decode_opts :: "int list \<Rightarrow> bool \<Rightarrow> bool \<Rightarrow> pystr"
  tk_encode :: "pystr \<Rightarrow> int list"
  eos_token_id :: int
  additional_stop_token_ids :: "int list option"

datatype finish_reason =
    FINISH_MATCHED_TOKEN int
  | FINISH_MATCHED_STR pystr
  | FINISH_LENGTH int
  | FINISH_ABORT

fun is_error :: "finish_reason \<Rightarrow> bool" where
  "is_error FINISH_ABORT = True"
| "is_error _ = False"

text \<open>\<^verbatim>\<open>last_node\<close> is a radix-tree node or an entry of the chunk cache.\<close>

datatype node_ref = RadixNode nat | ChunkEntry string

record 'g req =
  oid :: nat
  rid :: string
  origin_input_text :: "pystr option"
  origin_input_ids_unpadded :: "int list"
  origin_input_ids :: "int list"
  output_ids :: "int list"
  output_ids_len :: int
  fill_ids :: "int list option"
  session_id :: "string option"
  input_embeds :: "real list list option"
  params :: sampling_params
  lora_path :: "string option"
  req_pool_idx :: "nat option"
  tokenizer_of :: "tokenizer option"
  finished_reason :: "finish_reason option"
  to_abort :: bool
  stream :: bool
  vid :: int
  surr_offset :: "int option"
  read_offset :: "int option"
  decoded_text :: pystr
  image_inputs :: "nat option option"
  prefix_indices :: "nat list"
  rebalance_cache_loc :: "nat list option"
  extend_input_len :: int
  last_node :: "node_ref option"
  is_being_chunked :: int
  is_retracted :: bool
  return_logprob :: bool
  logprob_start_len :: int
  top_logprobs_num :: nat
  normalized_prompt_logprob :: "real option"
  input_token_logprobs_val :: "real option list option"
  input_token_logprobs_idx :: "int list option"
  input_top_logprobs_val :: "real list option list option"
  input_top_logprobs_idx :: "int list option list option"
  output_token_logprobs_val :: "real list option"
  output_token_logprobs_idx :: "int list option"
  output_top_logprobs_val :: "real list list option"
  output_top_logprobs_idx :: "int list list option"
  last_update_decode_tokens :: int
  extend_logprob_start_len :: int
  cached_tokens :: int
  grammar :: "'g option"
  enable_overlap :: bool
  pp_is_first_rank :: bool
  delayed :: int
  is_already_freed_overlap :: bool
  pp_idx :: int
  pp_idx_prev :: int
  arrival_time :: real
  start_time :: "real option"
  ttft :: "real option"
  tpot :: "real list"

text \<open>An image is represented by its number of image tokens, the only attribute of it that the
  batches read.  The constructor: \<open>i\<close> is the identity of the new object, \<open>now\<close> the clock, used only when the
  client gave no arrival time.\<close>

definition req_init ::
  "nat \<Rightarrow> real \<Rightarrow> string \<Rightarrow> pystr option \<Rightarrow> int list \<Rightarrow> sampling_params \<Rightarrow> bool \<Rightarrow> nat \<Rightarrow> bool
   \<Rightarrow> int list option \<Rightarrow> string option \<Rightarrow> real list list option \<Rightarrow> string option \<Rightarrow> bool \<Rightarrow> bool
   \<Rightarrow> real option \<Rightarrow> 'g req" where
  "req_init i now r txt ids sp lp topn st unpadded lora embeds session ov first arr =
     \<lparr>oid = i, rid = r, origin_input_text = txt,
      origin_input_ids_unpadded = (if truthy unpadded then opt_list unpadded else ids),
      origin_input_ids = ids, output_ids = [], output_ids_len = 0, fill_ids = None,
      session_id = session, input_embeds = embeds, params = sp, lora_path = lora, req_pool_idx = None, tokenizer_of = None,
      finished_reason = None, to_abort = False, stream = st, vid = 0, surr_offset = None,
      read_offset = None, decoded_text = [],
      image_inputs = None, prefix_indices = [], rebalance_cache_loc = None,
      extend_input_len = 0, last_node = None, is_being_chunked = 0, is_retracted = False,
      return_logprob = lp, logprob_start_len = 0, top_logprobs_num = topn,
      normalized_prompt_logprob = None,
      input_token_logprobs_val = None, input_token_logprobs_idx = None,
      input_top_logprobs_val = None, input_top_logprobs_idx = None,
      output_token_logprobs_val = (if lp then Some [] else None),
      output_token_logprobs_idx = (if lp then Some [] else None),
      output_top_logprobs_val = (if lp then Some [] else None),
      output_top_logprobs_idx = (if lp then Some [] else None),
      last_update_decode_tokens = 0, extend_logprob_start_len = 0, cached_tokens = 0,
      grammar = None, enable_overlap = ov, pp_is_first_rank = first,
      delayed = (if ov \<and> \<not> first then 1 else 0), is_already_freed_overlap = False,
      pp_idx = -1, pp_idx_prev = -1, arrival_time = (case arr of None \<Rightarrow> now | Some a \<Rightarrow> a),
      start_time = None, ttft = None, tpot = []\<rparr>"

text \<open>The scheduler gives every request a token limit before it is queued; \<open>req_max_new\<close> reads it.\<close>

definition req_max_new :: "'g req \<Rightarrow> int" where
  "req_max_new r = (case max_new_tokens (params r) of None \<Rightarrow> 0 | Some m \<Rightarrow> m)"

definition finished :: "'g req \<Rightarrow> bool" where
  "finished r = (if delayed r > 0 then False else finished_reason r \<noteq> None)"

section \<open>Prefix matching input\<close>

definition adjust_max_prefix_ids :: "'g req \<Rightarrow> int list \<times> 'g req" where
  "adjust_max_prefix_ids r0 =
     (let r = r0\<lparr>fill_ids := Some (origin_input_ids r0 @ output_ids r0)\<rparr>;
          input_len = int (length (opt_list (fill_ids r)));
          m = input_len - 1;
          m = (if req_max_new r > 0 then min m (input_len - 1) else m);
          m = (if return_logprob r
               then min (if normalized_prompt_logprob r = None then min m (input_len - 2) else m)
                        (logprob_start_len r)
               else m);
          m = max m 0
      in (py_take (opt_list (fill_ids r)) m, r))"

text \<open>\<open>match_op\<close> is the tree cache's \<^verbatim>\<open>match_prefix\<close>: it may restructure the cache state \<open>c\<close> and
  returns the cached indices and the last node.\<close>

definition init_next_round_input ::
  "(string \<Rightarrow> int list \<Rightarrow> 'c \<Rightarrow> (nat list \<times> node_ref option) \<times> 'c) option \<Rightarrow> 'c \<Rightarrow> 'g req \<Rightarrow> 'g req \<times> 'c" where
  "init_next_round_input match_op c r0 =
     (let r = r0\<lparr>fill_ids := Some (origin_input_ids r0 @ output_ids r0)\<rparr>;
          (r, c) = (case match_op of
             None \<Rightarrow> (r, c)
           | Some mp \<Rightarrow> (let (key, r1) = adjust_max_prefix_ids r; ((pre, nd), c1) = mp (rid r1) key c
                        in (r1\<lparr>prefix_indices := pre, last_node := nd\<rparr>, c1)))
      in (r\<lparr>extend_input_len := int (length (opt_list (fill_ids r))) - int (length (prefix_indices r))\<rparr>, c))"

lemma adjust_max_prefix_ids_fields:
  "snd (adjust_max_prefix_ids r) = r\<lparr>fill_ids := Some (origin_input_ids r @ output_ids r)\<rparr>"
  by (simp add: adjust_max_prefix_ids_def Let_def)

lemma adjust_max_prefix_ids_prefix:
  "\<exists>k \<le> length (origin_input_ids r @ output_ids r) - 1.
     fst (adjust_max_prefix_ids r) = take k (origin_input_ids r @ output_ids r)"
proof -
  let ?ids = "origin_input_ids r @ output_ids r"
  define m where "m = (let input_len = int (length ?ids); m = input_len - 1;
          m = (if req_max_new r > 0 then min m (input_len - 1) else m);
          m = (if return_logprob r
               then min (if normalized_prompt_logprob r = None then min m (input_len - 2) else m)
                        (logprob_start_len r)
               else m) in max m 0)"
  have m: "0 \<le> m" "nat m \<le> length ?ids - 1" by (auto simp: m_def Let_def)
  have "fst (adjust_max_prefix_ids r) = py_take ?ids m"
    by (simp add: adjust_max_prefix_ids_def m_def Let_def req_max_new_def)
  also have "\<dots> = take (nat m) ?ids" by (rule py_take_nonneg [OF m(1)])
  finally show ?thesis using m(2) by blast
qed

lemma init_next_round_core:
  assumes cache: "\<And>k c. length (fst (fst (mp (rid r) k c))) \<le> length k"
    and nonempty: "origin_input_ids r @ output_ids r \<noteq> []"
  shows "let r' = fst (init_next_round_input (Some mp) c r) in
           fill_ids r' = Some (origin_input_ids r @ output_ids r)
         \<and> 1 \<le> extend_input_len r'
         \<and> int (length (prefix_indices r')) + extend_input_len r' = int (length (origin_input_ids r @ output_ids r))"
proof -
  let ?ids = "origin_input_ids r @ output_ids r"
  let ?r0 = "r\<lparr>fill_ids := Some ?ids\<rparr>"
  obtain key r1 where a: "adjust_max_prefix_ids ?r0 = (key, r1)" by fastforce
  have r1: "r1 = ?r0" using adjust_max_prefix_ids_fields [of ?r0] a by simp
  obtain k where k: "k \<le> length ?ids - 1" "key = take k ?ids"
    using adjust_max_prefix_ids_prefix [of ?r0] a by auto
  obtain pre nd c1 where m: "mp (rid r) key c = ((pre, nd), c1)" by (metis prod.exhaust_sel)
  have "length pre \<le> length key" using cache [of key c] m by simp
  then have "length pre < length ?ids" using k nonempty by (cases ?ids) auto
  then show ?thesis
    by (simp add: init_next_round_input_def a r1 m)
qed

section \<open>Finish test\<close>

definition check_finished :: "'g req \<Rightarrow> 'g req res" where
  "check_finished r =
     (if finished_reason r \<noteq> None then Ok (r\<lparr>delayed := delayed r - 1\<rparr>)
      else if to_abort r then Ok (r\<lparr>finished_reason := Some FINISH_ABORT\<rparr>)
      else if int (length (output_ids r)) \<ge> req_max_new r
        then Ok (r\<lparr>finished_reason := Some (FINISH_LENGTH (req_max_new r))\<rparr>)
      else rbind (py_index (output_ids r) 0) (\<lambda>last_token_id.
        let matched_eos = (case stop_token_ids (params r) of
              None \<Rightarrow> False | Some ss \<Rightarrow> ss \<noteq> [] \<and> last_token_id \<in> set ss);
            matched_eos = (case tokenizer_of r of
              None \<Rightarrow> matched_eos
            | Some tk \<Rightarrow> matched_eos \<or> last_token_id = eos_token_id tk
                 \<or> (truthy (additional_stop_token_ids tk)
                    \<and> last_token_id \<in> set (opt_list (additional_stop_token_ids tk))))
        in if matched_eos \<and> \<not> ignore_eos (params r)
           then Ok (r\<lparr>finished_reason := Some (FINISH_MATCHED_TOKEN last_token_id)\<rparr>)
           else if length (stop_strs (params r)) > 0
           then rbind (the_obj (tokenizer_of r)) (\<lambda>tk.
                let tail_str = tk_decode tk (py_drop (output_ids r) (- (int (stop_str_max_len (params r)) + 1)))
                in (case find (\<lambda>s. sublist s tail_str \<or> sublist s (decoded_text r)) (stop_strs (params r)) of
                      None \<Rightarrow> Ok r
                    | Some s \<Rightarrow> Ok (r\<lparr>finished_reason := Some (FINISH_MATCHED_STR s)\<rparr>)))
           else Ok r))"

text \<open>The token the finish test compares with the stop tokens.\<close>

definition stops_on :: "'g req \<Rightarrow> int \<Rightarrow> bool" where
  "stops_on r t \<longleftrightarrow>
     \<not> ignore_eos (params r)
   \<and> (t \<in> set (opt_list (stop_token_ids (params r)))
      \<or> (\<exists>tk. tokenizer_of r = Some tk
            \<and> (t = eos_token_id tk \<or> t \<in> set (opt_list (additional_stop_token_ids tk)))))"

lemma truthy_member: "truthy xs \<and> t \<in> set (opt_list xs) \<longleftrightarrow> t \<in> set (opt_list xs)"
  by (auto simp: truthy_def split: option.splits)

lemma matched_eos_eq:
  "((case tokenizer_of r of
       None \<Rightarrow> (case stop_token_ids (params r) of None \<Rightarrow> False | Some ss \<Rightarrow> ss \<noteq> [] \<and> t \<in> set ss)
     | Some tk \<Rightarrow> (case stop_token_ids (params r) of None \<Rightarrow> False | Some ss \<Rightarrow> ss \<noteq> [] \<and> t \<in> set ss)
          \<or> t = eos_token_id tk
          \<or> (truthy (additional_stop_token_ids tk) \<and> t \<in> set (opt_list (additional_stop_token_ids tk))))
    \<and> \<not> ignore_eos (params r)) \<longleftrightarrow> stops_on r t"
  unfolding stops_on_def truthy_member
  by (auto split: option.splits)

text \<open>The finish test, branch by branch, for a live request without stop strings that has
  produced at least one token: it finishes by abort first, then by length, then exactly when its
  \<^emph>\<open>first\<close> output token is a stop token, and is otherwise unchanged.\<close>

theorem check_finished_cases:
  assumes "finished_reason r = None" and "output_ids r = t # ts" and "stop_strs (params r) = []"
  shows "check_finished r = Ok (r\<lparr>finished_reason :=
      (if to_abort r then Some FINISH_ABORT
       else if int (length (t # ts)) \<ge> req_max_new r then Some (FINISH_LENGTH (req_max_new r))
       else if stops_on r t then Some (FINISH_MATCHED_TOKEN t) else None)\<rparr>)"
  unfolding check_finished_def Let_def
  using assms by (simp add: matched_eos_eq py_index_def)

definition demo_tokenizer :: tokenizer where
  "demo_tokenizer = \<lparr>tk_decode = map nat, tk_decode_opts = (\<lambda>ids _ _. map nat ids),
     tk_encode = map int, eos_token_id = 2, additional_stop_token_ids = None\<rparr>"

definition demo_req :: "unit req" where
  "demo_req = (req_init 1 0 ''a'' None [10, 11] default_params False 0 False None None None None False True None)
     \<lparr>tokenizer_of := Some demo_tokenizer\<rparr>"

lemmas demo_defs = demo_req_def req_init_def demo_tokenizer_def default_params_def truthy_def

theorem check_finished_cases_witness:
  "check_finished (demo_req\<lparr>output_ids := [5, 2]\<rparr>) = Ok (demo_req\<lparr>output_ids := [5, 2]\<rparr>)
   \<and> check_finished (demo_req\<lparr>output_ids := [2]\<rparr>)
     = Ok (demo_req\<lparr>output_ids := [2], finished_reason := Some (FINISH_MATCHED_TOKEN 2)\<rparr>)"
proof -
  have p: "finished_reason (demo_req\<lparr>output_ids := ids\<rparr>) = None"
      "stop_strs (params (demo_req\<lparr>output_ids := ids\<rparr>)) = []" for ids
    by (simp_all add: demo_defs stop_strs_def)
  show ?thesis
    using check_finished_cases [OF p(1) _ p(2), of "[5, 2]" 5 "[2]"]
      check_finished_cases [OF p(1) _ p(2), of "[2]" 2 "[]"]
    by (simp add: demo_defs stops_on_def req_max_new_def)
qed

text \<open>Consequence: an end-of-sequence token generated after the first position is not
  recognised.  Whatever tokens follow a first token that is no stop token, even when the newest one
  is the end-of-sequence token, the request stays unfinished until the length limit.\<close>

theorem eos_after_first_token_ignored:
  assumes "finished_reason r = None" and "\<not> to_abort r" and "stop_strs (params r) = []"
    and "\<not> stops_on r t" and "int (length ts) + 2 < req_max_new r"
    and "tokenizer_of r = Some tk"
  shows "check_finished (r\<lparr>output_ids := t # ts @ [eos_token_id tk]\<rparr>)
         = Ok (r\<lparr>output_ids := t # ts @ [eos_token_id tk]\<rparr>)"
proof -
  let ?r = "r\<lparr>output_ids := t # ts @ [eos_token_id tk]\<rparr>"
  have "stops_on ?r t = stops_on r t" by (simp add: stops_on_def)
  moreover have "req_max_new ?r = req_max_new r" by (simp add: req_max_new_def)
  ultimately show ?thesis
    using check_finished_cases [of ?r t "ts @ [eos_token_id tk]"] assms by simp
qed

theorem eos_after_first_token_ignored_witness:
  "check_finished (demo_req\<lparr>output_ids := [5, 6, 2]\<rparr>) = Ok (demo_req\<lparr>output_ids := [5, 6, 2]\<rparr>)
   \<and> \<not> finished (demo_req\<lparr>output_ids := [5, 6, 2]\<rparr>)"
proof -
  have "check_finished (demo_req\<lparr>output_ids := 5 # [6] @ [eos_token_id demo_tokenizer]\<rparr>)
      = Ok (demo_req\<lparr>output_ids := 5 # [6] @ [eos_token_id demo_tokenizer]\<rparr>)"
    by (rule eos_after_first_token_ignored)
      (simp_all add: demo_defs stops_on_def stop_strs_def req_max_new_def)
  then show ?thesis by (simp add: demo_defs finished_def)
qed

text \<open>Once a reason is recorded it never changes; each further test only counts down the delay.\<close>

lemma check_finished_stable:
  "finished_reason r = Some f \<Longrightarrow> check_finished r = Ok (r\<lparr>delayed := delayed r - 1\<rparr>)"
  by (simp add: check_finished_def)

section \<open>Incremental detokenisation\<close>

definition INIT_INCREMENTAL_DETOKENIZATION_OFFSET :: int where
  "INIT_INCREMENTAL_DETOKENIZATION_OFFSET = 5"

definition init_incremental_detokenize :: "'g req \<Rightarrow> (int list \<times> int) \<times> 'g req" where
  "init_incremental_detokenize r0 =
     (let first_iter = (surr_offset r0 = None \<or> read_offset r0 = None);
          ro = int (length (origin_input_ids_unpadded r0));
          r = (if first_iter
               then r0\<lparr>read_offset := Some ro,
                       surr_offset := Some (max (ro - INIT_INCREMENTAL_DETOKENIZATION_OFFSET) 0)\<rparr>
               else r0);
          all_ids = origin_input_ids_unpadded r @ output_ids r;
          so = (case surr_offset r of None \<Rightarrow> 0 | Some s \<Rightarrow> s);
          ro' = (case read_offset r of None \<Rightarrow> 0 | Some s \<Rightarrow> s)
      in ((py_drop all_ids so, ro' - so), r))"

definition REPLACEMENT_CHAR :: nat where
  "REPLACEMENT_CHAR = 65533"

definition ends_with_replacement :: "pystr \<Rightarrow> bool" where
  "ends_with_replacement s = (s \<noteq> [] \<and> last s = REPLACEMENT_CHAR)"

definition get_next_inc_detokenization :: "'g req \<Rightarrow> (bool \<times> pystr) \<times> 'g req" where
  "get_next_inc_detokenization r =
     (case tokenizer_of r of
        None \<Rightarrow> ((False, []), r)
      | Some tk \<Rightarrow>
          (let ((read_ids, ro), r1) = init_incremental_detokenize r;
               surr_ids = py_take read_ids ro;
               dec = (\<lambda>ids. tk_decode_opts tk ids (skip_special_tokens (params r1))
                              (spaces_between_special_tokens (params r1)));
               surr_text = dec surr_ids;
               new_text = dec read_ids
           in if length new_text > length surr_text \<and> \<not> ends_with_replacement new_text
              then ((True, drop (length surr_text) new_text), r1)
              else ((False, []), r1)))"

text \<open>Offsets of a request whose detokenisation has begun stay inside its token sequence.\<close>

definition detok_wf :: "'g req \<Rightarrow> bool" where
  "detok_wf r \<longleftrightarrow>
     (case (surr_offset r, read_offset r) of
        (Some s, Some e) \<Rightarrow> 0 \<le> s \<and> s \<le> e \<and> e \<le> int (length (origin_input_ids_unpadded r @ output_ids r))
      | _ \<Rightarrow> True)"

text \<open>The incremental detokenisation window is well placed: starting from offsets inside the
  token sequence (or none yet), the surrounding ids returned to the decoder are a prefix of the
  read ids, the read ids end with the newest token, and everything before them is exactly the
  already finished part.\<close>

theorem detok_window:
  assumes "detok_wf r"
  shows "let ((read_ids, ro), r') = init_incremental_detokenize r in
           detok_wf r' \<and> 0 \<le> ro \<and> nat ro \<le> length read_ids
         \<and> (\<exists>s. surr_offset r' = Some s
              \<and> take (nat s) (origin_input_ids_unpadded r @ output_ids r) @ read_ids
                = origin_input_ids_unpadded r @ output_ids r
              \<and> read_offset r' = Some (s + ro))"
  using assms
  by (auto simp: init_incremental_detokenize_def Let_def detok_wf_def py_drop_nonneg
      INIT_INCREMENTAL_DETOKENIZATION_OFFSET_def simp del: drop_append take_append
      split: option.splits)

theorem detok_window_witness:
  "fst (init_incremental_detokenize (demo_req\<lparr>output_ids := [7, 8]\<rparr>)) = ([10, 11, 7, 8], 2)"
proof -
  have "detok_wf (demo_req\<lparr>output_ids := [7, 8]\<rparr>)" by (simp add: detok_wf_def demo_defs)
  from detok_window [OF this] show ?thesis
    by (simp add: init_incremental_detokenize_def Let_def demo_defs
        INIT_INCREMENTAL_DETOKENIZATION_OFFSET_def py_drop_def py_bound_def)
qed

section \<open>Jump-forward and retraction\<close>

text \<open>The length of the common prefix of the old and the new output ids, as the loop counts it; the
  loop reads the new ids by index and raises when they run out first.\<close>

fun common_len :: "int list \<Rightarrow> int list \<Rightarrow> nat res" where
  "common_len [] _ = Ok 0"
| "common_len (x # xs) [] = Err IndexError"
| "common_len (x # xs) (y # ys) =
     (if x = y then rbind (common_len xs ys) (\<lambda>k. Ok (Suc k)) else Ok 0)"

text \<open>\<open>jump_op\<close> is the grammar object's \<^verbatim>\<open>jump_and_retokenize\<close>.\<close>

definition retokenize_surr :: "tokenizer \<Rightarrow> int list \<Rightarrow> int \<Rightarrow> int" where
  "retokenize_surr tk all_ids ro =
     (case find (\<lambda>i. \<not> ends_with_replacement (tk_decode tk (py_slice all_ids (ro - i) ro)))
             [0, 1, 2, 3, 4 :: int] of
        None \<Rightarrow> -1 | Some i \<Rightarrow> i)"

definition jump_forward_and_retokenize ::
  "('g \<Rightarrow> int list \<Rightarrow> int list \<Rightarrow> 's \<Rightarrow> 'g) \<Rightarrow> 'g req \<Rightarrow> pystr \<Rightarrow> 's \<Rightarrow> (bool \<times> 'g req) res" where
  "jump_forward_and_retokenize jump_op r0 jump_str next_state =
     rbind (the_obj (tokenizer_of r0)) (\<lambda>tk.
     let r = (case origin_input_text r0 of
                None \<Rightarrow> r0\<lparr>origin_input_text := Some (tk_decode tk (origin_input_ids_unpadded r0))\<rparr>
              | Some _ \<Rightarrow> r0);
         all_text = opt_list (origin_input_text r) @ decoded_text r @ jump_str;
         all_ids = tk_encode tk all_text
     in if all_ids = [] then Ok (False, r)
     else let prompt_tokens = length (origin_input_ids_unpadded r) in
     if prompt_tokens > length all_ids then Ok (False, r)
     else rbind (py_index all_ids (int prompt_tokens - 1)) (\<lambda>a.
          rbind (py_index (origin_input_ids_unpadded r) (-1)) (\<lambda>b.
     if a \<noteq> b then Ok (False, r)
     else let old_output_ids = output_ids r;
         r = r\<lparr>output_ids := drop prompt_tokens all_ids, decoded_text := decoded_text r @ jump_str,
               surr_offset := Some (int prompt_tokens), read_offset := Some (int (length all_ids))\<rparr>;
         i = retokenize_surr tk all_ids (int (length all_ids));
         r = (if i \<ge> 0 then r\<lparr>surr_offset := Some (int (length all_ids) - i)\<rparr> else r)
     in rbind (the_obj (grammar r)) (\<lambda>g.
        let r = r\<lparr>grammar := Some (jump_op g old_output_ids (output_ids r) next_state)\<rparr>
        in if return_logprob r
           then rbind (common_len old_output_ids (output_ids r)) (\<lambda>k.
                Ok (True, r\<lparr>output_token_logprobs_val := map_option (take k) (output_token_logprobs_val r),
                           output_token_logprobs_idx := map_option (take k) (output_token_logprobs_idx r),
                           output_top_logprobs_val := map_option (take k) (output_top_logprobs_val r),
                           output_top_logprobs_idx := map_option (take k) (output_top_logprobs_idx r),
                           logprob_start_len := int prompt_tokens + int k,
                           last_update_decode_tokens := int (length (output_ids r)) - int k\<rparr>))
           else Ok (True, r)))))"

definition reset_for_retract :: "'g req \<Rightarrow> 'g req" where
  "reset_for_retract r =
     (let r = r\<lparr>prefix_indices := [], last_node := None, extend_input_len := 0\<rparr>;
          r = (if enable_overlap r \<and> \<not> pp_is_first_rank r then r\<lparr>is_retracted := True\<rparr> else r)
      in r\<lparr>last_update_decode_tokens := 0, logprob_start_len := 10 ^ 9\<rparr>)"

lemma common_len_take:
  "common_len xs ys = Ok k \<Longrightarrow> take k xs = take k ys \<and> k \<le> length xs \<and> k \<le> length ys"
  by (induction xs ys arbitrary: k rule: common_len.induct)
    (auto simp: rbind_eq_Ok split: if_splits)

end
