(* ===== verification/Penalizers.thy ===== *)
theory Penalizers
imports Request
begin

text \<open>
  The batched penalizers (\<^verbatim>\<open>python/sglang/srt/sampling/penaltylib\<close>): the orchestrator and its
  four penalizers.  A penalizer's tensors have one row per request of the batch; a row is a value
  of \<open>row\<close>, and an unprepared penalizer has no rows.  The orchestrator's \<^verbatim>\<open>reqs()\<close> reads the
  batch it was built for, so the requests are an argument of the operations that use it.
\<close>

section \<open>Logits\<close>

text \<open>A logit is a float32: finite, infinite or not a number; arithmetic on finite values is exact.\<close>

datatype logit = Fin real | NegInf | PosInf | NaN

fun sub_real :: "logit \<Rightarrow> real \<Rightarrow> logit" where
  "sub_real (Fin x) c = Fin (x - c)"
| "sub_real l c = l"

fun add_neg_inf :: "logit \<Rightarrow> logit" where
  "add_neg_inf (Fin x) = NegInf"
| "add_neg_inf NegInf = NegInf"
| "add_neg_inf PosInf = NaN"
| "add_neg_inf NaN = NaN"

fun scale_logit :: "real \<Rightarrow> logit \<Rightarrow> logit" where
  "scale_logit c (Fin x) =
     (if x > 0 then (if c = 0 then PosInf else Fin (x / c)) else Fin (x * c))"
| "scale_logit c PosInf = (if c \<ge> 0 then PosInf else NegInf)"
| "scale_logit c NegInf = (if c > 0 then NegInf else if c = 0 then NaN else PosInf)"
| "scale_logit c NaN = NaN"

section \<open>Rows\<close>

datatype pen_kind = FrequencyP | MinNewTokensP | PresenceP | RepetitionP

datatype row =
    FreqRow real "real list"
  | MinRow int "bool list" int
  | PresRow real "real list"
  | RepRow real "real list"

definition freq_needs :: "'g req \<Rightarrow> bool" where
  [simp]: "freq_needs r = (frequency_penalty (params r) \<noteq> 0)"

definition min_needs :: "'g req \<Rightarrow> bool" where
  [simp]: "min_needs r = (min_new_tokens (params r) > 0)"

definition pres_needs :: "'g req \<Rightarrow> bool" where
  [simp]: "pres_needs r = (presence_penalty (params r) \<noteq> 0)"

definition rep_needs :: "'g req \<Rightarrow> bool" where
  [simp]: "rep_needs r = (repetition_penalty (params r) \<noteq> 1)"

fun needs :: "pen_kind \<Rightarrow> 'g req \<Rightarrow> bool" where
  "needs FrequencyP r = freq_needs r"
| "needs MinNewTokensP r = min_needs r"
| "needs PresenceP r = pres_needs r"
| "needs RepetitionP r = rep_needs r"

definition is_required :: "pen_kind \<Rightarrow> 'g req list \<Rightarrow> bool" where
  "is_required k reqs = list_ex (needs k) reqs"

text \<open>The token ids index the vocabulary plus the padding column; others raise in
  \<^verbatim>\<open>scatter_add_\<close>.\<close>

definition ids_in_range :: "nat \<Rightarrow> int list \<Rightarrow> bool" where
  "ids_in_range vocab ids = list_all (\<lambda>i. 0 \<le> i \<and> i \<le> int vocab) ids"

definition occurrence_count :: "nat \<Rightarrow> int list \<Rightarrow> nat list res" where
  "occurrence_count vocab ids =
     (if ids_in_range vocab ids then Ok (map (\<lambda>v. count_list ids (int v)) [0..<vocab])
      else Err RuntimeError)"

definition all_stop_ids :: "'g req \<Rightarrow> int list res" where
  "all_stop_ids r =
     rbind (the_obj (tokenizer_of r)) (\<lambda>tk.
       Ok (opt_list (stop_token_ids (params r)) @ opt_list (additional_stop_token_ids tk)
           @ [eos_token_id tk]))"

definition freq_prepare :: "nat \<Rightarrow> 'g req \<Rightarrow> row" where
  [simp]: "freq_prepare vocab r = FreqRow (frequency_penalty (params r)) (replicate vocab 0)"

definition min_prepare :: "nat \<Rightarrow> 'g req \<Rightarrow> row res" where
  [simp]: "min_prepare vocab r =
     rbind (all_stop_ids r) (\<lambda>ids.
       if ids_in_range vocab ids
       then Ok (MinRow (min_new_tokens (params r)) (map (\<lambda>v. int v \<in> set ids) [0..<vocab]) 0)
       else Err RuntimeError)"

definition pres_prepare :: "nat \<Rightarrow> 'g req \<Rightarrow> row" where
  [simp]: "pres_prepare vocab r = PresRow (presence_penalty (params r)) (replicate vocab 0)"

definition rep_prepare :: "nat \<Rightarrow> 'g req \<Rightarrow> row" where
  [simp]: "rep_prepare vocab r = RepRow (repetition_penalty (params r)) (replicate vocab 1)"

fun prepare_row :: "nat \<Rightarrow> pen_kind \<Rightarrow> 'g req \<Rightarrow> row res" where
  "prepare_row vocab FrequencyP r = Ok (freq_prepare vocab r)"
| "prepare_row vocab MinNewTokensP r = min_prepare vocab r"
| "prepare_row vocab PresenceP r = Ok (pres_prepare vocab r)"
| "prepare_row vocab RepetitionP r = Ok (rep_prepare vocab r)"

text \<open>One row's share of \<^verbatim>\<open>_cumulate_input_tokens\<close>, \<^verbatim>\<open>_cumulate_output_tokens\<close> and
  \<^verbatim>\<open>_apply\<close> of each class; \<open>occ\<close> is the row of the occurrence counts.  Where a token occurs, the
  presence and repetition penalizers overwrite the cumulated entry; the frequency penalizer adds.\<close>

definition overwrite_seen :: "real \<Rightarrow> nat list \<Rightarrow> real list \<Rightarrow> real list" where
  [simp]: "overwrite_seen p occ c = map2 (\<lambda>x n. if n > 0 then p else x) c occ"

definition freq_cum_output :: "nat list \<Rightarrow> real \<Rightarrow> real list \<Rightarrow> row" where
  [simp]: "freq_cum_output occ p c = FreqRow p (map2 (\<lambda>x n. x + p * real n) c occ)"

definition min_cum_output :: "int \<Rightarrow> bool list \<Rightarrow> int \<Rightarrow> row" where
  [simp]: "min_cum_output m s l = MinRow m s (l + 1)"

definition pres_cum_output :: "nat list \<Rightarrow> real \<Rightarrow> real list \<Rightarrow> row" where
  [simp]: "pres_cum_output occ p c = PresRow p (overwrite_seen p occ c)"

definition rep_cum_input :: "nat list \<Rightarrow> real \<Rightarrow> real list \<Rightarrow> row" where
  [simp]: "rep_cum_input occ p c = RepRow p (overwrite_seen p occ c)"

definition rep_cum_output :: "nat list \<Rightarrow> real \<Rightarrow> real list \<Rightarrow> row" where
  [simp]: "rep_cum_output occ p c = RepRow p (overwrite_seen p occ c)"

fun cum_input_row :: "nat list \<Rightarrow> row \<Rightarrow> row" where
  "cum_input_row occ (RepRow p c) = rep_cum_input occ p c"
| "cum_input_row occ rw = rw"

fun cum_output_row :: "nat list \<Rightarrow> row \<Rightarrow> row" where
  "cum_output_row occ (FreqRow p c) = freq_cum_output occ p c"
| "cum_output_row occ (MinRow m s l) = min_cum_output m s l"
| "cum_output_row occ (PresRow p c) = pres_cum_output occ p c"
| "cum_output_row occ (RepRow p c) = rep_cum_output occ p c"

definition freq_apply :: "real list \<Rightarrow> logit list \<Rightarrow> logit list" where
  [simp]: "freq_apply c ls = map2 sub_real ls c"

definition min_apply :: "int \<Rightarrow> bool list \<Rightarrow> int \<Rightarrow> logit list \<Rightarrow> logit list" where
  [simp]: "min_apply m s l ls =
     (if l < m then map2 (\<lambda>x b. if b then add_neg_inf x else x) ls s else ls)"

definition pres_apply :: "real list \<Rightarrow> logit list \<Rightarrow> logit list" where
  [simp]: "pres_apply c ls = map2 sub_real ls c"

definition rep_apply :: "real list \<Rightarrow> logit list \<Rightarrow> logit list" where
  [simp]: "rep_apply c ls = map2 (\<lambda>x k. scale_logit k x) ls c"

fun apply_row :: "row \<Rightarrow> logit list \<Rightarrow> logit list" where
  "apply_row (FreqRow p c) ls = freq_apply c ls"
| "apply_row (MinRow m s l) ls = min_apply m s l ls"
| "apply_row (PresRow p c) ls = pres_apply c ls"
| "apply_row (RepRow p c) ls = rep_apply c ls"

section \<open>Penalizers\<close>

record penalizer =
  pk :: pen_kind
  rows :: "row list option"

definition is_prepared :: "penalizer \<Rightarrow> bool" where
  "is_prepared p = (rows p \<noteq> None)"

definition prepare :: "nat \<Rightarrow> 'g req list \<Rightarrow> penalizer \<Rightarrow> penalizer res" where
  "prepare vocab reqs p =
     (if is_prepared p then Ok p
      else rbind (mapR (prepare_row vocab (pk p)) reqs) (\<lambda>rs. Ok (p\<lparr>rows := Some rs\<rparr>)))"

definition prepare_if_required :: "nat \<Rightarrow> 'g req list \<Rightarrow> penalizer \<Rightarrow> (bool \<times> penalizer) res" where
  "prepare_if_required vocab reqs p =
     (if is_required (pk p) reqs then rbind (prepare vocab reqs p) (\<lambda>q. Ok (True, q))
      else Ok (False, p))"

definition teardown :: "penalizer \<Rightarrow> penalizer" where
  "teardown p = (if is_prepared p then p\<lparr>rows := None\<rparr> else p)"

definition pen_apply :: "penalizer \<Rightarrow> logit list list \<Rightarrow> logit list list" where
  "pen_apply p ls = (case rows p of None \<Rightarrow> ls | Some rs \<Rightarrow> map2 apply_row rs ls)"

definition pen_filter :: "nat list \<Rightarrow> penalizer \<Rightarrow> penalizer res" where
  "pen_filter js p = rbind (gather_opt (rows p) js) (\<lambda>rs. Ok (p\<lparr>rows := rs\<rparr>))"

definition pen_merge :: "nat \<Rightarrow> 'g req list \<Rightarrow> 'g req list \<Rightarrow> penalizer \<Rightarrow> penalizer \<Rightarrow> penalizer res" where
  "pen_merge vocab reqs their_reqs p their =
     (if \<not> is_prepared p \<and> \<not> is_prepared their then Ok p
      else rbind (prepare vocab reqs p) (\<lambda>p. rbind (prepare vocab their_reqs their) (\<lambda>their.
           Ok (p\<lparr>rows := Some (opt_list (rows p) @ opt_list (rows their))\<rparr>))))"

definition pen_cum_input :: "nat list list \<Rightarrow> penalizer \<Rightarrow> penalizer" where
  "pen_cum_input occs p = (case rows p of None \<Rightarrow> p | Some rs \<Rightarrow> p\<lparr>rows := Some (map2 cum_input_row occs rs)\<rparr>)"

definition pen_cum_output :: "nat list list \<Rightarrow> penalizer \<Rightarrow> penalizer" where
  "pen_cum_output occs p = (case rows p of None \<Rightarrow> p | Some rs \<Rightarrow> p\<lparr>rows := Some (map2 cum_output_row occs rs)\<rparr>)"

section \<open>The orchestrator\<close>

text \<open>\<open>o_penalizers\<close> is the dictionary in insertion order, one penalizer per class.\<close>

record orchestrator =
  o_vocab :: nat
  o_penalizers :: "penalizer list"
  o_required :: bool

text \<open>The counts are computed when a prepared penalizer asks for them, and then once.\<close>

fun uses_input_counts :: "pen_kind \<Rightarrow> bool" where
  "uses_input_counts k = (k = RepetitionP)"

fun uses_output_counts :: "pen_kind \<Rightarrow> bool" where
  "uses_output_counts k = (k \<noteq> MinNewTokensP)"

definition counted :: "(pen_kind \<Rightarrow> bool) \<Rightarrow> penalizer list \<Rightarrow> bool" where
  "counted uses ps = list_ex (\<lambda>p. is_prepared p \<and> uses (pk p)) ps"

definition input_counts :: "orchestrator \<Rightarrow> int list list \<Rightarrow> nat list list res" where
  "input_counts orc ids =
     (if counted uses_input_counts (o_penalizers orc) then mapR (occurrence_count (o_vocab orc)) ids
      else Ok (map (\<lambda>_. replicate (o_vocab orc) 0) ids))"

definition cumulate_input_tokens :: "orchestrator \<Rightarrow> int list list \<Rightarrow> orchestrator res" where
  "cumulate_input_tokens orc ids =
     rbind (input_counts orc ids) (\<lambda>occs.
       Ok (orc\<lparr>o_penalizers := map (pen_cum_input occs) (o_penalizers orc)\<rparr>))"

definition orchestrator_init :: "nat \<Rightarrow> 'g req list \<Rightarrow> pen_kind list \<Rightarrow> orchestrator res" where
  "orchestrator_init vocab reqs kinds =
     rbind (mapR (\<lambda>k. prepare_if_required vocab reqs \<lparr>pk = k, rows = None\<rparr>) kinds) (\<lambda>ps.
       let orc = \<lparr>o_vocab = vocab, o_penalizers = map snd ps, o_required = list_ex fst ps\<rparr>
       in if o_required orc then cumulate_input_tokens orc (map origin_input_ids reqs) else Ok orc)"

text \<open>Output tokens are one id per request: the occurrence row of a request is 1 at its token, a
  negative id counting from the end; requests past the end of the ids have no occurrence.\<close>

definition output_occurrence :: "nat \<Rightarrow> int \<Rightarrow> nat list res" where
  "output_occurrence vocab t =
     (let u = (if t < 0 then int vocab + t else t)
      in if 0 \<le> u \<and> u < int vocab then Ok ((replicate vocab 0)[nat u := 1]) else Err IndexError)"

definition output_counts :: "orchestrator \<Rightarrow> nat \<Rightarrow> int list \<Rightarrow> nat list list res" where
  "output_counts orc n ts =
     (if \<not> counted uses_output_counts (o_penalizers orc)
      then Ok (replicate n (replicate (o_vocab orc) 0))
      else if length ts > n then Err IndexError
      else rbind (mapR (output_occurrence (o_vocab orc)) ts) (\<lambda>occs.
             Ok (occs @ replicate (n - length ts) (replicate (o_vocab orc) 0))))"

definition cumulate_output_tokens :: "orchestrator \<Rightarrow> 'g req list \<Rightarrow> int list \<Rightarrow> orchestrator res" where
  "cumulate_output_tokens orc reqs ts =
     (if \<not> o_required orc then Ok orc
      else rbind (output_counts orc (length reqs) ts) (\<lambda>occs.
             Ok (orc\<lparr>o_penalizers := map (pen_cum_output occs) (o_penalizers orc)\<rparr>)))"

text \<open>\<^verbatim>\<open>apply\<close> returns \<^verbatim>\<open>None\<close> when no penalizer is required.\<close>

definition orc_apply :: "orchestrator \<Rightarrow> logit list list \<Rightarrow> logit list list option" where
  "orc_apply orc ls = (if \<not> o_required orc then None else Some (fold pen_apply (o_penalizers orc) ls))"

text \<open>\<^verbatim>\<open>filter\<close>: \<open>reqs\<close> are the requests the batch holds by then, that is the kept ones.\<close>

definition filter_one :: "'g req list \<Rightarrow> nat list \<Rightarrow> penalizer \<Rightarrow> penalizer res" where
  "filter_one reqs js p =
     (if \<not> is_required (pk p) reqs \<or> js = [] then Ok (teardown p) else pen_filter js p)"

definition orc_filter :: "'g req list \<Rightarrow> nat list \<Rightarrow> orchestrator \<Rightarrow> orchestrator res" where
  "orc_filter reqs js orc =
     (if \<not> o_required orc then Ok orc
      else rbind (mapR (filter_one reqs js) (o_penalizers orc)) (\<lambda>ps.
             Ok (orc\<lparr>o_penalizers := ps,
                     o_required := list_ex (\<lambda>p. is_required (pk p) reqs) (o_penalizers orc)\<rparr>)))"

fun find_pen :: "pen_kind \<Rightarrow> penalizer list \<Rightarrow> penalizer option" where
  "find_pen k [] = None"
| "find_pen k (p # ps) = (if pk p = k then Some p else find_pen k ps)"

fun put_pen :: "penalizer \<Rightarrow> penalizer list \<Rightarrow> penalizer list" where
  "put_pen q [] = []"
| "put_pen q (p # ps) = (if pk p = pk q then q # ps else p # put_pen q ps)"

definition merge_one ::
  "'g req list \<Rightarrow> 'g req list \<Rightarrow> penalizer \<Rightarrow> orchestrator \<Rightarrow> orchestrator res" where
  "merge_one reqs their_reqs their orc =
     (case find_pen (pk their) (o_penalizers orc) of
        None \<Rightarrow> Err ValueError
      | Some p \<Rightarrow> rbind (pen_merge (o_vocab orc) reqs their_reqs p their) (\<lambda>q.
          Ok (orc\<lparr>o_penalizers := put_pen q (o_penalizers orc)\<rparr>)))"

definition orc_merge :: "'g req list \<Rightarrow> 'g req list \<Rightarrow> orchestrator \<Rightarrow> orchestrator \<Rightarrow> orchestrator res" where
  "orc_merge reqs their_reqs orc their =
     (if \<not> o_required orc \<and> \<not> o_required their then Ok orc
      else foldR (merge_one reqs their_reqs) (o_penalizers their)
             (orc\<lparr>o_required := o_required orc \<or> o_required their\<rparr>))"

section \<open>Well-formed penalizers\<close>

text \<open>A row belongs to a request: it carries the request's own parameter, covers the vocabulary, and
  has no effect when the request does not need the penalizer.\<close>

fun row_ok :: "nat \<Rightarrow> pen_kind \<Rightarrow> 'g req \<Rightarrow> row \<Rightarrow> bool" where
  "row_ok vocab FrequencyP r (FreqRow p c) =
     (p = frequency_penalty (params r) \<and> length c = vocab \<and> (p = 0 \<longrightarrow> c = replicate vocab 0))"
| "row_ok vocab MinNewTokensP r (MinRow m s l) =
     (m = min_new_tokens (params r) \<and> length s = vocab \<and> 0 \<le> l)"
| "row_ok vocab PresenceP r (PresRow p c) =
     (p = presence_penalty (params r) \<and> length c = vocab \<and> (p = 0 \<longrightarrow> c = replicate vocab 0))"
| "row_ok vocab RepetitionP r (RepRow p c) =
     (p = repetition_penalty (params r) \<and> length c = vocab \<and> (p = 1 \<longrightarrow> c = replicate vocab 1))"
| "row_ok vocab k r rw = False"

fun_cases row_okE: "row_ok vocab k r rw"

definition pen_ok :: "nat \<Rightarrow> 'g req list \<Rightarrow> penalizer \<Rightarrow> bool" where
  "pen_ok vocab reqs p =
     (case rows p of None \<Rightarrow> \<not> is_required (pk p) reqs
                   | Some rs \<Rightarrow> list_all2 (row_ok vocab (pk p)) reqs rs)"

definition orc_ok :: "'g req list \<Rightarrow> orchestrator \<Rightarrow> bool" where
  "orc_ok reqs orc \<longleftrightarrow>
     list_all (pen_ok (o_vocab orc) reqs) (o_penalizers orc)
   \<and> distinct (map pk (o_penalizers orc))
   \<and> (o_required orc \<longleftrightarrow> list_ex (\<lambda>p. is_required (pk p) reqs) (o_penalizers orc))
   \<and> (\<not> o_required orc \<longrightarrow> list_all (\<lambda>p. rows p = None) (o_penalizers orc))"

definition logits_ok :: "nat \<Rightarrow> nat \<Rightarrow> logit list list \<Rightarrow> bool" where
  "logits_ok vocab n ls \<longleftrightarrow> length ls = n \<and> list_all (\<lambda>l. length l = vocab) ls"

lemma sub_real_zero [simp]: "sub_real l 0 = l"
  by (cases l) auto

lemma scale_logit_one [simp]: "scale_logit 1 l = l"
  by (cases l) auto

lemma map2_replicate_right: "length ls = n \<Longrightarrow> map2 f ls (replicate n c) = map (\<lambda>x. f x c) ls"
  by (induction n arbitrary: ls) (auto simp: length_Suc_conv)

lemma apply_row_neutral:
  assumes "row_ok vocab k r rw" "\<not> needs k r" "length ls = vocab"
  shows "apply_row rw ls = ls"
  using assms by (auto elim!: row_okE simp: map2_replicate_right)

lemma apply_row_length:
  "row_ok vocab k r rw \<Longrightarrow> length ls = vocab \<Longrightarrow> length (apply_row rw ls) = vocab"
  by (auto elim!: row_okE)

lemma prepare_row_ok: "prepare_row vocab k r = Ok rw \<Longrightarrow> row_ok vocab k r rw"
  by (cases k) (auto simp: rbind_eq_Ok split: if_splits)

lemma replicate_map2_const:
  "length occ = n \<Longrightarrow> map2 (\<lambda>x m. x) (replicate n c) occ = replicate n c"
  "length occ = n \<Longrightarrow> d = c
    \<Longrightarrow> map2 (\<lambda>x (m :: nat). if m > 0 then d else x) (replicate n c) occ = replicate n c"
  by (induction n arbitrary: occ) (auto simp: length_Suc_conv)

lemma cum_row_ok:
  assumes "row_ok vocab k r rw" "length occ = vocab"
  shows "row_ok vocab k r (cum_input_row occ rw)" "row_ok vocab k r (cum_output_row occ rw)"
  using assms by (auto elim!: row_okE simp: replicate_map2_const)

lemma pen_ok_Some: "rows p = Some rs \<Longrightarrow> pen_ok vocab reqs p \<longleftrightarrow> list_all2 (row_ok vocab (pk p)) reqs rs"
  by (simp add: pen_ok_def)

lemma pen_ok_None: "rows p = None \<Longrightarrow> pen_ok vocab reqs p \<longleftrightarrow> \<not> is_required (pk p) reqs"
  by (simp add: pen_ok_def)

lemma pen_apply_ok:
  assumes "pen_ok vocab reqs p" "logits_ok vocab (length reqs) ls"
  shows "logits_ok vocab (length reqs) (pen_apply p ls)"
proof (cases "rows p")
  case None
  then show ?thesis using assms by (simp add: pen_apply_def)
next
  case (Some rs)
  with assms have all: "list_all2 (row_ok vocab (pk p)) reqs rs" by (simp add: pen_ok_Some)
  have len: "length rs = length reqs" using all by (simp add: list_all2_lengthD)
  have "length (map2 apply_row rs ls ! i) = vocab" if "i < length reqs" for i
  proof -
    have "row_ok vocab (pk p) (reqs ! i) (rs ! i)" using all that by (simp add: list_all2_nthD)
    moreover have "length (ls ! i) = vocab"
      using assms(2) that by (simp add: logits_ok_def list_all_length)
    ultimately show ?thesis
      using that len assms(2) by (simp add: apply_row_length logits_ok_def)
  qed
  then show ?thesis
    using Some len assms(2) by (simp add: pen_apply_def logits_ok_def list_all_length)
qed

text \<open>A penalizer that no request needs leaves the logits alone.\<close>

lemma pen_apply_unneeded:
  assumes ok: "pen_ok vocab reqs p" and l: "logits_ok vocab (length reqs) ls"
    and no: "\<not> is_required (pk p) reqs"
  shows "pen_apply p ls = ls"
proof (cases "rows p")
  case None
  then show ?thesis by (simp add: pen_apply_def)
next
  case (Some rs)
  with ok have all: "list_all2 (row_ok vocab (pk p)) reqs rs" by (simp add: pen_ok_Some)
  have len: "length rs = length reqs" "length ls = length reqs"
    using all l by (simp_all add: list_all2_lengthD logits_ok_def)
  have "map2 apply_row rs ls = ls"
  proof (rule nth_equalityI)
    show "length (map2 apply_row rs ls) = length ls" using len by simp
    fix i assume "i < length (map2 apply_row rs ls)"
    then have i: "i < length reqs" using len by simp
    have "row_ok vocab (pk p) (reqs ! i) (rs ! i)" using all i by (simp add: list_all2_nthD)
    moreover have "\<not> needs (pk p) (reqs ! i)"
      using no i by (auto simp: is_required_def list_ex_iff)
    moreover have "length (ls ! i) = vocab" using l i by (simp add: logits_ok_def list_all_length)
    ultimately show "map2 apply_row rs ls ! i = ls ! i"
      using i len by (simp add: apply_row_neutral)
  qed
  then show ?thesis using Some by (simp add: pen_apply_def)
qed

section \<open>Filtering\<close>

lemma is_required_gather:
  "\<forall>j \<in> set js. j < length reqs \<Longrightarrow> is_required k (map ((!) reqs) js) \<Longrightarrow> is_required k reqs"
  by (auto simp: is_required_def list_ex_iff)

lemma filter_one_ok:
  assumes ok: "pen_ok vocab reqs p" and js: "\<forall>j \<in> set js. j < length reqs"
  shows "\<exists>q. filter_one (map ((!) reqs) js) js p = Ok q \<and> pk q = pk p
           \<and> pen_ok vocab (map ((!) reqs) js) q
           \<and> (\<forall>ls. logits_ok vocab (length reqs) ls
                \<longrightarrow> pen_apply q (map ((!) ls) js) = map ((!) (pen_apply p ls)) js)"
proof (cases "\<not> is_required (pk p) (map ((!) reqs) js) \<or> js = []")
  case True
  let ?q = "teardown p"
  have q: "rows ?q = None" "pk ?q = pk p" by (auto simp: teardown_def is_prepared_def)
  have same: "map ((!) ls) js = map ((!) (pen_apply p ls)) js"
    if l: "logits_ok vocab (length reqs) ls" for ls
  proof (cases "rows p")
    case None
    then show ?thesis by (simp add: pen_apply_def)
  next
    case (Some rs)
    with ok have all: "list_all2 (row_ok vocab (pk p)) reqs rs" by (simp add: pen_ok_Some)
    have len: "length rs = length reqs" "length ls = length reqs"
      using all l by (simp_all add: list_all2_lengthD logits_ok_def)
    have "pen_apply p ls ! j = ls ! j" if j: "j \<in> set js" for j
    proof -
      have jl: "j < length reqs" using js j by simp
      have "row_ok vocab (pk p) (reqs ! j) (rs ! j)" using all jl by (simp add: list_all2_nthD)
      moreover have "\<not> needs (pk p) (reqs ! j)"
        using True j by (auto simp: is_required_def list_ex_iff)
      moreover have "length (ls ! j) = vocab" using l jl by (simp add: logits_ok_def list_all_length)
      ultimately show ?thesis using Some jl len by (simp add: pen_apply_def apply_row_neutral)
    qed
    then show ?thesis by simp
  qed
  have "pen_ok vocab (map ((!) reqs) js) ?q"
    using True q by (auto simp: pen_ok_None is_required_def)
  then show ?thesis using True q same by (auto simp: filter_one_def pen_apply_def)
next
  case False
  then have "is_required (pk p) reqs" using is_required_gather [OF js] by blast
  with ok obtain rs where rs: "rows p = Some rs" by (cases "rows p") (auto simp: pen_ok_None)
  with ok have all: "list_all2 (row_ok vocab (pk p)) reqs rs" by (simp add: pen_ok_Some)
  have len: "length rs = length reqs" using all by (simp add: list_all2_lengthD)
  let ?q = "p\<lparr>rows := Some (map ((!) rs) js)\<rparr>"
  have f: "filter_one (map ((!) reqs) js) js p = Ok ?q"
    using False rs js len by (auto simp: filter_one_def pen_filter_def gather_Ok)
  have "pen_ok vocab (map ((!) reqs) js) ?q"
    using all js by (auto simp: pen_ok_def list_all2_map1 list_all2_map2 list_all2_same
        intro: list_all2_nthD)
  moreover have "pen_apply ?q (map ((!) ls) js) = map ((!) (pen_apply p ls)) js"
    if "logits_ok vocab (length reqs) ls" for ls
    using that js len rs
    by (simp add: pen_apply_def logits_ok_def zip_map1 zip_map2 zip_same_conv_map)
  ultimately show ?thesis using f by auto
qed

lemma fold_pen_apply_ok:
  "list_all (pen_ok vocab reqs) ps \<Longrightarrow> logits_ok vocab (length reqs) ls
    \<Longrightarrow> logits_ok vocab (length reqs) (fold pen_apply ps ls)"
  by (induction ps arbitrary: ls) (auto intro: pen_apply_ok)

lemma filter_list_ok:
  assumes "list_all (pen_ok vocab reqs) ps" "\<forall>j \<in> set js. j < length reqs"
  shows "\<exists>qs. mapR (filter_one (map ((!) reqs) js) js) ps = Ok qs \<and> map pk qs = map pk ps
           \<and> list_all (pen_ok vocab (map ((!) reqs) js)) qs
           \<and> (\<forall>ls. logits_ok vocab (length reqs) ls
                \<longrightarrow> fold pen_apply qs (map ((!) ls) js) = map ((!) (fold pen_apply ps ls)) js)"
  using assms(1)
proof (induction ps)
  case Nil
  then show ?case by simp
next
  case (Cons p ps)
  from Cons obtain qs where qs: "mapR (filter_one (map ((!) reqs) js) js) ps = Ok qs"
      "map pk qs = map pk ps" "list_all (pen_ok vocab (map ((!) reqs) js)) qs"
      "\<forall>ls. logits_ok vocab (length reqs) ls
          \<longrightarrow> fold pen_apply qs (map ((!) ls) js) = map ((!) (fold pen_apply ps ls)) js"
    by auto
  from Cons obtain q where q: "filter_one (map ((!) reqs) js) js p = Ok q" "pk q = pk p"
      "pen_ok vocab (map ((!) reqs) js) q"
      "\<forall>ls. logits_ok vocab (length reqs) ls \<longrightarrow> pen_apply q (map ((!) ls) js) = map ((!) (pen_apply p ls)) js"
    using filter_one_ok [of vocab reqs p js] assms(2) by auto
  have "pen_ok vocab reqs p" using Cons by simp
  then show ?case using qs q pen_apply_ok [of vocab reqs p] by auto
qed

lemma fold_pen_apply_unneeded:
  assumes "list_all (pen_ok vocab reqs) ps" "\<not> list_ex (\<lambda>p. is_required (pk p) reqs) ps"
    "logits_ok vocab (length reqs) ls"
  shows "fold pen_apply ps ls = ls"
  using assms by (induction ps) (auto simp: pen_apply_unneeded)

text \<open>The penalized logits: \<^verbatim>\<open>apply\<close> returning \<^verbatim>\<open>None\<close> stands for unchanged logits.\<close>

definition penalized :: "orchestrator \<Rightarrow> logit list list \<Rightarrow> logit list list" where
  "penalized orc ls = (case orc_apply orc ls of None \<Rightarrow> ls | Some ls' \<Rightarrow> ls')"

lemma penalized_fold:
  assumes "orc_ok reqs orc" "logits_ok (o_vocab orc) (length reqs) ls"
  shows "penalized orc ls = fold pen_apply (o_penalizers orc) ls"
  using assms fold_pen_apply_unneeded [of "o_vocab orc" reqs "o_penalizers orc" ls]
  by (auto simp: penalized_def orc_apply_def orc_ok_def)

lemma list_ex_pk: "map pk qs = map pk ps \<Longrightarrow> list_ex (\<lambda>p. P (pk p)) qs = list_ex (\<lambda>p. P (pk p)) ps"
  by (metis (mono_tags, lifting) list_ex_iff list.set_map image_iff)

lemma filter_unneeded:
  assumes "mapR (filter_one reqs js) ps = Ok qs" "\<not> list_ex (\<lambda>p. is_required (pk p) reqs) ps"
  shows "list_all (\<lambda>q. rows q = None) qs"
  using assms
  by (induction ps arbitrary: qs)
     (auto simp: rbind_eq_Ok filter_one_def teardown_def is_prepared_def)

lemma orc_filter_ok:
  assumes ok: "orc_ok reqs orc" and js: "\<forall>j \<in> set js. j < length reqs"
  shows "\<exists>orc'. orc_filter (map ((!) reqs) js) js orc = Ok orc' \<and> orc_ok (map ((!) reqs) js) orc'
           \<and> o_vocab orc' = o_vocab orc \<and> map pk (o_penalizers orc') = map pk (o_penalizers orc)
           \<and> (\<forall>ls. logits_ok (o_vocab orc) (length reqs) ls
                \<longrightarrow> penalized orc' (map ((!) ls) js) = map ((!) (penalized orc ls)) js)"
proof (cases "o_required orc")
  case False
  have "\<not> list_ex (\<lambda>p. is_required (pk p) (map ((!) reqs) js)) (o_penalizers orc)"
    using False ok is_required_gather [OF js] by (auto simp: orc_ok_def list_ex_iff)
  then have "orc_ok (map ((!) reqs) js) orc"
    using False ok by (auto simp: orc_ok_def list_all_iff list_ex_iff pen_ok_None)
  then show ?thesis using False by (simp add: orc_filter_def penalized_def orc_apply_def)
next
  case True
  from ok have all: "list_all (pen_ok (o_vocab orc) reqs) (o_penalizers orc)" by (simp add: orc_ok_def)
  obtain qs where qs: "mapR (filter_one (map ((!) reqs) js) js) (o_penalizers orc) = Ok qs"
      "map pk qs = map pk (o_penalizers orc)" "list_all (pen_ok (o_vocab orc) (map ((!) reqs) js)) qs"
      "\<forall>ls. logits_ok (o_vocab orc) (length reqs) ls
          \<longrightarrow> fold pen_apply qs (map ((!) ls) js) = map ((!) (fold pen_apply (o_penalizers orc) ls)) js"
    using filter_list_ok [OF all js] by blast
  let ?new = "orc\<lparr>o_penalizers := qs,
      o_required := list_ex (\<lambda>p. is_required (pk p) (map ((!) reqs) js)) (o_penalizers orc)\<rparr>"
  have "list_all (\<lambda>q. rows q = None) qs"
    if "\<not> list_ex (\<lambda>p. is_required (pk p) (map ((!) reqs) js)) (o_penalizers orc)"
    using qs(1) that by (rule filter_unneeded)
  then have new: "orc_ok (map ((!) reqs) js) ?new"
    using qs(2,3) ok list_ex_pk [OF qs(2), of "\<lambda>k. is_required k (map ((!) reqs) js)"]
    by (simp add: orc_ok_def)
  have "penalized ?new (map ((!) ls) js) = map ((!) (penalized orc ls)) js"
    if l: "logits_ok (o_vocab orc) (length reqs) ls" for ls
    using qs(4) l penalized_fold [OF ok l] penalized_fold [OF new] js
    by (simp add: logits_ok_def list_all_length)
  then show ?thesis using True qs(1,2) new by (auto simp: orc_filter_def)
qed

section \<open>Cumulating tokens and building the orchestrator\<close>

lemma occurrence_count_length: "occurrence_count vocab ids = Ok oc \<Longrightarrow> length oc = vocab"
  by (auto simp: occurrence_count_def split: if_splits)

lemma output_occurrence_length: "output_occurrence vocab t = Ok oc \<Longrightarrow> length oc = vocab"
  by (auto simp: output_occurrence_def Let_def split: if_splits dest!: sym [of "list_update _ _ _"])

lemma input_counts_shape:
  assumes "input_counts orc ids = Ok occs"
  shows "length occs = length ids \<and> list_all (\<lambda>oc. length oc = o_vocab orc) occs"
proof (cases "counted uses_input_counts (o_penalizers orc)")
  case True
  then have m: "mapR (occurrence_count (o_vocab orc)) ids = Ok occs" using assms by (simp add: input_counts_def)
  have "length (occs ! i) = o_vocab orc" if "i < length occs" for i
  proof -
    have "occurrence_count (o_vocab orc) (ids ! i) = Ok (occs ! i)"
      using m that by (auto simp: mapR_Ok_iff list_all2_conv_all_nth)
    then show ?thesis by (rule occurrence_count_length)
  qed
  then show ?thesis using mapR_length [OF m] by (simp add: list_all_length)
next
  case False
  then show ?thesis using assms by (auto simp: input_counts_def list_all_iff)
qed

lemma output_counts_shape:
  assumes "output_counts orc n ts = Ok occs"
  shows "length occs = n \<and> list_all (\<lambda>oc. length oc = o_vocab orc) occs"
proof (cases "counted uses_output_counts (o_penalizers orc)")
  case True
  then obtain os where os: "mapR (output_occurrence (o_vocab orc)) ts = Ok os" "length ts \<le> n"
      "occs = os @ replicate (n - length ts) (replicate (o_vocab orc) 0)"
    using assms by (auto simp: output_counts_def rbind_eq_Ok split: if_splits)
  have "length (os ! i) = o_vocab orc" if "i < length os" for i
  proof -
    have "output_occurrence (o_vocab orc) (ts ! i) = Ok (os ! i)"
      using os(1) that by (auto simp: mapR_Ok_iff list_all2_conv_all_nth)
    then show ?thesis by (rule output_occurrence_length)
  qed
  then have "list_all (\<lambda>oc. length oc = o_vocab orc) os" by (simp add: list_all_length)
  then show ?thesis using os mapR_length [OF os(1)] by (auto simp: list_all_iff)
next
  case False
  then show ?thesis using assms by (auto simp: output_counts_def list_all_iff)
qed

lemma rows_map2_ok:
  assumes "list_all2 (row_ok vocab k) (reqs :: 'g req list) rs" "length occs = length reqs"
    "list_all (\<lambda>oc. length oc = vocab) occs"
    "\<And>(r :: 'g req) rw occ. row_ok vocab k r rw \<Longrightarrow> length occ = vocab \<Longrightarrow> row_ok vocab k r (f occ rw)"
  shows "list_all2 (row_ok vocab k) reqs (map2 f occs rs)"
  using assms(1-3) by (auto simp: list_all2_conv_all_nth list_all_length intro!: assms(4))

lemma pen_cum_ok:
  assumes "pen_ok vocab reqs p" "length occs = length reqs" "list_all (\<lambda>oc. length oc = vocab) occs"
  shows "pen_ok vocab reqs (pen_cum_input occs p)" "pen_ok vocab reqs (pen_cum_output occs p)"
proof -
  have "list_all2 (row_ok vocab (pk p)) reqs (map2 cum_input_row occs rs)"
       "list_all2 (row_ok vocab (pk p)) reqs (map2 cum_output_row occs rs)"
    if "rows p = Some rs" for rs
    using that assms by (auto simp: pen_ok_Some intro!: rows_map2_ok intro: cum_row_ok)
  then show "pen_ok vocab reqs (pen_cum_input occs p)" "pen_ok vocab reqs (pen_cum_output occs p)"
    using assms(1) by (cases "rows p"; simp add: pen_ok_def pen_cum_input_def pen_cum_output_def)+
qed

lemma pen_cum_rows [simp]:
  "pk (pen_cum_input occs p) = pk p" "pk (pen_cum_output occs p) = pk p"
  "rows (pen_cum_input occs p) = None \<longleftrightarrow> rows p = None"
  "rows (pen_cum_output occs p) = None \<longleftrightarrow> rows p = None"
  by (cases "rows p"; simp add: pen_cum_input_def pen_cum_output_def)+

lemma orc_ok_map_pens:
  assumes "orc_ok reqs orc" "\<And>p. pen_ok (o_vocab orc) reqs p \<Longrightarrow> pen_ok (o_vocab orc) reqs (f p)"
    "\<And>p. pk (f p) = pk p" "\<And>p. rows (f p) = None \<longleftrightarrow> rows p = None"
  shows "orc_ok reqs (orc\<lparr>o_penalizers := map f (o_penalizers orc)\<rparr>)"
  using assms by (auto simp: orc_ok_def list_all_iff list_ex_iff o_def)

lemma cumulate_input_ok:
  assumes "orc_ok reqs orc" "cumulate_input_tokens orc ids = Ok orc'" "length ids = length reqs"
  shows "orc_ok reqs orc'"
  using assms input_counts_shape [of orc ids] pen_cum_ok(1)
  by (auto simp: cumulate_input_tokens_def rbind_eq_Ok intro!: orc_ok_map_pens)

lemma cumulate_output_ok:
  assumes "orc_ok reqs orc" "cumulate_output_tokens orc reqs ts = Ok orc'"
  shows "orc_ok reqs orc'"
  using assms output_counts_shape [of orc "length reqs" ts] pen_cum_ok(2)
  by (auto simp: cumulate_output_tokens_def rbind_eq_Ok intro!: orc_ok_map_pens split: if_splits)

lemma prepare_ok:
  assumes "prepare vocab reqs p = Ok q" "rows p \<noteq> None \<Longrightarrow> pen_ok vocab reqs p"
  shows "pk q = pk p \<and> rows q \<noteq> None \<and> pen_ok vocab reqs q"
proof (cases "rows p")
  case None
  with assms(1) obtain rs where rs: "mapR (prepare_row vocab (pk p)) reqs = Ok rs" "q = p\<lparr>rows := Some rs\<rparr>"
    by (auto simp: prepare_def is_prepared_def rbind_eq_Ok)
  have "list_all2 (row_ok vocab (pk p)) reqs rs"
    using rs(1) by (auto simp: mapR_Ok_iff intro: list_all2_mono prepare_row_ok)
  then show ?thesis using rs(2) by (simp add: pen_ok_def)
next
  case (Some rs)
  then show ?thesis using assms by (auto simp: prepare_def is_prepared_def)
qed

lemma prepare_if_required_ok:
  assumes "prepare_if_required vocab reqs \<lparr>pk = k, rows = None\<rparr> = Ok (b, q)"
  shows "pk q = k \<and> pen_ok vocab reqs q \<and> b = is_required k reqs \<and> (\<not> b \<longrightarrow> rows q = None)"
  using assms prepare_ok [of vocab reqs "\<lparr>pk = k, rows = None\<rparr>" q]
  by (auto simp: prepare_if_required_def rbind_eq_Ok pen_ok_None split: if_splits)

lemma init_list_ok:
  assumes "mapR (\<lambda>k. prepare_if_required vocab reqs \<lparr>pk = k, rows = None\<rparr>) kinds = Ok ps"
  shows "map (pk \<circ> snd) ps = kinds \<and> list_all (pen_ok vocab reqs) (map snd ps)
       \<and> list_ex fst ps = list_ex (\<lambda>p. is_required (pk p) reqs) (map snd ps)
       \<and> (\<not> list_ex fst ps \<longrightarrow> list_all (\<lambda>p. rows p = None) (map snd ps))"
  using assms
proof (induction kinds arbitrary: ps)
  case Nil
  then show ?case by simp
next
  case (Cons k kinds)
  then obtain b q ps' where p: "prepare_if_required vocab reqs \<lparr>pk = k, rows = None\<rparr> = Ok (b, q)"
      "mapR (\<lambda>k. prepare_if_required vocab reqs \<lparr>pk = k, rows = None\<rparr>) kinds = Ok ps'" "ps = (b, q) # ps'"
    by (auto simp: rbind_eq_Ok)
  show ?case using Cons.IH [OF p(2)] prepare_if_required_ok [OF p(1)] p(3) by auto
qed

lemma orchestrator_init_ok:
  assumes "orchestrator_init vocab reqs kinds = Ok orc" "distinct kinds"
  shows "orc_ok reqs orc \<and> map pk (o_penalizers orc) = kinds \<and> o_vocab orc = vocab"
proof -
  from assms(1) obtain ps where
    ps: "mapR (\<lambda>k. prepare_if_required vocab reqs \<lparr>pk = k, rows = None\<rparr>) kinds = Ok ps"
    and orc: "(let o' = \<lparr>o_vocab = vocab, o_penalizers = map snd ps, o_required = list_ex fst ps\<rparr>
       in if o_required o' then cumulate_input_tokens o' (map origin_input_ids reqs) else Ok o') = Ok orc"
    by (auto simp: orchestrator_init_def rbind_eq_Ok)
  let ?o = "\<lparr>o_vocab = vocab, o_penalizers = map snd ps, o_required = list_ex fst ps\<rparr>"
  have ok: "orc_ok reqs ?o" using init_list_ok [OF ps] assms(2) by (simp add: orc_ok_def)
  have kinds: "map pk (o_penalizers orc) = kinds" "o_vocab orc = vocab"
    using orc init_list_ok [OF ps]
    by (auto simp: Let_def cumulate_input_tokens_def rbind_eq_Ok o_def split: if_splits)
  show ?thesis using orc ok kinds cumulate_input_ok [OF ok, of "map origin_input_ids reqs" orc]
    by (auto simp: Let_def split: if_splits)
qed

section \<open>Merging\<close>

lemma pen_apply_append:
  assumes "rows q = Some (rs @ ts)" "length rs = length l1"
  shows "pen_apply q (l1 @ l2) = map2 apply_row rs l1 @ map2 apply_row ts l2"
  using assms by (simp add: pen_apply_def)

lemma prepare_apply:
  assumes "prepare vocab reqs p = Ok q" "pen_ok vocab reqs p" "logits_ok vocab (length reqs) ls"
  shows "pen_apply q ls = pen_apply p ls"
proof (cases "rows p")
  case None
  have q: "pk q = pk p" "pen_ok vocab reqs q" using prepare_ok [OF assms(1)] assms(2) by auto
  then have "pen_apply q ls = ls"
    using None assms by (intro pen_apply_unneeded) (auto simp: pen_ok_None)
  then show ?thesis using None by (simp add: pen_apply_def)
next
  case (Some rs)
  then show ?thesis using assms(1) by (simp add: prepare_def is_prepared_def)
qed

lemma is_required_append [simp]:
  "is_required k (xs @ ys) \<longleftrightarrow> is_required k xs \<or> is_required k ys"
  by (simp add: is_required_def)

lemma pen_merge_ok:
  assumes m: "pen_merge vocab reqs treqs p t = Ok q" and pk: "pk p = pk t"
    and okp: "pen_ok vocab reqs p" and okt: "pen_ok vocab treqs t"
  shows "pk q = pk p \<and> pen_ok vocab (reqs @ treqs) q
       \<and> (\<forall>l1 l2. logits_ok vocab (length reqs) l1 \<longrightarrow> logits_ok vocab (length treqs) l2
            \<longrightarrow> pen_apply q (l1 @ l2) = pen_apply p l1 @ pen_apply t l2)"
proof (cases "rows p = None \<and> rows t = None")
  case True
  then have "q = p" using m by (simp add: pen_merge_def is_prepared_def)
  then show ?thesis using True okp okt pk by (simp add: pen_ok_None pen_apply_def)
next
  case False
  then obtain p' t' where p': "prepare vocab reqs p = Ok p'" and t': "prepare vocab treqs t = Ok t'"
      and q: "q = p'\<lparr>rows := Some (opt_list (rows p') @ opt_list (rows t'))\<rparr>"
    using m by (auto simp: pen_merge_def is_prepared_def rbind_eq_Ok)
  from prepare_ok [OF p'] okp obtain rs where rs: "rows p' = Some rs" "pk p' = pk p" "pen_ok vocab reqs p'"
    by auto
  from prepare_ok [OF t'] okt obtain us where us: "rows t' = Some us" "pk t' = pk t" "pen_ok vocab treqs t'"
    by auto
  have all: "list_all2 (row_ok vocab (pk p)) reqs rs" "list_all2 (row_ok vocab (pk p)) treqs us"
    using rs us pk by (auto simp: pen_ok_Some)
  then have "pen_ok vocab (reqs @ treqs) q"
    using q rs us by (auto simp: pen_ok_def intro: list_all2_appendI)
  moreover have "pen_apply q (l1 @ l2) = pen_apply p l1 @ pen_apply t l2"
    if l: "logits_ok vocab (length reqs) l1" "logits_ok vocab (length treqs) l2" for l1 l2
  proof -
    have "length rs = length l1" using all(1) l(1) by (simp add: list_all2_lengthD logits_ok_def)
    then have "pen_apply q (l1 @ l2) = pen_apply p' l1 @ pen_apply t' l2"
      using q rs us pen_apply_append [of q rs us l1 l2] by (simp add: pen_apply_def)
    then show ?thesis using prepare_apply [OF p' okp l(1)] prepare_apply [OF t' okt l(2)] by simp
  qed
  ultimately show ?thesis using q rs by simp
qed

lemma find_put_pen:
  assumes "pk p = k" "k \<notin> pk ` set dn"
  shows "find_pen k (dn @ p # rest) = Some p"
    and "pk q = k \<Longrightarrow> put_pen q (dn @ p # rest) = dn @ q # rest"
  using assms by (induction dn) auto

lemma merge_fold:
  assumes "foldR (merge_one reqs treqs) ts orc = Ok c" "o_penalizers orc = dn @ ps"
    "map pk ps = map pk ts" "distinct (map pk (dn @ ps))"
    "list_all (pen_ok (o_vocab orc) reqs) ps" "list_all (pen_ok (o_vocab orc) treqs) ts"
  shows "\<exists>qs. c = orc\<lparr>o_penalizers := dn @ qs\<rparr> \<and> map pk qs = map pk ps
           \<and> list_all (pen_ok (o_vocab orc) (reqs @ treqs)) qs
           \<and> (\<forall>l1 l2. logits_ok (o_vocab orc) (length reqs) l1
                \<longrightarrow> logits_ok (o_vocab orc) (length treqs) l2
                \<longrightarrow> fold pen_apply qs (l1 @ l2) = fold pen_apply ps l1 @ fold pen_apply ts l2)"
  using assms
proof (induction ts arbitrary: orc dn ps)
  case Nil
  then show ?case by simp
next
  case (Cons t ts)
  then obtain p ps' where ps: "ps = p # ps'" "pk p = pk t" "map pk ps' = map pk ts"
    by (cases ps) auto
  have fresh: "pk t \<notin> pk ` set dn" using Cons.prems(4) ps by auto
  have "merge_one reqs treqs t orc = rbind (pen_merge (o_vocab orc) reqs treqs p t)
      (\<lambda>q. Ok (orc\<lparr>o_penalizers := put_pen q (o_penalizers orc)\<rparr>))"
    using find_put_pen(1) [OF ps(2) fresh] Cons.prems(2) ps(1) by (simp add: merge_one_def)
  with Cons.prems(1)
  obtain q where q: "pen_merge (o_vocab orc) reqs treqs p t = Ok q"
      and rest: "foldR (merge_one reqs treqs) ts
                   (orc\<lparr>o_penalizers := put_pen q (o_penalizers orc)\<rparr>) = Ok c"
    by (auto simp: rbind_eq_Ok)
  note qok = pen_merge_ok [OF q ps(2)]
  have okp: "pen_ok (o_vocab orc) reqs p" "pen_ok (o_vocab orc) treqs t"
    using Cons.prems(5,6) ps by auto
  have put: "put_pen q (o_penalizers orc) = (dn @ [q]) @ ps'"
    using qok okp ps Cons.prems(2) find_put_pen(2) [OF ps(2) fresh, of q] by simp
  have "distinct (map pk ((dn @ [q]) @ ps'))" using Cons.prems(4) ps qok okp by simp
  from Cons.IH [OF rest, of "dn @ [q]" ps'] put this ps Cons.prems(5,6)
  obtain qs where qs: "c = orc\<lparr>o_penalizers := dn @ q # qs\<rparr>" "map pk qs = map pk ps'"
      "list_all (pen_ok (o_vocab orc) (reqs @ treqs)) qs"
      "\<forall>l1 l2. logits_ok (o_vocab orc) (length reqs) l1
                \<longrightarrow> logits_ok (o_vocab orc) (length treqs) l2
                \<longrightarrow> fold pen_apply qs (l1 @ l2) = fold pen_apply ps' l1 @ fold pen_apply ts l2"
    by auto
  have "fold pen_apply (q # qs) (l1 @ l2) = fold pen_apply ps l1 @ fold pen_apply (t # ts) l2"
    if "logits_ok (o_vocab orc) (length reqs) l1" "logits_ok (o_vocab orc) (length treqs) l2" for l1 l2
    using that qs(4) qok okp ps pen_apply_ok [OF okp(1) that(1)] pen_apply_ok [OF okp(2) that(2)] by simp
  then show ?case using qs qok okp ps by (intro exI [of _ "q # qs"]) auto
qed

text \<open>Every orchestrator a batch can hold: built for a batch, fed with sampled tokens, filtered to a
  subset of its requests or merged with the orchestrator of another batch.\<close>

inductive orc_reach :: "nat \<Rightarrow> pen_kind list \<Rightarrow> 'g req list \<Rightarrow> orchestrator \<Rightarrow> bool"
  for vocab kinds where
  reach_init: "orchestrator_init vocab reqs kinds = Ok orc \<Longrightarrow> orc_reach vocab kinds reqs orc"
| reach_cumulate: "orc_reach vocab kinds reqs orc \<Longrightarrow> cumulate_output_tokens orc reqs ts = Ok orc'
    \<Longrightarrow> orc_reach vocab kinds reqs orc'"
| reach_filter: "orc_reach vocab kinds reqs orc \<Longrightarrow> \<forall>j \<in> set js. j < length reqs
    \<Longrightarrow> orc_filter (map ((!) reqs) js) js orc = Ok orc' \<Longrightarrow> orc_reach vocab kinds (map ((!) reqs) js) orc'"
| reach_merge: "orc_reach vocab kinds reqs a \<Longrightarrow> orc_reach vocab kinds treqs b
    \<Longrightarrow> orc_merge reqs treqs a b = Ok c \<Longrightarrow> orc_reach vocab kinds (reqs @ treqs) c"

lemma orc_merge_ok:
  assumes m: "orc_merge reqs treqs a b = Ok c" and oka: "orc_ok reqs a" and okb: "orc_ok treqs b"
    and same: "o_vocab b = o_vocab a" "map pk (o_penalizers b) = map pk (o_penalizers a)"
  shows "orc_ok (reqs @ treqs) c
       \<and> (logits_ok (o_vocab a) (length reqs) l1 \<longrightarrow> logits_ok (o_vocab a) (length treqs) l2
            \<longrightarrow> penalized c (l1 @ l2) = penalized a l1 @ penalized b l2)
       \<and> o_vocab c = o_vocab a \<and> map pk (o_penalizers c) = map pk (o_penalizers a)"
proof (cases "\<not> o_required a \<and> \<not> o_required b")
  case True
  have "\<not> list_ex (\<lambda>p. is_required (pk p) treqs) (o_penalizers a)"
    using True okb list_ex_pk [OF same(2), of "\<lambda>k. is_required k treqs"] by (simp add: orc_ok_def)
  then have "orc_ok (reqs @ treqs) a"
    using True oka by (auto simp: orc_ok_def list_all_iff list_ex_iff pen_ok_None)
  then show ?thesis using True m by (auto simp: orc_merge_def penalized_def orc_apply_def)
next
  case False
  let ?a = "a\<lparr>o_required := o_required a \<or> o_required b\<rparr>"
  from False m have f: "foldR (merge_one reqs treqs) (o_penalizers b) ?a = Ok c"
    by (simp add: orc_merge_def split: if_splits)
  obtain qs where qs: "c = ?a\<lparr>o_penalizers := qs\<rparr>" "map pk qs = map pk (o_penalizers a)"
      "list_all (pen_ok (o_vocab a) (reqs @ treqs)) qs"
      "\<forall>l1 l2. logits_ok (o_vocab a) (length reqs) l1 \<longrightarrow> logits_ok (o_vocab a) (length treqs) l2
          \<longrightarrow> fold pen_apply qs (l1 @ l2) = fold pen_apply (o_penalizers a) l1 @ fold pen_apply (o_penalizers b) l2"
    using merge_fold [OF f, of "[]" "o_penalizers a"] same oka okb by (auto simp: orc_ok_def)
  have "list_ex (\<lambda>p. is_required (pk p) (reqs @ treqs)) qs = (o_required a \<or> o_required b)"
    using list_ex_pk [OF qs(2), of "\<lambda>k. is_required k (reqs @ treqs)"]
      list_ex_pk [OF same(2), of "\<lambda>k. is_required k treqs"] oka okb
    by (auto simp: orc_ok_def list_ex_iff)
  then have ok: "orc_ok (reqs @ treqs) c" using qs oka False by (simp add: orc_ok_def)
  have app: "logits_ok (o_vocab a) (length (reqs @ treqs)) (l1 @ l2)"
    if "logits_ok (o_vocab a) (length reqs) l1" "logits_ok (o_vocab a) (length treqs) l2"
    using that by (simp add: logits_ok_def)
  show ?thesis
    using ok qs app penalized_fold [OF ok, of "l1 @ l2"] penalized_fold [OF oka, of l1]
      penalized_fold [OF okb, of l2] same
    by auto
qed

lemma cumulate_output_shape:
  "cumulate_output_tokens orc reqs ts = Ok orc'
    \<Longrightarrow> o_vocab orc' = o_vocab orc \<and> map pk (o_penalizers orc') = map pk (o_penalizers orc)"
  by (auto simp: cumulate_output_tokens_def rbind_eq_Ok split: if_splits)

lemma orc_reach_ok:
  assumes "orc_reach vocab kinds reqs orc" "distinct kinds"
  shows "orc_ok reqs orc \<and> o_vocab orc = vocab \<and> map pk (o_penalizers orc) = kinds"
  using assms
proof (induction rule: orc_reach.induct)
  case (reach_init reqs orc)
  then show ?case using orchestrator_init_ok by blast
next
  case (reach_cumulate reqs orc ts orc')
  then show ?case using cumulate_output_ok cumulate_output_shape by metis
next
  case (reach_filter reqs orc js orc')
  then show ?case using orc_filter_ok [of reqs orc js] by auto
next
  case (reach_merge reqs a treqs b c)
  then show ?case using orc_merge_ok [OF reach_merge.hyps(3), of "[]" "[]"] by auto
qed

text \<open>C26: Filtering a batch commutes with penalising.  For every orchestrator a batch can hold, the
  filter to any list of positions of the batch never fails, and applying the result to the kept
  logit rows gives exactly the kept rows of what the unfiltered orchestrator would have produced,
  although the filter drops the penalizers that no kept request needs.\<close>

theorem orc_filter_commutes:
  assumes "orc_reach vocab kinds reqs orc" "distinct kinds" "\<forall>j \<in> set js. j < length reqs"
    "logits_ok vocab (length reqs) ls"
  shows "\<exists>orc'. orc_filter (map ((!) reqs) js) js orc = Ok orc'
           \<and> penalized orc' (map ((!) ls) js) = map ((!) (penalized orc ls)) js"
  using orc_filter_ok [of reqs orc js] orc_reach_ok [OF assms(1,2)] assms(3,4) by auto

text \<open>Merging two batches commutes with penalising: whatever happened to the two orchestrators
  before, the merged one treats the first batch's rows as the first orchestrator did and the second
  batch's rows as the second did, also where one side had a penalizer the other never prepared.\<close>

theorem orc_merge_commutes:
  assumes "orc_reach vocab kinds reqs a" "orc_reach vocab kinds treqs b" "distinct kinds"
    "orc_merge reqs treqs a b = Ok c"
    "logits_ok vocab (length reqs) l1" "logits_ok vocab (length treqs) l2"
  shows "penalized c (l1 @ l2) = penalized a l1 @ penalized b l2"
  using orc_merge_ok [OF assms(4), of l1 l2] orc_reach_ok [OF assms(1,3)] orc_reach_ok [OF assms(2,3)]
    assms(5,6)
  by auto

section \<open>The minimum number of new tokens\<close>

lemma prepare_min_row:
  assumes "prepare_row vocab MinNewTokensP r = Ok rw"
  shows "\<exists>m s l. rw = MinRow m s l"
proof -
  obtain ids where "all_stop_ids r = Ok ids"
      "(if ids_in_range vocab ids
        then Ok (MinRow (min_new_tokens (params r)) (map (\<lambda>v. int v \<in> set ids) [0..<vocab]) 0)
        else Err RuntimeError) = Ok rw"
    using assms by (auto simp: rbind_eq_Ok)
  then show ?thesis by (metis Inl_Inr_False Inr_inject)
qed

lemma fold_min_rows:
  assumes "rows p = Some (map (\<lambda>(m, s, l). MinRow m s l) xs)"
    "list_all (\<lambda>occs. length occs = length xs) occss"
  shows "rows (fold pen_cum_output occss p)
       = Some (map (\<lambda>(m, s, l). MinRow m s (l + int (length occss))) xs)"
  using assms
proof (induction occss arbitrary: p xs)
  case Nil
  then show ?case by simp
next
  case (Cons occs occss)
  let ?xs = "map (\<lambda>(m, s, l). (m, s, l + 1)) xs"
  have "map2 cum_output_row occs (map (\<lambda>(m, s, l). MinRow m s l) xs) = map (\<lambda>(m, s, l). MinRow m s l) ?xs"
    using Cons.prems(2) by (intro nth_equalityI) (auto split: prod.splits)
  then have "rows (pen_cum_output occs p) = Some (map (\<lambda>(m, s, l). MinRow m s l) ?xs)"
    using Cons.prems(1) by (simp add: pen_cum_output_def)
  from Cons.IH [OF this] Cons.prems(2) show ?case
    by (simp add: o_def case_prod_beta add.commute add.left_commute)
qed

text \<open>The min-new-tokens penalizer blocks exactly the stop tokens, exactly until the minimum is
  reached: after a request has produced k tokens, the logit of a stop token of that request (a stop
  token id of its parameters, an additional stop id of its tokenizer or the end-of-sequence id) is
  minus infinity when k is below the request's minimum, and every other logit is unchanged.\<close>

theorem min_new_tokens_masks_stops:
  assumes p: "prepare vocab reqs \<lparr>pk = MinNewTokensP, rows = None\<rparr> = Ok p"
    and q: "q = fold pen_cum_output occss p" "list_all (\<lambda>occs. length occs = length reqs) occss"
    and i: "i < length reqs" "all_stop_ids (reqs ! i) = Ok stops"
    and ls: "length ls = length reqs" "length (ls ! i) = vocab" "v < vocab" "ls ! i ! v = Fin x"
  shows "pen_apply q ls ! i ! v
       = (if int (length occss) < min_new_tokens (params (reqs ! i)) \<and> int v \<in> set stops
          then NegInf else Fin x)"
proof -
  from p obtain rs where rs: "mapR (prepare_row vocab MinNewTokensP) reqs = Ok rs" "rows p = Some rs"
    by (auto simp: prepare_def is_prepared_def rbind_eq_Ok)
  define xs where "xs = map (\<lambda>rw. case rw of MinRow m s l \<Rightarrow> (m, s, l)) rs"
  have each: "prepare_row vocab MinNewTokensP (reqs ! n) = Ok (rs ! n)" if "n < length reqs" for n
    using rs(1) that by (auto simp: mapR_Ok_iff list_all2_conv_all_nth)
  have len: "length rs = length reqs" using mapR_length [OF rs(1)] .
  have row: "rs ! n = (case xs ! n of (m, s, l) \<Rightarrow> MinRow m s l)" if n: "n < length reqs" for n
  proof -
    obtain m s l where "rs ! n = MinRow m s l" using prepare_min_row [OF each [OF n]] by blast
    then show ?thesis using n len by (simp add: xs_def)
  qed
  have lxs: "length xs = length reqs" using len by (simp add: xs_def)
  have "rs = map (\<lambda>(m, s, l). MinRow m s l) xs"
  proof (rule nth_equalityI)
    show "length rs = length (map (\<lambda>(m, s, l). MinRow m s l) xs)" using len lxs by simp
    show "rs ! n = map (\<lambda>(m, s, l). MinRow m s l) xs ! n" if "n < length rs" for n
      using row [of n] that len lxs by (simp only: nth_map)
  qed
  with rs(2) have "rows q = Some (map (\<lambda>(m, s, l). MinRow m s (l + int (length occss))) xs)"
    using fold_min_rows [of p xs occss] q lxs by simp
  moreover have "xs ! i = (min_new_tokens (params (reqs ! i)), map (\<lambda>v. int v \<in> set stops) [0..<vocab], 0)"
  proof -
    have "rs ! i = MinRow (min_new_tokens (params (reqs ! i))) (map (\<lambda>v. int v \<in> set stops) [0..<vocab]) 0"
      using each [OF i(1)] i(2) by (auto split: if_splits)
    then show ?thesis using i(1) len by (simp add: xs_def)
  qed
  ultimately show ?thesis
    using i ls lxs by (simp add: pen_apply_def)
qed

section \<open>The properties on concrete batches\<close>

definition demo_rep :: "unit req" where
  "demo_rep = demo_req\<lparr>params := default_params\<lparr>repetition_penalty := 2, min_new_tokens := 1\<rparr>,
                       origin_input_ids := [0]\<rparr>"

definition demo_orc :: orchestrator where
  "demo_orc = \<lparr>o_vocab = 3,
     o_penalizers = [\<lparr>pk = RepetitionP, rows = Some [RepRow 2 [2, 1, 1]]\<rparr>], o_required = True\<rparr>"

lemma demo_orc_reach: "orc_reach 3 [RepetitionP] [demo_rep] demo_orc"
  by (rule reach_init)
     (simp add: orchestrator_init_def prepare_if_required_def prepare_def is_prepared_def is_required_def
        demo_rep_def demo_orc_def cumulate_input_tokens_def input_counts_def counted_def
        occurrence_count_def ids_in_range_def pen_cum_input_def numeral_3_eq_3)

text \<open>Two requests with different penalties after one generated token each; the repetition penalizer
  comes first.\<close>

definition demo_freq :: "unit req" where
  "demo_freq = demo_req\<lparr>params := default_params\<lparr>frequency_penalty := 1 / 2\<rparr>, origin_input_ids := [2]\<rparr>"

definition demo_two :: "real list \<Rightarrow> orchestrator" where
  "demo_two c = \<lparr>o_vocab = 3,
     o_penalizers = [\<lparr>pk = RepetitionP, rows = Some [RepRow 2 [2, 1, 1], RepRow 1 [1, 1, 1]]\<rparr>,
                     \<lparr>pk = FrequencyP, rows = Some [FreqRow 0 [0, 0, 0], FreqRow (1 / 2) c]\<rparr>],
     o_required = True\<rparr>"

lemma demo_two_reach: "orc_reach 3 [RepetitionP, FrequencyP] [demo_rep, demo_freq] (demo_two [0, 1 / 2, 0])"
proof (rule reach_cumulate)
  show "orc_reach 3 [RepetitionP, FrequencyP] [demo_rep, demo_freq] (demo_two [0, 0, 0])"
    by (rule reach_init)
       (simp add: orchestrator_init_def prepare_if_required_def prepare_def is_prepared_def is_required_def
          demo_rep_def demo_freq_def default_params_def demo_two_def cumulate_input_tokens_def input_counts_def
          counted_def occurrence_count_def ids_in_range_def pen_cum_input_def numeral_3_eq_3)
  show "cumulate_output_tokens (demo_two [0, 0, 0]) [demo_rep, demo_freq] [0, 1] = Ok (demo_two [0, 1 / 2, 0])"
    by (simp add: cumulate_output_tokens_def demo_two_def output_counts_def counted_def is_prepared_def
        output_occurrence_def pen_cum_output_def numeral_3_eq_3)
qed

lemma orc_filter_commutes_witness:
  "\<exists>orc'. orc_filter (map ((!) [demo_rep, demo_freq]) [1]) [1] (demo_two [0, 1 / 2, 0]) = Ok orc'
     \<and> map rows (o_penalizers orc') = [None, Some [FreqRow (1 / 2) [0, 1 / 2, 0]]]
     \<and> penalized orc' [[Fin 4, Fin 5, Fin 6]] = [[Fin 4, Fin (9 / 2), Fin 6]]"
proof -
  let ?ls = "[[Fin 1, Fin 2, Fin 3], [Fin 4, Fin 5, Fin 6]]"
  obtain orc' where f: "orc_filter (map ((!) [demo_rep, demo_freq]) [1]) [1] (demo_two [0, 1 / 2, 0]) = Ok orc'"
      "penalized orc' (map ((!) ?ls) [1]) = map ((!) (penalized (demo_two [0, 1 / 2, 0]) ?ls)) [1]"
    using orc_filter_commutes [OF demo_two_reach, of "[1]" ?ls] by (auto simp: logits_ok_def)
  have "map rows (o_penalizers orc') = [None, Some [FreqRow (1 / 2) [0, 1 / 2, 0]]]"
    using f(1) by (auto simp: orc_filter_def demo_two_def filter_one_def is_required_def demo_rep_def demo_freq_def
        default_params_def teardown_def pen_filter_def gather_opt_def gather_def is_prepared_def)
  moreover have "penalized (demo_two [0, 1 / 2, 0]) ?ls = [[Fin (1 / 2), Fin 2, Fin 3], [Fin 4, Fin (9 / 2), Fin 6]]"
    by (simp add: penalized_def orc_apply_def demo_two_def pen_apply_def)
  ultimately show ?thesis using f by auto
qed

lemma orc_merge_commutes_witness:
  "\<exists>c. orc_merge [demo_rep] [demo_rep] demo_orc demo_orc = Ok c
     \<and> penalized c ([[Fin 1, Fin 2, Fin 3]] @ [[Fin 4, Fin 5, Fin 6]])
       = penalized demo_orc [[Fin 1, Fin 2, Fin 3]] @ penalized demo_orc [[Fin 4, Fin 5, Fin 6]]"
proof -
  have "\<exists>c. orc_merge [demo_rep] [demo_rep] demo_orc demo_orc = Ok c"
    by (simp add: orc_merge_def merge_one_def demo_orc_def pen_merge_def prepare_def is_prepared_def)
  then obtain c where c: "orc_merge [demo_rep] [demo_rep] demo_orc demo_orc = Ok c" ..
  have "penalized c ([[Fin 1, Fin 2, Fin 3]] @ [[Fin 4, Fin 5, Fin 6]])
      = penalized demo_orc [[Fin 1, Fin 2, Fin 3]] @ penalized demo_orc [[Fin 4, Fin 5, Fin 6]]"
    by (rule orc_merge_commutes [OF demo_orc_reach demo_orc_reach _ c]) (simp_all add: logits_ok_def)
  with c show ?thesis by blast
qed

lemma min_new_tokens_masks_stops_witness:
  "\<exists>p. prepare 3 [demo_rep] \<lparr>pk = MinNewTokensP, rows = None\<rparr> = Ok p
     \<and> pen_apply (fold pen_cum_output [] p) [[Fin 1, Fin 2, Fin 3]] ! 0 ! 2 = NegInf"
proof -
  have stops: "all_stop_ids ([demo_rep] ! 0) = Ok [2]"
    by (simp add: demo_rep_def demo_defs all_stop_ids_def)
  then have "\<exists>p. prepare 3 [demo_rep] \<lparr>pk = MinNewTokensP, rows = None\<rparr> = Ok p"
    by (simp add: prepare_def is_prepared_def ids_in_range_def)
  then obtain p where p: "prepare 3 [demo_rep] \<lparr>pk = MinNewTokensP, rows = None\<rparr> = Ok p" ..
  have "pen_apply (fold pen_cum_output [] p) [[Fin 1, Fin 2, Fin 3]] ! 0 ! 2
     = (if int (length ([] :: nat list list list)) < min_new_tokens (params ([demo_rep] ! 0)) \<and> int 2 \<in> set [2]
        then NegInf else Fin 3)"
    by (rule min_new_tokens_masks_stops [OF p _ _ _ stops]) simp_all
  with p show ?thesis by (auto simp: demo_rep_def)
qed

end
