(* ===== verification/Sampling_Batch_Info.thy ===== *)
theory Sampling_Batch_Info
imports Penalizers
begin

text \<open>
  \<^verbatim>\<open>SamplingBatchInfo\<close> (\<^verbatim>\<open>python/sglang/srt/sampling/sampling_batch_info.py\<close>) and the use the model
  runner makes of it (\<^verbatim>\<open>apply_logits_bias\<close> in \<^verbatim>\<open>model_executor/model_runner.py\<close>).  The tensors of
  sampling parameters have one entry per request.  The penalizer orchestrator is a shared mutable
  object: the information holds a reference into a store of such objects, and \<^verbatim>\<open>copy\<close> copies the
  reference.  An orchestrator reads the requests of the batch it was built for; the store keeps that
  batch's identity and its current request list beside the orchestrator.
\<close>

section \<open>Shared penalizer objects\<close>

record 'g pen_obj =
  po_orc :: orchestrator
  po_batch :: nat
  po_reqs :: "'g req list"

type_synonym 'g pstore = "nat \<Rightarrow> 'g pen_obj option"

text \<open>A batch that changes its request list changes what its orchestrators read.\<close>

definition store_set_reqs :: "nat \<Rightarrow> 'g req list \<Rightarrow> 'g pstore \<Rightarrow> 'g pstore" where
  "store_set_reqs b reqs s =
     (\<lambda>i. map_option (\<lambda>obj. if po_batch obj = b then obj\<lparr>po_reqs := reqs\<rparr> else obj) (s i))"

definition pen_call :: "(orchestrator \<Rightarrow> orchestrator res) \<Rightarrow> nat option \<Rightarrow> 'g pstore \<Rightarrow> 'g pstore res" where
  "pen_call f ref s =
     rbind (the_obj ref) (\<lambda>i. rbind (the_obj (s i)) (\<lambda>obj.
       rbind (f (po_orc obj)) (\<lambda>orc. Ok (s(i \<mapsto> obj\<lparr>po_orc := orc\<rparr>)))))"

section \<open>The batched sampling parameters\<close>

text \<open>A bias tensor is its width and its rows.  A grammar object is opaque.\<close>

type_synonym bias = "nat \<times> real list list"

record ('g, 'm) sampling_info =
  temperatures :: "real list"
  top_ps :: "real list"
  top_ks :: "int list"
  min_ps :: "real list"
  is_all_greedy :: bool
  need_min_p_sampling :: bool
  si_vocab_size :: nat
  grammars :: "'g option list option"
  sampling_info_done :: "nat option"
  logit_bias :: "bias option"
  vocab_mask :: "'m option"
  penalizer_orchestrator :: "nat option"
  linear_penalties :: "logit list list option"
  scaling_penalties :: "real list list option"

text \<open>The penalizer classes come as a Python set, whose order of iteration is not specified (it depends on
  the addresses of the classes and is the same throughout a process): \<open>order\<close> is that order.\<close>

definition penalizer_kinds :: "pen_kind list \<Rightarrow> bool \<Rightarrow> pen_kind list" where
  "penalizer_kinds order enable_overlap_schedule =
     filter (\<lambda>k. k \<in> (if enable_overlap_schedule then {MinNewTokensP}
                      else {FrequencyP, MinNewTokensP, PresenceP, RepetitionP})) order"

text \<open>\<open>i\<close> is the identity of the new orchestrator object and \<open>b\<close> that of the batch.\<close>

definition from_schedule_batch ::
  "pen_kind list \<Rightarrow> nat \<Rightarrow> nat \<Rightarrow> 'g req list \<Rightarrow> nat \<Rightarrow> bool \<Rightarrow> 'g pstore
     \<Rightarrow> (('g, 'm) sampling_info \<times> 'g pstore) res" where
  "from_schedule_batch order i b reqs vocab ov s =
     (let ret = \<lparr>temperatures = map (\<lambda>r. temperature (params r)) reqs,
                 top_ps = map (\<lambda>r. top_p (params r)) reqs,
                 top_ks = map (\<lambda>r. top_k (params r)) reqs,
                 min_ps = map (\<lambda>r. min_p (params r)) reqs,
                 is_all_greedy = list_all (\<lambda>r. top_k (params r) \<le> 1) reqs,
                 need_min_p_sampling = list_ex (\<lambda>r. min_p (params r) > 0) reqs,
                 si_vocab_size = vocab, grammars = None, sampling_info_done = None,
                 logit_bias = None, vocab_mask = None, penalizer_orchestrator = Some i,
                 linear_penalties = None, scaling_penalties = None\<rparr>
      in rbind (orchestrator_init vocab reqs (penalizer_kinds order ov)) (\<lambda>orc.
           Ok (ret, s(i \<mapsto> \<lparr>po_orc = orc, po_batch = b, po_reqs = reqs\<rparr>))))"

definition si_len :: "('g, 'm) sampling_info \<Rightarrow> nat" where
  "si_len si = length (temperatures si)"

text \<open>The copy has its own tensors and the same orchestrator object; an empty grammar list is falsy.\<close>

definition si_copy :: "('g, 'm) sampling_info \<Rightarrow> ('g, 'm) sampling_info" where
  "si_copy si = si\<lparr>grammars := (if truthy (grammars si) then grammars si else None)\<rparr>"

definition the_pen :: "('g, 'm) sampling_info \<Rightarrow> 'g pstore \<Rightarrow> 'g pen_obj res" where
  "the_pen si s = rbind (the_obj (penalizer_orchestrator si)) (\<lambda>i. the_obj (s i))"

definition rep_coeffs :: "penalizer \<Rightarrow> real list list" where
  "rep_coeffs p = map (\<lambda>rw. case rw of RepRow c cs \<Rightarrow> cs | _ \<Rightarrow> []) (opt_list (rows p))"

definition update_penalty_step ::
  "nat \<Rightarrow> nat \<Rightarrow> penalizer \<Rightarrow> logit list list option \<times> real list list option
     \<Rightarrow> logit list list option \<times> real list list option" where
  "update_penalty_step bs vocab p = (\<lambda>(lin, scal).
     if \<not> is_prepared p then (lin, scal)
     else if pk p = RepetitionP then (lin, Some (rep_coeffs p))
     else let lin0 = (case lin of None \<Rightarrow> replicate bs (replicate vocab (Fin 0)) | Some l \<Rightarrow> l)
          in (Some (pen_apply p lin0), scal))"

definition update_penalties :: "'g pstore \<Rightarrow> ('g, 'm) sampling_info \<Rightarrow> ('g, 'm) sampling_info res" where
  "update_penalties s si =
     rbind (the_pen si s) (\<lambda>obj.
       let (lin, scal) = fold (update_penalty_step (length (po_reqs obj)) (si_vocab_size si))
                           (o_penalizers (po_orc obj)) (None, None)
       in Ok (si\<lparr>scaling_penalties := scal, linear_penalties := lin\<rparr>))"

text \<open>The grammar's mask operations are parameters: allocation, filling one row, moving to the device,
  and whether the grammar has finished.\<close>

fun fill_masks :: "('g \<Rightarrow> bool) \<Rightarrow> ('g \<Rightarrow> 'm \<Rightarrow> nat \<Rightarrow> 'm) \<Rightarrow> nat \<Rightarrow> 'g option list \<Rightarrow> 'm \<Rightarrow> 'm" where
  "fill_masks fin fill i [] m = m"
| "fill_masks fin fill i (g # gs) m =
     fill_masks fin fill (Suc i) gs (case g of None \<Rightarrow> m | Some x \<Rightarrow> if fin x then m else fill x m i)"

definition update_regex_vocab_mask ::
  "('g \<Rightarrow> nat \<Rightarrow> nat \<Rightarrow> 'm) \<Rightarrow> ('g \<Rightarrow> bool) \<Rightarrow> ('g \<Rightarrow> 'm \<Rightarrow> nat \<Rightarrow> 'm) \<Rightarrow> ('g \<Rightarrow> 'm \<Rightarrow> 'm)
     \<Rightarrow> ('g, 'm) sampling_info \<Rightarrow> ('g, 'm) sampling_info res" where
  "update_regex_vocab_mask alloc fin fill move si =
     (if \<not> truthy (grammars si) then Ok (si\<lparr>vocab_mask := None\<rparr>)
      else case find (\<lambda>g. g \<noteq> None) (opt_list (grammars si)) of
             None \<Rightarrow> Err StopIteration
           | Some None \<Rightarrow> Err StopIteration
           | Some (Some g) \<Rightarrow>
               Ok (si\<lparr>vocab_mask := Some (move g
                     (fill_masks fin fill 0 (opt_list (grammars si)) (alloc g (si_vocab_size si) (si_len si))))\<rparr>))"

definition gather_bias :: "bias option \<Rightarrow> nat list \<Rightarrow> bias option res" where
  "gather_bias x js =
     (case x of None \<Rightarrow> Ok None | Some (w, rs) \<Rightarrow> rbind (gather rs js) (\<lambda>rs'. Ok (Some (w, rs'))))"

definition si_filter :: "nat list \<Rightarrow> 'g pstore \<Rightarrow> ('g, 'm) sampling_info \<Rightarrow> (('g, 'm) sampling_info \<times> 'g pstore) res" where
  "si_filter js s si =
     rbind (the_pen si s) (\<lambda>obj.
     rbind (pen_call (orc_filter (po_reqs obj) js) (penalizer_orchestrator si) s) (\<lambda>s.
     rbind (gather (temperatures si) js) (\<lambda>t.
     rbind (gather (top_ps si) js) (\<lambda>p.
     rbind (gather (top_ks si) js) (\<lambda>k.
     rbind (gather (min_ps si) js) (\<lambda>m.
     rbind (gather_bias (logit_bias si) js) (\<lambda>b.
       Ok (si\<lparr>temperatures := t, top_ps := p, top_ks := k, min_ps := m, logit_bias := b\<rparr>, s))))))))"

definition merge_bias_tensor :: "bias option \<Rightarrow> bias option \<Rightarrow> nat \<Rightarrow> nat \<Rightarrow> real \<Rightarrow> bias option res" where
  "merge_bias_tensor lhs rhs bs1 bs2 dflt =
     (case (lhs, rhs) of
        (None, None) \<Rightarrow> Ok None
      | (Some (w, l), None) \<Rightarrow> Ok (Some (w, l @ replicate bs2 (replicate w dflt)))
      | (None, Some (w, r)) \<Rightarrow> Ok (Some (w, replicate bs1 (replicate w dflt) @ r))
      | (Some (w, l), Some (w', r)) \<Rightarrow> if w = w' then Ok (Some (w, l @ r)) else Err RuntimeError)"

definition si_merge ::
  "'g pstore \<Rightarrow> ('g, 'm) sampling_info \<Rightarrow> ('g, 'm) sampling_info \<Rightarrow> (('g, 'm) sampling_info \<times> 'g pstore) res" where
  "si_merge s si other =
     rbind (the_pen si s) (\<lambda>obj. rbind (the_pen other s) (\<lambda>obj'.
     rbind (pen_call (\<lambda>orc. orc_merge (po_reqs obj) (po_reqs obj') orc (po_orc obj'))
              (penalizer_orchestrator si) s) (\<lambda>s.
       let si' = si\<lparr>temperatures := temperatures si @ temperatures other,
                    top_ps := top_ps si @ top_ps other,
                    top_ks := top_ks si @ top_ks other,
                    min_ps := min_ps si @ min_ps other,
                    is_all_greedy := is_all_greedy si \<and> is_all_greedy other\<rparr>
       in rbind (merge_bias_tensor (logit_bias si') (logit_bias other) (si_len si') (si_len other) 0) (\<lambda>b.
            Ok (si'\<lparr>logit_bias := b\<rparr>, s)))))"

text \<open>The model runner's use of the bias and penalty tensors; \<open>apply_mask\<close> is the grammar's.\<close>

fun add_logit :: "logit \<Rightarrow> logit \<Rightarrow> logit" where
  "add_logit (Fin x) (Fin y) = Fin (x + y)"
| "add_logit (Fin x) l = l"
| "add_logit NegInf PosInf = NaN"
| "add_logit NegInf NaN = NaN"
| "add_logit NegInf l = NegInf"
| "add_logit PosInf NegInf = NaN"
| "add_logit PosInf NaN = NaN"
| "add_logit PosInf l = PosInf"
| "add_logit NaN l = NaN"

definition apply_logits_bias ::
  "('m \<Rightarrow> logit list list \<Rightarrow> logit list list) \<Rightarrow> ('g, 'm) sampling_info \<Rightarrow> logit list list \<Rightarrow> logit list list" where
  "apply_logits_bias apply_mask si ls =
     (let ls = (case logit_bias si of None \<Rightarrow> ls
                | Some (w, bs) \<Rightarrow> map2 (map2 (\<lambda>l b. add_logit l (Fin b))) ls bs);
          ls = (case linear_penalties si of None \<Rightarrow> ls | Some lin \<Rightarrow> map2 (map2 add_logit) ls lin);
          ls = (case scaling_penalties si of None \<Rightarrow> ls
                | Some sc \<Rightarrow> map2 (map2 (\<lambda>l k. scale_logit k l)) ls sc)
      in case vocab_mask si of None \<Rightarrow> ls | Some m \<Rightarrow> apply_mask m ls)"

section \<open>The tensors follow the requests\<close>

text \<open>The tensors hold the sampling parameters of exactly these requests, in order.\<close>

definition si_for :: "'g req list \<Rightarrow> ('g, 'm) sampling_info \<Rightarrow> bool" where
  "si_for reqs si \<longleftrightarrow>
     temperatures si = map (\<lambda>r. temperature (params r)) reqs
   \<and> top_ps si = map (\<lambda>r. top_p (params r)) reqs
   \<and> top_ks si = map (\<lambda>r. top_k (params r)) reqs
   \<and> min_ps si = map (\<lambda>r. min_p (params r)) reqs
   \<and> (is_all_greedy si \<longrightarrow> list_all (\<lambda>r. top_k (params r) \<le> 1) reqs)
   \<and> logit_bias si = None"

lemma si_for_length: "si_for reqs si \<Longrightarrow> si_len si = length reqs"
  by (simp add: si_for_def si_len_def)

lemma from_schedule_batch_for:
  "from_schedule_batch order i b reqs vocab ov s = Ok (si, s') \<Longrightarrow> si_for reqs si"
  by (auto simp: from_schedule_batch_def si_for_def rbind_eq_Ok)

lemma si_copy_for: "si_for reqs si \<Longrightarrow> si_for reqs (si_copy si)"
  by (simp add: si_for_def si_copy_def)

lemma si_filter_for:
  "si_filter js s si = Ok (si', s') \<Longrightarrow> si_for reqs si \<Longrightarrow> si_for (map ((!) reqs) js) si'
     \<and> (\<forall>j \<in> set js. j < length reqs)"
  unfolding si_filter_def si_for_def rbind_eq_Ok
  by (elim exE conjE) (simp add: gather_eq_Ok gather_bias_def list_all_iff, fastforce)

lemma si_merge_for:
  "si_merge s si other = Ok (si', s') \<Longrightarrow> si_for reqs si \<Longrightarrow> si_for reqs' other
    \<Longrightarrow> si_for (reqs @ reqs') si'"
  by (auto simp: si_merge_def si_for_def rbind_eq_Ok Let_def merge_bias_tensor_def)

text \<open>C28: The batched sampling parameters stay the parameters of the batch's own requests, row by row:
  building, copying, filtering to a list of positions and merging each give the tensors of the
  requests the batch then holds, the all-greedy flag is never true wrongly, and filtering succeeds
  only for positions inside the batch.\<close>

theorem sampling_rows_follow_requests:
  "(from_schedule_batch order i b reqs vocab ov s = Ok (si0, s0) \<longrightarrow> si_for reqs si0)
 \<and> (si_for reqs si \<longrightarrow> si_for reqs (si_copy si))
 \<and> (si_for reqs si \<and> si_filter js s si = Ok (si1, s1)
      \<longrightarrow> si_for (map ((!) reqs) js) si1 \<and> (\<forall>j \<in> set js. j < length reqs))
 \<and> (si_for reqs si \<and> si_for reqs' other \<and> si_merge s si other = Ok (si2, s2)
      \<longrightarrow> si_for (reqs @ reqs') si2)"
  by (intro conjI impI ballI; (elim conjE)?)
     (erule from_schedule_batch_for, erule si_copy_for, erule (1) si_filter_for [THEN conjunct1],
      erule (1) si_filter_for [THEN conjunct2, rule_format], assumption, erule (2) si_merge_for)

text \<open>Merging does not recompute the min-p flag: when this batch has no request with a positive
  min-p and the other has one, the merged information still says that min-p sampling is not needed
  (and likewise filtering never lowers it).  Merging also pads a missing bias tensor of this batch to
  the size after the merge instead of the size before it, so the merged bias tensor has one block of
  rows too many.\<close>

theorem si_merge_stale:
  assumes "si_merge s si other = Ok (si', s')"
  shows "need_min_p_sampling si' = need_min_p_sampling si
       \<and> (logit_bias si = None \<and> logit_bias other = Some (w, rs)
            \<longrightarrow> (\<exists>rs'. logit_bias si' = Some (w, rs')
                 \<and> length rs' = si_len si + si_len other + length rs))"
  using assms
  by (auto simp: si_merge_def rbind_eq_Ok Let_def merge_bias_tensor_def si_len_def split: option.splits)

section \<open>The factored penalties are the sequential ones\<close>

lemma add_logit_zero [simp]: "add_logit l (Fin 0) = l"
  by (cases l) auto

lemma add_logit_sub_real:
  "add_logit (Fin x) (sub_real l c) = sub_real (add_logit (Fin x) l) c"
  by (cases l) auto

lemma add_logit_neg_inf:
  "add_logit (Fin x) (add_neg_inf l) = add_neg_inf (add_logit (Fin x) l)"
  by (cases l) auto

lemma map2_add_row:
  assumes "row_ok vocab k r rw" "k \<noteq> RepetitionP" "length xs = vocab" "length lin = vocab"
  shows "map2 add_logit (map Fin xs) (apply_row rw lin)
       = apply_row rw (map2 add_logit (map Fin xs) lin)"
  using assms
  by (auto elim!: row_okE intro!: nth_equalityI simp: add_logit_sub_real add_logit_neg_inf)

text \<open>The logits with the linear penalties gathered so far, and the shape of those penalties.\<close>

fun with_lin :: "real list list \<Rightarrow> logit list list option \<Rightarrow> logit list list" where
  "with_lin xss None = map (map Fin) xss"
| "with_lin xss (Some lin) = map2 (map2 add_logit) (map (map Fin) xss) lin"

definition lin_ok :: "nat \<Rightarrow> nat \<Rightarrow> logit list list option \<Rightarrow> bool" where
  "lin_ok vocab n lin = (case lin of None \<Rightarrow> True | Some l \<Rightarrow> logits_ok vocab n l)"

lemma zeros_ok: "logits_ok vocab n (replicate n (replicate vocab (Fin 0)))"
  by (simp add: logits_ok_def list_all_iff)

lemma with_lin_zeros:
  assumes "logits_ok vocab n (map (map Fin) xss)"
  shows "with_lin xss (Some (replicate n (replicate vocab (Fin 0)))) = map (map Fin) xss"
proof -
  have "map2 (map2 add_logit) (map (map Fin) xss) (replicate n (replicate vocab (Fin 0))) ! i
      = map (map Fin) xss ! i" if "i < length xss" for i
    using assms that by (simp add: logits_ok_def list_all_length map2_replicate_right)
  then show ?thesis using assms by (intro nth_equalityI) (auto simp: logits_ok_def)
qed

lemma with_lin_pen_apply:
  assumes "pen_ok vocab reqs p" "pk p \<noteq> RepetitionP" "logits_ok vocab (length reqs) lin"
    "logits_ok vocab (length reqs) (map (map Fin) xss)"
  shows "with_lin xss (Some (pen_apply p lin)) = pen_apply p (with_lin xss (Some lin))"
proof (cases "rows p")
  case None
  then show ?thesis by (simp add: pen_apply_def)
next
  case (Some rs)
  with assms(1) have all: "list_all2 (row_ok vocab (pk p)) reqs rs" by (simp add: pen_ok_Some)
  have len: "length rs = length reqs" "length lin = length reqs" "length xss = length reqs"
    using all assms(3,4) by (simp_all add: list_all2_lengthD logits_ok_def)
  have "map2 add_logit (map Fin (xss ! i)) (apply_row (rs ! i) (lin ! i))
      = apply_row (rs ! i) (map2 add_logit (map Fin (xss ! i)) (lin ! i))" if i: "i < length reqs" for i
    using all assms(2-4) i
    by (intro map2_add_row [of vocab "pk p" "reqs ! i"]) (auto simp: list_all2_nthD logits_ok_def list_all_length)
  then show ?thesis using Some len by (auto simp: pen_apply_def intro!: nth_equalityI)
qed

lemma update_penalty_step_linear:
  assumes "pen_ok vocab reqs p" "pk p \<noteq> RepetitionP" "lin_ok vocab (length reqs) lin"
    "logits_ok vocab (length reqs) (map (map Fin) xss)"
    "update_penalty_step (length reqs) vocab p (lin, scal) = (lin', scal')"
  shows "scal' = scal \<and> lin_ok vocab (length reqs) lin' \<and> with_lin xss lin' = pen_apply p (with_lin xss lin)"
proof (cases "rows p")
  case None
  then show ?thesis using assms by (auto simp: update_penalty_step_def is_prepared_def pen_apply_def)
next
  case (Some rs)
  define l where "l = (case lin of None \<Rightarrow> replicate (length reqs) (replicate vocab (Fin 0)) | Some l \<Rightarrow> l)"
  have l: "logits_ok vocab (length reqs) l" "with_lin xss (Some l) = with_lin xss lin"
    using assms(3) zeros_ok [of vocab "length reqs"] with_lin_zeros [OF assms(4)]
    by (auto simp: l_def lin_ok_def split: option.splits)
  have "lin' = Some (pen_apply p l)" "scal' = scal"
    using assms(2,5) Some by (auto simp: update_penalty_step_def is_prepared_def l_def)
  then show ?thesis
    using with_lin_pen_apply [OF assms(1,2) l(1) assms(4)] pen_apply_ok [OF assms(1) l(1)] l(2)
    by (simp add: lin_ok_def)
qed

lemma update_penalties_linear:
  assumes "list_all (pen_ok vocab reqs) ps" "RepetitionP \<notin> pk ` set ps" "lin_ok vocab (length reqs) lin"
    "logits_ok vocab (length reqs) (map (map Fin) xss)"
  shows "\<exists>lin'. fold (update_penalty_step (length reqs) vocab) ps (lin, scal) = (lin', scal)
           \<and> lin_ok vocab (length reqs) lin' \<and> with_lin xss lin' = fold pen_apply ps (with_lin xss lin)"
  using assms(1-3)
proof (induction ps arbitrary: lin)
  case Nil
  then show ?case by simp
next
  case (Cons p ps)
  obtain lin1 scal1 where s: "update_penalty_step (length reqs) vocab p (lin, scal) = (lin1, scal1)" by fastforce
  have "scal1 = scal" "lin_ok vocab (length reqs) lin1" "with_lin xss lin1 = pen_apply p (with_lin xss lin)"
    using update_penalty_step_linear [OF _ _ _ assms(4) s] Cons.prems by auto
  then show ?case using Cons.IH [of lin1] Cons.prems s by auto
qed

lemma rep_scale_rows:
  assumes "pen_ok vocab reqs p" "pk p = RepetitionP" "rows p = Some rs" "logits_ok vocab (length reqs) ls"
  shows "map2 (map2 (\<lambda>l k. scale_logit k l)) ls (rep_coeffs p) = pen_apply p ls"
proof -
  have all: "list_all2 (row_ok vocab RepetitionP) reqs rs" using assms(1-3) by (simp add: pen_ok_Some)
  have len: "length rs = length reqs" "length ls = length reqs"
    using all assms(4) by (simp_all add: list_all2_lengthD logits_ok_def)
  have "map2 (\<lambda>l k. scale_logit k l) (ls ! i) (case rs ! i of RepRow c cs \<Rightarrow> cs | _ \<Rightarrow> [])
      = apply_row (rs ! i) (ls ! i)" if "i < length reqs" for i
    using list_all2_nthD [OF all that] by (cases "rs ! i") auto
  then show ?thesis
    using assms(3) len by (intro nth_equalityI) (simp_all add: pen_apply_def rep_coeffs_def)
qed

text \<open>The repetition factors and the additive penalties are collected independently of each other.\<close>

lemma step_rep_commutes:
  assumes "pk p = RepetitionP" "RepetitionP \<notin> pk ` set qs"
  shows "fold (update_penalty_step n vocab) qs (update_penalty_step n vocab p st)
       = update_penalty_step n vocab p (fold (update_penalty_step n vocab) qs st)"
proof -
  have "update_penalty_step n vocab p \<circ> update_penalty_step n vocab q
      = update_penalty_step n vocab q \<circ> update_penalty_step n vocab p" if "q \<in> set qs" for q
  proof -
    have "pk q \<noteq> RepetitionP" using assms(2) that by (metis imageI)
    then show ?thesis using assms(1) by (auto simp: update_penalty_step_def fun_eq_iff)
  qed
  then show ?thesis by (rule fold_commute_apply [symmetric])
qed

abbreviation additive :: "penalizer list \<Rightarrow> penalizer list" where
  "additive \<equiv> filter (\<lambda>p. pk p \<noteq> RepetitionP)"

abbreviation multiplicative :: "penalizer list \<Rightarrow> penalizer list" where
  "multiplicative \<equiv> filter (\<lambda>p. pk p = RepetitionP)"

lemma fold_steps_sorted:
  "fold (update_penalty_step n vocab) ps st
     = fold (update_penalty_step n vocab) (additive ps @ multiplicative ps) st"
proof (induction ps arbitrary: st)
  case (Cons p ps)
  have "RepetitionP \<notin> pk ` set (additive ps)" by auto
  then show ?case using Cons.IH step_rep_commutes [of p "additive ps" n vocab st] by auto
qed simp

text \<open>The order of the additive penalizers does not matter.\<close>

lemma add_sub_commute:
  "sub_real (sub_real l c) d = sub_real (sub_real l d) c"
  "sub_real (add_neg_inf l) c = add_neg_inf (sub_real l c)"
  by (cases l; simp)+

lemma apply_row_commute:
  assumes "row_ok vocab k r rw" "row_ok vocab k' r' rw'" "k \<noteq> RepetitionP" "k' \<noteq> RepetitionP"
  shows "apply_row rw (apply_row rw' ls) = apply_row rw' (apply_row rw ls)"
  using assms
  by (auto elim!: row_okE intro!: nth_equalityI simp: add_sub_commute)

lemma pen_apply_commute:
  assumes "pen_ok vocab reqs p" "pen_ok vocab reqs q" "pk p \<noteq> RepetitionP" "pk q \<noteq> RepetitionP"
  shows "pen_apply p (pen_apply q ls) = pen_apply q (pen_apply p ls)"
proof (cases "rows p = None \<or> rows q = None")
  case True
  then show ?thesis by (auto simp: pen_apply_def split: option.splits)
next
  case False
  then obtain rs rs' where r: "rows p = Some rs" "rows q = Some rs'" by auto
  have all: "list_all2 (row_ok vocab (pk p)) reqs rs" "list_all2 (row_ok vocab (pk q)) reqs rs'"
    using assms(1,2) r by (simp_all add: pen_ok_Some)
  have len: "length rs = length reqs" "length rs' = length reqs" using all by (auto dest: list_all2_lengthD)
  have "apply_row (rs ! i) (apply_row (rs' ! i) l) = apply_row (rs' ! i) (apply_row (rs ! i) l)"
    if "i < length reqs" for i l
    using list_all2_nthD [OF all(1) that] list_all2_nthD [OF all(2) that] assms(3,4)
    by (rule apply_row_commute)
  then show ?thesis using r len by (auto simp: pen_apply_def intro!: nth_equalityI)
qed

lemma fold_pen_apply_any_order:
  assumes "list_all (pen_ok vocab reqs) ps" "distinct (map pk ps)" "mset qs = mset ps"
    and last: "RepetitionP \<notin> pk ` set (butlast qs)"
  shows "fold pen_apply (additive ps @ multiplicative ps) ls = fold pen_apply qs ls"
proof -
  have sorted: "additive qs @ multiplicative qs = qs"
  proof (cases qs rule: rev_cases)
    case (snoc xs x)
    then have "\<forall>p \<in> set xs. pk p \<noteq> RepetitionP" using last by (metis butlast_snoc imageI)
    then have "additive xs = xs" "multiplicative xs = []" by (simp_all add: filter_id_conv filter_empty_conv)
    then show ?thesis using snoc by simp
  qed simp
  have add: "fold pen_apply (additive ps) = fold pen_apply (additive qs)"
  proof (rule fold_multiset_equiv)
    show "mset (additive ps) = mset (additive qs)" using assms(3) by simp
    fix p q assume "p \<in> set (additive ps)" "q \<in> set (additive ps)"
    then show "pen_apply p \<circ> pen_apply q = pen_apply q \<circ> pen_apply p"
      using assms(1) by (auto simp: fun_eq_iff list_all_iff intro: pen_apply_commute)
  qed
  have "multiplicative ps = multiplicative qs"
  proof -
    have d: "length (multiplicative ps) \<le> 1"
      using assms(2)
    proof (induction ps)
      case (Cons p ps)
      then have "pk p = RepetitionP \<Longrightarrow> multiplicative ps = []" by (force simp: filter_empty_conv)
      then show ?case using Cons by auto
    qed simp
    have "mset (multiplicative ps) = mset (multiplicative qs)" using assms(3) by simp
    moreover from this have "length (multiplicative qs) = length (multiplicative ps)" by (metis size_mset)
    ultimately show ?thesis using d
      by (cases "multiplicative ps"; cases "multiplicative qs") auto
  qed
  then show ?thesis using add sorted by (metis fold_append comp_apply)
qed

text \<open>C27: The factored penalties are the sequential ones, whatever the order of the penalizers: collecting
  the additive penalties on a zero tensor and the repetition factors separately, and applying them in
  the model runner, changes finite logits exactly as applying the penalizers one after the other does,
  in every order that has the repetition penalizer last, for every orchestrator a batch can hold and
  whatever order the orchestrator itself keeps its penalizers in, when no bias or grammar mask is set.
  So the result does not depend on the order in which the Python set of penalizer classes is iterated;
  only the order in which the repetition penalizer comes last is the sequence that is meant.\<close>

theorem factored_penalties_equiv:
  assumes reach: "orc_reach vocab kinds reqs orc" "distinct kinds"
    and obj: "penalizer_orchestrator si = Some i" "s i = Some \<lparr>po_orc = orc, po_batch = b, po_reqs = reqs\<rparr>"
    and si: "si_vocab_size si = vocab" "logit_bias si = None" "vocab_mask si = None"
    and xss: "logits_ok vocab (length reqs) (map (map Fin) xss)"
    and order: "mset qs = mset (o_penalizers orc)" "RepetitionP \<notin> pk ` set (butlast qs)"
  shows "\<exists>si'. update_penalties s si = Ok si'
           \<and> apply_logits_bias am si' (map (map Fin) xss)
             = penalized (orc\<lparr>o_penalizers := qs\<rparr>) (map (map Fin) xss)"
proof -
  let ?ps = "o_penalizers orc" and ?ls = "map (map Fin) xss"
  let ?step = "update_penalty_step (length reqs) vocab"
  have ok: "orc_ok reqs orc" "o_vocab orc = vocab" "map pk ?ps = kinds" using orc_reach_ok [OF reach] by auto
  then have all: "list_all (pen_ok vocab reqs) ?ps" by (simp add: orc_ok_def)
  have set: "set qs = set ?ps" using order(1) by (metis set_mset_mset)
  have "mset (map pk qs) = mset (map pk ?ps)" using order(1) by simp
  then have "distinct (map pk qs)" using ok(1) by (metis mset_eq_imp_distinct_iff orc_ok_def)
  then have "orc_ok reqs (orc\<lparr>o_penalizers := qs\<rparr>)"
    using ok(1) set by (auto simp: orc_ok_def list_all_iff list_ex_iff)
  then have pen: "penalized (orc\<lparr>o_penalizers := qs\<rparr>) ?ls = fold pen_apply qs ?ls"
    using penalized_fold [of reqs "orc\<lparr>o_penalizers := qs\<rparr>" ?ls] ok(2) xss by simp
  have any: "fold pen_apply (additive ?ps @ multiplicative ?ps) ?ls = fold pen_apply qs ?ls"
    using fold_pen_apply_any_order [OF all _ order] ok reach(2) by simp
  have qs: "list_all (pen_ok vocab reqs) (additive ?ps)" "RepetitionP \<notin> pk ` set (additive ?ps)"
    using all by (auto simp: list_all_iff)
  obtain lin where lin: "fold ?step (additive ?ps) (None, None) = (lin, None)"
      "lin_ok vocab (length reqs) lin" "with_lin xss lin = fold pen_apply (additive ?ps) ?ls"
    using update_penalties_linear [OF qs _ xss, of None None] by (auto simp: lin_ok_def)
  define si1 where "si1 = (case fold ?step ?ps (None, None) of
      (lin, scal) \<Rightarrow> si\<lparr>scaling_penalties := scal, linear_penalties := lin\<rparr>)"
  have upd: "update_penalties s si = Ok si1"
    using obj si(1) by (simp add: update_penalties_def the_pen_def si1_def split: prod.splits)
  have si1: "si1 = (case fold ?step (multiplicative ?ps) (lin, None) of
      (lin, scal) \<Rightarrow> si\<lparr>scaling_penalties := scal, linear_penalties := lin\<rparr>)"
    unfolding si1_def by (subst fold_steps_sorted) (simp add: lin(1))
  have lin_case: "(case lin of None \<Rightarrow> ?ls | Some l \<Rightarrow> map2 (map2 add_logit) ?ls l) = with_lin xss lin"
    by (cases lin) auto
  have "distinct (map pk (multiplicative ?ps))"
    using ok(1) by (simp add: orc_ok_def distinct_map_filter)
  moreover have "pk ` set (multiplicative ?ps) \<subseteq> {RepetitionP}" by auto
  ultimately have "multiplicative ?ps = [] \<or> (\<exists>p. multiplicative ?ps = [p] \<and> pk p = RepetitionP)"
    by (cases "multiplicative ?ps" rule: remdups_adj.cases) auto
  then have "apply_logits_bias am si1 ?ls = fold pen_apply (additive ?ps @ multiplicative ?ps) ?ls"
  proof (elim disjE exE conjE)
    assume "multiplicative ?ps = []"
    then show ?thesis using lin lin_case si by (simp add: si1 apply_logits_bias_def Let_def)
  next
    fix p assume rest: "multiplicative ?ps = [p]" "pk p = RepetitionP"
    have "p \<in> set ?ps" using rest(1) by (metis filter_eq_Cons_iff in_set_conv_decomp)
    then have okp: "pen_ok vocab reqs p" using all by (simp add: list_all_iff)
    have shape: "logits_ok vocab (length reqs) (with_lin xss lin)"
      using lin(3) fold_pen_apply_ok [OF qs(1) xss] by simp
    show ?thesis
    proof (cases "rows p")
      case None
      then show ?thesis using rest lin lin_case si
        by (simp add: si1 apply_logits_bias_def Let_def update_penalty_step_def is_prepared_def pen_apply_def)
    next
      case (Some rs)
      then show ?thesis using rest lin lin_case si rep_scale_rows [OF okp rest(2) Some shape]
        by (simp add: si1 apply_logits_bias_def Let_def update_penalty_step_def is_prepared_def)
    qed
  qed
  then show ?thesis using upd pen any by auto
qed

section \<open>The properties on concrete batches\<close>

definition demo_si :: "(unit, unit) sampling_info" where
  "demo_si = \<lparr>temperatures = [1], top_ps = [1], top_ks = [-1], min_ps = [0], is_all_greedy = True,
     need_min_p_sampling = False, si_vocab_size = 3, grammars = None, sampling_info_done = None,
     logit_bias = None, vocab_mask = None, penalizer_orchestrator = Some 0,
     linear_penalties = None, scaling_penalties = None\<rparr>"

definition demo_store :: "unit pstore" where
  "demo_store = Map.empty(0 \<mapsto> \<lparr>po_orc = demo_orc, po_batch = 0, po_reqs = [demo_rep]\<rparr>)"

text \<open>The orchestrator keeps the repetition penalizer first; the sequence that is meant has it last.\<close>

lemma factored_penalties_equiv_witness:
  "\<exists>si'. update_penalties (Map.empty(0 \<mapsto> \<lparr>po_orc = demo_two [0, 1 / 2, 0], po_batch = 0, po_reqs = [demo_rep, demo_freq]\<rparr>))
           demo_si = Ok si'
     \<and> apply_logits_bias (\<lambda>_ ls. ls) si' (map (map Fin) [[4, 5, 6], [4, 5, 6]])
       = penalized (demo_two [0, 1 / 2, 0]\<lparr>o_penalizers := rev (o_penalizers (demo_two [0, 1 / 2, 0]))\<rparr>)
           (map (map Fin) [[4, 5, 6], [4, 5, 6]])
     \<and> apply_logits_bias (\<lambda>_ ls. ls) si' (map (map Fin) [[4, 5, 6], [4, 5, 6]])
       = [[Fin 2, Fin 5, Fin 6], [Fin 4, Fin (9 / 2), Fin 6]]"
proof -
  let ?o = "demo_two [0, 1 / 2, 0]" and ?ls = "map (map Fin) [[4, 5, 6], [4, 5, 6]]"
  let ?q = "?o\<lparr>o_penalizers := rev (o_penalizers ?o)\<rparr>"
  have "\<exists>si'. update_penalties (Map.empty(0 \<mapsto> \<lparr>po_orc = ?o, po_batch = 0, po_reqs = [demo_rep, demo_freq]\<rparr>)) demo_si = Ok si'
     \<and> apply_logits_bias (\<lambda>_ ls. ls) si' ?ls = penalized ?q ?ls"
    by (rule factored_penalties_equiv [OF demo_two_reach, where i = 0 and b = 0])
       (simp_all add: demo_si_def demo_two_def logits_ok_def)
  moreover have "penalized ?q ?ls = [[Fin 2, Fin 5, Fin 6], [Fin 4, Fin (9 / 2), Fin 6]]"
    by (simp add: penalized_def orc_apply_def demo_two_def pen_apply_def)
  ultimately show ?thesis by auto
qed

text \<open>Two requests with different parameters: one batch is built for each, the second is merged into the
  first, the result is filtered to the second row and copied.\<close>

definition demo_hot :: "unit req" where
  "demo_hot = demo_req\<lparr>params := default_params\<lparr>temperature := 2, top_k := 5, min_p := 1 / 2\<rparr>\<rparr>"

lemma sampling_rows_follow_requests_witness:
  "\<exists>si0 s0 si1 s1 si2 s2 si3 s3.
     from_schedule_batch [MinNewTokensP, RepetitionP] 0 0 [demo_req] 3 False Map.empty
       = Ok (si0 :: (unit, unit) sampling_info, s0)
   \<and> from_schedule_batch [MinNewTokensP, RepetitionP] 1 1 [demo_hot] 3 False s0 = Ok (si1, s1)
   \<and> si_merge s1 si0 si1 = Ok (si2, s2)
   \<and> si_filter [1] s2 si2 = Ok (si3, s3)
   \<and> si_for [demo_req] si0 \<and> si_for [demo_hot] si1 \<and> si_for [demo_req, demo_hot] si2
   \<and> si_for [demo_hot] si3 \<and> si_for [demo_hot] (si_copy si3)
   \<and> temperatures si2 = [1, 2] \<and> temperatures (si_copy si3) = [2]"
proof -
  note follow = sampling_rows_follow_requests
  let ?k = "[MinNewTokensP, RepetitionP]"
  have "\<exists>si0 s0 si1 s1 si2 s2 si3 s3.
     from_schedule_batch ?k 0 0 [demo_req] 3 False Map.empty = Ok (si0 :: (unit, unit) sampling_info, s0)
   \<and> from_schedule_batch ?k 1 1 [demo_hot] 3 False s0 = Ok (si1, s1)
   \<and> si_merge s1 si0 si1 = Ok (si2, s2) \<and> si_filter [1] s2 si2 = Ok (si3, s3)"
    by (simp add: from_schedule_batch_def orchestrator_init_def penalizer_kinds_def prepare_if_required_def
        is_required_def demo_hot_def demo_defs si_merge_def the_pen_def pen_call_def orc_merge_def Let_def
        merge_bias_tensor_def si_filter_def orc_filter_def gather_def gather_bias_def)
  then obtain si0 s0 si1 s1 si2 s2 si3 s3 where
      r: "from_schedule_batch ?k 0 0 [demo_req] 3 False Map.empty = Ok (si0 :: (unit, unit) sampling_info, s0)"
         "from_schedule_batch ?k 1 1 [demo_hot] 3 False s0 = Ok (si1, s1)"
         "si_merge s1 si0 si1 = Ok (si2, s2)" "si_filter [1] s2 si2 = Ok (si3, s3)"
    by blast
  have built: "si_for [demo_req] si0" "si_for [demo_hot] si1"
    using follow [THEN conjunct1] r(1,2) by blast+
  then have merged: "si_for [demo_req, demo_hot] si2"
    using follow [THEN conjunct2, THEN conjunct2, THEN conjunct2, of "[demo_req]" si0 "[demo_hot]" si1] r(3) by auto
  then have cut: "si_for [demo_hot] si3"
    using follow [THEN conjunct2, THEN conjunct2, THEN conjunct1, of "[demo_req, demo_hot]" si2] r(4) by fastforce
  then have "si_for [demo_hot] (si_copy si3)"
    using follow [THEN conjunct2, THEN conjunct1] by blast
  with r built merged cut show ?thesis
    by (intro exI conjI) (assumption | simp add: si_for_def demo_hot_def demo_defs)+
qed

lemma si_merge_stale_witness:
  "\<exists>si' s'. si_merge (Map.empty(0 \<mapsto> \<lparr>po_orc = demo_orc\<lparr>o_required := False\<rparr>, po_batch = 0, po_reqs = [demo_rep]\<rparr>))
              demo_si (demo_si\<lparr>need_min_p_sampling := True, logit_bias := Some (2, [[1, 1]])\<rparr>) = Ok (si', s')
     \<and> \<not> need_min_p_sampling si' \<and> (\<exists>rs'. logit_bias si' = Some (2, rs') \<and> length rs' = 3)"
proof -
  let ?s = "Map.empty(0 \<mapsto> \<lparr>po_orc = demo_orc\<lparr>o_required := False\<rparr>, po_batch = 0, po_reqs = [demo_rep]\<rparr>)"
  let ?o = "demo_si\<lparr>need_min_p_sampling := True, logit_bias := Some (2, [[1, 1]])\<rparr>"
  have "\<exists>si' s'. si_merge ?s demo_si ?o = Ok (si', s')"
    by (simp add: si_merge_def the_pen_def pen_call_def demo_si_def orc_merge_def Let_def
        merge_bias_tensor_def)
  then obtain si' s' where m: "si_merge ?s demo_si ?o = Ok (si', s')" by blast
  show ?thesis using m si_merge_stale [OF m, of 2 "[[1, 1]]"] by (auto simp: demo_si_def si_len_def)
qed

end
