(* ===== verification/Prefix_Cache.thy ===== *)
theory Prefix_Cache
imports Request Memory_Pool
begin

text \<open>
  The interface of the prefix caches (\<^verbatim>\<open>python/sglang/srt/mem_cache/base_prefix_cache.py\<close>), whose
  methods the batches and the scheduler call without knowing which cache is installed.  A cache
  object is a record of its methods over a state type; the contract the callers rely on is a locale,
  interpreted by each cache on its own methods.
\<close>

text \<open>The two memory pools a cache and the batches share.\<close>

record mem =
  m_rpool :: req_pool
  m_kv :: kv_pool

text \<open>\<open>evict\<close> calls its callback once per evicted node: its result lists the arguments of the calls.
  \<open>op_del_entry\<close> is \<^verbatim>\<open>del tree_cache.entries[rid]\<close>, an access only the chunk cache supports.\<close>

record ('g, 'c) cache_ops =
  is_chunk_cache :: bool
  op_disable :: "'c \<Rightarrow> bool"
  op_match_prefix :: "string \<Rightarrow> int list \<Rightarrow> 'c \<Rightarrow> (nat list \<times> node_ref option) \<times> 'c"
  op_cache_finished :: "'g req \<Rightarrow> int list option \<Rightarrow> 'c \<Rightarrow> mem \<Rightarrow> ('g req \<times> 'c \<times> mem) res"
  op_cache_unfinished :: "'g req \<Rightarrow> int list option \<Rightarrow> 'c \<Rightarrow> mem \<Rightarrow> ('g req \<times> 'c \<times> mem) res"
  op_evict :: "nat \<Rightarrow> 'c \<Rightarrow> nat list list \<times> 'c"
  op_inc_lock :: "node_ref option \<Rightarrow> 'c \<Rightarrow> (int \<times> 'c) res"
  op_dec_lock :: "node_ref option \<Rightarrow> 'c \<Rightarrow> (int \<times> 'c) res"
  op_evictable_size :: "'c \<Rightarrow> int"
  op_del_entry :: "string \<Rightarrow> 'c \<Rightarrow> 'c res"

text \<open>Evicting with the pool's \<^verbatim>\<open>free\<close> as the callback.\<close>

definition evict_into :: "('g, 'c) cache_ops \<Rightarrow> nat \<Rightarrow> 'c \<Rightarrow> kv_pool \<Rightarrow> 'c \<times> kv_pool" where
  "evict_into ops n c kv = (let (freed, c') = op_evict ops n c in (c', fold kv_release freed kv))"

text \<open>The contract: a match never returns more indices than the key has tokens and keeps the cache
  well formed; an eviction gives back exactly as many slots as the evictable size drops by, and enough
  of them when there are enough.\<close>

locale prefix_cache =
  fixes ops :: "('g, 'c) cache_ops" and inv :: "'c \<Rightarrow> bool"
  assumes match_len: "inv c \<Longrightarrow> length (fst (fst (op_match_prefix ops r key c))) \<le> length key"
    and match_inv: "inv c \<Longrightarrow> inv (snd (op_match_prefix ops r key c))"
    and evict_inv: "inv c \<Longrightarrow> inv (snd (op_evict ops n c))"
    and evict_drop: "inv c \<Longrightarrow> op_evictable_size ops (snd (op_evict ops n c))
        = op_evictable_size ops c - int (length (concat (fst (op_evict ops n c))))"
    and evict_enough: "inv c \<Longrightarrow> min (int n) (op_evictable_size ops c)
        \<le> int (length (concat (fst (op_evict ops n c))))"
begin

lemma next_round:
  assumes c: "inv c" and nonempty: "origin_input_ids r @ output_ids r \<noteq> []"
  shows "let (r', c') = init_next_round_input (Some (op_match_prefix ops)) c r in
           inv c' \<and> fill_ids r' = Some (origin_input_ids r @ output_ids r)
         \<and> 1 \<le> extend_input_len r'
         \<and> int (length (prefix_indices r')) + extend_input_len r' = int (length (origin_input_ids r @ output_ids r))"
proof -
  let ?mp = "\<lambda>r k _. op_match_prefix ops r k c"
  obtain key r1 where a: "adjust_max_prefix_ids (r\<lparr>fill_ids := Some (origin_input_ids r @ output_ids r)\<rparr>) = (key, r1)"
    by fastforce
  obtain pre nd c1 where m: "op_match_prefix ops (rid r1) key c = ((pre, nd), c1)" by (metis prod.exhaust_sel)
  have "inv c1" using match_inv [OF c, of "rid r1" key] m by simp
  moreover have "fst (init_next_round_input (Some (op_match_prefix ops)) c r)
      = fst (init_next_round_input (Some ?mp) c r)"
    by (simp add: init_next_round_input_def Let_def split: prod.splits)
  moreover have "snd (init_next_round_input (Some (op_match_prefix ops)) c r) = c1"
    using a m by (simp add: init_next_round_input_def Let_def)
  ultimately show ?thesis
    using init_next_round_core [of ?mp r c] match_len [OF c] nonempty
    by (simp add: Let_def case_prod_beta)
qed

lemma evict_into_spec:
  assumes "inv c" "evict_into ops n c kv = (c', kv')" "is_not_in_free_group kv"
  shows "inv c' \<and> int (kv_available_size kv') + op_evictable_size ops c'
           = int (kv_available_size kv) + op_evictable_size ops c
       \<and> int (kv_available_size kv) + min (int n) (op_evictable_size ops c) \<le> int (kv_available_size kv')
       \<and> is_not_in_free_group kv'"
proof -
  have "kv_available_size (fold kv_release xss kv) = kv_available_size kv + length (concat xss)
      \<and> is_not_in_free_group (fold kv_release xss kv)" for xss
    using assms(3)
    by (induction xss arbitrary: kv) (auto simp: kv_release_def kv_available_size_def)
  then show ?thesis
    using assms evict_inv [OF assms(1), of n] evict_drop [OF assms(1), of n] evict_enough [OF assms(1), of n]
    by (auto simp: evict_into_def Let_def case_prod_beta)
qed

end

end
