(* ===== verification/Chunk_Cache.thy ===== *)
theory Chunk_Cache
imports Prefix_Cache
begin

text \<open>
  The chunk cache (\<^verbatim>\<open>python/sglang/srt/mem_cache/chunk_cache.py\<close>), the cache of chunked prefill when
  the radix cache is disabled: one entry per request, holding the KV slots of the tokens computed so
  far.  The state is the dictionary; an entry's value is the tensor slice it was given.
\<close>

type_synonym chunk_cache = "string \<rightharpoonup> nat list"

definition cc_reset :: "chunk_cache \<Rightarrow> chunk_cache" where
  "cc_reset c = Map.empty"

definition cc_init :: chunk_cache where
  "cc_init = cc_reset Map.empty"

definition cc_match_prefix :: "string \<Rightarrow> int list \<Rightarrow> chunk_cache \<Rightarrow> (nat list \<times> node_ref option) \<times> chunk_cache" where
  "cc_match_prefix r key c =
     (case c r of
        None \<Rightarrow> (([], None), c)
      | Some value \<Rightarrow> ((take (length key) value, Some (ChunkEntry r)), c))"

text \<open>\<^verbatim>\<open>req_to_token[req.req_pool_idx, :n]\<close>: a Python slice of the request's row.\<close>

definition req_row :: "'g req \<Rightarrow> int \<Rightarrow> mem \<Rightarrow> nat list res" where
  "req_row r n m =
     (case req_pool_idx r of
        None \<Rightarrow> Err TypeError
      | Some i \<Rightarrow> (if i < length (req_to_token (m_rpool m))
                  then Ok (py_take (req_to_token (m_rpool m) ! i) n) else Err IndexError))"

definition free_req_slot :: "'g req \<Rightarrow> mem \<Rightarrow> mem res" where
  "free_req_slot r m =
     (case req_pool_idx r of
        None \<Rightarrow> Err TypeError
      | Some i \<Rightarrow> Ok (m\<lparr>m_rpool := rp_release (FreeInt i) (m_rpool m)\<rparr>))"

definition free_kv :: "nat list \<Rightarrow> mem \<Rightarrow> mem" where
  "free_kv xs m = m\<lparr>m_kv := kv_release xs (m_kv m)\<rparr>"

definition cc_cache_finished_req ::
  "'g req \<Rightarrow> int list option \<Rightarrow> chunk_cache \<Rightarrow> mem \<Rightarrow> ('g req \<times> chunk_cache \<times> mem) res" where
  "cc_cache_finished_req r token_ids c m =
     (let token_id_len = (case token_ids of
            None \<Rightarrow> int (length (origin_input_ids r)) + int (length (output_ids r)) - 1
          | Some ids \<Rightarrow> int (length ids))
      in rbind (req_row r token_id_len m) (\<lambda>kv_indices.
         rbind (free_req_slot r m) (\<lambda>m.
           Ok (r, c(rid r := None), free_kv kv_indices m))))"

definition cc_cache_unfinished_req ::
  "'g req \<Rightarrow> int list option \<Rightarrow> chunk_cache \<Rightarrow> mem \<Rightarrow> ('g req \<times> chunk_cache \<times> mem) res" where
  "cc_cache_unfinished_req r token_ids c m =
     rbind (case token_ids of
              None \<Rightarrow> (case fill_ids r of None \<Rightarrow> Err TypeError | Some ids \<Rightarrow> Ok (length ids))
            | Some ids \<Rightarrow> Ok (length ids)) (\<lambda>token_id_len.
     rbind (req_row r (int token_id_len) m) (\<lambda>kv_indices.
       Ok (r\<lparr>prefix_indices := kv_indices, last_node := Some (ChunkEntry (rid r))\<rparr>,
           c(rid r \<mapsto> kv_indices), m)))"

text \<open>Moving a request from another cache's request pool into this one; \<open>prev\<close> is that pool.\<close>

definition cc_move_rebalancing_req :: "'g req \<Rightarrow> int \<Rightarrow> req_pool \<Rightarrow> req_pool \<Rightarrow> ('g req \<times> req_pool \<times> req_pool) res" where
  "cc_move_rebalancing_req r token_id_len prev cur =
     rbind (req_row r token_id_len \<lparr>m_rpool = prev, m_kv = kv_pool_init 0\<rparr>) (\<lambda>kv_indices.
     rbind (free_req_slot r \<lparr>m_rpool = prev, m_kv = kv_pool_init 0\<rparr>) (\<lambda>m.
       let r = r\<lparr>rebalance_cache_loc := Some kv_indices\<rparr>;
           (got, cur) = rp_alloc 1 cur
       in case got of
            None \<Rightarrow> Err TypeError
          | Some is \<Rightarrow> (case is of [] \<Rightarrow> Err IndexError
                       | i # _ \<Rightarrow> Ok (r\<lparr>req_pool_idx := Some i\<rparr>, m_rpool m, cur))))"

definition cc_move_chunked_req :: "'g req \<Rightarrow> chunk_cache \<Rightarrow> chunk_cache \<Rightarrow> (chunk_cache \<times> chunk_cache) res" where
  "cc_move_chunked_req r prev c =
     (case prev (rid r) of
        None \<Rightarrow> Err KeyError
      | Some entry \<Rightarrow> rbind (assertR (c (rid r) = None)) (\<lambda>_.
          Ok (c(rid r \<mapsto> entry), prev(rid r := None))))"

definition cc_evict :: "nat \<Rightarrow> chunk_cache \<Rightarrow> nat list list \<times> chunk_cache" where
  "cc_evict num_tokens c = ([], c)"

definition cc_inc_lock_ref :: "node_ref option \<Rightarrow> chunk_cache \<Rightarrow> (int \<times> chunk_cache) res" where
  "cc_inc_lock_ref nd c = Ok (0, c)"

definition cc_dec_lock_ref :: "node_ref option \<Rightarrow> chunk_cache \<Rightarrow> (int \<times> chunk_cache) res" where
  "cc_dec_lock_ref nd c = Ok (0, c)"

definition cc_evictable_size :: "chunk_cache \<Rightarrow> int" where
  "cc_evictable_size c = 0"

definition cc_del_entry :: "string \<Rightarrow> chunk_cache \<Rightarrow> chunk_cache res" where
  "cc_del_entry r c = (if c r = None then Err KeyError else Ok (c(r := None)))"

definition chunk_ops :: "('g, chunk_cache) cache_ops" where
  "chunk_ops = \<lparr>is_chunk_cache = True, op_disable = (\<lambda>_. True), op_match_prefix = cc_match_prefix,
     op_cache_finished = cc_cache_finished_req, op_cache_unfinished = cc_cache_unfinished_req,
     op_evict = cc_evict, op_inc_lock = cc_inc_lock_ref, op_dec_lock = cc_dec_lock_ref,
     op_evictable_size = cc_evictable_size, op_del_entry = cc_del_entry\<rparr>"

interpretation cc: prefix_cache chunk_ops "\<lambda>_. True"
  by unfold_locales
     (auto simp: chunk_ops_def cc_match_prefix_def cc_evict_def cc_evictable_size_def split: option.splits)

text \<open>Chunked prefill resumes where it stopped: after a chunk of a request was cached, the next
  round of that request (whose tokens start with the cached ones) finds as its prefix exactly the KV
  slots recorded in the request's row of the table, all of them, unless the whole sequence was
  computed already, when the last token is computed again.\<close>

theorem chunk_cache_resumes:
  assumes put: "cc_cache_unfinished_req r None c m = Ok (r1, c1, m1)"
    and row: "req_pool_idx r = Some i" "fill_ids r = Some done" "length done \<le> length (req_to_token (m_rpool m) ! i)"
    and later: "rid r2 = rid r" "origin_input_ids r2 @ output_ids r2 = done @ rest"
      "\<not> return_logprob r2" "done @ rest \<noteq> []"
  shows "prefix_indices (fst (init_next_round_input (Some cc_match_prefix) c1 r2))
       = take (length (done @ rest) - 1) (take (length done) (req_to_token (m_rpool m) ! i))"
proof -
  let ?row = "req_to_token (m_rpool m) ! i"
  have c1: "c1 (rid r2) = Some (take (length done) ?row)"
    using put row(1,2) later(1) by (auto simp: cc_cache_unfinished_req_def req_row_def rbind_eq_Ok split: if_splits)
  let ?r = "r2\<lparr>fill_ids := Some (done @ rest)\<rparr>"
  have "fst (adjust_max_prefix_ids ?r) = take (length (done @ rest) - 1) (done @ rest)"
    using later by (cases "done @ rest") (auto simp: adjust_max_prefix_ids_def Let_def py_take_nonneg nat_diff_distrib)
  then have "length (fst (adjust_max_prefix_ids ?r)) = length (done @ rest) - 1" by simp
  moreover have "rid (snd (adjust_max_prefix_ids ?r)) = rid r2" by (simp add: adjust_max_prefix_ids_fields)
  ultimately have "fst (fst (cc_match_prefix (rid (snd (adjust_max_prefix_ids ?r))) (fst (adjust_max_prefix_ids ?r)) c1))
      = take (length (done @ rest) - 1) (take (length done) ?row)"
    using c1 by (simp add: cc_match_prefix_def del: length_append)
  then show ?thesis
    using later(2) by (simp add: init_next_round_input_def Let_def case_prod_beta)
qed

text \<open>A finished request leaves nothing behind: its entry is gone, its request slot and the slots of
  all its tokens but the last are back in the pools, in order, and no other request's entry, row or
  slot is touched.\<close>

theorem chunk_cache_finish_releases:
  assumes fin: "cc_cache_finished_req r None c m = Ok (r', c', m')"
    and row: "req_pool_idx r = Some i" "origin_input_ids r \<noteq> []" "is_not_in_free_group (m_kv m)"
  shows "c' = c(rid r := None) \<and> r' = r
       \<and> rp_free (m_rpool m') = rp_free (m_rpool m) @ [i]
       \<and> req_to_token (m_rpool m') = req_to_token (m_rpool m)
       \<and> kv_free (m_kv m') = kv_free (m_kv m)
           @ take (length (origin_input_ids r) + length (output_ids r) - 1) (req_to_token (m_rpool m) ! i)"
proof -
  have "int (length (origin_input_ids r)) + int (length (output_ids r)) - 1
      = int (length (origin_input_ids r) + length (output_ids r) - 1)"
    using row(2) by (cases "origin_input_ids r") auto
  then have "py_take xs (int (length (origin_input_ids r)) + int (length (output_ids r)) - 1)
      = take (length (origin_input_ids r) + length (output_ids r) - 1) xs" for xs :: "nat list"
    by (simp only: py_take_nat)
  then show ?thesis
    using fin row(1,3)
    by (auto simp: cc_cache_finished_req_def req_row_def free_req_slot_def free_kv_def kv_release_def
        rbind_eq_Ok split: if_splits)
qed

section \<open>The properties on a concrete request\<close>

definition demo_mem :: mem where
  "demo_mem = \<lparr>m_rpool = (req_pool_init 2 4 False)\<lparr>req_to_token := [[5, 6, 7, 0], [0, 0, 0, 0]], rp_free := [1]\<rparr>,
               m_kv = (kv_pool_init 8)\<lparr>kv_free := [1, 2, 3, 4, 8]\<rparr>\<rparr>"

lemma chunk_cache_resumes_witness:
  "\<exists>r1 c1 m1. cc_cache_unfinished_req (demo_req\<lparr>req_pool_idx := Some 0, fill_ids := Some [10]\<rparr>) None Map.empty demo_mem
              = Ok (r1, c1, m1)
     \<and> prefix_indices (fst (init_next_round_input (Some cc_match_prefix) c1 demo_req)) = [5]"
proof -
  let ?r = "demo_req\<lparr>req_pool_idx := Some 0, fill_ids := Some [10]\<rparr>"
  have "\<exists>x. cc_cache_unfinished_req ?r None Map.empty demo_mem = Ok x"
    by (simp add: cc_cache_unfinished_req_def req_row_def demo_mem_def)
  then obtain r1 c1 m1 where u: "cc_cache_unfinished_req ?r None Map.empty demo_mem = Ok (r1, c1, m1)" by auto
  have "prefix_indices (fst (init_next_round_input (Some cc_match_prefix) c1 demo_req))
      = take (length ([10] @ [11 :: int]) - 1) (take (length [10 :: int]) (req_to_token (m_rpool demo_mem) ! 0))"
    by (rule chunk_cache_resumes [OF u]) (simp_all add: demo_mem_def demo_defs)
  then show ?thesis using u by (simp add: demo_mem_def)
qed

lemma chunk_cache_finish_releases_witness:
  "\<exists>r' c' m'. cc_cache_finished_req (demo_req\<lparr>req_pool_idx := Some 0, output_ids := [12]\<rparr>) None Map.empty demo_mem
              = Ok (r', c', m')
     \<and> rp_free (m_rpool m') = [1, 0] \<and> kv_free (m_kv m') = [1, 2, 3, 4, 8, 5, 6]"
proof -
  let ?r = "demo_req\<lparr>req_pool_idx := Some 0, output_ids := [12]\<rparr>"
  have "\<exists>x. cc_cache_finished_req ?r None Map.empty demo_mem = Ok x"
    by (simp add: cc_cache_finished_req_def req_row_def free_req_slot_def demo_mem_def)
  then obtain r' c' m' where u: "cc_cache_finished_req ?r None Map.empty demo_mem = Ok (r', c', m')" by auto
  show ?thesis
    using u chunk_cache_finish_releases [OF u, of 0]
    by (simp add: demo_mem_def demo_defs kv_pool_init_def kv_clear_def)
qed

end
