(* ===== verification/Schedule_Batch.thy ===== *)
theory Schedule_Batch
imports Sampling_Batch_Info Chunk_Cache
begin

text \<open>
  A batch on the scheduler (\<^verbatim>\<open>ScheduleBatch\<close> in \<^verbatim>\<open>python/sglang/srt/managers/schedule_batch.py\<close>): its
  per-request lists and tensors, and the operations that allocate memory for it, prepare it for an
  extend or a decode step, and filter, merge and split it.  The pools, the cache and the penalizer
  objects are shared mutable state that the operations take and return (\<open>world\<close>); a batch has an
  identity, which its penalizer orchestrator refers to.
\<close>

section \<open>The batch\<close>

datatype forward_mode = PREFILL | EXTEND | DECODE | MIXED | IDLE | DUMMY_FIRST

definition is_extend :: "forward_mode \<Rightarrow> bool" where
  "is_extend m = (m = EXTEND \<or> m = MIXED)"

definition is_decode :: "forward_mode \<Rightarrow> bool" where
  "is_decode m = (m = DECODE)"

definition is_idle :: "forward_mode \<Rightarrow> bool" where
  "is_idle m = (m = IDLE)"

text \<open>What a batch reads of the model configuration and of the global server arguments.\<close>

record batch_cfg =
  is_encoder_decoder :: bool
  cfg_vocab_size :: nat
  torch_native :: bool
  pen_order :: "pen_kind list"

record ('g, 'm) batch =
  b_id :: nat
  b_reqs :: "'g req list"
  b_mode :: "forward_mode option"
  b_overlap :: bool
  sinfo :: "('g, 'm) sampling_info option"
  input_ids :: "int list option"
  b_embeds :: "real list list option"
  req_pool_indices :: "nat list option"
  seq_lens :: "nat list option"
  out_cache_loc :: "nat list option"
  b_output_ids :: "int list option"
  seq_lens_sum :: "nat option"
  b_return_logprob :: bool
  top_logprobs_nums :: "nat list option"
  prefix_lens :: "int list option"
  extend_lens :: "int list option"
  extend_num_tokens :: "int option"
  decoding_reqs :: "'g req list option"
  extend_logprob_start_lens :: "int list option"
  encoder_cached :: "bool list option"
  encoder_lens :: "nat list option"
  encoder_lens_cpu :: "nat list option"
  encoder_out_cache_loc :: "nat list option"
  has_stream :: bool
  has_grammar :: bool
  alp_snapshot :: "(real \<times> real \<times> real \<times> real) option"
  b_pp_idx :: int
  b_ttft :: "real list"
  b_tpot :: "real list"
  b_exec_time :: "real list"
  b_cur_time :: "real option"

text \<open>The dataclass constructor with its defaults.\<close>

definition new_batch :: "nat \<Rightarrow> 'g req list \<Rightarrow> ('g, 'm) batch" where
  "new_batch i reqs =
     \<lparr>b_id = i, b_reqs = reqs, b_mode = None, b_overlap = False, sinfo = None, input_ids = None,
      b_embeds = None, req_pool_indices = None, seq_lens = None, out_cache_loc = None,
      b_output_ids = None, seq_lens_sum = None, b_return_logprob = False, top_logprobs_nums = None,
      prefix_lens = None, extend_lens = None, extend_num_tokens = None, decoding_reqs = None,
      extend_logprob_start_lens = None, encoder_cached = None, encoder_lens = None,
      encoder_lens_cpu = None, encoder_out_cache_loc = None, has_stream = False, has_grammar = False,
      alp_snapshot = None, b_pp_idx = -1, b_ttft = [], b_tpot = [], b_exec_time = [],
      b_cur_time = None\<rparr>"

definition init_new :: "nat \<Rightarrow> 'g req list \<Rightarrow> bool \<Rightarrow> int \<Rightarrow> ('g, 'm) batch" where
  "init_new i reqs overlap pp =
     (new_batch i reqs)\<lparr>b_overlap := overlap,
        b_return_logprob := list_ex return_logprob reqs,
        has_stream := list_ex stream reqs,
        has_grammar := list_ex (\<lambda>r. grammar r \<noteq> None) reqs,
        b_pp_idx := pp\<rparr>"

definition batch_size :: "('g, 'm) batch \<Rightarrow> nat" where
  "batch_size b = length (b_reqs b)"

definition is_empty :: "('g, 'm) batch \<Rightarrow> bool" where
  "is_empty b = (length (b_reqs b) = 0)"

text \<open>An operation on an absent tensor raises.\<close>

definition the_tensor :: "'a option \<Rightarrow> 'a res" where
  "the_tensor x = (case x of None \<Rightarrow> Err TypeError | Some v \<Rightarrow> Ok v)"

lemma the_tensor_simps [simp]:
  "the_tensor (Some v) = Ok v" "the_tensor None = Err TypeError"
  by (simp_all add: the_tensor_def)

lemma the_tensor_eq_Ok [simp]: "the_tensor x = Ok v \<longleftrightarrow> x = Some v"
  by (cases x) auto

section \<open>Allocating memory\<close>

record ('g, 'c) world =
  w_mem :: mem
  w_cache :: 'c
  w_pens :: "'g pstore"

definition alloc_req_slots :: "nat \<Rightarrow> ('g, 'c) world \<Rightarrow> (nat list \<times> ('g, 'c) world) res" where
  "alloc_req_slots n w =
     (case rp_alloc n (m_rpool (w_mem w)) of
        (None, _) \<Rightarrow> Err RuntimeError
      | (Some is, rp) \<Rightarrow> Ok (is, w\<lparr>w_mem := (w_mem w)\<lparr>m_rpool := rp\<rparr>\<rparr>))"

text \<open>Running out of KV slots after the eviction prints the cache, which the chunk cache does not implement, and
  ends the process.\<close>

definition alloc_token_slots ::
  "('g, 'c) cache_ops \<Rightarrow> nat \<Rightarrow> ('g, 'c) world \<Rightarrow> (nat list \<times> ('g, 'c) world) res" where
  "alloc_token_slots ops n w =
     (case kv_alloc n (m_kv (w_mem w)) of
        (Some is, kv) \<Rightarrow> Ok (is, w\<lparr>w_mem := (w_mem w)\<lparr>m_kv := kv\<rparr>\<rparr>)
      | (None, _) \<Rightarrow>
          (let (c, kv) = evict_into ops n (w_cache w) (m_kv (w_mem w))
           in case kv_alloc n kv of
                (Some is, kv) \<Rightarrow> Ok (is, w\<lparr>w_cache := c, w_mem := (w_mem w)\<lparr>m_kv := kv\<rparr>\<rparr>)
              | (None, _) \<Rightarrow> Err (if is_chunk_cache ops then NotImplementedError else SystemExit)))"

section \<open>Writing the request table\<close>

text \<open>The Triton kernel: program \<open>pid\<close> stores its request's new slots into the flat table, in blocks
  of 512 masked offsets; an address is a row times the stride plus a column.\<close>

definition BLOCK_SIZE :: nat where
  "BLOCK_SIZE = 512"

definition cdiv :: "nat \<Rightarrow> nat \<Rightarrow> nat" where
  "cdiv a b = (a + b - 1) div b"

definition flat_store :: "nat \<Rightarrow> nat \<Rightarrow> nat \<Rightarrow> nat list list \<Rightarrow> nat list list" where
  "flat_store stride addr v t = put_point (addr div stride, addr mod stride, v) t"

definition kernel_store ::
  "nat \<Rightarrow> nat list \<Rightarrow> nat \<Rightarrow> nat \<Rightarrow> nat \<Rightarrow> nat \<Rightarrow> nat \<Rightarrow> nat list list \<Rightarrow> nat list list" where
  "kernel_store stride out row pre len cumsum off t =
     (if off < len then flat_store stride (row * stride + off + pre) (out ! (cumsum + off)) t else t)"

definition kernel_program ::
  "nat \<Rightarrow> nat list \<Rightarrow> nat \<Rightarrow> nat \<Rightarrow> nat \<Rightarrow> nat \<Rightarrow> nat list list \<Rightarrow> nat list list" where
  "kernel_program stride out row pre seq cumsum t =
     fold (\<lambda>i. fold (\<lambda>o'. kernel_store stride out row pre (seq - pre) cumsum (o' + i * BLOCK_SIZE))
                 [0..<BLOCK_SIZE])
       [0..<cdiv (seq - pre) BLOCK_SIZE] t"

fun write_req_to_token_pool_triton ::
  "nat \<Rightarrow> nat list \<Rightarrow> nat \<Rightarrow> (nat \<times> nat \<times> nat \<times> nat) list \<Rightarrow> nat list list \<Rightarrow> nat list list" where
  "write_req_to_token_pool_triton stride out cumsum [] t = t"
| "write_req_to_token_pool_triton stride out cumsum ((row, pre, seq, ext) # ps) t =
     write_req_to_token_pool_triton stride out (cumsum + ext) ps
       (kernel_program stride out row pre seq cumsum t)"

text \<open>The other backend writes one slice of each row, through the pool's recorded \<^verbatim>\<open>write\<close>.\<close>

fun write_req_to_token_native ::
  "nat list \<Rightarrow> nat \<Rightarrow> (nat \<times> nat \<times> nat \<times> nat) list \<Rightarrow> req_pool \<Rightarrow> req_pool res" where
  "write_req_to_token_native out pt [] p = Ok p"
| "write_req_to_token_native out pt ((row, pre, seq, ext) # ps) p =
     rbind (rp_write p (RowSlice row pre seq) (take ext (drop pt out)))
       (write_req_to_token_native out (pt + ext) ps)"

section \<open>Preparing an extend step\<close>

text \<open>The loop body for one request with its new request slot.\<close>

definition extend_req :: "'g req \<Rightarrow> nat \<Rightarrow> req_pool \<Rightarrow> ('g req \<times> req_pool) res" where
  "extend_req r idx p =
     rbind (the_tensor (fill_ids r)) (\<lambda>fill.
     let already_computed = (if extend_logprob_start_len r > 0
                             then extend_logprob_start_len r + 1 + cached_tokens r else 0);
         pre_len = length (prefix_indices r);
         seq_len = length fill;
         r = r\<lparr>cached_tokens := cached_tokens r + (int pre_len - already_computed), req_pool_idx := Some idx\<rparr>
     in rbind (assertR (int seq_len - int pre_len = extend_input_len r)) (\<lambda>_.
        rbind (if pre_len > 0 then rp_write p (RowSlice idx 0 pre_len) (prefix_indices r) else Ok p) (\<lambda>p.
        let start = (if logprob_start_len r \<ge> int pre_len
                     then min (logprob_start_len r - int pre_len) (extend_input_len r - 1)
                     else extend_input_len r - 1)
        in Ok (r\<lparr>extend_logprob_start_len := start, is_retracted := False\<rparr>, p))))"

fun extend_reqs :: "'g req list \<Rightarrow> nat list \<Rightarrow> req_pool \<Rightarrow> ('g req list \<times> req_pool) res" where
  "extend_reqs (r # rs) (i # is) p =
     rbind (extend_req r i p) (\<lambda>(r, p). rbind (extend_reqs rs is p) (\<lambda>(rs, p). Ok (r # rs, p)))"
| "extend_reqs _ _ p = Ok ([], p)"

definition req_input_ids :: "'g req \<Rightarrow> int list res" where
  "req_input_ids r = rbind (the_tensor (fill_ids r)) (\<lambda>fill. Ok (drop (length (prefix_indices r)) fill))"

text \<open>The encoder part of an encoder-decoder model: the image tokens come first in a request and are
  taken out of the decoder's inputs.  A request is at least as long as its image tokens, so the lengths (natural
  numbers here) do not go below zero; the source would go on with a negative length.\<close>

definition encoder_info :: "forward_mode \<Rightarrow> 'g req \<Rightarrow> nat \<times> bool" where
  "encoder_info md r =
     (case image_inputs r of
        Some (Some n) \<Rightarrow> (n, is_decode md \<or> length (prefix_indices r) \<ge> n)
      | _ \<Rightarrow> (0, True))"

record enc_state =
  es_inputs :: "int list list"
  es_seq_lens :: "nat list"
  es_dec :: "nat list"
  es_enc :: "nat list"
  es_extend :: "int list"
  es_prefix :: "int list"
  es_num :: int
  es_pt :: nat

definition encoder_strip :: "nat list \<Rightarrow> nat \<times> nat \<times> 'g req \<Rightarrow> enc_state \<Rightarrow> enc_state res" where
  "encoder_strip out = (\<lambda>(i, encoder_len, r) s.
     let s = s\<lparr>es_seq_lens := (es_seq_lens s)[i := es_seq_lens s ! i - encoder_len]\<rparr>;
         ext = nat (extend_input_len r); pt = es_pt s
     in if length (prefix_indices r) < encoder_len
        then rbind (assertR (length (prefix_indices r) = 0)) (\<lambda>_.
          Ok (s\<lparr>es_inputs := (es_inputs s)[i := drop encoder_len (es_inputs s ! i)],
                es_enc := es_enc s @ take encoder_len (drop pt out),
                es_dec := es_dec s @ take (ext - encoder_len) (drop (pt + encoder_len) out),
                es_extend := (es_extend s)[i := es_extend s ! i - int encoder_len],
                es_num := es_num s - int encoder_len, es_pt := pt + ext\<rparr>))
        else Ok (s\<lparr>es_dec := es_dec s @ take ext (drop pt out),
                   es_prefix := (es_prefix s)[i := es_prefix s ! i - int encoder_len], es_pt := pt + ext\<rparr>))"

definition prepare_encoder_info_extend ::
  "int list list \<Rightarrow> nat list \<Rightarrow> ('g, 'm) batch \<Rightarrow> ('g, 'm) batch res" where
  "prepare_encoder_info_extend inputs lens b =
     rbind (the_obj (b_mode b)) (\<lambda>md. rbind (the_tensor (out_cache_loc b)) (\<lambda>out.
     rbind (the_tensor (extend_lens b)) (\<lambda>el. rbind (the_tensor (prefix_lens b)) (\<lambda>pl.
     rbind (the_tensor (extend_num_tokens b)) (\<lambda>num.
     let info = map (encoder_info md) (b_reqs b);
         b = b\<lparr>encoder_lens_cpu := Some (map fst info), encoder_cached := Some (map snd info),
               encoder_lens := Some (map fst info)\<rparr>
     in rbind (foldR (encoder_strip out) (zip [0..<length (b_reqs b)] (zip (map fst info) (b_reqs b)))
           \<lparr>es_inputs = inputs, es_seq_lens = lens, es_dec = [], es_enc = [], es_extend = el,
            es_prefix = pl, es_num = num, es_pt = 0\<rparr>) (\<lambda>s.
        rbind (assertR (int (length (es_dec s)) = es_num s)) (\<lambda>_.
          Ok (b\<lparr>input_ids := Some (concat (es_inputs s)), seq_lens := Some (es_seq_lens s),
                out_cache_loc := Some (es_dec s), encoder_out_cache_loc := Some (es_enc s),
                extend_lens := Some (es_extend s), prefix_lens := Some (es_prefix s),
                extend_num_tokens := Some (es_num s)\<rparr>))))))))"

text \<open>\<open>pen\<close> is the identity of the orchestrator object that the new sampling information creates.\<close>

definition prepare_for_extend ::
  "('g, 'c) cache_ops \<Rightarrow> batch_cfg \<Rightarrow> nat \<Rightarrow> ('g, 'm) batch \<Rightarrow> ('g, 'c) world
     \<Rightarrow> (('g, 'm) batch \<times> ('g, 'c) world) res" where
  "prepare_for_extend ops cfg pen b w =
     (let b = b\<lparr>b_mode := Some EXTEND\<rparr>; bs = length (b_reqs b)
      in rbind (mapR req_input_ids (b_reqs b)) (\<lambda>inputs.
      let extend_num = sum_list (map length inputs)
      in rbind (alloc_req_slots bs w) (\<lambda>(idxs, w).
         rbind (alloc_token_slots ops extend_num w) (\<lambda>(out, w).
         rbind (extend_reqs (b_reqs b) idxs (m_rpool (w_mem w))) (\<lambda>(reqs, rp).
      let lens = map (\<lambda>r. length (opt_list (fill_ids r))) reqs;
          pres = map (\<lambda>r. length (prefix_indices r)) reqs;
          embeds = concat (map (\<lambda>r. opt_list (input_embeds r)) reqs);
          b = b\<lparr>b_reqs := reqs, input_ids := Some (concat inputs), req_pool_indices := Some idxs,
                seq_lens := Some lens, b_embeds := (if embeds = [] then None else Some embeds),
                out_cache_loc := Some out, seq_lens_sum := Some (sum_list lens),
                top_logprobs_nums := (if b_return_logprob b then Some (map top_logprobs_num reqs)
                                      else top_logprobs_nums b),
                extend_num_tokens := Some (int extend_num),
                prefix_lens := Some (map int pres),
                extend_lens := Some (map extend_input_len reqs),
                extend_logprob_start_lens := Some (map extend_logprob_start_len reqs)\<rparr>;
          progs = zip idxs (zip pres (zip lens (map (nat \<circ> extend_input_len) reqs)))
      in rbind (if \<not> torch_native cfg
                then Ok (rp\<lparr>req_to_token := write_req_to_token_pool_triton (max_context_len rp) out 0 progs
                                              (req_to_token rp)\<rparr>)
                else write_req_to_token_native out 0 progs rp) (\<lambda>rp.
         rbind (if is_encoder_decoder cfg then prepare_encoder_info_extend inputs lens b else Ok b) (\<lambda>b.
         rbind (from_schedule_batch (pen_order cfg) pen (b_id b) (b_reqs b) (cfg_vocab_size cfg) (b_overlap b)
                  (store_set_reqs (b_id b) (b_reqs b) (w_pens w))) (\<lambda>(si, pens).
           Ok (b\<lparr>sinfo := Some si\<rparr>, w\<lparr>w_mem := (w_mem w)\<lparr>m_rpool := rp\<rparr>, w_pens := pens\<rparr>)))))))))"

section \<open>The request table after an extend step\<close>

text \<open>The reference: overwrite a segment of one row.\<close>

definition row_put :: "nat \<times> nat \<times> nat list \<Rightarrow> nat list list \<Rightarrow> nat list list" where
  "row_put w t = (case w of (row, pre, seg) \<Rightarrow>
     t[row := take pre (t ! row) @ seg @ drop (pre + length seg) (t ! row)])"

lemma row_put_length [simp]: "length (row_put w t) = length t"
  by (simp add: row_put_def split: prod.splits)

lemma row_put_nil [simp]: "row_put (row, pre, []) t = t"
  by (simp add: row_put_def)

lemma fold_row_put_length [simp]: "length (fold row_put ws t) = length t"
  by (induction ws arbitrary: t) auto

lemma fold_row_put_nth:
  assumes "distinct (map fst ws)" "i < length t"
  shows "fold row_put ws t ! i = (case map_of ws i of None \<Rightarrow> t ! i
           | Some (pre, seg) \<Rightarrow> take pre (t ! i) @ seg @ drop (pre + length seg) (t ! i))"
  using assms
proof (induction ws arbitrary: t)
  case Nil
  then show ?case by simp
next
  case (Cons w ws)
  obtain row pre seg where w: "w = (row, pre, seg)" by (cases w)
  have "map_of ws row = None" if "i = row" using Cons.prems(1) w that by (auto simp: map_of_eq_None_iff)
  then show ?case
    using Cons.IH [of "row_put w t"] Cons.prems w by (auto simp: row_put_def split: option.splits)
qed

lemma fold_row_put_other: "i \<notin> set (map fst ws) \<Longrightarrow> fold row_put ws t ! i = t ! i"
  by (induction ws arbitrary: t) (auto simp: row_put_def split: prod.splits)

text \<open>All rows of the table have the same length.\<close>

definition table_ok :: "nat \<Rightarrow> nat list list \<Rightarrow> bool" where
  "table_ok stride t = (\<forall>row \<in> set t. length row = stride)"

lemma table_ok_row_put:
  assumes "table_ok stride t" "pre + length seg \<le> stride"
  shows "table_ok stride (row_put (row, pre, seg) t)"
proof (cases "row < length t")
  case True
  then have "length (t ! row) = stride" using assms(1) by (simp add: table_ok_def)
  then show ?thesis using assms by (auto simp: table_ok_def row_put_def dest!: set_update_subset_insert [THEN subsetD])
next
  case False
  then show ?thesis using assms by (simp add: row_put_def list_update_beyond)
qed

lemma table_write_row:
  assumes "table_write t (RowSlice row pre seq) vs = Ok t'" "table_ok stride t" "seq \<le> stride" "pre \<le> seq"
    "length vs = seq - pre"
  shows "t' = row_put (row, pre, vs) t \<and> row < length t"
proof -
  have row: "row < length t" using assms(1) by (auto split: if_splits)
  then have "length (t ! row) = stride" using assms(2) by (simp add: table_ok_def)
  then show ?thesis using assms row by (auto simp: row_put_def bcast_def Let_def min_def)
qed

subsection \<open>The kernel\<close>

lemma fold_blocks:
  "fold (\<lambda>i. fold (\<lambda>o'. f (o' + i * B)) [0..<B]) [0..<k] = fold f [0..<k * B]"
proof (induction k)
  case 0
  then show ?case by simp
next
  case (Suc k)
  have "[0..<Suc k * B] = [0..<k * B] @ map (\<lambda>o'. o' + k * B) [0..<B]"
    by (simp add: map_add_upt add.commute) (metis add.commute upt_add_eq_append zero_le)
  then show ?case using Suc by (simp add: fold_map o_def fun_eq_iff)
qed

lemma fold_id_above:
  assumes "\<And>off t. len \<le> off \<Longrightarrow> f off t = t" "len \<le> n"
  shows "fold f [0..<n] t = fold f [0..<len] t"
proof -
  have "[0..<n] = [0..<len] @ [len..<n]" using assms(2) by (metis le_add_diff_inverse upt_add_eq_append zero_le)
  moreover have "fold f [len..<m] u = u" for m u
    using assms(1) by (induction m arbitrary: u) (auto simp: not_le)
  ultimately show ?thesis by simp
qed

lemma list_put_step:
  assumes "pre + n < length r" "n < length xs"
  shows "(take pre r @ take n xs @ drop (pre + n) r)[n + pre := xs ! n]
       = take pre r @ take (Suc n) xs @ drop (pre + Suc n) r"
proof -
  have "drop (pre + n) r = r ! (pre + n) # drop (pre + Suc n) r"
    using assms(1) by (simp add: Cons_nth_drop_Suc)
  then show ?thesis
    using assms by (simp add: list_update_append take_Suc_conv_app_nth)
qed

lemma kernel_stores:
  assumes "row < length t" "length (t ! row) = stride" "pre + len \<le> stride" "cumsum + len \<le> length out" "n \<le> len"
  shows "fold (kernel_store stride out row pre len cumsum) [0..<n] t
       = row_put (row, pre, take n (drop cumsum out)) t"
  using assms(5)
proof (induction n)
  case 0
  then show ?case by simp
next
  case (Suc n)
  let ?r = "t ! row" and ?xs = "drop cumsum out"
  have n: "n < len" "length (take n ?xs) = n" using Suc.prems assms(4) by auto
  have addr: "(row * stride + n + pre) div stride = row" "(row * stride + n + pre) mod stride = n + pre"
    using n assms(3) by (simp_all add: add.assoc)
  have "fold (kernel_store stride out row pre len cumsum) [0..<Suc n] t
      = kernel_store stride out row pre len cumsum n (row_put (row, pre, take n ?xs) t)"
    using Suc by simp
  also have "\<dots> = t[row := (take pre ?r @ take n ?xs @ drop (pre + n) ?r)[n + pre := ?xs ! n]]"
    using n assms(1,4) addr by (simp add: kernel_store_def flat_store_def put_point_def row_put_def)
  also have "\<dots> = t[row := take pre ?r @ take (Suc n) ?xs @ drop (pre + Suc n) ?r]"
    using list_put_step [of pre n ?r ?xs] n assms by simp
  also have "\<dots> = row_put (row, pre, take (Suc n) ?xs) t"
  proof -
    have "length (take (Suc n) ?xs) = Suc n" using n assms(4) by simp
    then show ?thesis by (simp only: row_put_def prod.case)
  qed
  finally show ?case .
qed

lemma cdiv_covers: "0 < b \<Longrightarrow> a \<le> cdiv a b * b"
proof -
  assume "0 < b"
  then have "a + b - 1 < ((a + b - 1) div b + 1) * b"
    by (metis add.commute div_mult_mod_eq mod_less_divisor mult.commute mult_Suc nat_add_left_cancel_less plus_1_eq_Suc)
  then show ?thesis using \<open>0 < b\<close> by (simp add: cdiv_def algebra_simps)
qed

lemma kernel_program_put:
  assumes "row < length t" "table_ok stride t" "pre \<le> seq" "seq \<le> stride" "cumsum + (seq - pre) \<le> length out"
  shows "kernel_program stride out row pre seq cumsum t
       = row_put (row, pre, take (seq - pre) (drop cumsum out)) t"
proof -
  let ?f = "kernel_store stride out row pre (seq - pre) cumsum"
  have "kernel_program stride out row pre seq cumsum t = fold ?f [0..<cdiv (seq - pre) BLOCK_SIZE * BLOCK_SIZE] t"
    unfolding kernel_program_def fold_blocks ..
  also have "\<dots> = fold ?f [0..<seq - pre] t"
    by (rule fold_id_above) (auto simp: kernel_store_def BLOCK_SIZE_def intro: cdiv_covers)
  also have "\<dots> = row_put (row, pre, take (seq - pre) (drop cumsum out)) t"
    using assms by (intro kernel_stores) (auto simp: table_ok_def)
  finally show ?thesis .
qed

subsection \<open>Both backends write the same segments\<close>

text \<open>The segments of the new slots that the programs write.\<close>

fun seg_writes :: "nat list \<Rightarrow> nat \<Rightarrow> (nat \<times> nat \<times> nat \<times> nat) list \<Rightarrow> (nat \<times> nat \<times> nat list) list" where
  "seg_writes out c [] = []"
| "seg_writes out c ((row, pre, seq, ext) # ps) =
     (row, pre, take (seq - pre) (drop c out)) # seg_writes out (c + ext) ps"

definition progs_ok :: "nat \<Rightarrow> nat \<Rightarrow> nat \<Rightarrow> (nat \<times> nat \<times> nat \<times> nat) list \<Rightarrow> bool" where
  "progs_ok n stride avail ps \<longleftrightarrow>
     (\<forall>(row, pre, seq, ext) \<in> set ps. row < n \<and> pre \<le> seq \<and> seq \<le> stride \<and> ext = seq - pre)
   \<and> sum_list (map (\<lambda>(row, pre, seq, ext). ext) ps) \<le> avail"

lemma triton_puts:
  assumes "table_ok stride t" "progs_ok (length t) stride (length out - c) ps" "c \<le> length out"
  shows "write_req_to_token_pool_triton stride out c ps t = fold row_put (seg_writes out c ps) t"
  using assms
proof (induction ps arbitrary: c t)
  case Nil
  then show ?case by simp
next
  case (Cons q ps)
  obtain row pre seq ext where q: "q = (row, pre, seq, ext)" by (cases q)
  have ok: "row < length t" "pre \<le> seq" "seq \<le> stride" "ext = seq - pre" "c + (seq - pre) \<le> length out"
    using Cons.prems q by (auto simp: progs_ok_def)
  let ?t = "row_put (row, pre, take (seq - pre) (drop c out)) t"
  have put: "kernel_program stride out row pre seq c t = ?t"
    using ok Cons.prems(1) by (intro kernel_program_put) auto
  have "table_ok stride ?t" using Cons.prems(1) ok by (intro table_ok_row_put) auto
  moreover have "progs_ok (length ?t) stride (length out - (c + ext)) ps"
    using Cons.prems(2) q by (auto simp: progs_ok_def)
  ultimately show ?case using Cons.IH [of ?t "c + ext"] put ok q by simp
qed

lemma rp_write_row:
  assumes "rp_write p (RowSlice row pre seq) vs = Ok p'" "table_ok stride (req_to_token p)" "seq \<le> stride"
    "pre \<le> seq" "length vs = seq - pre"
  shows "req_to_token p' = row_put (row, pre, vs) (req_to_token p) \<and> row < length (req_to_token p)
       \<and> rp_free p' = rp_free p \<and> max_context_len p' = max_context_len p"
  using assms table_write_row [of "req_to_token p" row pre seq vs _ stride]
  by (auto simp: rp_write_def write_with_records_def write_without_records_def rbind_eq_Ok simp del: table_write.simps
      split: if_splits)

lemma native_puts:
  assumes "write_req_to_token_native out c ps p = Ok p'" "table_ok stride (req_to_token p)"
    "progs_ok (length (req_to_token p)) stride (length out - c) ps" "c \<le> length out"
  shows "req_to_token p' = fold row_put (seg_writes out c ps) (req_to_token p)"
  using assms
proof (induction ps arbitrary: c p)
  case Nil
  then show ?case by simp
next
  case (Cons q ps)
  obtain row pre seq ext where q: "q = (row, pre, seq, ext)" by (cases q)
  have ok: "row < length (req_to_token p)" "pre \<le> seq" "seq \<le> stride" "ext = seq - pre" "c + (seq - pre) \<le> length out"
    using Cons.prems q by (auto simp: progs_ok_def)
  from Cons.prems(1) q obtain p1 where p1: "rp_write p (RowSlice row pre seq) (take ext (drop c out)) = Ok p1"
      "write_req_to_token_native out (c + ext) ps p1 = Ok p'"
    by (auto simp: rbind_eq_Ok)
  have put: "req_to_token p1 = row_put (row, pre, take (seq - pre) (drop c out)) (req_to_token p)"
    using rp_write_row [OF p1(1) Cons.prems(2)] ok by simp
  have "table_ok stride (req_to_token p1)" unfolding put using Cons.prems(2) ok by (intro table_ok_row_put) auto
  moreover have "progs_ok (length (req_to_token p1)) stride (length out - (c + ext)) ps"
    using Cons.prems(3) q put by (auto simp: progs_ok_def)
  ultimately show ?case using Cons.IH [OF p1(2)] put ok q by simp
qed

text \<open>The two attention backends fill the request table identically: the Triton kernel, with its
  blocks of 512 masked stores into flat memory, leaves exactly the table that the slice-by-slice
  writes of the other backend leave, when the table is rectangular, the segments fit their rows and
  the extend lengths are the segment lengths.\<close>

theorem triton_kernel_equiv:
  assumes "write_req_to_token_native out 0 ps p = Ok p'" "table_ok stride (req_to_token p)"
    "progs_ok (length (req_to_token p)) stride (length out) ps"
  shows "req_to_token p' = write_req_to_token_pool_triton stride out 0 ps (req_to_token p)"
  using native_puts [of out 0 ps p p' stride] triton_puts [of stride "req_to_token p" out 0 ps] assms by simp

subsection \<open>The extend loop\<close>

definition extended :: "'g req \<Rightarrow> nat \<Rightarrow> 'g req \<Rightarrow> bool" where
  "extended r i r' \<longleftrightarrow> fill_ids r' = fill_ids r \<and> fill_ids r \<noteq> None \<and> prefix_indices r' = prefix_indices r
     \<and> req_pool_idx r' = Some i \<and> oid r' = oid r \<and> extend_input_len r' = extend_input_len r
     \<and> extend_input_len r = int (length (opt_list (fill_ids r))) - int (length (prefix_indices r))"

lemma extend_req_put:
  assumes "extend_req r i p = Ok (r', p')" "table_ok stride (req_to_token p)"
    "length (prefix_indices r) \<le> stride"
  shows "extended r i r' \<and> req_to_token p' = row_put (i, 0, prefix_indices r) (req_to_token p)
       \<and> rp_free p' = rp_free p \<and> max_context_len p' = max_context_len p
       \<and> (prefix_indices r \<noteq> [] \<longrightarrow> i < length (req_to_token p))"
proof -
  from assms(1) obtain fill where fill: "fill_ids r = Some fill"
      "int (length fill) - int (length (prefix_indices r)) = extend_input_len r"
    and w: "(if length (prefix_indices r) > 0
             then rp_write p (RowSlice i 0 (length (prefix_indices r))) (prefix_indices r) else Ok p) = Ok p'"
    and r': "extended r i r'"
    by (auto simp: extend_req_def rbind_eq_Ok Let_def extended_def split: if_splits)
  show ?thesis
    using w r' rp_write_row [of p i 0 "length (prefix_indices r)" "prefix_indices r" p' stride] assms(2,3)
    by (auto split: if_splits)
qed

lemma extend_reqs_put:
  assumes "extend_reqs rs is p = Ok (rs', p')" "length is = length rs" "table_ok stride (req_to_token p)"
    "\<forall>r \<in> set rs. length (prefix_indices r) \<le> stride"
  shows "length rs' = length rs \<and> (\<forall>k < length rs. extended (rs ! k) (is ! k) (rs' ! k))
       \<and> req_to_token p' = fold row_put (zip is (map (\<lambda>r. (0, prefix_indices r)) rs)) (req_to_token p)
       \<and> rp_free p' = rp_free p \<and> max_context_len p' = max_context_len p \<and> table_ok stride (req_to_token p')"
  using assms
proof (induction rs "is" p arbitrary: rs' p' rule: extend_reqs.induct)
  case (1 r rs i "is" p)
  from "1.prems"(1) obtain r1 p1 rs1 where s: "extend_req r i p = Ok (r1, p1)"
      "extend_reqs rs is p1 = Ok (rs1, p')" "rs' = r1 # rs1"
    by (auto simp: rbind_eq_Ok)
  have one: "extended r i r1" "req_to_token p1 = row_put (i, 0, prefix_indices r) (req_to_token p)"
      "rp_free p1 = rp_free p" "max_context_len p1 = max_context_len p"
    using extend_req_put [OF s(1) "1.prems"(3)] "1.prems"(4) by auto
  have "table_ok stride (req_to_token p1)"
    unfolding one(2) using "1.prems"(3,4) by (intro table_ok_row_put) auto
  from "1.IH" [OF s(2) _ this] "1.prems"(2,4) one s(3) show ?case
    by (auto simp: nth_Cons split: nat.splits)
qed auto

subsection \<open>The whole step\<close>

definition pools_ok :: "('g, 'c) world \<Rightarrow> bool" where
  "pools_ok w \<longleftrightarrow>
     table_ok (max_context_len (m_rpool (w_mem w))) (req_to_token (m_rpool (w_mem w)))
   \<and> distinct (rp_free (m_rpool (w_mem w)))
   \<and> (\<forall>i \<in> set (rp_free (m_rpool (w_mem w))). i < length (req_to_token (m_rpool (w_mem w))))"

lemma alloc_req_slots_fresh:
  assumes "alloc_req_slots n w = Ok (is, w1)" "pools_ok w"
  shows "length is = n \<and> distinct is \<and> (\<forall>i \<in> set is. i < length (req_to_token (m_rpool (w_mem w))))
       \<and> req_to_token (m_rpool (w_mem w1)) = req_to_token (m_rpool (w_mem w))
       \<and> max_context_len (m_rpool (w_mem w1)) = max_context_len (m_rpool (w_mem w))"
  using assms
  by (auto simp: alloc_req_slots_def rp_alloc_def pools_ok_def split: if_splits dest: in_set_takeD)

lemma kv_alloc_length: "kv_alloc n p = (Some is, p') \<Longrightarrow> length is = n"
  by (auto simp: kv_alloc_def split: if_splits)

lemma alloc_token_slots_length:
  assumes "alloc_token_slots ops n w = Ok (is, w1)"
  shows "length is = n \<and> m_rpool (w_mem w1) = m_rpool (w_mem w) \<and> w_pens w1 = w_pens w"
  using assms kv_alloc_length
  by (auto simp: alloc_token_slots_def Let_def split: prod.splits option.splits)

lemma seg_writes_fst [simp]: "map fst (seg_writes out c ps) = map fst ps"
  by (induction out c ps rule: seg_writes.induct) auto

lemma map_of_seg_writes:
  assumes "length pres = length idxs" "length lens = length idxs" "length exts = length idxs"
    "distinct idxs" "k < length idxs"
  shows "map_of (seg_writes out c (zip idxs (zip pres (zip lens exts)))) (idxs ! k)
       = Some (pres ! k, take (lens ! k - pres ! k) (drop (c + sum_list (take k exts)) out))"
  using assms
proof (induction idxs arbitrary: pres lens exts c k)
  case Nil
  then show ?case by simp
next
  case (Cons i idxs)
  obtain p ps l ls e es where *: "pres = p # ps" "lens = l # ls" "exts = e # es"
    using Cons.prems by (cases pres; cases lens; cases exts) auto
  show ?case
  proof (cases k)
    case 0
    then show ?thesis using * by simp
  next
    case (Suc k')
    then have "idxs ! k' \<noteq> i" using Cons.prems by auto
    then show ?thesis using Cons.IH [of ps ls es k' "c + e"] Cons.prems * Suc by (simp add: add.assoc)
  qed
qed

lemma sum_list_zip_ext:
  "length pres = length idxs \<Longrightarrow> length lens = length idxs \<Longrightarrow> length exts = length idxs
    \<Longrightarrow> sum_list (map (\<lambda>(row, pre, seq, ext). ext) (zip idxs (zip pres (zip lens exts)))) = sum_list exts"
  by (induction idxs arbitrary: pres lens exts) (auto simp: length_Suc_conv)

lemma mapR_req_input_ids:
  assumes "mapR req_input_ids rs = Ok inputs"
  shows "inputs = map (\<lambda>r. drop (length (prefix_indices r)) (opt_list (fill_ids r))) rs"
proof (rule nth_equalityI)
  show len: "length inputs = length (map (\<lambda>r. drop (length (prefix_indices r)) (opt_list (fill_ids r))) rs)"
    using mapR_length [OF assms] by simp
  fix i assume "i < length inputs"
  then have "req_input_ids (rs ! i) = Ok (inputs ! i)"
    using assms by (auto simp: mapR_Ok_iff list_all2_conv_all_nth)
  then show "inputs ! i = map (\<lambda>r. drop (length (prefix_indices r)) (opt_list (fill_ids r))) rs ! i"
    using \<open>i < length inputs\<close> len by (auto simp: req_input_ids_def rbind_eq_Ok)
qed

text \<open>The number of tokens a request adds to the cache, and where its new slots start.\<close>

definition new_tokens :: "'g req \<Rightarrow> nat" where
  "new_tokens r = length (opt_list (fill_ids r)) - length (prefix_indices r)"

definition slot_start :: "'g req list \<Rightarrow> nat \<Rightarrow> nat" where
  "slot_start rs k = sum_list (map new_tokens (take k rs))"

lemma prepare_for_extend_stages:
  assumes "prepare_for_extend ops cfg pen b w = Ok (b', w')" "\<not> is_encoder_decoder cfg"
  obtains inputs idxs w1 out w2 reqs rp rp' where
    "mapR req_input_ids (b_reqs b) = Ok inputs"
    "alloc_req_slots (length (b_reqs b)) w = Ok (idxs, w1)"
    "alloc_token_slots ops (sum_list (map length inputs)) w1 = Ok (out, w2)"
    "extend_reqs (b_reqs b) idxs (m_rpool (w_mem w2)) = Ok (reqs, rp)"
    "(if \<not> torch_native cfg
      then Ok (rp\<lparr>req_to_token := write_req_to_token_pool_triton (max_context_len rp) out 0
             (zip idxs (zip (map (\<lambda>r. length (prefix_indices r)) reqs)
                (zip (map (\<lambda>r. length (opt_list (fill_ids r))) reqs) (map (nat \<circ> extend_input_len) reqs))))
             (req_to_token rp)\<rparr>)
      else write_req_to_token_native out 0
             (zip idxs (zip (map (\<lambda>r. length (prefix_indices r)) reqs)
                (zip (map (\<lambda>r. length (opt_list (fill_ids r))) reqs) (map (nat \<circ> extend_input_len) reqs)))) rp)
      = Ok rp'"
    "b_reqs b' = reqs" "input_ids b' = Some (concat inputs)" "req_pool_indices b' = Some idxs"
    "out_cache_loc b' = Some out" "m_rpool (w_mem w') = rp'"
    "seq_lens b' = Some (map (\<lambda>r. length (opt_list (fill_ids r))) reqs)"
    "seq_lens_sum b' = Some (sum_list (map (\<lambda>r. length (opt_list (fill_ids r))) reqs))"
    "extend_num_tokens b' = Some (int (sum_list (map length inputs)))"
    "extend_lens b' = Some (map extend_input_len reqs)"
    "prefix_lens b' = Some (map (\<lambda>r. int (length (prefix_indices r))) reqs)"
    "b_mode b' = Some EXTEND" "b_id b' = b_id b"
proof -
  from assms(1) show thesis
    unfolding prepare_for_extend_def Let_def rbind_eq_Ok case_prod_beta
    using assms(2) by (auto simp: o_def intro!: that)
qed

lemma row_of_puts:
  assumes "distinct idxs" "length pres = length idxs" "k < length idxs" "idxs ! k < length t"
    "length (pres ! k) + length seg \<le> length (t ! (idxs ! k))"
    "map_of ws (idxs ! k) = Some (length (pres ! k), seg)" "distinct (map fst ws)"
  shows "take (length (pres ! k) + length seg)
           (fold row_put ws (fold row_put (zip idxs (map (\<lambda>p. (0, p)) pres)) t) ! (idxs ! k)) = pres ! k @ seg"
proof -
  let ?t1 = "fold row_put (zip idxs (map (\<lambda>p. (0, p)) pres)) t"
  have "map fst (zip idxs (map (\<lambda>p. (0 :: nat, p)) pres)) = idxs" using assms(2) by simp
  moreover have "map_of (zip idxs (map (\<lambda>p. (0 :: nat, p)) pres)) (idxs ! k) = Some (0, pres ! k)"
    using assms(1-3) by (simp add: map_of_zip_nth)
  ultimately have "?t1 ! (idxs ! k) = pres ! k @ drop (length (pres ! k)) (t ! (idxs ! k))"
    using fold_row_put_nth [of "zip idxs (map (\<lambda>p. (0, p)) pres)" "idxs ! k" t] assms(1,4) by simp
  then have "fold row_put ws ?t1 ! (idxs ! k)
      = pres ! k @ seg @ drop (length seg) (drop (length (pres ! k)) (t ! (idxs ! k)))"
    using fold_row_put_nth [OF assms(7), of "idxs ! k" ?t1] assms(4,6) by simp
  then show ?thesis by simp
qed

text \<open>C2: After an extend step was prepared, the request table says where the tokens are.  The batch has
  got distinct request slots, as many new KV slots as it has new tokens and the new tokens as input;
  the row of each request, read up to its sequence length, is its cached prefix followed by its own
  segment of the new slots; and the rows of all other request slots are as before.  This holds for
  both attention backends, when the pool is well formed and the sequences fit the table.\<close>

theorem prepare_for_extend_rows:
  assumes prep: "prepare_for_extend ops cfg pen b w = Ok (b', w')" "\<not> is_encoder_decoder cfg"
    and pools: "pools_ok w"
    and fits: "\<forall>r \<in> set (b_reqs b). length (prefix_indices r) \<le> length (opt_list (fill_ids r))
                 \<and> length (opt_list (fill_ids r)) \<le> max_context_len (m_rpool (w_mem w))"
  shows "\<exists>idxs out.
      req_pool_indices b' = Some idxs \<and> out_cache_loc b' = Some out
    \<and> length idxs = length (b_reqs b) \<and> distinct idxs \<and> length out = sum_list (map new_tokens (b_reqs b))
    \<and> input_ids b' = Some (concat (map (\<lambda>r. drop (length (prefix_indices r)) (opt_list (fill_ids r))) (b_reqs b)))
    \<and> (\<forall>k < length (b_reqs b). let r = b_reqs b ! k in
         take (length (opt_list (fill_ids r))) (req_to_token (m_rpool (w_mem w')) ! (idxs ! k))
         = prefix_indices r @ take (new_tokens r) (drop (slot_start (b_reqs b) k) out))
    \<and> (\<forall>i < length (req_to_token (m_rpool (w_mem w))). i \<notin> set idxs
         \<longrightarrow> req_to_token (m_rpool (w_mem w')) ! i = req_to_token (m_rpool (w_mem w)) ! i)"
proof -
  from prep obtain inputs idxs w1 out w2 reqs rp rp' where st:
    "mapR req_input_ids (b_reqs b) = Ok inputs"
    "alloc_req_slots (length (b_reqs b)) w = Ok (idxs, w1)"
    "alloc_token_slots ops (sum_list (map length inputs)) w1 = Ok (out, w2)"
    "extend_reqs (b_reqs b) idxs (m_rpool (w_mem w2)) = Ok (reqs, rp)"
    and wr: "(if \<not> torch_native cfg
      then Ok (rp\<lparr>req_to_token := write_req_to_token_pool_triton (max_context_len rp) out 0
             (zip idxs (zip (map (\<lambda>r. length (prefix_indices r)) reqs)
                (zip (map (\<lambda>r. length (opt_list (fill_ids r))) reqs) (map (nat \<circ> extend_input_len) reqs))))
             (req_to_token rp)\<rparr>)
      else write_req_to_token_native out 0
             (zip idxs (zip (map (\<lambda>r. length (prefix_indices r)) reqs)
                (zip (map (\<lambda>r. length (opt_list (fill_ids r))) reqs) (map (nat \<circ> extend_input_len) reqs)))) rp)
      = Ok rp'"
    and b': "input_ids b' = Some (concat inputs)" "req_pool_indices b' = Some idxs"
      "out_cache_loc b' = Some out" "m_rpool (w_mem w') = rp'"
    by (rule prepare_for_extend_stages)
  let ?t = "req_to_token (m_rpool (w_mem w))" and ?S = "max_context_len (m_rpool (w_mem w))"
  let ?rs = "b_reqs b" and ?fl = "\<lambda>r. length (opt_list (fill_ids r))" and ?pl = "\<lambda>r. length (prefix_indices r)"
  note al = alloc_req_slots_fresh [OF st(2) pools] and at = alloc_token_slots_length [OF st(3)]
  have inputs: "inputs = map (\<lambda>r. drop (?pl r) (opt_list (fill_ids r))) ?rs" by (rule mapR_req_input_ids [OF st(1)])
  have lens: "length out = sum_list (map new_tokens ?rs)" using at inputs by (simp add: o_def new_tokens_def [abs_def])
  have tok: "table_ok ?S (req_to_token (m_rpool (w_mem w2)))" using pools al at by (simp add: pools_ok_def)
  have "\<forall>r \<in> set ?rs. ?pl r \<le> ?S" using fits by (meson order_trans)
  note ex = extend_reqs_put [OF st(4) _ tok this]
  have n: "length reqs = length ?rs" "length idxs = length ?rs" using ex al by auto
  have same: "map ?pl reqs = map ?pl ?rs" "map ?fl reqs = map ?fl ?rs"
      "map (nat \<circ> extend_input_len) reqs = map new_tokens ?rs"
    using ex al n by (auto intro!: nth_equalityI simp: extended_def new_tokens_def nat_diff_distrib')
  let ?ps = "zip idxs (zip (map ?pl ?rs) (zip (map ?fl ?rs) (map new_tokens ?rs)))"
  let ?t1 = "fold row_put (zip idxs (map (\<lambda>r. (0, prefix_indices r)) ?rs)) ?t"
  have t1: "req_to_token rp = ?t1" "table_ok ?S (req_to_token rp)" "max_context_len rp = ?S"
    using ex al at n by auto
  have "progs_ok (length (req_to_token rp)) ?S (length out) ?ps"
    unfolding progs_ok_def
  proof (intro conjI ballI)
    show "sum_list (map (\<lambda>(row, pre, seq, ext). ext) ?ps) \<le> length out"
      using n lens by (simp add: sum_list_zip_ext)
    fix q assume "q \<in> set ?ps"
    then obtain k where k: "k < length ?rs" "q = (idxs ! k, ?pl (?rs ! k), ?fl (?rs ! k), new_tokens (?rs ! k))"
      using n by (auto simp: in_set_zip)
    then show "case q of (row, pre, seq, ext) \<Rightarrow>
        row < length (req_to_token rp) \<and> pre \<le> seq \<and> seq \<le> ?S \<and> ext = seq - pre"
      using fits al n t1(1) by (auto simp: new_tokens_def)
  qed
  then have t2: "req_to_token rp' = fold row_put (seg_writes out 0 ?ps) ?t1"
    using wr same t1 triton_puts [of ?S "req_to_token rp" out 0 ?ps] native_puts [of out 0 ?ps rp rp' ?S]
    by (auto split: if_splits)
  have dist: "distinct (map fst (seg_writes out 0 ?ps))" using al n by simp
  have segk: "map_of (seg_writes out 0 ?ps) (idxs ! k)
      = Some (?pl (?rs ! k), take (new_tokens (?rs ! k)) (drop (slot_start ?rs k) out))" if "k < length ?rs" for k
    using map_of_seg_writes [of "map ?pl ?rs" idxs "map ?fl ?rs" "map new_tokens ?rs" k out 0] al n that
    by (simp add: new_tokens_def slot_start_def take_map)
  have seglen: "length (take (new_tokens (?rs ! k)) (drop (slot_start ?rs k) out)) = new_tokens (?rs ! k)"
    if "k < length ?rs" for k
  proof -
    have "slot_start ?rs k + new_tokens (?rs ! k) + sum_list (map new_tokens (drop (Suc k) ?rs))
        = sum_list (map new_tokens ?rs)"
      using that by (subst (4) id_take_nth_drop [OF that]) (simp add: slot_start_def)
    then show ?thesis using lens by simp
  qed
  have rowk: "take (?fl (?rs ! k)) (req_to_token rp' ! (idxs ! k))
      = prefix_indices (?rs ! k) @ take (new_tokens (?rs ! k)) (drop (slot_start ?rs k) out)"
    if k: "k < length ?rs" for k
  proof -
    have len: "?pl (?rs ! k) + new_tokens (?rs ! k) = ?fl (?rs ! k)" "?fl (?rs ! k) \<le> ?S"
      using fits k by (auto simp: new_tokens_def)
    have row: "idxs ! k < length ?t" "length (?t ! (idxs ! k)) = ?S"
      using al n k pools by (auto simp: pools_ok_def table_ok_def)
    show ?thesis
      using row_of_puts [of idxs "map prefix_indices ?rs" k ?t
          "take (new_tokens (?rs ! k)) (drop (slot_start ?rs k) out)" "seg_writes out 0 ?ps"]
        segk [OF k] seglen [OF k] al n k len row dist t2 by (simp add: o_def)
  qed
  have others: "req_to_token rp' ! i = ?t ! i" if "i < length ?t" "i \<notin> set idxs" for i
  proof -
    have "map fst (seg_writes out 0 ?ps) = idxs" "map fst (zip idxs (map (\<lambda>r. (0 :: nat, prefix_indices r)) ?rs)) = idxs"
      using n by simp_all
    then show ?thesis using that t2 by (simp only: fold_row_put_other not_False_eq_True)
  qed
  show ?thesis using b' al n lens inputs rowk others by (auto simp: Let_def)
qed

section \<open>The properties on a concrete batch\<close>

definition demo_pool :: req_pool where
  "demo_pool = \<lparr>rp_size = 2, max_context_len = 4, req_to_token = [[0, 0, 0, 0], [5, 6, 7, 0]],
                rp_free = [0], write_records = [], use_records = False\<rparr>"

definition demo_world :: "(unit, chunk_cache) world" where
  "demo_world = \<lparr>w_mem = \<lparr>m_rpool = demo_pool,
       m_kv = \<lparr>kv_size = 8, kv_free = [1, 2, 3, 4, 8], is_not_in_free_group = True,
               is_in_free_group = False, free_group = []\<rparr>\<rparr>,
     w_cache = Map.empty, w_pens = Map.empty\<rparr>"

definition demo_cfg :: batch_cfg where
  "demo_cfg = \<lparr>is_encoder_decoder = False, cfg_vocab_size = 20, torch_native = True,
     pen_order = [FrequencyP, MinNewTokensP, PresenceP, RepetitionP]\<rparr>"

definition demo_batch :: "(unit, unit) batch" where
  "demo_batch = init_new 0 [demo_req\<lparr>fill_ids := Some [10, 11], prefix_indices := [5], extend_input_len := 1\<rparr>]
                  True 0"

lemma triton_kernel_equiv_witness:
  "write_req_to_token_pool_triton 4 [8, 9, 1] 0 [(1, 1, 3, 2), (0, 0, 1, 1)] (req_to_token demo_pool)
   = [[1, 0, 0, 0], [5, 8, 9, 0]]"
proof -
  let ?p = "demo_pool\<lparr>req_to_token := [[1, 0, 0, 0], [5, 8, 9, 0]]\<rparr>"
  have "write_req_to_token_native [8, 9, 1] 0 [(1, 1, 3, 2), (0, 0, 1, 1)] demo_pool = Ok ?p"
    by (simp add: demo_pool_def rp_write_def write_without_records_def bcast_def)
  from triton_kernel_equiv [OF this, of 4] show ?thesis
    by (simp add: demo_pool_def table_ok_def progs_ok_def)
qed

lemma prepare_for_extend_rows_witness:
  "\<exists>b' w'. prepare_for_extend chunk_ops demo_cfg 0 demo_batch demo_world = Ok (b', w')
     \<and> req_pool_indices b' = Some [0] \<and> out_cache_loc b' = Some [1]
     \<and> take 2 (req_to_token (m_rpool (w_mem w')) ! 0) = [5, 1]"
proof -
  have ex: "\<exists>x. prepare_for_extend chunk_ops demo_cfg 0 demo_batch demo_world = Ok x
      \<and> req_pool_indices (fst x) = Some [0] \<and> out_cache_loc (fst x) = Some [1]"
    by (simp add: prepare_for_extend_def Let_def demo_batch_def init_new_def new_batch_def demo_world_def
        demo_pool_def demo_cfg_def demo_defs req_input_ids_def alloc_req_slots_def rp_alloc_def
        alloc_token_slots_def kv_alloc_def extend_req_def rp_write_def write_without_records_def bcast_def
        from_schedule_batch_def orchestrator_init_def penalizer_kinds_def prepare_if_required_def
        is_required_def assertR_def)
  then obtain b' w' where p: "prepare_for_extend chunk_ops demo_cfg 0 demo_batch demo_world = Ok (b', w')"
      "req_pool_indices b' = Some [0]" "out_cache_loc b' = Some [1]"
    by auto
  have rs: "b_reqs demo_batch = [demo_req\<lparr>fill_ids := Some [10, 11], prefix_indices := [5], extend_input_len := 1\<rparr>]"
    by (simp add: demo_batch_def init_new_def new_batch_def)
  have "take 2 (req_to_token (m_rpool (w_mem w')) ! 0) = [5, 1]"
    using prepare_for_extend_rows [OF p(1)] p(2,3) unfolding rs
    by (simp add: Let_def demo_cfg_def demo_world_def demo_pool_def pools_ok_def table_ok_def
        new_tokens_def slot_start_def numeral_2_eq_2)
  then show ?thesis using p by blast
qed

end
