(* ===== verification/Batch_Ops.thy ===== *)
theory Batch_Ops
imports Schedule_Batch
begin

text \<open>
  The operations that change which requests a batch holds (filter, merge, split, retract, mixing a
  decode batch into an extend batch) and the decode step (\<^verbatim>\<open>ScheduleBatch\<close> in
  \<^verbatim>\<open>python/sglang/srt/managers/schedule_batch.py\<close>).
\<close>

section \<open>Filtering and merging\<close>

definition index_tensor :: "'a list option \<Rightarrow> nat list \<Rightarrow> 'a list option res" where
  "index_tensor x js = rbind (the_tensor x) (\<lambda>v. rbind (gather v js) (\<lambda>ys. Ok (Some ys)))"

text \<open>\<^verbatim>\<open>is not being_chunked_req\<close> compares object identities.\<close>

definition unfinished_indices :: "'g req option \<Rightarrow> 'g req list \<Rightarrow> nat list" where
  "unfinished_indices being reqs =
     filter (\<lambda>i. \<not> finished (reqs ! i)
               \<and> (case being of None \<Rightarrow> True | Some r \<Rightarrow> oid (reqs ! i) \<noteq> oid r)) [0..<length reqs]"

definition filter_keep ::
  "batch_cfg \<Rightarrow> nat list \<Rightarrow> ('g, 'm) batch \<Rightarrow> 'g pstore \<Rightarrow> (('g, 'm) batch \<times> 'g pstore) res" where
  "filter_keep cfg keep b s =
     (if keep = [] then Ok (b\<lparr>b_reqs := []\<rparr>, store_set_reqs (b_id b) [] s)
      else if length keep = length (b_reqs b) then Ok (b, s)
      else
        rbind (if is_encoder_decoder cfg then index_tensor (encoder_lens b) keep else Ok (encoder_lens b)) (\<lambda>el.
        rbind (if is_encoder_decoder cfg then index_tensor (encoder_lens_cpu b) keep else Ok (encoder_lens_cpu b)) (\<lambda>ec.
        rbind (gather (b_reqs b) keep) (\<lambda>reqs.
        rbind (index_tensor (req_pool_indices b) keep) (\<lambda>pi.
        rbind (index_tensor (seq_lens b) keep) (\<lambda>sl.
        rbind (index_tensor (b_output_ids b) keep) (\<lambda>oi.
        let ret = list_ex return_logprob reqs
        in rbind (if ret then index_tensor (top_logprobs_nums b) keep else Ok None) (\<lambda>top.
        rbind (the_obj (sinfo b)) (\<lambda>si.
        rbind (si_filter keep (store_set_reqs (b_id b) reqs s) si) (\<lambda>(si, s).
          Ok (b\<lparr>encoder_lens := el, encoder_lens_cpu := ec, b_reqs := reqs, req_pool_indices := pi,
                seq_lens := sl, out_cache_loc := None, seq_lens_sum := map_option sum_list sl,
                b_output_ids := oi, b_return_logprob := ret, top_logprobs_nums := top,
                has_stream := list_ex stream reqs,
                has_grammar := list_ex (\<lambda>r. grammar r \<noteq> None) reqs, sinfo := Some si\<rparr>, s)))))))))))"

definition filter_batch ::
  "batch_cfg \<Rightarrow> 'g req option \<Rightarrow> nat list option \<Rightarrow> ('g, 'm) batch \<Rightarrow> 'g pstore
     \<Rightarrow> (('g, 'm) batch \<times> 'g pstore) res" where
  "filter_batch cfg being keep b s =
     filter_keep cfg (case keep of None \<Rightarrow> unfinished_indices being (b_reqs b) | Some js \<Rightarrow> js) b s"

text \<open>\<^verbatim>\<open>torch.concat\<close> and \<^verbatim>\<open>list.extend\<close> on an absent operand raise.\<close>

definition cat_opt :: "'a list option \<Rightarrow> 'a list option \<Rightarrow> 'a list option res" where
  "cat_opt x y = rbind (the_tensor x) (\<lambda>a. rbind (the_tensor y) (\<lambda>b. Ok (Some (a @ b))))"

definition merge_batch ::
  "batch_cfg \<Rightarrow> ('g, 'm) batch \<Rightarrow> ('g, 'm) batch \<Rightarrow> 'g pstore \<Rightarrow> (('g, 'm) batch \<times> 'g pstore) res" where
  "merge_batch cfg b other s =
     rbind (the_obj (sinfo b)) (\<lambda>si. rbind (the_obj (sinfo other)) (\<lambda>si'.
     rbind (si_merge s si si') (\<lambda>(si, s).
     rbind (if is_encoder_decoder cfg then cat_opt (encoder_lens b) (encoder_lens other) else Ok (encoder_lens b)) (\<lambda>el.
     rbind (if is_encoder_decoder cfg then cat_opt (encoder_lens_cpu b) (encoder_lens_cpu other)
            else Ok (encoder_lens_cpu b)) (\<lambda>ec.
     rbind (cat_opt (req_pool_indices b) (req_pool_indices other)) (\<lambda>pi.
     rbind (cat_opt (seq_lens b) (seq_lens other)) (\<lambda>sl.
     rbind (the_tensor (seq_lens_sum b)) (\<lambda>a. rbind (the_tensor (seq_lens_sum other)) (\<lambda>a'.
     rbind (if b_output_ids b \<noteq> None then cat_opt (b_output_ids b) (b_output_ids other) else Ok None) (\<lambda>oi.
     rbind (if b_return_logprob b \<and> b_return_logprob other
              then cat_opt (top_logprobs_nums b) (top_logprobs_nums other)
            else if b_return_logprob b
              then cat_opt (top_logprobs_nums b) (Some (replicate (length (b_reqs other)) 0))
            else if b_return_logprob other
              then cat_opt (Some (replicate (length (b_reqs b)) 0)) (top_logprobs_nums other)
            else Ok (top_logprobs_nums b)) (\<lambda>top.
       let reqs = b_reqs b @ b_reqs other
       in Ok (b\<lparr>sinfo := Some si, encoder_lens := el, encoder_lens_cpu := ec, req_pool_indices := pi,
                seq_lens := sl, out_cache_loc := None, seq_lens_sum := Some (a + a'),
                b_output_ids := oi, top_logprobs_nums := top, b_reqs := reqs,
                b_ttft := b_ttft b @ b_ttft other, b_tpot := b_tpot b @ b_tpot other,
                b_exec_time := b_exec_time b @ b_exec_time other, b_cur_time := b_cur_time other,
                b_return_logprob := b_return_logprob b \<or> b_return_logprob other,
                has_stream := has_stream b \<or> has_stream other,
                has_grammar := has_grammar b \<or> has_grammar other\<rparr>,
              store_set_reqs (b_id b) reqs s))))))))))))"

section \<open>Splitting\<close>

text \<open>\<open>nb\<close> is the identity of the new batch.\<close>

definition make_sub_batch ::
  "nat \<Rightarrow> ('g, 'm) batch \<Rightarrow> nat list \<Rightarrow> 'g pstore \<Rightarrow> (('g, 'm) batch option \<times> 'g pstore) res" where
  "make_sub_batch nb b indices s =
     (if indices = [] then Ok (None, s)
      else
        rbind (gather (b_reqs b) indices) (\<lambda>sub.
        rbind (gather_opt (req_pool_indices b) indices) (\<lambda>pi.
        rbind (gather_opt (seq_lens b) indices) (\<lambda>sl.
        rbind (gather_opt (b_output_ids b) indices) (\<lambda>oi.
        let ret = list_ex return_logprob sub
        in rbind (if ret then gather_opt (top_logprobs_nums b) indices else Ok None) (\<lambda>top.
        rbind (case sinfo b of None \<Rightarrow> Ok (None, s)
               | Some si \<Rightarrow> rbind (si_filter indices s (si_copy si)) (\<lambda>(si, s). Ok (Some si, s))) (\<lambda>(si, s).
          Ok (Some ((new_batch nb sub)\<lparr>b_mode := b_mode b, req_pool_indices := pi, seq_lens := sl,
                      seq_lens_sum := map_option sum_list sl, b_output_ids := oi,
                      b_return_logprob := ret, top_logprobs_nums := top,
                      has_stream := list_ex stream sub,
                      has_grammar := list_ex (\<lambda>r. grammar r \<noteq> None) sub, sinfo := si\<rparr>), s))))))))"

definition split_batch ::
  "nat \<Rightarrow> ('g, 'm) batch \<Rightarrow> nat list \<Rightarrow> nat list option \<Rightarrow> 'g pstore
     \<Rightarrow> ((('g, 'm) batch option \<times> ('g, 'm) batch option) \<times> 'g pstore) res" where
  "split_batch nb b keep drop' s =
     (let dr = (case drop' of None \<Rightarrow> filter (\<lambda>i. i \<notin> set keep) [0..<length (b_reqs b)] | Some js \<Rightarrow> js)
      in rbind (make_sub_batch nb b keep s) (\<lambda>(x, s).
         rbind (make_sub_batch (Suc nb) b dr s) (\<lambda>(y, s). Ok ((x, y), s))))"

text \<open>A tensor or list slice \<^verbatim>\<open>[start:end]\<close>.\<close>

definition slice :: "nat \<Rightarrow> nat \<Rightarrow> 'a list \<Rightarrow> 'a list" where
  "slice s e xs = take (e - s) (drop s xs)"

definition make_slice_batch ::
  "nat \<Rightarrow> ('g, 'm) batch \<Rightarrow> nat \<Rightarrow> nat \<Rightarrow> 'g pstore \<Rightarrow> (('g, 'm) batch option \<times> 'g pstore) res" where
  "make_slice_batch nb b start end s =
     (if start \<ge> end then Ok (None, s)
      else let sub = slice start end (b_reqs b);
               sl = map_option (slice start end) (seq_lens b);
               ret = list_ex return_logprob sub
           in rbind (case sinfo b of None \<Rightarrow> Ok (None, s)
                     | Some si \<Rightarrow> rbind (si_filter [start..<end] s (si_copy si)) (\<lambda>(si, s). Ok (Some si, s))) (\<lambda>(si, s).
              Ok (Some ((new_batch nb sub)\<lparr>b_mode := b_mode b,
                          req_pool_indices := map_option (slice start end) (req_pool_indices b),
                          seq_lens := sl, seq_lens_sum := map_option sum_list sl,
                          b_output_ids := map_option (slice start end) (b_output_ids b),
                          b_return_logprob := ret,
                          top_logprobs_nums := (if ret then map_option (slice start end) (top_logprobs_nums b) else None),
                          has_stream := list_ex stream sub,
                          has_grammar := list_ex (\<lambda>r. grammar r \<noteq> None) sub, sinfo := si\<rparr>), s)))"

definition split_head_tail ::
  "nat \<Rightarrow> ('g, 'm) batch \<Rightarrow> int \<Rightarrow> 'g pstore
     \<Rightarrow> ((('g, 'm) batch option \<times> ('g, 'm) batch option) \<times> 'g pstore) res" where
  "split_head_tail nb b split_point s =
     (let n = length (b_reqs b); sp = nat (max 0 (min split_point (int n)))
      in rbind (make_slice_batch nb b 0 sp s) (\<lambda>(x, s).
         rbind (make_slice_batch (Suc nb) b sp n s) (\<lambda>(y, s). Ok ((x, y), s))))"

section \<open>Mixing, decoding, retracting\<close>

definition mix_with_running ::
  "batch_cfg \<Rightarrow> ('g, 'm) batch \<Rightarrow> ('g, 'm) batch \<Rightarrow> 'g pstore \<Rightarrow> (('g, 'm) batch \<times> 'g pstore) res" where
  "mix_with_running cfg b running s =
     (let running_bs = length (b_reqs running);
          running = running\<lparr>b_reqs := map (\<lambda>r. r\<lparr>fill_ids := Some (origin_input_ids r @ output_ids r),
                                                 extend_input_len := 1\<rparr>) (b_reqs running)\<rparr>;
          s = store_set_reqs (b_id running) (b_reqs running) s
      in rbind (cat_opt (input_ids b) (input_ids running)) (\<lambda>inp.
         rbind (cat_opt (out_cache_loc b) (out_cache_loc running)) (\<lambda>out.
         rbind (merge_batch cfg b running s) (\<lambda>(b, s).
         let delta = (if b_overlap b then 0 else - 1 :: int)
         in rbind (cat_opt (prefix_lens b) (Some (map (\<lambda>r. int (length (origin_input_ids r))
                + int (length (output_ids r)) + delta) (b_reqs running)))) (\<lambda>pl.
            rbind (cat_opt (extend_lens b) (Some (replicate running_bs 1))) (\<lambda>el.
            rbind (the_tensor (extend_num_tokens b)) (\<lambda>num.
            rbind (cat_opt (extend_logprob_start_lens b) (Some (replicate running_bs 0))) (\<lambda>ls.
              Ok (b\<lparr>b_mode := Some MIXED, input_ids := inp, out_cache_loc := out, prefix_lens := pl,
                    extend_lens := el, extend_num_tokens := Some (num + int running_bs),
                    extend_logprob_start_lens := ls\<rparr>, s)))))))))"

text \<open>The memory check compares the size it was given before and after the eviction.\<close>

definition check_decode_mem ::
  "('g, 'c) cache_ops \<Rightarrow> int \<Rightarrow> ('g, 'm) batch \<Rightarrow> ('g, 'c) world \<Rightarrow> bool \<times> ('g, 'c) world" where
  "check_decode_mem ops available_size b w =
     (let bs = length (b_reqs b)
      in if available_size \<ge> int bs then (True, w)
         else let (c, kv) = evict_into ops bs (w_cache w) (m_kv (w_mem w));
                  w = w\<lparr>w_cache := c, w_mem := (w_mem w)\<lparr>m_kv := kv\<rparr>\<rparr>
              in (available_size \<ge> int bs, w))"

definition retract_decode_steps :: int where
  "retract_decode_steps = 20"

text \<open>Descending by output length, then ascending by input length; equal keys keep their order.\<close>

definition retract_order :: "'g req list \<Rightarrow> nat list" where
  "retract_order reqs =
     sort_key (\<lambda>i. (- output_ids_len (reqs ! i), int (length (origin_input_ids (reqs ! i))))) [0..<length reqs]"

text \<open>Releasing one retracted request: the chunk cache drops its entry, the radix cache keeps the
  prefix, unlocks it and evicts what the rest of the batch lacks.  The first component is what is
  added to the available size that the loop tests.\<close>

definition release_retracted ::
  "('g, 'c) cache_ops \<Rightarrow> nat list \<Rightarrow> 'g req \<Rightarrow> nat \<Rightarrow> nat \<Rightarrow> ('g, 'c) world \<Rightarrow> (int \<times> ('g, 'c) world) res" where
  "release_retracted ops lens r idx remaining w =
     rbind (py_index lens (int idx)) (\<lambda>seq_len.
     rbind (req_row r (int seq_len) (w_mem w)) (\<lambda>row.
     if is_chunk_cache ops
     then rbind (free_req_slot r (free_kv row (w_mem w))) (\<lambda>m.
          rbind (op_del_entry ops (rid r) (w_cache w)) (\<lambda>c.
            Ok (int (length row), w\<lparr>w_mem := m, w_cache := c\<rparr>)))
     else rbind (free_req_slot r (free_kv (drop (length (prefix_indices r)) row) (w_mem w))) (\<lambda>m.
          rbind (op_dec_lock ops (last_node r) (w_cache w)) (\<lambda>(_, c).
          let residual = max 0 (int remaining * retract_decode_steps - int (kv_available_size (m_kv m)));
              (c, kv) = evict_into ops (nat residual) c (m_kv m)
          in Ok (0, w\<lparr>w_mem := m\<lparr>m_kv := kv\<rparr>, w_cache := c\<rparr>)))))"

text \<open>The retract loop; \<open>todo\<close> is the sorted index list reversed, so its head is what \<^verbatim>\<open>pop\<close> takes.
  The result lists the indices that stay, in sorted order, and the retracted indices.\<close>

fun retract_loop ::
  "('g, 'c) cache_ops \<Rightarrow> 'g req list \<Rightarrow> nat list \<Rightarrow> bool \<Rightarrow> int \<Rightarrow> nat list \<Rightarrow> ('g, 'c) world
     \<Rightarrow> ((nat list \<times> nat list) \<times> ('g, 'c) world) res" where
  "retract_loop ops reqs lens first avail todo w =
     (if \<not> (avail < int (length todo) * retract_decode_steps \<or> first) then Ok ((rev todo, []), w)
      else case todo of
             [] \<Rightarrow> Err IndexError
           | idx # rest \<Rightarrow>
               if rest = [] then rbind (assertR (avail > 0)) (\<lambda>_. Ok ((rev todo, []), w))
               else rbind (release_retracted ops lens (reqs ! idx) idx (length rest) w) (\<lambda>(gain, w).
                    rbind (retract_loop ops reqs lens False (avail + gain) rest w) (\<lambda>((keep, out), w).
                      Ok ((keep, idx # out), w))))"

declare retract_loop.simps [simp del]

text \<open>The retracted request objects are also the batch's: they are reset in place before the filter.\<close>

definition reset_at :: "nat list \<Rightarrow> 'g req list \<Rightarrow> 'g req list" where
  "reset_at js reqs = fold (\<lambda>j rs. rs[j := reset_for_retract (rs ! j)]) js reqs"

definition retract_decode ::
  "('g, 'c) cache_ops \<Rightarrow> batch_cfg \<Rightarrow> int \<Rightarrow> ('g, 'm) batch \<Rightarrow> ('g, 'c) world
     \<Rightarrow> (('g req list \<times> real) \<times> ('g, 'm) batch \<times> ('g, 'c) world) res" where
  "retract_decode ops cfg avail b w =
     rbind (the_obj (seq_lens b)) (\<lambda>lens.
     rbind (retract_loop ops (b_reqs b) lens True avail (rev (retract_order (b_reqs b))) w) (\<lambda>((keep, out), w).
     let reqs = reset_at out (b_reqs b);
         b = b\<lparr>b_reqs := reqs\<rparr>
     in rbind (filter_batch cfg None (Some keep) b (store_set_reqs (b_id b) reqs (w_pens w))) (\<lambda>(b, s).
        let total_decoded = sum_list (map (\<lambda>r. int (length (output_ids r))) (b_reqs b))
        in rbind (mapR (\<lambda>r. the_tensor (max_new_tokens (params r))) (b_reqs b)) (\<lambda>ms.
           if sum_list ms = 0 then Err ZeroDivisionError
           else Ok ((map ((!) reqs) out,
                     min 1 ((real_of_int (total_decoded + retract_decode_steps * int (length (b_reqs b))))
                            / real_of_int (sum_list ms))),
                    b, w\<lparr>w_pens := s\<rparr>)))))"

definition prepare_for_idle :: "('g, 'm) batch \<Rightarrow> ('g, 'm) batch" where
  "prepare_for_idle b =
     b\<lparr>b_mode := Some IDLE, input_ids := Some [], seq_lens := Some [], out_cache_loc := Some [],
       req_pool_indices := Some [], seq_lens_sum := Some 0, extend_num_tokens := Some 0\<rparr>"

definition prepare_encoder_info_decode :: "('g, 'm) batch \<Rightarrow> ('g, 'm) batch" where
  "prepare_encoder_info_decode b = b\<lparr>encoder_cached := Some (replicate (length (b_reqs b)) True)\<rparr>"

definition prepare_for_decode ::
  "('g, 'c) cache_ops \<Rightarrow> batch_cfg \<Rightarrow> ('g, 'm) batch \<Rightarrow> ('g, 'c) world \<Rightarrow> (('g, 'm) batch \<times> ('g, 'c) world) res" where
  "prepare_for_decode ops cfg b w =
     (let b = b\<lparr>b_mode := Some DECODE, input_ids := b_output_ids b, b_output_ids := None\<rparr>
      in rbind (the_obj (sinfo b)) (\<lambda>si.
         rbind (the_pen si (w_pens w)) (\<lambda>obj.
         rbind (if o_required (po_orc obj)
                then rbind (the_tensor (input_ids b)) (\<lambda>ids.
                       pen_call (\<lambda>orc. cumulate_output_tokens orc (po_reqs obj) ids)
                         (penalizer_orchestrator si) (w_pens w))
                else Ok (w_pens w)) (\<lambda>pens.
         let bs = length (b_reqs b); w = w\<lparr>w_pens := pens\<rparr>
         in rbind (alloc_token_slots ops bs w) (\<lambda>(out, w).
         rbind (the_tensor (seq_lens b)) (\<lambda>lens.
         rbind (if is_encoder_decoder cfg
                then rbind (the_tensor (encoder_lens b)) (\<lambda>el.
                       if length el = length lens then Ok (map2 (+) el lens, prepare_encoder_info_decode b)
                       else Err RuntimeError)
                else Ok (lens, b)) (\<lambda>(locs, b).
         rbind (the_tensor (req_pool_indices b)) (\<lambda>pi.
         rbind (rp_write (m_rpool (w_mem w)) (Points pi locs) out) (\<lambda>rp.
         rbind (the_tensor (seq_lens_sum b)) (\<lambda>sm.
           Ok (b\<lparr>out_cache_loc := Some out, seq_lens := Some (map Suc lens), seq_lens_sum := Some (sm + bs)\<rparr>,
               w\<lparr>w_mem := (w_mem w)\<lparr>m_rpool := rp\<rparr>\<rparr>)))))))))))"

end
