(* ===== verification/Batch_Rows.thy ===== *)
theory Batch_Rows
imports Batch_Ops
begin

text \<open>
  The abstract view of a batch: one row per request, holding the request and its entry in each
  per-request tensor.  Filtering, merging and splitting a batch are exactly indexing, appending and
  partitioning this list of rows.
\<close>

section \<open>Rows\<close>

definition aligned :: "('g, 'm) batch \<Rightarrow> bool" where
  "aligned b \<longleftrightarrow>
     (\<exists>p l oi si. req_pool_indices b = Some p \<and> seq_lens b = Some l \<and> b_output_ids b = Some oi
        \<and> sinfo b = Some si \<and> length p = length (b_reqs b) \<and> length l = length (b_reqs b)
        \<and> length oi = length (b_reqs b) \<and> si_for (b_reqs b) si \<and> seq_lens_sum b = Some (sum_list l))
   \<and> (b_return_logprob b \<longleftrightarrow> list_ex return_logprob (b_reqs b))
   \<and> (b_return_logprob b \<longrightarrow> (\<exists>t. top_logprobs_nums b = Some t \<and> length t = length (b_reqs b)))"

definition batch_rows :: "('g, 'm) batch \<Rightarrow> ('g req \<times> nat \<times> nat \<times> int) list" where
  "batch_rows b = zip (b_reqs b) (zip (opt_list (req_pool_indices b))
                    (zip (opt_list (seq_lens b)) (opt_list (b_output_ids b))))"

definition maybe_rows :: "('g, 'm) batch option \<Rightarrow> ('g req \<times> nat \<times> nat \<times> int) list" where
  "maybe_rows x = (case x of None \<Rightarrow> [] | Some b \<Rightarrow> batch_rows b)"

lemma alignedE:
  assumes "aligned b"
  obtains p l oi si where "req_pool_indices b = Some p" "seq_lens b = Some l" "b_output_ids b = Some oi"
    "sinfo b = Some si" "length p = length (b_reqs b)" "length l = length (b_reqs b)"
    "length oi = length (b_reqs b)" "si_for (b_reqs b) si" "seq_lens_sum b = Some (sum_list l)"
    "b_return_logprob b \<longleftrightarrow> list_ex return_logprob (b_reqs b)"
    "b_return_logprob b \<longrightarrow> (\<exists>t. top_logprobs_nums b = Some t \<and> length t = length (b_reqs b))"
  using assms by (auto simp: aligned_def)

lemma batch_rows_length: "aligned b \<Longrightarrow> length (batch_rows b) = length (b_reqs b)"
  by (auto simp: aligned_def batch_rows_def)

lemma batch_rows_fst: "aligned b \<Longrightarrow> map fst (batch_rows b) = b_reqs b"
  by (auto simp: aligned_def batch_rows_def)

lemma map_nth_zip:
  "length ys = length xs \<Longrightarrow> \<forall>j \<in> set js. j < length xs
    \<Longrightarrow> map ((!) (zip xs ys)) js = zip (map ((!) xs) js) (map ((!) ys) js)"
  by (induction js) auto

text \<open>The tensors of \<open>b'\<close> are those of \<open>b\<close> at the positions \<open>js\<close>.\<close>

definition taken :: "nat list \<Rightarrow> ('g, 'm) batch \<Rightarrow> ('g, 'm) batch \<Rightarrow> bool" where
  "taken js b b' \<longleftrightarrow> (\<forall>j \<in> set js. j < length (b_reqs b))
     \<and> b_reqs b' = map ((!) (b_reqs b)) js
     \<and> req_pool_indices b' = map_option (\<lambda>x. map ((!) x) js) (req_pool_indices b)
     \<and> seq_lens b' = map_option (\<lambda>x. map ((!) x) js) (seq_lens b)
     \<and> b_output_ids b' = map_option (\<lambda>x. map ((!) x) js) (b_output_ids b)
     \<and> seq_lens_sum b' = map_option sum_list (seq_lens b')
     \<and> b_return_logprob b' = list_ex return_logprob (b_reqs b')
     \<and> top_logprobs_nums b' = (if b_return_logprob b' then map_option (\<lambda>x. map ((!) x) js) (top_logprobs_nums b) else None)
     \<and> (\<forall>si. sinfo b = Some si \<and> si_for (b_reqs b) si
          \<longrightarrow> (\<exists>si'. sinfo b' = Some si' \<and> si_for (b_reqs b') si'))"

lemma taken_rows:
  assumes "taken js b b'" "aligned b"
  shows "aligned b' \<and> batch_rows b' = map ((!) (batch_rows b)) js"
proof -
  obtain p l oi si where b: "req_pool_indices b = Some p" "seq_lens b = Some l" "b_output_ids b = Some oi"
    "sinfo b = Some si" "length p = length (b_reqs b)" "length l = length (b_reqs b)"
    "length oi = length (b_reqs b)" "si_for (b_reqs b) si"
    "b_return_logprob b \<longleftrightarrow> list_ex return_logprob (b_reqs b)"
    "b_return_logprob b \<longrightarrow> (\<exists>t. top_logprobs_nums b = Some t \<and> length t = length (b_reqs b))"
    using assms(2) by (elim alignedE)
  have js: "\<forall>j \<in> set js. j < length (b_reqs b)" using assms(1) by (simp add: taken_def)
  have "list_ex return_logprob (map ((!) (b_reqs b)) js) \<Longrightarrow> list_ex return_logprob (b_reqs b)"
    using js by (auto simp: list_ex_iff)
  then have al: "aligned b'" using assms(1) b by (auto simp: taken_def aligned_def)
  have rows: "batch_rows b = zip (b_reqs b) (zip p (zip l oi))" using b by (simp add: batch_rows_def)
  have "batch_rows b' = zip (map ((!) (b_reqs b)) js) (zip (map ((!) p) js) (zip (map ((!) l) js) (map ((!) oi) js)))"
    using assms(1) b by (simp add: taken_def batch_rows_def)
  also have "\<dots> = map ((!) (batch_rows b)) js"
    using js b by (simp add: rows map_nth_zip)
  finally show ?thesis using al by simp
qed

section \<open>Filter\<close>

lemma index_tensor_Ok:
  "index_tensor x js = Ok y \<longleftrightarrow> (\<exists>v. x = Some v \<and> (\<forall>j \<in> set js. j < length v) \<and> y = Some (map ((!) v) js))"
  by (auto simp: index_tensor_def rbind_eq_Ok gather_eq_Ok)

lemma filter_keep_taken:
  assumes "filter_keep cfg keep b s = Ok (b', s')" "keep \<noteq> []" "length keep \<noteq> length (b_reqs b)"
  shows "taken keep b b'"
proof -
  have f: "\<exists>si si' s1. sinfo b = Some si \<and> si_filter keep s1 si = Ok (si', s')
      \<and> sinfo b' = Some si' \<and> b_reqs b' = map ((!) (b_reqs b)) keep"
    using assms unfolding filter_keep_def
    by (auto simp: rbind_eq_Ok gather_eq_Ok the_obj_eq_Ok Let_def split: if_splits)
  have "taken keep b b' \<or> \<not> (\<forall>si. sinfo b = Some si \<and> si_for (b_reqs b) si
          \<longrightarrow> (\<exists>si'. sinfo b' = Some si' \<and> si_for (b_reqs b') si'))"
    using assms unfolding filter_keep_def taken_def
    by (auto simp: rbind_eq_Ok gather_eq_Ok index_tensor_Ok the_obj_eq_Ok Let_def split: if_splits)
  then show ?thesis using f si_filter_for by (metis option.inject)
qed

lemma unfinished_indices_simps:
  "unfinished_indices None reqs = filter (\<lambda>i. \<not> finished (reqs ! i)) [0..<length reqs]"
  "length (unfinished_indices being reqs) \<le> length reqs"
  "length (unfinished_indices being reqs) = length reqs \<Longrightarrow> unfinished_indices being reqs = [0..<length reqs]"
  by (auto simp: unfinished_indices_def filter_indices_all intro: length_filter_le [THEN order_trans])

text \<open>Filtering to a list of positions that is not a reordering of the whole batch indexes the rows.\<close>

lemma filter_keep_rows:
  assumes "filter_keep cfg keep b s = Ok (b', s')" "aligned b" "keep \<noteq> []"
    "length keep = length (b_reqs b) \<longrightarrow> keep = [0..<length (b_reqs b)]"
  shows "aligned b' \<and> batch_rows b' = map ((!) (batch_rows b)) keep"
proof (cases "length keep = length (b_reqs b)")
  case True
  then have "b' = b" using assms(1,3) by (simp add: filter_keep_def)
  then show ?thesis using True assms batch_rows_length [OF assms(2)] by (metis map_nth)
next
  case False
  then show ?thesis using filter_keep_taken [OF assms(1,3)] taken_rows [OF _ assms(2)] by blast
qed

section \<open>Merge\<close>

lemma cat_opt_Ok: "cat_opt x y = Ok z \<longleftrightarrow> (\<exists>a b. x = Some a \<and> y = Some b \<and> z = Some (a @ b))"
  by (auto simp: cat_opt_def rbind_eq_Ok)

lemma merge_batch_rows:
  assumes m: "merge_batch cfg b c s = Ok (b', s')" and b: "aligned b" and c: "aligned c"
  shows "aligned b' \<and> batch_rows b' = batch_rows b @ batch_rows c"
proof -
  obtain p l oi si where b1: "req_pool_indices b = Some p" "seq_lens b = Some l" "b_output_ids b = Some oi"
    "sinfo b = Some si" "length p = length (b_reqs b)" "length l = length (b_reqs b)"
    "length oi = length (b_reqs b)" "si_for (b_reqs b) si" "seq_lens_sum b = Some (sum_list l)"
    "b_return_logprob b \<longleftrightarrow> list_ex return_logprob (b_reqs b)"
    "b_return_logprob b \<longrightarrow> (\<exists>t. top_logprobs_nums b = Some t \<and> length t = length (b_reqs b))"
    using b by (elim alignedE)
  obtain p' l' oi' si' where c1: "req_pool_indices c = Some p'" "seq_lens c = Some l'" "b_output_ids c = Some oi'"
    "sinfo c = Some si'" "length p' = length (b_reqs c)" "length l' = length (b_reqs c)"
    "length oi' = length (b_reqs c)" "si_for (b_reqs c) si'" "seq_lens_sum c = Some (sum_list l')"
    "b_return_logprob c \<longleftrightarrow> list_ex return_logprob (b_reqs c)"
    "b_return_logprob c \<longrightarrow> (\<exists>t. top_logprobs_nums c = Some t \<and> length t = length (b_reqs c))"
    using c by (elim alignedE)
  obtain si2 s1 where mi: "si_merge s si si' = Ok (si2, s1)" "sinfo b' = Some si2"
    using m b1(4) c1(4) by (auto simp: merge_batch_def rbind_eq_Ok Let_def)
  have si2: "si_for (b_reqs b @ b_reqs c) si2" using si_merge_for [OF mi(1) b1(8) c1(8)] .
  have fields: "b_reqs b' = b_reqs b @ b_reqs c" "req_pool_indices b' = Some (p @ p')"
      "seq_lens b' = Some (l @ l')" "b_output_ids b' = Some (oi @ oi')"
      "seq_lens_sum b' = Some (sum_list l + sum_list l')"
      "b_return_logprob b' = (b_return_logprob b \<or> b_return_logprob c)"
    using m b1(1-4,9) c1(1-4,9) by (auto simp: merge_batch_def rbind_eq_Ok Let_def cat_opt_Ok split: if_splits)
  have "\<exists>t. top_logprobs_nums b' = Some t \<and> length t = length (b_reqs b) + length (b_reqs c)"
    if "b_return_logprob b \<or> b_return_logprob c"
    using m b1(11) c1(11) that
    by (auto simp: merge_batch_def rbind_eq_Ok Let_def cat_opt_Ok split: if_splits)
  then have "aligned b'" using fields b1 c1 si2 mi(2) unfolding aligned_def by auto
  then show ?thesis using fields b1 c1 by (simp add: batch_rows_def)
qed

section \<open>Split\<close>

lemma gather_opt_Ok_iff:
  "gather_opt x js = Ok y \<longleftrightarrow> (\<forall>v. x = Some v \<longrightarrow> (\<forall>j \<in> set js. j < length v)) \<and> y = map_option (\<lambda>v. map ((!) v) js) x"
  by (cases x) (auto simp: rbind_eq_Ok gather_eq_Ok)

lemma make_sub_batch_stages:
  assumes "make_sub_batch nb b js s = Ok (Some b', s')"
  obtains sub pi sl oi top si where
    "js \<noteq> []" "gather (b_reqs b) js = Ok sub" "gather_opt (req_pool_indices b) js = Ok pi"
    "gather_opt (seq_lens b) js = Ok sl" "gather_opt (b_output_ids b) js = Ok oi"
    "(if list_ex return_logprob sub then gather_opt (top_logprobs_nums b) js else Ok None) = Ok top"
    "(case sinfo b of None \<Rightarrow> Ok (None, s)
      | Some si \<Rightarrow> rbind (si_filter js s (si_copy si)) (\<lambda>(si, s). Ok (Some si, s))) = Ok (si, s')"
    "b' = (new_batch nb sub)\<lparr>b_mode := b_mode b, req_pool_indices := pi, seq_lens := sl,
                      seq_lens_sum := map_option sum_list sl, b_output_ids := oi,
                      b_return_logprob := list_ex return_logprob sub, top_logprobs_nums := top,
                      has_stream := list_ex stream sub,
                      has_grammar := list_ex (\<lambda>r. grammar r \<noteq> None) sub, sinfo := si\<rparr>"
proof (cases "js = []")
  case True
  then show ?thesis using assms by (simp add: make_sub_batch_def)
next
  case False
  show ?thesis
    using assms False unfolding make_sub_batch_def Let_def if_not_P [OF False]
    by (elim rbind_OkE) (auto intro!: that)
qed

lemma make_sub_batch_taken:
  assumes "make_sub_batch nb b js s = Ok (Some b', s')"
  shows "taken js b b' \<and> b_id b' = nb \<and> js \<noteq> []"
proof -
  from assms obtain sub pi sl oi top si where st:
    "js \<noteq> []" "gather (b_reqs b) js = Ok sub" "gather_opt (req_pool_indices b) js = Ok pi"
    "gather_opt (seq_lens b) js = Ok sl" "gather_opt (b_output_ids b) js = Ok oi"
    "(if list_ex return_logprob sub then gather_opt (top_logprobs_nums b) js else Ok None) = Ok top"
    "(case sinfo b of None \<Rightarrow> Ok (None, s)
      | Some si \<Rightarrow> rbind (si_filter js s (si_copy si)) (\<lambda>(si, s). Ok (Some si, s))) = Ok (si, s')"
    "b' = (new_batch nb sub)\<lparr>b_mode := b_mode b, req_pool_indices := pi, seq_lens := sl,
                      seq_lens_sum := map_option sum_list sl, b_output_ids := oi,
                      b_return_logprob := list_ex return_logprob sub, top_logprobs_nums := top,
                      has_stream := list_ex stream sub,
                      has_grammar := list_ex (\<lambda>r. grammar r \<noteq> None) sub, sinfo := si\<rparr>"
    by (rule make_sub_batch_stages)
  have fields: "b_id b' = nb" "b_reqs b' = sub" "req_pool_indices b' = pi" "seq_lens b' = sl"
      "b_output_ids b' = oi" "seq_lens_sum b' = map_option sum_list sl"
      "b_return_logprob b' = list_ex return_logprob sub" "top_logprobs_nums b' = top" "sinfo b' = si"
    by (simp_all add: st(8) new_batch_def)
  have sub: "sub = map ((!) (b_reqs b)) js" "\<forall>j \<in> set js. j < length (b_reqs b)"
    using st(2) by (simp_all add: gather_eq_Ok)
  have "\<exists>si'. sinfo b' = Some si' \<and> si_for (b_reqs b') si'"
    if some: "sinfo b = Some si1" and for1: "si_for (b_reqs b) si1" for si1
  proof -
    obtain si2 where "si_filter js s (si_copy si1) = Ok (si2, s')" "si = Some si2"
      using st(7) some by (auto simp: rbind_eq_Ok)
    then show ?thesis using si_filter_for [OF _ si_copy_for [OF for1]] fields sub by auto
  qed
  then show ?thesis
    using fields sub st(1,3-6) by (auto simp: taken_def gather_opt_Ok_iff split: if_splits)
qed

lemma make_sub_batch_rows:
  assumes "make_sub_batch nb b js s = Ok (x, s')" "aligned b"
  shows "maybe_rows x = map ((!) (batch_rows b)) js \<and> (x = None \<longleftrightarrow> js = [])
       \<and> (\<forall>b'. x = Some b' \<longrightarrow> aligned b' \<and> b_id b' = nb)"
proof (cases x)
  case None
  then have "js = []"
    using assms(1) by (auto simp: make_sub_batch_def rbind_eq_Ok Let_def split: if_splits)
  then show ?thesis using None by (simp add: maybe_rows_def)
next
  case (Some b')
  then show ?thesis
    using make_sub_batch_taken [of nb b js s b' s'] taken_rows [OF _ assms(2)] assms(1)
    by (auto simp: maybe_rows_def)
qed

lemma split_batch_rows:
  assumes "split_batch nb b keep (Some dr) s = Ok ((x, y), s')" "aligned b"
  shows "maybe_rows x = map ((!) (batch_rows b)) keep \<and> maybe_rows y = map ((!) (batch_rows b)) dr
       \<and> (x = None \<longleftrightarrow> keep = []) \<and> (y = None \<longleftrightarrow> dr = [])
       \<and> (\<forall>b'. x = Some b' \<or> y = Some b' \<longrightarrow> aligned b')"
proof -
  obtain s1 where "make_sub_batch nb b keep s = Ok (x, s1)" "make_sub_batch (Suc nb) b dr s1 = Ok (y, s')"
    using assms(1) by (auto simp: split_batch_def rbind_eq_Ok Let_def)
  then show ?thesis using make_sub_batch_rows [OF _ assms(2)] by blast
qed

text \<open>C4: Filtering, merging and splitting a batch act on its rows, a row being a request with its pool
  slot, sequence length and last output token: a filter to the unfinished requests keeps their rows in
  order, a merge appends the other batch's rows, a split distributes the rows to the two index lists;
  and every resulting batch has all its tensors, the cached sum of the lengths, the logprob flag and
  the sampling parameters in line with its requests again.\<close>

theorem batch_ops_on_rows:
  assumes "aligned b"
  shows "(filter_batch cfg being None b s = Ok (b1, s1) \<and> unfinished_indices being (b_reqs b) \<noteq> []
            \<longrightarrow> aligned b1 \<and> batch_rows b1 = map ((!) (batch_rows b)) (unfinished_indices being (b_reqs b)))
       \<and> (merge_batch cfg b c s = Ok (b2, s2) \<and> aligned c
            \<longrightarrow> aligned b2 \<and> batch_rows b2 = batch_rows b @ batch_rows c)
       \<and> (split_batch nb b keep (Some dr) s = Ok ((x, y), s3)
            \<longrightarrow> maybe_rows x = map ((!) (batch_rows b)) keep \<and> maybe_rows y = map ((!) (batch_rows b)) dr
              \<and> (\<forall>b'. x = Some b' \<or> y = Some b' \<longrightarrow> aligned b'))"
proof (intro conjI)
  show "filter_batch cfg being None b s = Ok (b1, s1) \<and> unfinished_indices being (b_reqs b) \<noteq> []
      \<longrightarrow> aligned b1 \<and> batch_rows b1 = map ((!) (batch_rows b)) (unfinished_indices being (b_reqs b))"
    using filter_keep_rows [OF _ assms] unfinished_indices_simps(3) [of being "b_reqs b"]
    by (auto simp: filter_batch_def)
  show "merge_batch cfg b c s = Ok (b2, s2) \<and> aligned c \<longrightarrow> aligned b2 \<and> batch_rows b2 = batch_rows b @ batch_rows c"
    using merge_batch_rows [OF _ assms] by blast
  show "split_batch nb b keep (Some dr) s = Ok ((x, y), s3)
      \<longrightarrow> maybe_rows x = map ((!) (batch_rows b)) keep \<and> maybe_rows y = map ((!) (batch_rows b)) dr
        \<and> (\<forall>b'. x = Some b' \<or> y = Some b' \<longrightarrow> aligned b')"
    using split_batch_rows [OF _ assms] by blast
qed

text \<open>The optional tensors, where present, have one entry per request.\<close>

definition opt_aligned :: "('g, 'm) batch \<Rightarrow> bool" where
  "opt_aligned b \<longleftrightarrow> (\<forall>x. req_pool_indices b = Some x \<longrightarrow> length x = length (b_reqs b))
     \<and> (\<forall>x. seq_lens b = Some x \<longrightarrow> length x = length (b_reqs b))
     \<and> (\<forall>x. b_output_ids b = Some x \<longrightarrow> length x = length (b_reqs b))
     \<and> (\<forall>x. top_logprobs_nums b = Some x \<longrightarrow> length x = length (b_reqs b))"

lemma gather_slice: "e \<le> length xs \<Longrightarrow> gather xs [a..<e] = Ok (slice a e xs)"
  by (simp add: gather_def slice_def list_all_iff map_nth_range)

lemma gather_opt_slice:
  "\<forall>v. x = Some v \<longrightarrow> e \<le> length v \<Longrightarrow> gather_opt x [a..<e] = Ok (map_option (slice a e) x)"
  by (cases x) (simp_all add: gather_slice)

lemma make_slice_is_sub:
  assumes "opt_aligned b" "e \<le> length (b_reqs b)"
  shows "make_slice_batch nb b a e s = make_sub_batch nb b [a..<e] s"
proof -
  have "gather_opt (req_pool_indices b) [a..<e] = Ok (map_option (slice a e) (req_pool_indices b))"
    "gather_opt (seq_lens b) [a..<e] = Ok (map_option (slice a e) (seq_lens b))"
    "gather_opt (b_output_ids b) [a..<e] = Ok (map_option (slice a e) (b_output_ids b))"
    "gather_opt (top_logprobs_nums b) [a..<e] = Ok (map_option (slice a e) (top_logprobs_nums b))"
    using assms by (auto simp: opt_aligned_def intro: gather_opt_slice)
  then show ?thesis
    using assms(2) by (simp add: make_slice_batch_def make_sub_batch_def gather_slice Let_def)
qed

text \<open>The optimised head/tail split, which slices the tensors instead of indexing them, is the general
  split at the clamped split point, in results, errors and effects on the penalizers alike.\<close>

theorem split_head_tail_equiv:
  assumes "opt_aligned b"
  shows "split_head_tail nb b sp s
       = (let n = length (b_reqs b); k = nat (max 0 (min sp (int n)))
          in split_batch nb b [0..<k] (Some [k..<n]) s)"
proof -
  have "nat (max 0 (min sp (int (length (b_reqs b))))) \<le> length (b_reqs b)" by linarith
  then show ?thesis
    using assms by (simp add: split_head_tail_def split_batch_def Let_def make_slice_is_sub)
qed

end
