(* ===== verification/Batch_Steps.thy ===== *)
theory Batch_Steps
imports Batch_Rows
begin

text \<open>
  What the batch steps do to memory and to the shared objects: the decode step, mixing, retraction,
  the memory check, and splitting a batch whose requests need penalizers.
\<close>

section \<open>The decode step\<close>

lemma put_point_simps [simp]: "put_point (r, c, v) t = t[r := (t ! r)[c := v]]"
  by (simp add: put_point_def)

lemma fold_put_point_length [simp]: "length (fold put_point ps t) = length t"
  by (induction ps arbitrary: t) (auto simp: put_point_def split: prod.splits)

lemma fold_put_point_other: "i \<notin> set (map fst ps) \<Longrightarrow> fold put_point ps t ! i = t ! i"
  by (induction ps arbitrary: t) (auto simp: put_point_def split: prod.splits)

lemma fold_put_point_nth:
  assumes "distinct rs" "length cs = length rs" "length vs = length rs" "k < length rs" "rs ! k < length t"
  shows "fold put_point (zip rs (zip cs vs)) t ! (rs ! k) = (t ! (rs ! k))[cs ! k := vs ! k]"
  using assms
proof (induction rs arbitrary: cs vs k t)
  case Nil
  then show ?case by simp
next
  case (Cons r rs)
  obtain c cs' v vs' where *: "cs = c # cs'" "vs = v # vs'" "length cs' = length rs" "length vs' = length rs"
    using Cons.prems by (cases cs; cases vs) auto
  let ?t = "put_point (r, c, v) t"
  show ?case
  proof (cases k)
    case 0
    have "r \<notin> set (map fst (zip rs (zip cs' vs')))" using Cons.prems(1) * by simp
    then show ?thesis using * 0 Cons.prems fold_put_point_other [of r "zip rs (zip cs' vs')" ?t]
      by simp
  next
    case (Suc k')
    then have "rs ! k' \<noteq> r" using Cons.prems by auto
    then show ?thesis using Cons.IH [of cs' vs' k' ?t] Cons.prems * Suc by simp
  qed
qed

text \<open>C13: The decode step extends every request's row by one slot: the batch gets one new KV slot per
  request, all sequence lengths grow by one, the row of each request gets its new slot at the old
  length and is otherwise unchanged, so that the slots of the old sequence stay and the new one
  follows, and the rows outside the batch are unchanged.\<close>

theorem prepare_for_decode_rows:
  assumes dec: "prepare_for_decode ops cfg b w = Ok (b', w')" "\<not> is_encoder_decoder cfg"
    and b: "req_pool_indices b = Some pidx" "seq_lens b = Some lens" "distinct pidx"
      "length pidx = length (b_reqs b)" "length lens = length (b_reqs b)"
  shows "\<exists>out. out_cache_loc b' = Some out \<and> length out = length (b_reqs b)
       \<and> seq_lens b' = Some (map Suc lens) \<and> b_reqs b' = b_reqs b
       \<and> (\<forall>k < length pidx. take (Suc (lens ! k)) (req_to_token (m_rpool (w_mem w')) ! (pidx ! k))
            = take (lens ! k) (req_to_token (m_rpool (w_mem w)) ! (pidx ! k)) @ [out ! k])
       \<and> (\<forall>i. i \<notin> set pidx \<longrightarrow> req_to_token (m_rpool (w_mem w')) ! i = req_to_token (m_rpool (w_mem w)) ! i)"
proof -
  let ?n = "length (b_reqs b)"
  from dec obtain w1 out w2 rp where st: "alloc_token_slots ops ?n w1 = Ok (out, w2)"
      "m_rpool (w_mem w1) = m_rpool (w_mem w)" "rp_write (m_rpool (w_mem w2)) (Points pidx lens) out = Ok rp"
      "out_cache_loc b' = Some out" "seq_lens b' = Some (map Suc lens)" "b_reqs b' = b_reqs b"
      "m_rpool (w_mem w') = rp"
    using b(1,2) unfolding prepare_for_decode_def Let_def
    by (elim rbind_OkE) (auto simp: rbind_eq_Ok split: if_splits)
  note at = alloc_token_slots_length [OF st(1)]
  let ?t = "req_to_token (m_rpool (w_mem w))"
  have eq: "bcast ?n pidx = Ok pidx" "bcast ?n lens = Ok lens" "bcast ?n out = Ok out"
    using at b by (simp_all add: bcast_def)
  have n: "(if length pidx = 1 then length lens else length pidx) = ?n" using b by simp
  have "table_write ?t (Points pidx lens) out
      = (if list_all (\<lambda>(r, c). r < length ?t \<and> c < length (?t ! r)) (zip pidx lens)
         then Ok (fold put_point (zip pidx (zip lens out)) ?t) else Err IndexError)"
    unfolding table_write.simps Let_def n by (simp add: eq)
  moreover have "\<exists>t'. table_write ?t (Points pidx lens) out = Ok t' \<and> req_to_token rp = t'"
    using st(2,3) at
    by (auto simp: rp_write_def write_with_records_def write_without_records_def rbind_eq_Ok
        simp del: table_write.simps split: if_splits)
  ultimately have t': "req_to_token rp = fold put_point (zip pidx (zip lens out)) ?t"
      and ok: "list_all (\<lambda>(r, c). r < length ?t \<and> c < length (?t ! r)) (zip pidx lens)"
    by (auto split: if_splits)
  have "take (Suc (lens ! k)) (req_to_token rp ! (pidx ! k)) = take (lens ! k) (?t ! (pidx ! k)) @ [out ! k]"
    if k: "k < length pidx" for k
  proof -
    have r: "pidx ! k < length ?t" "lens ! k < length (?t ! (pidx ! k))"
      using ok k b by (auto simp: list_all_length)
    then have "req_to_token rp ! (pidx ! k) = (?t ! (pidx ! k))[lens ! k := out ! k]"
      using t' fold_put_point_nth [of pidx lens out k ?t] at b k by simp
    then show ?thesis using r by (simp add: take_Suc_conv_app_nth)
  qed
  moreover have "req_to_token rp ! i = ?t ! i" if "i \<notin> set pidx" for i
    using t' that at b fold_put_point_other [of i "zip pidx (zip lens out)" ?t] by simp
  ultimately show ?thesis using st at by auto
qed

section \<open>Mixing\<close>

text \<open>A mixed batch counts its tokens consistently: when the extend batch's extend lengths sum to its
  token count and to its number of input tokens, and the running batch brings one input token per
  request, then the same holds for the mixed batch, it has one extend and one prefix length per
  request, and (without overlap) prefix plus extend of each running request is its whole sequence.\<close>

theorem mix_with_running_counts:
  assumes mix: "mix_with_running cfg b r s = Ok (b', s')"
    and b: "extend_lens b = Some el" "prefix_lens b = Some pl" "input_ids b = Some ids"
      "extend_num_tokens b = Some (sum_list el)" "int (length ids) = sum_list el"
      "length el = length (b_reqs b)" "length pl = length (b_reqs b)"
    and r: "input_ids r = Some ids'" "length ids' = length (b_reqs r)"
  shows "\<exists>el' pl' ids''. extend_lens b' = Some el' \<and> prefix_lens b' = Some pl' \<and> input_ids b' = Some ids''
       \<and> extend_num_tokens b' = Some (sum_list el') \<and> int (length ids'') = sum_list el'
       \<and> length (b_reqs b') = length (b_reqs b) + length (b_reqs r)
       \<and> length el' = length (b_reqs b') \<and> length pl' = length (b_reqs b')
       \<and> (\<forall>k < length (b_reqs r). \<not> b_overlap b
            \<longrightarrow> pl' ! (length (b_reqs b) + k) + el' ! (length (b_reqs b) + k)
              = int (length (origin_input_ids (b_reqs r ! k)) + length (output_ids (b_reqs r ! k))))
       \<and> b_mode b' = Some MIXED"
proof -
  let ?r = "r\<lparr>b_reqs := map (\<lambda>r. r\<lparr>fill_ids := Some (origin_input_ids r @ output_ids r),
                                   extend_input_len := 1\<rparr>) (b_reqs r)\<rparr>"
  obtain b1 s1 where m: "merge_batch cfg b ?r s1 = Ok (b1, s')"
    and b': "input_ids b' = Some (ids @ ids')"
      "\<exists>pl1. prefix_lens b1 = Some pl1 \<and> prefix_lens b' = Some (pl1 @ map (\<lambda>r. int (length (origin_input_ids r))
          + int (length (output_ids r)) + (if b_overlap b1 then 0 else - 1)) (b_reqs ?r))"
      "\<exists>el1. extend_lens b1 = Some el1 \<and> extend_lens b' = Some (el1 @ replicate (length (b_reqs r)) 1)"
      "\<exists>num. extend_num_tokens b1 = Some num \<and> extend_num_tokens b' = Some (num + int (length (b_reqs r)))"
      "b_reqs b' = b_reqs b1" "b_mode b' = Some MIXED"
    using mix b r unfolding mix_with_running_def Let_def
    by (elim rbind_OkE) (auto simp: cat_opt_Ok rbind_eq_Ok)
  have b1: "extend_lens b1 = Some el" "prefix_lens b1 = Some pl" "extend_num_tokens b1 = Some (sum_list el)"
      "length (b_reqs b1) = length (b_reqs b) + length (b_reqs r)" "b_overlap b1 = b_overlap b"
    using m b unfolding merge_batch_def Let_def by (elim rbind_OkE; auto)+
  show ?thesis
    using b b1 r b' by (auto simp: nth_append sum_list_replicate)
qed

section \<open>Retraction\<close>

lemma free_kv_size:
  "is_not_in_free_group (m_kv m) \<Longrightarrow> is_not_in_free_group (m_kv (free_kv xs m))
     \<and> kv_available_size (m_kv (free_kv xs m)) = kv_available_size (m_kv m) + length xs"
  by (simp add: free_kv_def kv_release_def kv_available_size_def)

lemma release_chunk:
  assumes "release_retracted chunk_ops lens r idx n w = Ok (gain, w')" "is_not_in_free_group (m_kv (w_mem w))"
  shows "is_not_in_free_group (m_kv (w_mem w'))
       \<and> int (kv_available_size (m_kv (w_mem w'))) = int (kv_available_size (m_kv (w_mem w))) + gain"
proof -
  obtain row m where "free_req_slot r (free_kv row (w_mem w)) = Ok m" "gain = int (length row)" "w_mem w' = m"
    using assms(1) by (auto simp: release_retracted_def chunk_ops_def rbind_eq_Ok)
  moreover from this(1) have "m_kv m = m_kv (free_kv row (w_mem w))"
    by (auto simp: free_req_slot_def split: option.splits)
  ultimately show ?thesis using free_kv_size [OF assms(2), of row] by simp
qed

lemma retract_loop_keeps:
  assumes "retract_loop ops reqs lens first avail todo w = Ok ((keep, out), w')" "todo \<noteq> []"
  shows "keep \<noteq> []"
  using assms
proof (induction todo arbitrary: first avail w keep out w')
  case Nil
  then show ?case by simp
next
  case (Cons idx rest)
  show ?case
  proof (cases "rest = []")
    case True
    then show ?thesis using Cons.prems(1) by (auto simp: retract_loop.simps rbind_eq_Ok split: if_splits)
  next
    case False
    then have "\<exists>a w1 k out1 w2. retract_loop ops reqs lens False a rest w1 = Ok ((k, out1), w2) \<and> keep = k
        \<or> keep = rev (idx # rest)"
      using Cons.prems(1)
      by (auto simp: retract_loop.simps [of _ _ _ _ _ "idx # rest"] rbind_eq_Ok split: if_splits)
    then show ?thesis
    proof (elim exE disjE conjE)
      fix a w1 k out1 w2
      assume "retract_loop ops reqs lens False a rest w1 = Ok ((k, out1), w2)" "keep = k"
      then show ?thesis using Cons.IH [OF _ False] by blast
    qed simp
  qed
qed

lemma retract_loop_chunk:
  assumes "retract_loop chunk_ops reqs lens first avail todo w = Ok ((keep, out), w')"
    "avail = int (kv_available_size (m_kv (w_mem w)))" "is_not_in_free_group (m_kv (w_mem w))"
  shows "out @ rev keep = todo \<and> (first \<longrightarrow> keep \<noteq> []) \<and> (first \<and> length todo \<ge> 2 \<longrightarrow> out \<noteq> [])
       \<and> length keep \<le> kv_available_size (m_kv (w_mem w'))
       \<and> (length keep = 1 \<or> int (length keep) * retract_decode_steps \<le> int (kv_available_size (m_kv (w_mem w'))))"
  using assms
proof (induction todo arbitrary: first avail w keep out w')
  case Nil
  then show ?case by (simp add: retract_loop.simps split: if_splits)
next
  case (Cons idx rest)
  show ?case
  proof (cases "avail < int (length (idx # rest)) * retract_decode_steps \<or> first")
    case False
    then show ?thesis
      using Cons.prems by (auto simp: retract_loop.simps retract_decode_steps_def)
  next
    case True
    show ?thesis
    proof (cases "rest = []")
      case True': True
      then have "keep = [idx]" "out = []" "w' = w" "avail > 0"
        using Cons.prems(1) True by (auto simp: retract_loop.simps rbind_eq_Ok)
      then show ?thesis using True' Cons.prems(2) by auto
    next
      case False
      then obtain gain w1 out1 where s: "release_retracted chunk_ops lens (reqs ! idx) idx (length rest) w = Ok (gain, w1)"
          "retract_loop chunk_ops reqs lens False (avail + gain) rest w1 = Ok ((keep, out1), w')" "out = idx # out1"
        using Cons.prems(1) True by (auto simp: retract_loop.simps [of _ _ _ _ _ "idx # rest"] rbind_eq_Ok)
      note r = release_chunk [OF s(1) Cons.prems(3)]
      have ih: "out1 @ rev keep = rest" "length keep \<le> kv_available_size (m_kv (w_mem w'))"
          "length keep = 1 \<or> int (length keep) * retract_decode_steps \<le> int (kv_available_size (m_kv (w_mem w')))"
        using Cons.IH [OF s(2)] r Cons.prems(2) by auto
      have "keep \<noteq> []" using retract_loop_keeps [OF s(2) False] .
      then show ?thesis using ih s(3) by auto
    qed
  qed
qed

lemma reset_at_simps [simp]: "length (reset_at js reqs) = length reqs"
  by (induction js arbitrary: reqs) (auto simp: reset_at_def)

lemma reset_at_Cons: "reset_at (j # js) reqs = reset_at js (reqs[j := reset_for_retract (reqs ! j)])"
  by (simp add: reset_at_def)

lemma reset_at_nth:
  assumes "distinct js" "i < length reqs"
  shows "reset_at js reqs ! i = (if i \<in> set js then reset_for_retract (reqs ! i) else reqs ! i)"
  using assms
proof (induction js arbitrary: reqs)
  case Nil
  then show ?case by (simp add: reset_at_def)
next
  case (Cons j js)
  then show ?case by (cases "i = j") (auto simp: reset_at_Cons)
qed

text \<open>C11: Retraction with the chunk cache makes room for the next decode step and gives up as little as it
  can: the requests that stay and the retracted ones partition the batch, the retracted ones are those
  with the fewest output tokens and are reset, at least one request stays and at least one of several
  is retracted, and afterwards there is a free slot for every request that stays (twenty, unless a
  single one is left); the new token ratio is at most one.\<close>

theorem retract_decode_makes_room:
  assumes ret: "retract_decode chunk_ops cfg avail b w = Ok ((gone, ratio), b', w')"
    and mem: "avail = int (kv_available_size (m_kv (w_mem w)))" "is_not_in_free_group (m_kv (w_mem w))"
  shows "\<exists>keep out. mset (keep @ out) = mset [0..<length (b_reqs b)]
       \<and> b_reqs b' = map ((!) (b_reqs b)) keep
       \<and> gone = map (\<lambda>i. reset_for_retract (b_reqs b ! i)) out
       \<and> (\<forall>i \<in> set out. \<forall>j \<in> set keep. output_ids_len (b_reqs b ! i) \<le> output_ids_len (b_reqs b ! j))
       \<and> keep \<noteq> [] \<and> (length (b_reqs b) \<ge> 2 \<longrightarrow> out \<noteq> [])
       \<and> fst (kv_alloc (length keep) (m_kv (w_mem w'))) \<noteq> None
       \<and> (length keep = 1 \<or> int (length keep) * retract_decode_steps \<le> int (kv_available_size (m_kv (w_mem w'))))
       \<and> ratio \<le> 1"
proof -
  let ?reqs = "b_reqs b" and ?n = "length (b_reqs b)"
  let ?ord = "retract_order ?reqs"
  let ?key = "\<lambda>i. (- output_ids_len (?reqs ! i), int (length (origin_input_ids (?reqs ! i))))"
  from ret obtain lens keep out w1 b1 s where st:
      "retract_loop chunk_ops ?reqs lens True avail (rev ?ord) w = Ok ((keep, out), w1)"
      "filter_keep cfg keep (b\<lparr>b_reqs := reset_at out ?reqs\<rparr>) (store_set_reqs (b_id b) (reset_at out ?reqs) (w_pens w1)) = Ok (b', s)"
      "gone = map ((!) (reset_at out ?reqs)) out" "ratio \<le> 1" "w_mem w' = w_mem w1"
    unfolding retract_decode_def Let_def filter_batch_def
    by (elim rbind_OkE) (auto simp: rbind_eq_Ok split: if_splits)
  have ord: "mset ?ord = mset [0..<?n]" "sorted (map ?key ?ord)" "distinct ?ord"
    by (simp_all add: retract_order_def distinct_sort)
  have loop: "out @ rev keep = rev ?ord" "keep \<noteq> []" "length (rev ?ord) \<ge> 2 \<longrightarrow> out \<noteq> []"
      "length keep \<le> kv_available_size (m_kv (w_mem w1))"
      "length keep = 1 \<or> int (length keep) * retract_decode_steps \<le> int (kv_available_size (m_kv (w_mem w1)))"
    using retract_loop_chunk [OF st(1) mem] by auto
  have split: "?ord = keep @ rev out" using loop(1) by (metis rev_append rev_rev_ident)
  have part: "mset (keep @ out) = mset [0..<?n]" using ord(1) split by simp
  then have sets: "set keep \<union> set out = {..<?n}" by (metis atLeast_upt mset_eq_setD set_append)
  have dist: "distinct out" "set keep \<inter> set out = {}" using ord(3) split by auto
  have nth: "reset_at out ?reqs ! i = (if i \<in> set out then reset_for_retract (?reqs ! i) else ?reqs ! i)"
    if "i \<in> set keep \<union> set out" for i
    using reset_at_nth [OF dist(1), of i ?reqs] that sets by auto
  have len: "length keep + length out = ?n" using arg_cong [OF part, of size] by simp
  have reqs': "b_reqs b' = map ((!) ?reqs) keep"
  proof (cases "length keep = ?n")
    case True
    then have "out = []" using len by simp
    with loop(3) split have "?n \<le> 1" using arg_cong [OF ord(1), of size] by (simp add: not_le)
    then have one: "?n = 1" using True loop(2) by (cases keep) auto
    then obtain i where "keep = [i]" using True by (auto simp: length_Suc_conv)
    then have "keep = [0]" using sets one \<open>out = []\<close> by auto
    then show ?thesis using st(2) \<open>out = []\<close> one
      by (cases ?reqs) (auto simp: filter_keep_def reset_at_def)
  next
    case False
    have "taken keep (b\<lparr>b_reqs := reset_at out ?reqs\<rparr>) b'"
      by (rule filter_keep_taken [OF st(2) loop(2)]) (simp add: False)
    then show ?thesis using nth dist(2) by (auto simp: taken_def)
  qed
  have "output_ids_len (?reqs ! i) \<le> output_ids_len (?reqs ! j)" if "i \<in> set out" "j \<in> set keep" for i j
  proof -
    have "?key j \<le> ?key i" using ord(2) split that by (auto simp: sorted_append)
    then show ?thesis by (auto simp: less_eq_prod_def)
  qed
  moreover have "length ?ord = ?n" using arg_cong [OF ord(1), of size] by simp
  moreover have "fst (kv_alloc (length keep) (m_kv (w_mem w'))) \<noteq> None"
    using loop(4) st(5) by (simp add: kv_alloc_def kv_available_size_def)
  moreover have "gone = map (\<lambda>i. reset_for_retract (?reqs ! i)) out" using st(3) nth by auto
  ultimately show ?thesis using part reqs' loop st(4,5) by auto
qed

text \<open>With the radix cache the loop never counts what it frees: retraction succeeds only if the size
  it was given was already positive, however much the retracted requests give back, and what stays is
  then bounded by that old size; started with nothing available it ends in an error.\<close>

theorem retract_radix_ignores_freed:
  assumes "retract_loop ops reqs lens first avail todo w = Ok ((keep, out), w')" "\<not> is_chunk_cache ops" "todo \<noteq> []"
  shows "0 < avail \<and> (length keep = 1 \<or> int (length keep) * retract_decode_steps \<le> avail)"
  using assms
proof (induction todo arbitrary: first w keep out w')
  case Nil
  then show ?case by simp
next
  case (Cons idx rest)
  show ?case
  proof (cases "avail < int (length (idx # rest)) * retract_decode_steps \<or> first")
    case False
    then show ?thesis using Cons.prems by (auto simp: retract_loop.simps retract_decode_steps_def)
  next
    case True
    show ?thesis
    proof (cases "rest = []")
      case True': True
      then show ?thesis using Cons.prems(1) True by (auto simp: retract_loop.simps rbind_eq_Ok)
    next
      case False
      then obtain gain w1 out1 where s: "release_retracted ops lens (reqs ! idx) idx (length rest) w = Ok (gain, w1)"
          "retract_loop ops reqs lens False (avail + gain) rest w1 = Ok ((keep, out1), w')"
        using Cons.prems(1) True by (auto simp: retract_loop.simps [of _ _ _ _ _ "idx # rest"] rbind_eq_Ok)
      have "gain = 0" using s(1) Cons.prems(2) by (auto simp: release_retracted_def rbind_eq_Ok Let_def case_prod_beta)
      then show ?thesis using Cons.IH [of False w1 keep out1 w'] s(2) Cons.prems(2) False by simp
    qed
  qed
qed

text \<open>The decode memory check never profits from its own eviction: its answer is that of the size it
  was given, although after a negative answer the pool may have room for the whole batch.\<close>

theorem check_decode_mem_answer:
  "fst (check_decode_mem ops avail b w) = (avail \<ge> int (length (b_reqs b)))"
  by (simp add: check_decode_mem_def Let_def split: prod.splits)

section \<open>Splitting a batch with penalties\<close>

lemma si_filter_pens:
  assumes "si_filter js s si = Ok (si', s')" "penalizer_orchestrator si = Some i" "s i = Some obj"
  shows "\<exists>orc. orc_filter (po_reqs obj) js (po_orc obj) = Ok orc \<and> s' = s(i \<mapsto> obj\<lparr>po_orc := orc\<rparr>)"
  using assms unfolding si_filter_def
  by (elim rbind_OkE) (auto simp: the_pen_def pen_call_def rbind_eq_Ok)

lemma orc_filter_keeps_rows:
  assumes "orc_filter reqs js orc = Ok orc'" "o_required orc" "p \<in> set (o_penalizers orc)" "rows p = Some rs"
    "is_required (pk p) reqs" "js \<noteq> []"
  shows "(\<forall>j \<in> set js. j < length rs) \<and> o_required orc'
       \<and> (\<exists>q \<in> set (o_penalizers orc'). pk q = pk p \<and> rows q = Some (map ((!) rs) js))"
proof -
  obtain ps where ps: "mapR (filter_one reqs js) (o_penalizers orc) = Ok ps"
      "orc' = orc\<lparr>o_penalizers := ps, o_required := list_ex (\<lambda>p. is_required (pk p) reqs) (o_penalizers orc)\<rparr>"
    using assms(1,2) by (auto simp: orc_filter_def rbind_eq_Ok)
  obtain k where k: "k < length (o_penalizers orc)" "o_penalizers orc ! k = p"
    using assms(3) by (auto simp: in_set_conv_nth)
  have "filter_one reqs js p = Ok (ps ! k)" "k < length ps"
    using ps(1) k by (auto simp: mapR_Ok_iff list_all2_conv_all_nth)
  then have "pen_filter js p = Ok (ps ! k)" using assms(5,6) by (simp add: filter_one_def split: if_splits)
  then have "(\<forall>j \<in> set js. j < length rs) \<and> ps ! k = p\<lparr>rows := Some (map ((!) rs) js)\<rparr>"
    using assms(4) by (auto simp: pen_filter_def rbind_eq_Ok gather_eq_Ok)
  moreover have "ps ! k \<in> set ps" using \<open>k < length ps\<close> by simp
  ultimately have "p\<lparr>rows := Some (map ((!) rs) js)\<rparr> \<in> set ps" by simp
  then have "\<exists>q \<in> set ps. pk q = pk p \<and> rows q = Some (map ((!) rs) js)" by (intro bexI) simp_all
  then show ?thesis using ps(2) assms(3,5) \<open>_ \<and> _\<close> by (auto simp: list_ex_iff)
qed

text \<open>A batch with a penalty in force cannot be split in two: the two parts share one penalizer object,
  the first part's filter has already cut its tensors down to the first part, and the second part's
  filter then indexes past their end.  So a head/tail split strictly inside the batch never succeeds
  when some request needs a prepared penalizer.\<close>

theorem split_with_penalty_fails:
  assumes b: "sinfo b = Some si" "penalizer_orchestrator si = Some i" "s i = Some obj"
    and p: "o_required (po_orc obj)" "p \<in> set (o_penalizers (po_orc obj))" "rows p = Some rs"
      "is_required (pk p) (po_reqs obj)"
    and sp: "0 < sp" "sp < int (length (b_reqs b))"
  shows "split_head_tail nb b sp s \<noteq> Ok r"
proof
  assume ok: "split_head_tail nb b sp s = Ok r"
  define k where "k = nat sp"
  have k: "0 < k" "k < length (b_reqs b)" "nat (max 0 (min sp (int (length (b_reqs b))))) = k"
    using sp by (auto simp: k_def)
  from ok k(3) obtain x s1 y s2 where s: "make_slice_batch nb b 0 k s = Ok (x, s1)"
      "make_slice_batch (Suc nb) b k (length (b_reqs b)) s1 = Ok (y, s2)"
    by (auto simp: split_head_tail_def Let_def rbind_eq_Ok)
  obtain si1 where "si_filter [0..<k] s (si_copy si) = Ok (si1, s1)"
    using s(1) k b(1) by (auto simp: make_slice_batch_def Let_def rbind_eq_Ok)
  then obtain orc where orc: "orc_filter (po_reqs obj) [0..<k] (po_orc obj) = Ok orc"
      "s1 = s(i \<mapsto> obj\<lparr>po_orc := orc\<rparr>)"
    using si_filter_pens [of "[0..<k]" s "si_copy si" si1 s1 i obj] b by (auto simp: si_copy_def)
  from orc_filter_keeps_rows [OF orc(1) p] k(1)
  obtain q where q: "o_required orc" "q \<in> set (o_penalizers orc)" "pk q = pk p"
      "rows q = Some (map ((!) rs) [0..<k])"
    by auto
  obtain si2 where "si_filter [k..<length (b_reqs b)] s1 (si_copy si) = Ok (si2, s2)"
    using s(2) k b(1) by (auto simp: make_slice_batch_def Let_def rbind_eq_Ok)
  then obtain orc2 where "orc_filter (po_reqs obj) [k..<length (b_reqs b)] orc = Ok orc2"
    using si_filter_pens [of "[k..<length (b_reqs b)]" s1 "si_copy si" si2 s2 i "obj\<lparr>po_orc := orc\<rparr>"] b orc(2)
    by (auto simp: si_copy_def)
  from orc_filter_keeps_rows [OF this q(1,2,4)] q(3) p(4) k(2)
  have "\<forall>j \<in> set [k..<length (b_reqs b)]. j < length (map ((!) rs) [0..<k])" by fastforce
  then show False using k(2) by simp
qed

end
