(* ===== verification/Batch_Demo.thy ===== *)
theory Batch_Demo
imports Batch_Steps
begin

text \<open>
  The batch properties applied to a concrete decode batch of two requests: every hypothesis holds
  there, so none of the properties is empty.
\<close>

definition run_req :: "nat \<Rightarrow> nat \<Rightarrow> int list \<Rightarrow> unit req" where
  "run_req i slot outs = demo_req\<lparr>oid := i, req_pool_idx := Some slot, output_ids := outs,
      output_ids_len := int (length outs)\<rparr>"

definition quiet_pens :: "unit pstore" where
  "quiet_pens = Map.empty(0 \<mapsto> \<lparr>po_orc = \<lparr>o_vocab = 20, o_penalizers = [], o_required = False\<rparr>,
      po_batch = 1, po_reqs = [run_req 1 0 [12, 13], run_req 2 1 [14]]\<rparr>)"

definition run_batch2 :: "(unit, unit) batch" where
  "run_batch2 = (new_batch 1 [run_req 1 0 [12, 13], run_req 2 1 [14]])
     \<lparr>sinfo := Some (demo_si\<lparr>temperatures := [1, 1], top_ps := [1, 1], top_ks := [-1, -1], min_ps := [0, 0]\<rparr>),
      req_pool_indices := Some [0, 1], seq_lens := Some [3, 2], b_output_ids := Some [13, 14],
      seq_lens_sum := Some 5\<rparr>"

definition run_world :: "(unit, chunk_cache) world" where
  "run_world = \<lparr>w_mem = \<lparr>m_rpool = \<lparr>rp_size = 2, max_context_len = 6,
         req_to_token = [[1, 2, 3, 0, 0, 0], [4, 5, 0, 0, 0, 0]], rp_free = [],
         write_records = [], use_records = False\<rparr>,
       m_kv = \<lparr>kv_size = 8, kv_free = [6, 7], is_not_in_free_group = True,
               is_in_free_group = False, free_group = []\<rparr>\<rparr>,
     w_cache = Map.empty(''a'' \<mapsto> [1]), w_pens = quiet_pens\<rparr>"

lemmas run_defs = run_batch2_def new_batch_def run_req_def demo_defs

lemma run_batch2_aligned: "aligned run_batch2" "opt_aligned run_batch2"
  by (simp_all add: aligned_def opt_aligned_def run_defs demo_si_def si_for_def)

lemma batch_ops_on_rows_witness:
  "\<exists>x y s3. split_batch 2 run_batch2 [1] (Some [0]) quiet_pens = Ok ((x, y), s3)
     \<and> maybe_rows x = [(run_req 2 1 [14], 1, 2, 14)] \<and> maybe_rows y = [(run_req 1 0 [12, 13], 0, 3, 13)]"
proof -
  have "\<exists>r. split_batch 2 run_batch2 [1] (Some [0]) quiet_pens = Ok r"
    by (simp add: split_batch_def make_sub_batch_def run_defs gather_def demo_si_def si_filter_def si_copy_def
        the_pen_def pen_call_def quiet_pens_def orc_filter_def gather_bias_def Let_def truthy_def)
  then obtain x y s3 where r: "split_batch 2 run_batch2 [1] (Some [0]) quiet_pens = Ok ((x, y), s3)" by auto
  have "maybe_rows x = map ((!) (batch_rows run_batch2)) [1] \<and> maybe_rows y = map ((!) (batch_rows run_batch2)) [0]"
    using batch_ops_on_rows [OF run_batch2_aligned(1), where cfg = demo_cfg and being = None and c = run_batch2
        and nb = 2 and keep = "[1]" and dr = "[0]" and s = quiet_pens and x = x and y = y and ?s3.0 = s3] r
    by blast
  then show ?thesis using r by (simp add: batch_rows_def run_batch2_def new_batch_def)
qed

lemma split_head_tail_equiv_witness:
  "split_head_tail 2 run_batch2 1 quiet_pens = split_batch 2 run_batch2 [0] (Some [1]) quiet_pens"
  using split_head_tail_equiv [OF run_batch2_aligned(2), of 2 1 quiet_pens]
  by (simp add: run_batch2_def new_batch_def upt_conv_Cons)

lemma prepare_for_decode_rows_witness:
  "\<exists>b' w'. prepare_for_decode chunk_ops demo_cfg run_batch2 run_world = Ok (b', w')
     \<and> take 4 (req_to_token (m_rpool (w_mem w')) ! 0) = [1, 2, 3, 6]"
proof -
  have ex: "\<exists>x. prepare_for_decode chunk_ops demo_cfg run_batch2 run_world = Ok x \<and> out_cache_loc (fst x) = Some [6, 7]"
    by (simp add: prepare_for_decode_def run_defs demo_si_def run_world_def quiet_pens_def the_pen_def
        alloc_token_slots_def kv_alloc_def demo_cfg_def rp_write_def write_without_records_def bcast_def Let_def)
  then obtain b' w' where p: "prepare_for_decode chunk_ops demo_cfg run_batch2 run_world = Ok (b', w')"
      "out_cache_loc b' = Some [6, 7]"
    by auto
  have "take (Suc ([3, 2] ! 0)) (req_to_token (m_rpool (w_mem w')) ! ([0, 1] ! 0))
      = take ([3, 2] ! 0) (req_to_token (m_rpool (w_mem run_world)) ! ([0, 1] ! 0)) @ [[6, 7] ! 0]"
    using prepare_for_decode_rows [OF p(1), of "[0, 1]" "[3, 2]"] p(2)
    by (auto simp: demo_cfg_def run_batch2_def new_batch_def)
  then show ?thesis using p(1) by (simp add: run_world_def numeral_eq_Suc)
qed

lemma mix_with_running_counts_witness:
  "\<exists>b' s'. mix_with_running demo_cfg
      (run_batch2\<lparr>input_ids := Some [1, 2, 3], extend_lens := Some [2, 1], prefix_lens := Some [0, 0],
                  extend_num_tokens := Some 3, extend_logprob_start_lens := Some [0, 0],
                  out_cache_loc := Some [6, 7, 8]\<rparr>)
      (run_batch2\<lparr>input_ids := Some [13, 14], out_cache_loc := Some [6, 7]\<rparr>) quiet_pens = Ok (b', s')
    \<and> extend_num_tokens b' = Some 5"
proof -
  let ?b = "run_batch2\<lparr>input_ids := Some [1, 2, 3], extend_lens := Some [2, 1], prefix_lens := Some [0, 0],
                  extend_num_tokens := Some 3, extend_logprob_start_lens := Some [0, 0],
                  out_cache_loc := Some [6, 7, 8]\<rparr>"
  let ?r = "run_batch2\<lparr>input_ids := Some [13, 14], out_cache_loc := Some [6, 7]\<rparr>"
  have "\<exists>x. mix_with_running demo_cfg ?b ?r quiet_pens = Ok x \<and> extend_lens (fst x) = Some [2, 1, 1, 1]"
    by (simp add: mix_with_running_def merge_batch_def run_batch2_def new_batch_def demo_si_def si_merge_def
        the_pen_def pen_call_def quiet_pens_def store_set_reqs_def orc_merge_def merge_bias_tensor_def
        cat_opt_def demo_cfg_def Let_def)
  then obtain b' s' where m: "mix_with_running demo_cfg ?b ?r quiet_pens = Ok (b', s')"
      "extend_lens b' = Some [2, 1, 1, 1]" by auto
  have "\<exists>el' pl' ids''. extend_lens b' = Some el' \<and> prefix_lens b' = Some pl' \<and> input_ids b' = Some ids''
       \<and> extend_num_tokens b' = Some (sum_list el')"
    using mix_with_running_counts [OF m(1), of "[2, 1]" "[0, 0]" "[1, 2, 3]" "[13, 14]"]
    by (auto simp: run_batch2_def new_batch_def)
  then show ?thesis using m by auto
qed

lemma retract_decode_makes_room_witness:
  "\<exists>gone ratio b' w'. retract_decode chunk_ops demo_cfg 2 run_batch2 run_world = Ok ((gone, ratio), b', w')
     \<and> length gone \<ge> 1 \<and> ratio \<le> 1"
proof -
  have ord: "retract_order [run_req 1 0 [12, 13], run_req 2 1 [14]] = [0, 1]"
    by (simp add: retract_order_def run_req_def demo_defs upt_conv_Cons less_eq_prod_def)
  let ?reqs = "[run_req 1 0 [12, 13], run_req 2 1 [14]]"
  have "\<exists>w1. retract_loop chunk_ops ?reqs [3, 2] True 2 [1, 0] run_world = Ok (([0], [1]), w1) \<and> w_pens w1 = quiet_pens"
    by (simp add: retract_loop.simps retract_decode_steps_def release_retracted_def py_index_def req_row_def
        run_world_def chunk_ops_def free_req_slot_def free_kv_def cc_del_entry_def kv_release_def run_req_def demo_defs)
  then obtain w1 where loop: "retract_loop chunk_ops ?reqs [3, 2] True 2 [1, 0] run_world = Ok (([0], [1]), w1)"
      "w_pens w1 = quiet_pens" by blast
  let ?rs = "reset_at [1] ?reqs"
  have "\<exists>x. filter_keep demo_cfg [0] (run_batch2\<lparr>b_reqs := ?rs\<rparr>) (store_set_reqs 1 ?rs quiet_pens) = Ok x
      \<and> b_reqs (fst x) = [run_req 1 0 [12, 13]]"
    by (simp add: filter_keep_def reset_at_def demo_cfg_def gather_def index_tensor_def run_batch2_def new_batch_def
        quiet_pens_def store_set_reqs_def demo_si_def si_filter_def the_pen_def pen_call_def orc_filter_def
        gather_bias_def Let_def)
       (simp add: run_req_def demo_defs)
  then obtain b2 s2 where f: "filter_keep demo_cfg [0] (run_batch2\<lparr>b_reqs := ?rs\<rparr>) (store_set_reqs 1 ?rs quiet_pens) = Ok (b2, s2)"
      "b_reqs b2 = [run_req 1 0 [12, 13]]" by auto
  have fields: "b_reqs run_batch2 = ?reqs" "seq_lens run_batch2 = Some [3, 2]" "b_id run_batch2 = 1"
    by (simp_all add: run_batch2_def new_batch_def)
  have max: "max_new_tokens (params (run_req 1 0 [12, 13])) = Some 128" by (simp add: run_req_def demo_defs)
  have "\<exists>x. retract_decode chunk_ops demo_cfg 2 run_batch2 run_world = Ok x"
    using f loop max by (simp add: retract_decode_def fields ord filter_batch_def Let_def del: One_nat_def)
  then obtain gone ratio b' w' where r: "retract_decode chunk_ops demo_cfg 2 run_batch2 run_world = Ok ((gone, ratio), b', w')"
    by auto
  have "\<exists>keep out. gone = map (\<lambda>i. reset_for_retract (b_reqs run_batch2 ! i)) out
       \<and> (length (b_reqs run_batch2) \<ge> 2 \<longrightarrow> out \<noteq> []) \<and> ratio \<le> 1"
    using retract_decode_makes_room [OF r] by (auto simp: run_world_def kv_available_size_def)
  then show ?thesis using r by (auto simp: run_batch2_def new_batch_def Suc_le_eq)
qed

lemma retract_radix_ignores_freed_witness:
  "\<exists>keep out w'. retract_loop (chunk_ops\<lparr>is_chunk_cache := False\<rparr>) [run_req 1 0 [12]] [3] True 7 [0] run_world
      = Ok ((keep, out), w') \<and> (0 :: int) < 7 \<and> length keep = 1"
proof -
  have "\<exists>x. retract_loop (chunk_ops\<lparr>is_chunk_cache := False\<rparr>) [run_req 1 0 [12]] [3] True 7 [0] run_world = Ok x"
    by (simp add: retract_loop.simps)
  then obtain keep out w' where
    r: "retract_loop (chunk_ops\<lparr>is_chunk_cache := False\<rparr>) [run_req 1 0 [12]] [3] True 7 [0] run_world = Ok ((keep, out), w')"
    by auto
  have "keep \<noteq> []" using retract_loop_keeps [OF r] by simp
  moreover have "length keep = 1 \<or> int (length keep) * retract_decode_steps \<le> 7"
    using retract_radix_ignores_freed [OF r] by (simp add: chunk_ops_def)
  ultimately have "length keep = 1" by (cases keep) (auto simp: retract_decode_steps_def)
  then show ?thesis using r by auto
qed

lemma split_with_penalty_fails_witness:
  "\<forall>r. split_head_tail 2 (run_batch2\<lparr>sinfo := Some demo_si\<rparr>) 1 demo_store \<noteq> Ok r"
  by (rule allI, rule split_with_penalty_fails [where si = demo_si and i = 0 and p = "\<lparr>pk = RepetitionP, rows = Some [RepRow 2 [2, 1, 1]]\<rparr>"
        and rs = "[RepRow 2 [2, 1, 1]]" and obj = "\<lparr>po_orc = demo_orc, po_batch = 0, po_reqs = [demo_rep]\<rparr>"])
     (simp_all add: run_batch2_def new_batch_def demo_si_def demo_store_def demo_orc_def is_required_def demo_rep_def)

end
