(* ===== verification/Batch_Rebalancer.thy ===== *)
theory Batch_Rebalancer
imports Batch_Demo
begin

text \<open>
  The batch rebalancer (\<^verbatim>\<open>python/sglang/srt/managers/batch_rebalancer.py\<close>): it moves requests between
  the running batch of a pipeline slot and the pending batch, so that the slots carry equal shares.
  The scheduler's attributes it reads are an environment, those it writes a state.
\<close>

section \<open>State and environment\<close>

record rb_cfg =
  waiting_tok_threshold :: int
  load_alpha :: real
  base_unit :: int
  kv_free_threshold :: real
  br_mode :: string

text \<open>The last batch of a pipeline slot: none, the running batch object itself, or another batch of the
  given size.\<close>

datatype last_entry = NoLast | LastIsRunning | OtherLast nat

record 'g rb_env =
  e_pp_size :: nat
  e_cur :: int
  e_last :: "last_entry list"
  e_being_chunked :: "bool list"
  e_slo_tpot :: real
  e_metrics :: "(real \<times> int \<times> real) option"
  e_waiting :: "'g req list"
  e_available :: int
  e_max_total :: int
  e_tpot :: real

record ('g, 'm) rb_state =
  running :: "('g, 'm) batch option"
  pending :: "('g, 'm) batch option"
  batch_is_full :: bool
  rb_pens :: "'g pstore"
  next_id :: nat

definition osize :: "('g, 'm) batch option \<Rightarrow> nat" where
  "osize x = (case x of None \<Rightarrow> 0 | Some b \<Rightarrow> length (b_reqs b))"

definition none_or_empty :: "('g, 'm) batch option \<Rightarrow> bool" where
  "none_or_empty x = (case x of None \<Rightarrow> True | Some b \<Rightarrow> is_empty b)"

section \<open>The steps of the rebalancing\<close>

definition drop_finished :: "batch_cfg \<Rightarrow> ('g, 'm) rb_state \<Rightarrow> ('g, 'm) rb_state res" where
  "drop_finished cfg st =
     (case running st of
        None \<Rightarrow> Ok st
      | Some b \<Rightarrow> rbind (filter_batch cfg None None b (rb_pens st)) (\<lambda>(b', s).
          Ok (st\<lparr>running := Some b', rb_pens := s,
                 batch_is_full := (if length (b_reqs b') < length (b_reqs b) then False else batch_is_full st)\<rparr>)))"

definition last_size :: "('g, 'm) rb_state \<Rightarrow> last_entry \<Rightarrow> int" where
  "last_size st e = (case e of NoLast \<Rightarrow> 0 | LastIsRunning \<Rightarrow> int (osize (running st)) | OtherLast n \<Rightarrow> int n)"

definition total_reqs :: "'g rb_env \<Rightarrow> ('g, 'm) rb_state \<Rightarrow> int" where
  "total_reqs env st =
     sum_list (map (\<lambda>i. last_size st (e_last env ! i)
                 - (if int i \<noteq> e_cur env \<and> e_being_chunked env ! i then 1 else 0)) [0..<e_pp_size env])
     + int (osize (pending st))"

definition rebalance_signals :: "'g rb_env \<Rightarrow> (real \<times> int \<times> real) res" where
  "rebalance_signals env =
     (case e_metrics env of
        Some m \<Rightarrow> Ok m
      | None \<Rightarrow> (if e_max_total env = 0 then Err ZeroDivisionError
                else Ok (e_tpot env, sum_list (map (\<lambda>r. int (length (origin_input_ids r))) (e_waiting env)),
                         real_of_int (e_available env) / real_of_int (e_max_total env))))"

definition use_tpot_first :: "rb_cfg \<Rightarrow> 'g rb_env \<Rightarrow> real \<Rightarrow> bool" where
  "use_tpot_first rc env tpot_signal =
     (if br_mode rc = ''tpot_first'' then True
      else if br_mode rc = ''e2e_first'' then False
      else tpot_signal \<ge> e_slo_tpot env * (9 / 10))"

definition get_split_indices :: "bool \<Rightarrow> nat \<Rightarrow> nat \<Rightarrow> bool \<Rightarrow> nat list \<times> nat list" where
  "get_split_indices tpot_first total_size move_size take_from_pending =
     (if tpot_first
      then (if take_from_pending
            then ([0..<total_size - move_size], [total_size - move_size..<total_size])
            else ([0..<total_size - move_size], [total_size - move_size..<total_size]))
      else (if take_from_pending
            then ([0..<total_size - move_size], [total_size - move_size..<total_size])
            else ([move_size..<total_size], [0..<move_size])))"

text \<open>Requests leave the running batch and go in front of the pending ones.\<close>

definition give_to_pending ::
  "batch_cfg \<Rightarrow> bool \<Rightarrow> nat \<Rightarrow> bool \<Rightarrow> ('g, 'm) rb_state \<Rightarrow> ('g, 'm) rb_state res" where
  "give_to_pending cfg tpot_first k none_if_empty st =
     rbind (the_obj (running st)) (\<lambda>run.
     let (keep_idx, move_idx) = get_split_indices tpot_first (length (b_reqs run)) k False
     in rbind (split_batch (next_id st) run keep_idx (Some move_idx) (rb_pens st)) (\<lambda>((keep, give), s).
        let st = st\<lparr>next_id := next_id st + 2, rb_pens := s,
                    running := (if none_if_empty \<and> none_or_empty keep then None else keep)\<rparr>
        in if none_or_empty (pending st) then Ok (st\<lparr>pending := give\<rparr>)
           else rbind (the_obj give) (\<lambda>give. rbind (the_obj (pending st)) (\<lambda>pend.
                rbind (merge_batch cfg give pend (rb_pens st)) (\<lambda>(m, s).
                  Ok (st\<lparr>pending := Some m, rb_pens := s\<rparr>))))))"

text \<open>Requests leave the tail of the pending batch and join the running batch, at its end or at its
  front.\<close>

definition join_running ::
  "batch_cfg \<Rightarrow> bool \<Rightarrow> ('g, 'm) batch option \<Rightarrow> ('g, 'm) rb_state \<Rightarrow> ('g, 'm) rb_state res" where
  "join_running cfg tpot_first tkn st =
     (if none_or_empty (running st) then Ok (st\<lparr>running := tkn\<rparr>)
      else rbind (the_obj (running st)) (\<lambda>run. rbind (the_obj tkn) (\<lambda>tk.
           rbind (if tpot_first then merge_batch cfg run tk (rb_pens st)
                  else merge_batch cfg tk run (rb_pens st)) (\<lambda>(m, s).
             Ok (st\<lparr>running := Some m, rb_pens := s\<rparr>)))))"

definition take_from_pending ::
  "batch_cfg \<Rightarrow> bool \<Rightarrow> nat \<Rightarrow> ('g, 'm) rb_state \<Rightarrow> ('g, 'm) rb_state res" where
  "take_from_pending cfg tpot_first k st =
     rbind (the_obj (pending st)) (\<lambda>pend.
     let (keep_idx, take_idx) = get_split_indices tpot_first (length (b_reqs pend)) k True
     in rbind (split_batch (next_id st) pend keep_idx (Some take_idx) (rb_pens st)) (\<lambda>((keep, taken), s).
          join_running cfg tpot_first taken
            (st\<lparr>next_id := next_id st + 2, rb_pens := s,
                pending := (if none_or_empty keep then None else keep)\<rparr>)))"

text \<open>Case 1 keeps the running batch at the lower tier, case 2 at the share of the current total.\<close>

definition rebalance_case1 ::
  "batch_cfg \<Rightarrow> bool \<Rightarrow> int \<Rightarrow> ('g, 'm) rb_state \<Rightarrow> ('g, 'm) rb_state res" where
  "rebalance_case1 cfg tf desired st =
     (let last_sz = int (osize (running st))
      in if last_sz > desired then give_to_pending cfg tf (nat (last_sz - desired)) False st
         else if last_sz < desired \<and> \<not> none_or_empty (pending st)
         then take_from_pending cfg tf (min (nat (desired - last_sz)) (osize (pending st))) st
         else Ok st)"

definition rebalance_case2 ::
  "batch_cfg \<Rightarrow> bool \<Rightarrow> bool \<Rightarrow> int \<Rightarrow> int \<Rightarrow> ('g, 'm) rb_state \<Rightarrow> ('g, 'm) rb_state res" where
  "rebalance_case2 cfg tf headroom desired local_limit st =
     (let last_sz = int (osize (running st)); pend_sz = osize (pending st);
          need = desired - last_sz; give = last_sz - local_limit;
          over = (if headroom then False else last_sz > local_limit)
      in if need > 0 \<and> pend_sz > 0 then take_from_pending cfg tf (min (nat need) pend_sz) st
         else if over \<and> last_sz > 0 then give_to_pending cfg tf (nat (min give last_sz)) True st
         else Ok st)"

definition rebalance ::
  "batch_cfg \<Rightarrow> rb_cfg \<Rightarrow> 'g rb_env \<Rightarrow> ('g, 'm) rb_state \<Rightarrow> ('g, 'm) rb_state res" where
  "rebalance cfg rc env st =
     (if none_or_empty (running st) \<and> none_or_empty (pending st) then Ok st
      else rbind (drop_finished cfg st) (\<lambda>st.
           rbind (rebalance_signals env) (\<lambda>(tpot_signal, waiting, kv_free).
           let n = total_reqs env st; pp = int (e_pp_size env);
               headroom = (waiting > waiting_tok_threshold rc \<and> kv_free > kv_free_threshold rc);
               tf = use_tpot_first rc env tpot_signal;
               base_th = base_unit rc * pp;
               margin = load_alpha rc * real_of_int base_th
           in if base_th = 0 then Err ZeroDivisionError
           else let th = (n div base_th) * base_th
           in if th > 0 \<and> real_of_int n < real_of_int th + margin \<and> \<not> headroom
              then rebalance_case1 cfg tf (th div pp) st
              else rebalance_case2 cfg tf headroom (n div pp) (th div pp + base_unit rc) st)))"

section \<open>What moves where\<close>

definition rows_of :: "('g, 'm) batch option \<Rightarrow> ('g req \<times> nat \<times> nat \<times> int) list" where
  "rows_of x = (case x of None \<Rightarrow> [] | Some b \<Rightarrow> (if b_reqs b = [] then [] else batch_rows b))"

definition slot_ok :: "('g, 'm) batch option \<Rightarrow> bool" where
  "slot_ok x = (case x of None \<Rightarrow> True | Some b \<Rightarrow> b_reqs b = [] \<or> aligned b)"

lemma rows_of_length: "slot_ok x \<Longrightarrow> length (rows_of x) = osize x"
  by (auto simp: slot_ok_def rows_of_def osize_def batch_rows_length split: option.splits)

lemma rows_of_empty: "none_or_empty x \<Longrightarrow> rows_of x = [] \<and> osize x = 0"
  by (auto simp: none_or_empty_def is_empty_def rows_of_def osize_def split: option.splits)

lemma osize_pos: "\<not> none_or_empty x \<longleftrightarrow> osize x > 0"
  by (auto simp: none_or_empty_def is_empty_def osize_def split: option.splits)

lemma rows_of_aligned [simp]: "aligned b \<Longrightarrow> rows_of (Some b) = batch_rows b"
  by (auto simp: rows_of_def batch_rows_def)

lemma maybe_rows_of: "(\<forall>b'. x = Some b' \<longrightarrow> aligned b') \<Longrightarrow> maybe_rows x = rows_of x \<and> slot_ok x"
  by (cases x) (auto simp: maybe_rows_def rows_of_def slot_ok_def batch_rows_def)

lemma split_rows:
  assumes "split_batch nb b keep (Some dr) s = Ok ((x, y), s')" "aligned b"
  shows "rows_of x = map ((!) (batch_rows b)) keep" "rows_of y = map ((!) (batch_rows b)) dr"
    "slot_ok x" "slot_ok y"
    "y = Some b2 \<Longrightarrow> aligned b2" "x = Some b1 \<Longrightarrow> aligned b1"
  using split_batch_rows [OF assms] maybe_rows_of [of x] maybe_rows_of [of y] by auto

lemma slot_aligned: "slot_ok x \<Longrightarrow> \<not> none_or_empty x \<Longrightarrow> \<exists>b. x = Some b \<and> aligned b \<and> rows_of x = batch_rows b"
  by (auto simp: slot_ok_def none_or_empty_def is_empty_def rows_of_def batch_rows_def split: option.splits)

lemma map_nth_prefix: "n = length xs \<Longrightarrow> map ((!) xs) [0..<n - k] = take (n - k) xs"
  by (simp add: map_nth_range)

lemma map_nth_suffix: "n = length xs \<Longrightarrow> map ((!) xs) [k..<n] = drop k xs"
  by (simp add: map_nth_range)

lemma give_to_pending_rows:
  assumes g: "give_to_pending cfg tf k ne st = Ok st'" and k: "0 < k" "k \<le> osize (running st)"
    and ok: "slot_ok (running st)" "slot_ok (pending st)"
  shows "slot_ok (running st') \<and> slot_ok (pending st')
       \<and> (let R = rows_of (running st); P = rows_of (pending st); n = length R in
            rows_of (running st') = (if tf then take (n - k) R else drop k R)
          \<and> rows_of (pending st') = (if tf then drop (n - k) R else take k R) @ P)"
proof -
  have "\<not> none_or_empty (running st)" using k by (simp add: osize_pos)
  then obtain run where run: "running st = Some run" "aligned run" "rows_of (running st) = batch_rows run"
    using slot_aligned [OF ok(1)] by auto
  let ?R = "batch_rows run" and ?n = "length (b_reqs run)"
  have n: "length ?R = ?n" using batch_rows_length [OF run(2)] .
  define kp mv where "kp = (if tf then [0..<?n - k] else [k..<?n])" and "mv = (if tf then [?n - k..<?n] else [0..<k])"
  have idx: "get_split_indices tf ?n k False = (kp, mv)" by (simp add: get_split_indices_def kp_def mv_def)
  have kn: "k \<le> ?n" using k run(1) by (simp add: osize_def)
  have mapped: "map ((!) ?R) kp = (if tf then take (?n - k) ?R else drop k ?R)"
    "map ((!) ?R) mv = (if tf then drop (?n - k) ?R else take k ?R)"
    using n kn by (simp_all add: kp_def mv_def map_nth_range)
  from g run(1) obtain keep give s where sp: "split_batch (next_id st) run kp (Some mv) (rb_pens st) = Ok ((keep, give), s)"
    and rest: "(if none_or_empty (pending st)
       then Ok (st\<lparr>next_id := next_id st + 2, rb_pens := s,
                   running := (if ne \<and> none_or_empty keep then None else keep), pending := give\<rparr>)
       else rbind (the_obj give) (\<lambda>give. rbind (the_obj (pending st)) (\<lambda>pend.
                rbind (merge_batch cfg give pend s) (\<lambda>(m, s').
                  Ok (st\<lparr>next_id := next_id st + 2, rb_pens := s',
                   running := (if ne \<and> none_or_empty keep then None else keep), pending := Some m\<rparr>))))) = Ok st'"
    by (auto simp: give_to_pending_def rbind_eq_Ok idx Let_def case_prod_beta split: if_splits)
  note spr = split_rows [OF sp run(2)]
  have keep': "rows_of (if ne \<and> none_or_empty keep then None else keep) = rows_of keep"
    "slot_ok (if ne \<and> none_or_empty keep then None else keep)"
    using spr(3) rows_of_empty [of keep] rows_of_empty [of None] by (auto simp: slot_ok_def none_or_empty_def)
  show ?thesis
  proof (cases "none_or_empty (pending st)")
    case True
    then show ?thesis using rest spr(1-4) keep' rows_of_empty [of "pending st"] run mapped n by auto
  next
    case False
    then obtain pend where pend: "pending st = Some pend" "aligned pend" "rows_of (pending st) = batch_rows pend"
      using slot_aligned [OF ok(2)] by auto
    from rest False pend(1) obtain gv m s' where gv: "give = Some gv" "merge_batch cfg gv pend s = Ok (m, s')"
        "st' = st\<lparr>next_id := next_id st + 2, rb_pens := s',
                   running := (if ne \<and> none_or_empty keep then None else keep), pending := Some m\<rparr>"
      by (auto simp: rbind_eq_Ok the_obj_eq_Ok)
    have "aligned gv" using spr(5) gv(1) by blast
    from merge_batch_rows [OF gv(2) this pend(2)]
    have "aligned m" "batch_rows m = rows_of give @ batch_rows pend"
      using \<open>aligned gv\<close> gv(1) by auto
    then show ?thesis using gv(3) spr(1-4) keep' pend run mapped n by (auto simp: slot_ok_def)
  qed
qed

lemma join_running_rows:
  assumes j: "join_running cfg tf x st = Ok st'" and ok: "slot_ok (running st)"
    and x: "\<forall>b. x = Some b \<longrightarrow> aligned b"
  shows "slot_ok (running st') \<and> pending st' = pending st
       \<and> rows_of (running st') = (if tf then rows_of (running st) @ rows_of x else rows_of x @ rows_of (running st))"
proof (cases "none_or_empty (running st)")
  case True
  then show ?thesis using j maybe_rows_of [of x] x rows_of_empty [of "running st"]
    by (auto simp: join_running_def)
next
  case False
  then obtain run where run: "running st = Some run" "aligned run" "rows_of (running st) = batch_rows run"
    using slot_aligned [OF ok] by auto
  from j False run(1) obtain tk m s' where tk: "x = Some tk"
      "(if tf then merge_batch cfg run tk (rb_pens st) else merge_batch cfg tk run (rb_pens st)) = Ok (m, s')"
      "st' = st\<lparr>running := Some m, rb_pens := s'\<rparr>"
    by (auto simp: join_running_def rbind_eq_Ok the_obj_eq_Ok)
  have al: "aligned tk" using x tk(1) by blast
  have "aligned m \<and> batch_rows m = (if tf then batch_rows run @ batch_rows tk else batch_rows tk @ batch_rows run)"
    using tk(2) merge_batch_rows [OF _ run(2) al] merge_batch_rows [OF _ al run(2)] by (auto split: if_splits)
  then show ?thesis using tk run al by (simp add: slot_ok_def)
qed

lemma take_from_pending_rows:
  assumes g: "take_from_pending cfg tf k st = Ok st'" and k: "0 < k" "k \<le> osize (pending st)"
    and ok: "slot_ok (running st)" "slot_ok (pending st)"
  shows "slot_ok (running st') \<and> slot_ok (pending st')
       \<and> (let R = rows_of (running st); P = rows_of (pending st); m = length P in
            rows_of (running st') = (if tf then R @ drop (m - k) P else drop (m - k) P @ R)
          \<and> rows_of (pending st') = take (m - k) P)"
proof -
  have "\<not> none_or_empty (pending st)" using k by (simp add: osize_pos)
  then obtain pend where pend: "pending st = Some pend" "aligned pend" "rows_of (pending st) = batch_rows pend"
    using slot_aligned [OF ok(2)] by auto
  let ?P = "batch_rows pend" and ?n = "length (b_reqs pend)"
  have n: "length ?P = ?n" using batch_rows_length [OF pend(2)] .
  have idx: "get_split_indices tf ?n k True = ([0..<?n - k], [?n - k..<?n])" by (simp add: get_split_indices_def)
  have mapped: "map ((!) ?P) [0..<?n - k] = take (?n - k) ?P" "map ((!) ?P) [?n - k..<?n] = drop (?n - k) ?P"
    using n by (simp_all add: map_nth_range)
  define kk where "kk keep = (if none_or_empty keep then None else keep)" for keep :: "('a, 'b) batch option"
  from g pend(1) obtain keep taken s where
    sp: "split_batch (next_id st) pend [0..<?n - k] (Some [?n - k..<?n]) (rb_pens st) = Ok ((keep, taken), s)"
    and jn: "join_running cfg tf taken (st\<lparr>next_id := next_id st + 2, rb_pens := s, pending := kk keep\<rparr>) = Ok st'"
    unfolding take_from_pending_def kk_def [symmetric] by (elim rbind_OkE) (auto simp: idx elim!: rbind_OkE)
  note spr = split_rows [OF sp pend(2)]
  have keep': "rows_of (kk keep) = rows_of keep" "slot_ok (kk keep)"
    using spr(3) rows_of_empty [of keep] rows_of_empty [of None] by (auto simp: kk_def slot_ok_def none_or_empty_def)
  show ?thesis
    using join_running_rows [OF jn] ok spr keep' pend mapped n by simp
qed

lemma drop_finished_rows:
  assumes "drop_finished cfg st = Ok st1" "slot_ok (running st)"
  shows "slot_ok (running st1) \<and> pending st1 = pending st
       \<and> rows_of (running st1) = filter (\<lambda>(r, _). \<not> finished r) (rows_of (running st))"
proof (cases "running st")
  case None
  then show ?thesis using assms by (simp add: drop_finished_def rows_of_def slot_ok_def)
next
  case (Some b)
  let ?js = "unfinished_indices None (b_reqs b)"
  obtain b' s where f: "filter_keep cfg ?js b (rb_pens st) = Ok (b', s)" "running st1 = Some b'" "pending st1 = pending st"
    using assms(1) Some by (auto simp: drop_finished_def filter_batch_def rbind_eq_Ok)
  show ?thesis
  proof (cases "b_reqs b = []")
    case True
    then have "b' = b\<lparr>b_reqs := []\<rparr>" using f(1) by (simp add: filter_keep_def unfinished_indices_def)
    then show ?thesis using True Some f by (simp add: rows_of_def slot_ok_def)
  next
    case False
    then have al: "aligned b" using assms(2) Some by (simp add: slot_ok_def)
    let ?P = "\<lambda>(r, _). \<not> finished r"
    have "?js = filter (\<lambda>i. ?P (batch_rows b ! i)) [0..<length (batch_rows b)]"
    proof -
      have "fst (batch_rows b ! i) = b_reqs b ! i" if "i < length (b_reqs b)" for i
        using batch_rows_fst [OF al] batch_rows_length [OF al] that by (metis nth_map)
      then show ?thesis
        using batch_rows_length [OF al] by (auto simp: unfinished_indices_simps(1) case_prod_beta intro!: filter_cong)
    qed
    then have rows: "map ((!) (batch_rows b)) ?js = filter ?P (batch_rows b)" by (simp only: map_nth_filter)
    show ?thesis
    proof (cases "?js = []")
      case True
      then have "b' = b\<lparr>b_reqs := []\<rparr>" using f(1) by (simp add: filter_keep_def)
      then show ?thesis using True Some f rows al by (simp add: rows_of_def slot_ok_def)
    next
      case False
      have "aligned b' \<and> batch_rows b' = map ((!) (batch_rows b)) ?js"
        using filter_keep_rows [OF f(1) al False] unfinished_indices_simps(3) [of None "b_reqs b"] by blast
      then show ?thesis using Some f rows al by (simp add: slot_ok_def)
    qed
  qed
qed

text \<open>The outcome of a rebalancing, from the rows before: nothing, a number of rows given to the
  pending batch, or a number taken from it.\<close>

inductive moved :: "bool \<Rightarrow> 'a list \<Rightarrow> 'a list \<Rightarrow> 'a list \<Rightarrow> 'a list \<Rightarrow> bool" for tf where
  moved_none: "moved tf R P R P"
| moved_give: "0 < k \<Longrightarrow> k \<le> length R
    \<Longrightarrow> moved tf R P (if tf then take (length R - k) R else drop k R)
                    ((if tf then drop (length R - k) R else take k R) @ P)"
| moved_take: "0 < k \<Longrightarrow> k \<le> length P
    \<Longrightarrow> moved tf R P (if tf then R @ drop (length P - k) P else drop (length P - k) P @ R)
                    (take (length P - k) P)"

lemma moved_mset: "moved tf R P R' P' \<Longrightarrow> mset R' + mset P' = mset R + mset P"
proof (induction rule: moved.induct)
  case (moved_give k R P)
  have "mset (take n R) + mset (drop n R) = mset R" for n by (metis append_take_drop_id mset_append)
  then show ?case by (simp add: ac_simps)
next
  case (moved_take k P R)
  have "mset (take n P) + mset (drop n P) = mset P" for n by (metis append_take_drop_id mset_append)
  then show ?case by (simp add: ac_simps)
qed simp

text \<open>The size the running batch is brought to.\<close>

definition target_size :: "rb_cfg \<Rightarrow> nat \<Rightarrow> int \<Rightarrow> bool \<Rightarrow> nat \<Rightarrow> nat \<Rightarrow> nat" where
  "target_size rc ppn n headroom lsz pend =
     (let pp = int ppn; base_th = base_unit rc * pp; th = (n div base_th) * base_th;
          local_limit = th div pp + base_unit rc
      in if th > 0 \<and> real_of_int n < real_of_int th + load_alpha rc * real_of_int base_th \<and> \<not> headroom
         then (if int lsz > th div pp then nat (th div pp) else min (nat (th div pp)) (lsz + pend))
         else if n div pp > int lsz \<and> pend > 0 then min (nat (n div pp)) (lsz + pend)
         else if \<not> headroom \<and> int lsz > local_limit then nat local_limit else lsz)"

lemma moved_length:
  "moved tf R P R' P' \<Longrightarrow> length R' + length P' = length R + length P"
  using arg_cong [OF moved_mset, of tf R P R' P' size] by simp

text \<open>What both cases establish, with the number of requests the running batch is to have.\<close>

definition outcome ::
  "batch_cfg \<Rightarrow> bool \<Rightarrow> ('g, 'm) rb_state \<Rightarrow> ('g, 'm) rb_state \<Rightarrow> nat \<Rightarrow> bool" where
  "outcome cfg tf st st' m \<longleftrightarrow>
     (st' = st \<and> m = osize (running st))
   \<or> (\<exists>k ne. give_to_pending cfg tf k ne st = Ok st' \<and> 0 < k \<and> k \<le> osize (running st) \<and> m = osize (running st) - k)
   \<or> (\<exists>k. take_from_pending cfg tf k st = Ok st' \<and> 0 < k \<and> k \<le> osize (pending st) \<and> m = osize (running st) + k)"

lemma outcome_rows:
  assumes o': "outcome cfg tf st st' m" and ok: "slot_ok (running st)" "slot_ok (pending st)"
  shows "slot_ok (running st') \<and> slot_ok (pending st')
      \<and> moved tf (rows_of (running st)) (rows_of (pending st)) (rows_of (running st')) (rows_of (pending st'))
      \<and> osize (running st') = m"
proof -
  note len = rows_of_length [OF ok(1)] rows_of_length [OF ok(2)]
  from o' show ?thesis
    unfolding outcome_def
  proof (elim disjE exE conjE)
    assume "st' = st" "m = osize (running st)"
    then show ?thesis using ok by (simp add: moved_none)
  next
    fix k ne assume g: "give_to_pending cfg tf k ne st = Ok st'" "0 < k" "k \<le> osize (running st)" "m = osize (running st) - k"
    note r = give_to_pending_rows [OF g(1-3) ok, unfolded Let_def len]
    have "moved tf (rows_of (running st)) (rows_of (pending st)) (rows_of (running st')) (rows_of (pending st'))"
      using moved_give [of k "rows_of (running st)" tf "rows_of (pending st)"] g len r by auto
    moreover have "osize (running st') = m" using r g len rows_of_length [of "running st'"] by (auto split: if_splits)
    ultimately show ?thesis using r by blast
  next
    fix k assume g: "take_from_pending cfg tf k st = Ok st'" "0 < k" "k \<le> osize (pending st)" "m = osize (running st) + k"
    note r = take_from_pending_rows [OF g(1-3) ok, unfolded Let_def len]
    have "moved tf (rows_of (running st)) (rows_of (pending st)) (rows_of (running st')) (rows_of (pending st'))"
      using moved_take [of k "rows_of (pending st)" tf "rows_of (running st)"] g len r by auto
    moreover have "osize (running st') = m" using r g len rows_of_length [of "running st'"] by (auto split: if_splits)
    ultimately show ?thesis using r by blast
  qed
qed

lemma rebalance_case1_outcome:
  assumes "rebalance_case1 cfg tf d st = Ok st'" "0 \<le> d"
  shows "outcome cfg tf st st' (if int (osize (running st)) > d then nat d
           else min (nat d) (osize (running st) + osize (pending st)))"
proof -
  let ?l = "osize (running st)" and ?q = "osize (pending st)"
  consider "int ?l > d" | "int ?l \<le> d" "int ?l < d \<and> \<not> none_or_empty (pending st)"
    | "int ?l \<le> d" "\<not> (int ?l < d \<and> \<not> none_or_empty (pending st))" by linarith
  then show ?thesis
  proof cases
    case 1
    then have "0 < nat (int ?l - d)" "nat (int ?l - d) \<le> ?l" "nat d = ?l - nat (int ?l - d)"
      using assms(2) by linarith+
    then show ?thesis using assms(1) 1 by (auto simp: rebalance_case1_def Let_def outcome_def)
  next
    case 2
    then have "0 < min (nat (d - int ?l)) ?q" by (simp add: osize_pos)
    moreover have "min (nat d) (?l + ?q) = ?l + min (nat (d - int ?l)) ?q" using 2 by linarith
    ultimately show ?thesis using assms(1) 2 by (auto simp: rebalance_case1_def Let_def outcome_def)
  next
    case 3
    then have "min (nat d) (?l + ?q) = ?l" using rows_of_empty [of "pending st"] by linarith
    then show ?thesis using assms(1) 3 by (auto simp: rebalance_case1_def Let_def outcome_def)
  qed
qed

lemma rebalance_case2_outcome:
  assumes "rebalance_case2 cfg tf hr d ll st = Ok st'"
  shows "outcome cfg tf st st' (if d > int (osize (running st)) \<and> osize (pending st) > 0
             then min (nat d) (osize (running st) + osize (pending st))
           else if \<not> hr \<and> int (osize (running st)) > ll then nat ll else osize (running st))"
proof -
  let ?l = "osize (running st)" and ?q = "osize (pending st)"
  consider "d > int ?l \<and> ?q > 0" | "\<not> (d > int ?l \<and> ?q > 0)" "\<not> hr \<and> int ?l > ll \<and> int ?l > 0"
    | "\<not> (d > int ?l \<and> ?q > 0)" "\<not> (\<not> hr \<and> int ?l > ll \<and> int ?l > 0)" by blast
  then show ?thesis
  proof cases
    case 1
    then have "0 < min (nat (d - int ?l)) ?q" "min (nat d) (?l + ?q) = ?l + min (nat (d - int ?l)) ?q" by linarith+
    then show ?thesis using assms 1 by (auto simp: rebalance_case2_def Let_def outcome_def)
  next
    case 2
    then have "0 < nat (min (int ?l - ll) (int ?l))" "nat (min (int ?l - ll) (int ?l)) \<le> ?l"
      "nat ll = ?l - nat (min (int ?l - ll) (int ?l))" by linarith+
    then show ?thesis using assms 2 unfolding rebalance_case2_def Let_def outcome_def by auto
  next
    case 3
    then have m: "(if \<not> hr \<and> int ?l > ll then nat ll else ?l) = ?l" by auto
    have "st' = st"
      using assms 3 unfolding rebalance_case2_def Let_def by (auto split: if_splits)
    then show ?thesis using 3 m unfolding outcome_def by auto
  qed
qed

lemma rebalance_core:
  assumes reb: "rebalance cfg rc env st = Ok st'" and ok: "slot_ok (running st)" "slot_ok (pending st)"
    and busy: "\<not> (none_or_empty (running st) \<and> none_or_empty (pending st))" and pp: "0 < e_pp_size env"
  shows "\<exists>st1 tpot waiting kv. drop_finished cfg st = Ok st1 \<and> rebalance_signals env = Ok (tpot, waiting, kv)
       \<and> slot_ok (running st') \<and> slot_ok (pending st')
       \<and> moved (use_tpot_first rc env tpot) (rows_of (running st1)) (rows_of (pending st))
           (rows_of (running st')) (rows_of (pending st'))
       \<and> osize (running st') = target_size rc (e_pp_size env) (total_reqs env st1)
           (waiting > waiting_tok_threshold rc \<and> kv > kv_free_threshold rc)
           (osize (running st1)) (osize (pending st))"
proof -
  let ?pp = "int (e_pp_size env)"
  from reb busy obtain st1 tpot waiting kv where st1: "drop_finished cfg st = Ok st1"
      "rebalance_signals env = Ok (tpot, waiting, kv)"
    unfolding rebalance_def Let_def if_not_P [OF busy] by (elim rbind_OkE) auto
  note dr = drop_finished_rows [OF st1(1) ok(1)]
  let ?n = "total_reqs env st1" and ?tf = "use_tpot_first rc env tpot" and ?base = "base_unit rc * ?pp"
  let ?hr = "waiting > waiting_tok_threshold rc \<and> kv > kv_free_threshold rc"
  let ?th = "(?n div ?base) * ?base"
  let ?C = "?th > 0 \<and> real_of_int ?n < real_of_int ?th + load_alpha rc * real_of_int ?base \<and> \<not> ?hr"
  have ok1: "slot_ok (running st1)" "slot_ok (pending st1)" using dr ok(2) by auto
  have r: "(if ?base = 0 then Err ZeroDivisionError
      else if ?C then rebalance_case1 cfg ?tf (?th div ?pp) st1
      else rebalance_case2 cfg ?tf ?hr (?n div ?pp) (?th div ?pp + base_unit rc) st1) = Ok st'"
    using reb unfolding rebalance_def if_not_P [OF busy] st1 rbind_Ok Let_def prod.case .
  have base: "?base \<noteq> 0"
  proof
    assume z: "?base = 0"
    show False using r unfolding if_P [OF z] by simp
  qed
  have "outcome cfg ?tf st1 st' (target_size rc (e_pp_size env) ?n ?hr (osize (running st1)) (osize (pending st1)))"
  proof (cases ?C)
    case True
    have "0 < ?pp" using pp by simp
    then have "0 \<le> ?th div ?pp" using True pos_imp_zdiv_nonneg_iff [of ?pp ?th] by linarith
    moreover have "rebalance_case1 cfg ?tf (?th div ?pp) st1 = Ok st'"
      using r unfolding if_not_P [OF base] if_P [OF True] .
    ultimately show ?thesis
      using rebalance_case1_outcome [of cfg ?tf "?th div ?pp" st1 st'] unfolding target_size_def Let_def if_P [OF True] by blast
  next
    case False
    have "rebalance_case2 cfg ?tf ?hr (?n div ?pp) (?th div ?pp + base_unit rc) st1 = Ok st'"
      using r unfolding if_not_P [OF base] if_not_P [OF False] .
    then show ?thesis
      using rebalance_case2_outcome [of cfg ?tf ?hr "?n div ?pp" "?th div ?pp + base_unit rc" st1 st']
      unfolding target_size_def Let_def if_not_P [OF False] by blast
  qed
  from outcome_rows [OF this ok1] show ?thesis using st1 dr by auto
qed

text \<open>C3: Rebalancing never loses, duplicates or changes a request: from the rows of the unfinished running
  requests and of the pending ones it makes the new running and pending batch, by giving some rows to
  the front of the pending batch or taking some from its tail; in TPOT-first mode the rows given are
  the newest of the running batch and those taken join at its end, otherwise the rows given are the
  oldest and those taken join at the front.\<close>

theorem rebalance_conserves_requests:
  assumes "rebalance cfg rc env st = Ok st'" "slot_ok (running st)" "slot_ok (pending st)" "0 < e_pp_size env"
    "\<not> (none_or_empty (running st) \<and> none_or_empty (pending st))"
  shows "(\<exists>tf. moved tf (filter (\<lambda>(r, _). \<not> finished r) (rows_of (running st))) (rows_of (pending st))
             (rows_of (running st')) (rows_of (pending st')))
       \<and> mset (rows_of (running st')) + mset (rows_of (pending st'))
         = mset (filter (\<lambda>(r, _). \<not> finished r) (rows_of (running st))) + mset (rows_of (pending st))
       \<and> slot_ok (running st') \<and> slot_ok (pending st')"
proof -
  obtain st1 tf where "drop_finished cfg st = Ok st1" "slot_ok (running st')" "slot_ok (pending st')"
      and m: "moved tf (rows_of (running st1)) (rows_of (pending st)) (rows_of (running st')) (rows_of (pending st'))"
    using rebalance_core [OF assms(1-3,5,4)] by auto
  moreover from this(1) have "rows_of (running st1) = filter (\<lambda>(r, _). \<not> finished r) (rows_of (running st))"
    using drop_finished_rows [OF _ assms(2)] by blast
  ultimately show ?thesis using moved_mset [OF m] m by auto
qed

text \<open>C12: Rebalancing hits its target: the running batch ends with exactly the number of requests that the
  tier rule prescribes, computed from the total over the pipeline slots, the load margin, the waiting
  pressure and the KV headroom, as far as the pending requests suffice.\<close>

theorem rebalance_hits_target:
  assumes "rebalance cfg rc env st = Ok st'" "slot_ok (running st)" "slot_ok (pending st)" "0 < e_pp_size env"
    "\<not> (none_or_empty (running st) \<and> none_or_empty (pending st))"
    "drop_finished cfg st = Ok st1" "rebalance_signals env = Ok (signal, waiting, kv)"
  shows "osize (running st') = target_size rc (e_pp_size env) (total_reqs env st1)
           (waiting > waiting_tok_threshold rc \<and> kv > kv_free_threshold rc) (osize (running st1)) (osize (pending st))"
  using rebalance_core [OF assms(1-3,5,4)] assms(6,7) by auto

section \<open>The properties on a concrete pair of batches\<close>

definition demo_rb :: "(unit, unit) rb_state" where
  "demo_rb = \<lparr>running = None, pending = Some run_batch2, batch_is_full = True, rb_pens = quiet_pens, next_id = 5\<rparr>"

definition demo_env :: "unit rb_env" where
  "demo_env = \<lparr>e_pp_size = 2, e_cur = 0, e_last = [NoLast, NoLast], e_being_chunked = [False, False],
     e_slo_tpot = 1, e_metrics = Some (0, 0, 1), e_waiting = [], e_available = 0, e_max_total = 8, e_tpot = 0\<rparr>"

definition demo_rc :: rb_cfg where
  "demo_rc = \<lparr>waiting_tok_threshold = 10, load_alpha = 1 / 2, base_unit = 4, kv_free_threshold = 1 / 2, br_mode = ''auto''\<rparr>"

lemma demo_env_fields: "e_pp_size demo_env = 2" "e_metrics demo_env = Some (0, 0, 1)" "e_slo_tpot demo_env = 1"
  by (simp_all add: demo_env_def)

lemma demo_rebalance:
  "\<exists>st'. rebalance demo_cfg demo_rc demo_env demo_rb = Ok st'"
proof -
  have sz: "osize (Some run_batch2) = 2" "running demo_rb = None" "pending demo_rb = Some run_batch2"
      "rb_pens demo_rb = quiet_pens" "length (b_reqs run_batch2) = 2"
    by (simp_all add: demo_rb_def osize_def run_batch2_def new_batch_def)
  have tot: "total_reqs demo_env demo_rb = 2"
    by (simp add: total_reqs_def demo_env_def sz last_size_def numeral_2_eq_2)
  have "\<exists>r. split_batch n run_batch2 [0] (Some [1]) quiet_pens = Ok r" for n
    by (simp add: split_batch_def make_sub_batch_def run_defs gather_def demo_si_def si_filter_def si_copy_def
        the_pen_def pen_call_def quiet_pens_def orc_filter_def gather_bias_def Let_def truthy_def)
  then obtain r where "split_batch (next_id demo_rb) run_batch2 [0] (Some [1]) quiet_pens = Ok r" by blast
  then have "\<exists>st'. take_from_pending demo_cfg False 1 demo_rb = Ok st'"
    by (cases r) (auto simp: take_from_pending_def sz get_split_indices_def join_running_def none_or_empty_def
        upt_conv_Cons)
  then obtain st' where "take_from_pending demo_cfg False 1 demo_rb = Ok st'" by blast
  then have "rebalance demo_cfg demo_rc demo_env demo_rb = Ok st'"
    by (simp add: rebalance_def sz none_or_empty_def is_empty_def drop_finished_def rebalance_signals_def
        tot Let_def rebalance_case2_def osize_def demo_env_fields demo_rc_def use_tpot_first_def)
  then show ?thesis by blast
qed

lemma demo_rb_ok:
  "slot_ok (running demo_rb)" "slot_ok (pending demo_rb)" "0 < e_pp_size demo_env"
  "\<not> (none_or_empty (running demo_rb) \<and> none_or_empty (pending demo_rb))"
  using run_batch2_aligned
  by (simp_all add: demo_rb_def slot_ok_def demo_env_def none_or_empty_def is_empty_def run_batch2_def new_batch_def)

lemma rebalance_conserves_requests_witness:
  "\<exists>st'. rebalance demo_cfg demo_rc demo_env demo_rb = Ok st'
     \<and> size (mset (rows_of (running st')) + mset (rows_of (pending st'))) = 2"
proof -
  obtain st' where r: "rebalance demo_cfg demo_rc demo_env demo_rb = Ok st'" using demo_rebalance by blast
  have "mset (rows_of (running st')) + mset (rows_of (pending st'))
      = mset (filter (\<lambda>(r, _). \<not> finished r) (rows_of (running demo_rb))) + mset (rows_of (pending demo_rb))"
    using rebalance_conserves_requests [OF r demo_rb_ok] by blast
  then have "size (mset (rows_of (running st')) + mset (rows_of (pending st'))) = 2"
    using rows_of_length [OF demo_rb_ok(2)]
    by (simp add: demo_rb_def rows_of_def [of None] osize_def run_batch2_def new_batch_def)
  then show ?thesis using r by blast
qed

lemma rebalance_hits_target_witness:
  "\<exists>st'. rebalance demo_cfg demo_rc demo_env demo_rb = Ok st' \<and> osize (running st') = 1"
proof -
  obtain st' where r: "rebalance demo_cfg demo_rc demo_env demo_rb = Ok st'" using demo_rebalance by blast
  have d: "drop_finished demo_cfg demo_rb = Ok demo_rb" by (simp add: drop_finished_def demo_rb_def)
  have s: "rebalance_signals demo_env = Ok (0, 0, 1)" by (simp add: rebalance_signals_def demo_env_def)
  have sz: "osize (running demo_rb) = 0" "osize (pending demo_rb) = 2"
    by (simp_all add: demo_rb_def osize_def run_batch2_def new_batch_def)
  have tot: "total_reqs demo_env demo_rb = 2"
    by (simp add: total_reqs_def demo_env_def sz last_size_def numeral_2_eq_2)
  show ?thesis
    using rebalance_hits_target [OF r demo_rb_ok d s] r
    by (auto simp: sz tot target_size_def demo_rc_def demo_env_fields Let_def)
qed

end
