(* ===== verification/Radix_Cache.thy ===== *)
theory Radix_Cache
imports Chunk_Cache
begin

text \<open>
  The radix cache (\<^verbatim>\<open>python/sglang/srt/mem_cache/radix_cache.py\<close>): a tree whose edges carry token
  sequences and whose nodes carry the KV slots of those tokens.  A node is an object: it has an
  identity, which the requests' \<^verbatim>\<open>last_node\<close> refers to, and a split keeps the identity of the lower
  half.  A node's dictionary of children is an association list in insertion order.  The readings of
  \<^verbatim>\<open>time.time()\<close> are a clock parameter, one value per reading.
\<close>

section \<open>Nodes\<close>

datatype rnode =
  RNode (nid: nat) (rkey: "int list") (rval: "nat list") (rlock: int) (atime: real) (kids: "(int \<times> rnode) list")

record radix =
  rc_root :: rnode
  rc_evictable :: int
  rc_next :: nat
  rc_tick :: nat
  rc_disable :: bool

fun key_match :: "int list \<Rightarrow> int list \<Rightarrow> nat" where
  "key_match (x # xs) (y # ys) = (if x = y then Suc (key_match xs ys) else 0)"
| "key_match _ _ = 0"

text \<open>Assigning a dictionary entry keeps the position of a key that is present.\<close>

fun kput :: "int \<Rightarrow> rnode \<Rightarrow> (int \<times> rnode) list \<Rightarrow> (int \<times> rnode) list" where
  "kput k c [] = [(k, c)]"
| "kput k c ((k', c') # xs) = (if k' = k then (k, c) # xs else (k', c') # kput k c xs)"

lemma kid_size [termination_simp]:
  "map_of cs k = Some c \<Longrightarrow> size c < Suc (size_list (\<lambda>x. Suc (size (snd x))) cs)"
  by (induction cs) (auto split: if_splits)

lemma kid_size_prod: "map_of cs k = Some c \<Longrightarrow> size c < Suc (size_list (size_prod (\<lambda>_. 0) size) cs)"
  by (induction cs) (auto split: if_splits)

definition radix_reset :: "(nat \<Rightarrow> real) \<Rightarrow> radix \<Rightarrow> radix" where
  "radix_reset clock c =
     c\<lparr>rc_root := RNode (rc_next c) [] [] 1 (clock (rc_tick c)) [], rc_evictable := 0,
       rc_next := Suc (rc_next c), rc_tick := Suc (rc_tick c)\<rparr>"

definition radix_init :: "(nat \<Rightarrow> real) \<Rightarrow> bool \<Rightarrow> radix" where
  "radix_init clock dis =
     radix_reset clock \<lparr>rc_root = RNode 0 [] [] 1 0 [], rc_evictable = 0, rc_next = 0, rc_tick = 0, rc_disable = dis\<rparr>"

section \<open>Matching and inserting\<close>

text \<open>The identities and clock readings used so far are threaded as a pair.\<close>

definition split_node :: "(nat \<Rightarrow> real) \<Rightarrow> rnode \<Rightarrow> nat \<Rightarrow> nat \<times> nat \<Rightarrow> rnode \<times> (nat \<times> nat)" where
  "split_node clock child p s = (case s of (n, t) \<Rightarrow>
     (RNode n (take p (rkey child)) (take p (rval child)) (rlock child) (clock t)
        [(rkey child ! p, RNode (nid child) (drop p (rkey child)) (drop p (rval child)) (rlock child)
                            (atime child) (kids child))],
      (Suc n, Suc t)))"

fun match_helper ::
  "(nat \<Rightarrow> real) \<Rightarrow> rnode \<Rightarrow> int list \<Rightarrow> nat \<times> nat \<Rightarrow> (rnode \<times> nat list \<times> nat) \<times> (nat \<times> nat)" where
  "match_helper clock (RNode i ky v l t cs) key s =
     (let t' = clock (snd s); s = (fst s, Suc (snd s))
      in if key = [] then ((RNode i ky v l t' cs, [], i), s)
         else case map_of cs (hd key) of
                None \<Rightarrow> ((RNode i ky v l t' cs, [], i), s)
              | Some c \<Rightarrow>
                  (let p = key_match (rkey c) key
                   in if p < length (rkey c)
                      then let (new, s) = split_node clock c p s
                           in ((RNode i ky v l t' (kput (hd (rkey c)) new cs), rval new, nid new), s)
                      else let ((c', vs, last_nd), s) = match_helper clock c (drop p key) s
                           in ((RNode i ky v l t' (kput (hd key) c' cs), rval c @ vs, last_nd), s)))"

text \<open>The insertion returns the length of the prefix that was there; the size of a new leaf is added to
  the evictable size.  After a split it goes on at the new upper half.\<close>

lemma key_match_0: "key_match (rkey c) key = 0 \<Longrightarrow> rkey c \<noteq> [] \<Longrightarrow> key \<noteq> [] \<Longrightarrow> rkey c ! 0 \<noteq> hd key"
  by (cases "rkey c"; cases key) (auto split: if_splits)

lemma key_match_le: "key_match xs ys \<le> length xs \<and> key_match xs ys \<le> length ys"
  by (induction xs ys rule: key_match.induct) auto

function insert_helper ::
  "(nat \<Rightarrow> real) \<Rightarrow> rnode \<Rightarrow> int list \<Rightarrow> nat list \<Rightarrow> nat \<times> nat \<Rightarrow> (rnode \<times> nat \<times> int) \<times> (nat \<times> nat)" where
  "insert_helper clock (RNode i ky v l t cs) key val s =
     (let t' = clock (snd s); s = (fst s, Suc (snd s))
      in if key = [] then ((RNode i ky v l t' cs, 0, 0), s)
         else case map_of cs (hd key) of
                None \<Rightarrow> ((RNode i ky v l t' (kput (hd key) (RNode (fst s) key val 0 (clock (snd s)) []) cs),
                          0, int (length val)), (Suc (fst s), Suc (snd s)))
              | Some c \<Rightarrow>
                  (let p = key_match (rkey c) key
                   in if p = length (rkey c)
                      then if p = length key then ((RNode i ky v l t' cs, p, 0), s)
                           else let ((c', n, e), s) = insert_helper clock c (drop p key) (drop p val) s
                                in ((RNode i ky v l t' (kput (hd key) c' cs), p + n, e), s)
                      else let (new, s) = split_node clock c p s;
                               ((new', n, e), s) = insert_helper clock new (drop p key) (drop p val) s
                           in ((RNode i ky v l t' (kput (hd (rkey c)) new' cs), p + n, e), s)))"
  by pat_completeness auto

termination insert_helper
proof (relation "measures [\<lambda>(_, _, key, _, _). length key,
      \<lambda>(_, nd, key, _, _). if key \<noteq> [] \<and> map_of (kids nd) (hd key) \<noteq> None then 1 else 0,
      \<lambda>(_, nd, _, _, _). size nd]", goal_cases)
  case 1
  then show ?case by simp
next
  case (2 clock i ky v l t cs key val s t' s' c p)
  show ?case
  proof (cases "p = 0")
    case True
    then show ?thesis using 2 by (auto simp: kid_size_prod)
  next
    case False
    then show ?thesis using 2 by simp
  qed
next
  case (3 clock i ky v l t cs key val s t' s' c p x new s'')
  show ?case
  proof (cases "p = 0")
    case True
    then have "rkey c \<noteq> []" "rkey c ! 0 \<noteq> hd key" using 3 key_match_0 [of c key] by auto
    then show ?thesis using True 3 by (auto simp: split_node_def split: prod.splits)
  next
    case False
    then show ?thesis using 3 by simp
  qed
qed


declare insert_helper.simps [simp del]

definition radix_match :: "(nat \<Rightarrow> real) \<Rightarrow> int list \<Rightarrow> radix \<Rightarrow> (nat list \<times> nat) \<times> radix" where
  "radix_match clock key c =
     (if rc_disable c then (([], nid (rc_root c)), c)
      else let ((root, vs, last_nd), (n, t)) = match_helper clock (rc_root c) key (rc_next c, rc_tick c)
           in ((vs, last_nd), c\<lparr>rc_root := root, rc_next := n, rc_tick := t\<rparr>))"

text \<open>Every caller gives the slots; the default of the source for a missing value, the key itself, is never used
  and left out.\<close>

definition radix_insert :: "(nat \<Rightarrow> real) \<Rightarrow> int list \<Rightarrow> nat list \<Rightarrow> radix \<Rightarrow> nat \<times> radix" where
  "radix_insert clock key val c =
     (if rc_disable c then (0, c)
      else let ((root, n, e), (nx, t)) = insert_helper clock (rc_root c) key val (rc_next c, rc_tick c)
           in (n, c\<lparr>rc_root := root, rc_evictable := rc_evictable c + e, rc_next := nx, rc_tick := t\<rparr>))"

section \<open>What a tree stands for\<close>

text \<open>The tree is a trie: it maps a token sequence to the slots of its longest cached prefix.  \<open>walk\<close>
  reads them without touching the tree.  \<open>into\<close> is the walk that enters a child.\<close>

fun walk :: "rnode \<Rightarrow> int list \<Rightarrow> nat list" where
  "walk (RNode i ky v l t cs) key =
     (if key = [] then []
      else case map_of cs (hd key) of
             None \<Rightarrow> []
           | Some c \<Rightarrow> (let p = key_match (rkey c) key
                       in if p < length (rkey c) then take p (rval c) else rval c @ walk c (drop p key)))"

definition into :: "rnode \<Rightarrow> int list \<Rightarrow> nat list" where
  "into c key = (let p = key_match (rkey c) key
                 in if p < length (rkey c) then take p (rval c) else rval c @ walk c (drop p key))"

lemma walk_into: "walk (RNode i ky v l t cs) key =
    (if key = [] then [] else case map_of cs (hd key) of None \<Rightarrow> [] | Some c \<Rightarrow> into c key)"
  by (simp add: into_def split: option.split)

declare walk.simps [simp del]

lemma walk_Nil [simp]: "walk n [] = []"
  by (cases n) (simp add: walk_into)

text \<open>Well-formed: a node has one slot per token, its children's edges start with their dictionary keys,
  which are distinct.\<close>

fun wf_tree :: "rnode \<Rightarrow> bool" where
  "wf_tree (RNode i ky v l t cs) =
     (length v = length ky \<and> distinct (map fst cs)
      \<and> (\<forall>x \<in> set cs. rkey (snd x) \<noteq> [] \<and> hd (rkey (snd x)) = fst x \<and> wf_tree (snd x)))"

lemma wf_tree_val: "wf_tree n \<Longrightarrow> length (rval n) = length (rkey n)"
  by (cases n) simp

lemma map_of_kput: "map_of (kput k c cs) k' = (if k' = k then Some c else map_of cs k')"
  by (induction k c cs rule: kput.induct) auto

lemma kput_new: "map_of cs k = None \<Longrightarrow> kput k c cs = cs @ [(k, c)]"
  by (induction k c cs rule: kput.induct) (auto split: if_splits)

lemma fst_kput: "map fst (kput k c cs) = (if k \<in> fst ` set cs then map fst cs else map fst cs @ [k])"
  by (induction k c cs rule: kput.induct) auto

lemma set_kput: "set (kput k c cs) \<subseteq> insert (k, c) (set cs)"
  by (induction k c cs rule: kput.induct) auto

lemma distinct_kput: "distinct (map fst cs) \<Longrightarrow> distinct (map fst (kput k c cs))"
  by (simp add: fst_kput image_iff)

lemma wf_kid:
  assumes "wf_tree (RNode i ky v l t cs)" "map_of cs k = Some c"
  shows "rkey c \<noteq> [] \<and> hd (rkey c) = k \<and> wf_tree c"
proof -
  have "(k, c) \<in> set cs" using assms(2) by (rule map_of_SomeD)
  then show ?thesis using assms(1) by fastforce
qed

lemma wf_kput:
  assumes "wf_tree (RNode i ky v l t cs)" "rkey c \<noteq> []" "hd (rkey c) = k" "wf_tree c"
  shows "wf_tree (RNode i ky v l t' (kput k c cs))"
  using assms distinct_kput [of cs k c] set_kput [of k c cs] by auto

section \<open>Matching edges\<close>

lemma key_match_take: "key_match (take p xs) ys = min p (key_match xs ys)"
  by (induction xs ys arbitrary: p rule: key_match.induct) (auto simp: take_Cons split: nat.splits)

lemma key_match_drop: "p \<le> key_match xs ys \<Longrightarrow> key_match (drop p xs) (drop p ys) = key_match xs ys - p"
proof (induction xs ys arbitrary: p rule: key_match.induct)
  case (1 x xs y ys)
  then show ?case by (cases p) (auto split: if_splits)
qed auto

lemma key_match_same: "p \<le> key_match xs ys \<Longrightarrow> take p xs = take p ys"
proof (induction xs ys arbitrary: p rule: key_match.induct)
  case (1 x xs y ys)
  then show ?case by (cases p) (auto split: if_splits)
qed auto

lemma key_match_stop:
  "key_match xs ys < length xs \<Longrightarrow> key_match xs ys < length ys \<Longrightarrow> xs ! key_match xs ys \<noteq> ys ! key_match xs ys"
  by (induction xs ys rule: key_match.induct) (auto split: if_splits)

lemma key_match_nth: "i < key_match xs ys \<Longrightarrow> xs ! i = ys ! i"
  using key_match_same [of "Suc i" xs ys] key_match_le [of xs ys] nth_take [of i "Suc i" xs] nth_take [of i "Suc i" ys]
  by (metis Suc_leI lessI)

lemma key_match_nil [simp]: "key_match xs [] = 0"
  by (cases xs) auto

lemma key_match_refl [simp]: "key_match xs xs = length xs"
  by (induction xs) auto

lemma key_match_comm: "key_match xs ys = key_match ys xs"
proof (induction xs arbitrary: ys)
  case (Cons x xs)
  then show ?case by (cases ys) auto
qed simp

lemma key_match_pos: "xs \<noteq> [] \<Longrightarrow> ys \<noteq> [] \<Longrightarrow> hd xs = hd ys \<Longrightarrow> 0 < key_match xs ys"
  by (cases xs; cases ys) auto

lemma key_match_zero: "hd xs \<noteq> hd ys \<Longrightarrow> key_match xs ys = 0"
  by (cases xs; cases ys) auto

lemma key_match_prefix: "key_match (xs @ ys) zs = (if key_match xs zs < length xs then key_match xs zs
    else length xs + key_match ys (drop (length xs) zs))"
  by (induction xs zs rule: key_match.induct) (auto simp: key_match_nil)

section \<open>Matching is a walk\<close>

text \<open>Splitting an edge changes no walk.\<close>

lemma into_split:
  assumes "p < length (rkey c)" "0 < p" "length (rval c) = length (rkey c)"
  shows "into (fst (split_node clock c p s)) key = into c key"
proof -
  let ?q = "key_match (rkey c) key"
  have rest: "walk (fst (split_node clock c p s)) (drop p key) = drop p (into c key)" if "p \<le> ?q"
  proof (cases "drop p key")
    case Nil
    then have "?q \<le> p" using key_match_le [of "rkey c" key] by simp
    then show ?thesis using Nil that assms by (simp add: into_def)
  next
    case (Cons x xs)
    then have "p < length key" by (cases "p < length key") auto
    then have p: "p < length key" "hd (drop p key) = key ! p" by (simp_all add: hd_drop_conv_nth)
    show ?thesis
    proof (cases "p = ?q")
      case True
      then have "rkey c ! p \<noteq> key ! p" using key_match_stop [of "rkey c" key] assms(1) p by simp
      then show ?thesis using True p assms by (auto simp: split_node_def walk_into into_def split: prod.splits)
    next
      case False
      then have "rkey c ! p = key ! p" using that by (intro key_match_nth) simp
      then show ?thesis using that p assms
        by (cases c) (auto simp: split_node_def walk_into into_def key_match_drop Let_def drop_take add.commute
            split: prod.splits)
    qed
  qed
  show ?thesis
  proof (cases "?q < p")
    case True
    then show ?thesis using assms by (simp add: into_def [of c] into_def [of "fst _"] split_node_def key_match_take split: prod.splits)
  next
    case False
    moreover have "take p (into c key) = take p (rval c)" using False assms by (auto simp: into_def Let_def)
    ultimately show ?thesis using rest assms
      by (simp add: into_def [of "fst _"]) (simp add: split_node_def key_match_take Let_def split: prod.splits,
          metis append_take_drop_id)
  qed
qed

lemma split_node_fields:
  "rkey (fst (split_node clock c p s)) = take p (rkey c)"
  "rval (fst (split_node clock c p s)) = take p (rval c)"
  "rlock (fst (split_node clock c p s)) = rlock c"
  "nid (fst (split_node clock c p s)) = fst s"
  "snd (split_node clock c p s) = (Suc (fst s), Suc (snd s))"
  by (simp_all add: split_node_def split: prod.splits)

lemma split_node_wf:
  assumes "wf_tree c" "p < length (rkey c)"
  shows "wf_tree (fst (split_node clock c p s))"
  using assms by (cases c) (auto simp: split_node_def hd_drop_conv_nth split: prod.splits)

lemma walk_kput:
  assumes "map_of cs k0 = Some c" "\<And>key. key \<noteq> [] \<Longrightarrow> hd key = k0 \<Longrightarrow> into c' key = into c key"
  shows "walk (RNode i ky v l t' (kput k0 c' cs)) key = walk (RNode i ky v l t cs) key"
  using assms by (auto simp: walk_into map_of_kput)

lemma match_step:
  "match_helper clock (RNode i ky v l t cs) key s =
     (if key = [] then ((RNode i ky v l (clock (snd s)) cs, [], i), (fst s, Suc (snd s)))
      else case map_of cs (hd key) of
             None \<Rightarrow> ((RNode i ky v l (clock (snd s)) cs, [], i), (fst s, Suc (snd s)))
           | Some c \<Rightarrow>
               (let p = key_match (rkey c) key; s' = (fst s, Suc (snd s))
                in if p < length (rkey c)
                   then let new = fst (split_node clock c p s')
                        in ((RNode i ky v l (clock (snd s)) (kput (hd (rkey c)) new cs), rval new, nid new),
                            (Suc (fst s), Suc (Suc (snd s))))
                   else let r = match_helper clock c (drop p key) s'
                        in ((RNode i ky v l (clock (snd s)) (kput (hd key) (fst (fst r)) cs),
                             rval c @ fst (snd (fst r)), snd (snd (fst r))), snd r)))"
  by (auto simp: Let_def case_prod_beta split_node_fields split: option.splits)

declare match_helper.simps [simp del]

lemma match_fields:
  "rkey (fst (fst (match_helper clock n key s))) = rkey n"
  "rval (fst (fst (match_helper clock n key s))) = rval n"
  "rlock (fst (fst (match_helper clock n key s))) = rlock n"
  "nid (fst (fst (match_helper clock n key s))) = nid n"
  by (cases n; simp add: match_step Let_def split: option.splits)+

text \<open>An induction over the descent of a match: the four cases of a step.\<close>

lemma match_induct [consumes 1, case_names stop split down]:
  assumes "wf_tree n"
    and stop: "\<And>i ky v l t cs key s. wf_tree (RNode i ky v l t cs) \<Longrightarrow>
      walk (RNode i ky v l t cs) key = [] \<Longrightarrow> P (RNode i ky v l t cs) key s ((RNode i ky v l (clock (snd s)) cs, [], i), (fst s, Suc (snd s)))"
    and split: "\<And>i ky v l t cs key s c p new. wf_tree (RNode i ky v l t cs) \<Longrightarrow> key \<noteq> [] \<Longrightarrow>
      map_of cs (hd key) = Some c \<Longrightarrow> p = key_match (rkey c) key \<Longrightarrow> 0 < p \<Longrightarrow> p < length (rkey c) \<Longrightarrow>
      hd (rkey c) = hd key \<Longrightarrow> wf_tree c \<Longrightarrow>
      new = fst (split_node clock c p (fst s, Suc (snd s))) \<Longrightarrow>
      P (RNode i ky v l t cs) key s ((RNode i ky v l (clock (snd s)) (kput (hd key) new cs), rval new, nid new),
         (Suc (fst s), Suc (Suc (snd s))))"
    and down: "\<And>i ky v l t cs key s c p c' vs nd s'. wf_tree (RNode i ky v l t cs) \<Longrightarrow> key \<noteq> [] \<Longrightarrow>
      map_of cs (hd key) = Some c \<Longrightarrow> p = length (rkey c) \<Longrightarrow> key_match (rkey c) key = p \<Longrightarrow> 0 < p \<Longrightarrow>
      hd (rkey c) = hd key \<Longrightarrow> wf_tree c \<Longrightarrow>
      match_helper clock c (drop p key) (fst s, Suc (snd s)) = ((c', vs, nd), s') \<Longrightarrow>
      P c (drop p key) (fst s, Suc (snd s)) ((c', vs, nd), s') \<Longrightarrow>
      P (RNode i ky v l t cs) key s ((RNode i ky v l (clock (snd s)) (kput (hd key) c' cs), rval c @ vs, nd), s')"
  shows "P n key s (match_helper clock n key s)"
  using assms(1)
proof (induction "size n" arbitrary: n key s rule: less_induct)
  case less
  obtain i ky v l t cs where n: "n = RNode i ky v l t cs" by (cases n)
  show ?case
  proof (cases "key = [] \<or> map_of cs (hd key) = None")
    case True
    then show ?thesis using stop [of i ky v l t cs key s] less.prems n
      by (auto simp: match_step walk_into)
  next
    case False
    then obtain c where c: "key \<noteq> []" "map_of cs (hd key) = Some c" by auto
    have wc: "rkey c \<noteq> []" "hd (rkey c) = hd key" "wf_tree c"
      using wf_kid [of i ky v l t cs "hd key" c] less.prems n c by auto
    let ?p = "key_match (rkey c) key"
    have p: "0 < ?p" "?p \<le> length (rkey c)" using wc c key_match_pos key_match_le [of "rkey c" key] by auto
    show ?thesis
    proof (cases "?p < length (rkey c)")
      case True
      have "match_helper clock n key s = ((RNode i ky v l (clock (snd s))
            (kput (hd key) (fst (split_node clock c ?p (fst s, Suc (snd s)))) cs),
            rval (fst (split_node clock c ?p (fst s, Suc (snd s)))), nid (fst (split_node clock c ?p (fst s, Suc (snd s))))),
            (Suc (fst s), Suc (Suc (snd s))))"
        using True c wc(2) n by (simp add: match_step Let_def)
      then show ?thesis
        using split [OF less.prems [unfolded n] c(1,2) refl p(1) True wc(2,3) refl] n by simp
    next
      case False
      obtain c' vs nd s' where r: "match_helper clock c (drop ?p key) (fst s, Suc (snd s)) = ((c', vs, nd), s')"
        by (metis prod.collapse)
      have "size c < size n" using kid_size_prod [OF c(2)] n by simp
      from less.hyps [OF this wc(3)] have "P c (drop ?p key) (fst s, Suc (snd s)) ((c', vs, nd), s')"
        using r by metis
      moreover have "match_helper clock n key s = ((RNode i ky v l (clock (snd s)) (kput (hd key) c' cs), rval c @ vs, nd), s')"
        using False r n c by (simp add: match_step Let_def)
      moreover have "?p = length (rkey c)" using False p by simp
      ultimately show ?thesis
        using down [OF less.prems [unfolded n] c(1,2) _ refl p(1) wc(2,3) r] n by simp
    qed
  qed
qed

lemma match_walk:
  assumes "match_helper clock n key s = ((n', vs, nd), s')" "wf_tree n"
  shows "vs = walk n key \<and> wf_tree n' \<and> (\<forall>k. walk n' k = walk n k)"
proof -
  let ?P = "\<lambda>n (key :: int list) (s :: nat \<times> nat) r. fst (snd (fst r)) = walk n key \<and> wf_tree (fst (fst r)) \<and> (\<forall>k. walk (fst (fst r)) k = walk n k)
     \<and> rkey (fst (fst r)) = rkey n \<and> rval (fst (fst r)) = rval n"
  have "?P n key s (match_helper clock n key s)"
    using assms(2)
  proof (induction rule: match_induct [where clock = clock and P = ?P])
    case (stop i ky v l t cs key s)
    then show ?case by (simp add: walk_into)
  next
    case (split i ky v l t cs key s c p new)
    have "into new k = into c k" for k
      using split by (simp add: into_split wf_tree_val)
    then have "walk (RNode i ky v l (clock (snd s)) (kput (hd key) new cs)) k = walk (RNode i ky v l t cs) k" for k
      using split by (intro walk_kput) auto
    moreover have "wf_tree (RNode i ky v l (clock (snd s)) (kput (hd key) new cs))"
      using split split_node_wf by (intro wf_kput) (auto simp: split_node_fields)
    ultimately show ?case
      using split by (simp add: walk_into into_def split_node_fields)
  next
    case (down i ky v l t cs key s c p c' vs nd s')
    have "rkey c' = rkey c" "rval c' = rval c" "\<And>k. walk c' k = walk c k" using down by simp_all
    then have "into c' k = into c k" for k by (simp add: into_def Let_def)
    then have "walk (RNode i ky v l (clock (snd s)) (kput (hd key) c' cs)) k = walk (RNode i ky v l t cs) k" for k
      using down by (intro walk_kput) auto
    moreover have "wf_tree (RNode i ky v l (clock (snd s)) (kput (hd key) c' cs))"
      using down by (intro wf_kput) auto
    ultimately show ?case
      using down by (simp add: walk_into into_def)
  qed
  then show ?thesis using assms(1) by simp
qed

section \<open>Inserting is extending a trie\<close>

lemma insert_step:
  "insert_helper clock (RNode i ky v l t cs) key val s =
     (if key = [] then ((RNode i ky v l (clock (snd s)) cs, 0, 0), (fst s, Suc (snd s)))
      else case map_of cs (hd key) of
             None \<Rightarrow> ((RNode i ky v l (clock (snd s))
                        (kput (hd key) (RNode (fst s) key val 0 (clock (Suc (snd s))) []) cs),
                       0, int (length val)), (Suc (fst s), Suc (Suc (snd s))))
           | Some c \<Rightarrow>
               (let p = key_match (rkey c) key; s' = (fst s, Suc (snd s))
                in if p = length (rkey c)
                   then if p = length key then ((RNode i ky v l (clock (snd s)) cs, p, 0), s')
                        else let r = insert_helper clock c (drop p key) (drop p val) s'
                             in ((RNode i ky v l (clock (snd s)) (kput (hd key) (fst (fst r)) cs),
                                  p + fst (snd (fst r)), snd (snd (fst r))), snd r)
                   else let new = fst (split_node clock c p s');
                            r = insert_helper clock new (drop p key) (drop p val) (Suc (fst s), Suc (Suc (snd s)))
                        in ((RNode i ky v l (clock (snd s)) (kput (hd (rkey c)) (fst (fst r)) cs),
                             p + fst (snd (fst r)), snd (snd (fst r))), snd r)))"
  by (subst insert_helper.simps) (auto simp: Let_def case_prod_beta split_node_fields split: option.splits)

lemma insert_induct [consumes 1, case_names stop leaf exact down split]:
  assumes "wf_tree n"
    and stop: "\<And>i ky v l t cs val s. wf_tree (RNode i ky v l t cs) \<Longrightarrow>
      P (RNode i ky v l t cs) [] val s ((RNode i ky v l (clock (snd s)) cs, 0, 0), (fst s, Suc (snd s)))"
    and leaf: "\<And>i ky v l t cs key val s. wf_tree (RNode i ky v l t cs) \<Longrightarrow> key \<noteq> [] \<Longrightarrow> map_of cs (hd key) = None \<Longrightarrow>
      P (RNode i ky v l t cs) key val s
        ((RNode i ky v l (clock (snd s)) (cs @ [(hd key, RNode (fst s) key val 0 (clock (Suc (snd s))) [])]),
          0, int (length val)), (Suc (fst s), Suc (Suc (snd s))))"
    and exact: "\<And>i ky v l t cs key val s c. wf_tree (RNode i ky v l t cs) \<Longrightarrow> key \<noteq> [] \<Longrightarrow>
      map_of cs (hd key) = Some c \<Longrightarrow> rkey c = key \<Longrightarrow> wf_tree c \<Longrightarrow>
      P (RNode i ky v l t cs) key val s ((RNode i ky v l (clock (snd s)) cs, length key, 0), (fst s, Suc (snd s)))"
    and down: "\<And>i ky v l t cs key val s c p c' m e s'. wf_tree (RNode i ky v l t cs) \<Longrightarrow> key \<noteq> [] \<Longrightarrow>
      map_of cs (hd key) = Some c \<Longrightarrow> p = length (rkey c) \<Longrightarrow> key_match (rkey c) key = p \<Longrightarrow> 0 < p \<Longrightarrow>
      hd (rkey c) = hd key \<Longrightarrow> wf_tree c \<Longrightarrow>
      insert_helper clock c (drop p key) (drop p val) (fst s, Suc (snd s)) = ((c', m, e), s') \<Longrightarrow>
      P c (drop p key) (drop p val) (fst s, Suc (snd s)) ((c', m, e), s') \<Longrightarrow>
      P (RNode i ky v l t cs) key val s ((RNode i ky v l (clock (snd s)) (kput (hd key) c' cs), p + m, e), s')"
    and split: "\<And>i ky v l t cs key val s c p new new' m e s'. wf_tree (RNode i ky v l t cs) \<Longrightarrow> key \<noteq> [] \<Longrightarrow>
      map_of cs (hd key) = Some c \<Longrightarrow> p = key_match (rkey c) key \<Longrightarrow> 0 < p \<Longrightarrow> p < length (rkey c) \<Longrightarrow>
      hd (rkey c) = hd key \<Longrightarrow> wf_tree c \<Longrightarrow>
      new = fst (split_node clock c p (fst s, Suc (snd s))) \<Longrightarrow>
      P new (drop p key) (drop p val) (Suc (fst s), Suc (Suc (snd s))) ((new', m, e), s') \<Longrightarrow>
      P (RNode i ky v l t cs) key val s ((RNode i ky v l (clock (snd s)) (kput (hd key) new' cs), p + m, e), s')"
  shows "P n key val s (insert_helper clock n key val s)"
  using assms(1)
proof (induction "size n" arbitrary: n key val s rule: less_induct)
  case less
  obtain i ky v l t cs where n: "n = RNode i ky v l t cs" by (cases n)
  note w = less.prems [unfolded n]
  show ?case
  proof (cases "key = [] \<or> map_of cs (hd key) = None")
    case True
    then show ?thesis using stop [OF w, of val s] leaf [OF w, of key val s] n
      by (auto simp: insert_step kput_new)
  next
    case False
    then obtain c where c: "key \<noteq> []" "map_of cs (hd key) = Some c" by auto
    have wc: "rkey c \<noteq> []" "hd (rkey c) = hd key" "wf_tree c"
      using wf_kid [OF w c(2)] by auto
    let ?p = "key_match (rkey c) key" and ?s = "(fst s, Suc (snd s))"
    have p: "0 < ?p" "?p \<le> length (rkey c)" using wc c key_match_pos key_match_le [of "rkey c" key] by auto
    show ?thesis
    proof (cases "?p = length (rkey c)")
      case full: True
      show ?thesis
      proof (cases "?p = length key")
        case True
        then have "rkey c = key" using full key_match_same [of ?p "rkey c" key] by simp
        then show ?thesis using exact [OF w c _ wc(3), of val s] n c True full by (simp add: insert_step)
      next
        case False
        obtain c' m e s' where r: "insert_helper clock c (drop ?p key) (drop ?p val) ?s = ((c', m, e), s')"
          by (metis prod.collapse)
        have "size c < size n" using kid_size_prod [OF c(2)] n by simp
        from less.hyps [OF this wc(3)] have "P c (drop ?p key) (drop ?p val) ?s ((c', m, e), s')"
          using r by metis
        moreover have "insert_helper clock n key val s = ((RNode i ky v l (clock (snd s)) (kput (hd key) c' cs), ?p + m, e), s')"
          using False full r n c by (simp add: insert_step Let_def)
        ultimately show ?thesis
          using down [OF w c(1,2) full refl p(1) wc(2,3) r] n by simp
      qed
    next
      case False
      then have lt: "?p < length (rkey c)" using p by simp
      let ?new = "fst (split_node clock c ?p ?s)" and ?s2 = "(Suc (fst s), Suc (Suc (snd s)))"
      have wn: "wf_tree ?new" by (rule split_node_wf [OF wc(3) lt])
      obtain new' m e s' where r: "insert_helper clock ?new (drop ?p key) (drop ?p val) ?s2 = ((new', m, e), s')"
        by (metis prod.collapse)
      have "P ?new (drop ?p key) (drop ?p val) ?s2 ((new', m, e), s')"
      proof -
        obtain j kk vv ll tt kid where nd: "?new = RNode j kk vv ll tt [(rkey c ! ?p, kid)]"
          by (simp add: split_node_def)
        show ?thesis
        proof (cases "drop ?p key = []")
          case True
          then show ?thesis using stop [OF wn [unfolded nd], of "drop ?p val" ?s2] r nd by (simp add: insert_step)
        next
          case False
          then have "?p < length key" by simp
          then have "hd (drop ?p key) \<noteq> rkey c ! ?p"
            using key_match_stop [OF lt] by (simp add: hd_drop_conv_nth)
          then show ?thesis
            using leaf [OF wn [unfolded nd] False, of "drop ?p val" ?s2] r nd False by (simp add: insert_step)
        qed
      qed
      moreover have "insert_helper clock n key val s = ((RNode i ky v l (clock (snd s)) (kput (hd key) new' cs), ?p + m, e), s')"
        using False r n c wc(2) by (simp add: insert_step Let_def)
      ultimately show ?thesis
        using split [OF w c(1,2) refl p(1) lt wc(2,3) refl] n by simp
    qed
  qed
qed

text \<open>What an insertion makes of a walk: a key that shares more with the inserted key than the tree held
  now walks along the inserted key.\<close>

definition grown :: "nat list \<Rightarrow> nat list \<Rightarrow> int list \<Rightarrow> int list \<Rightarrow> nat list \<Rightarrow> nat list" where
  "grown old full k key val =
     (let q = key_match k key in if q \<le> length old then old else take q (full @ drop (length full) val))"

lemma insert_into:
  assumes "key_match (rkey c) key = length (rkey c)" "length (rval c) = length (rkey c)"
    and "rkey c' = rkey c" "rval c' = rval c" "0 < length (rkey c)"
    and "\<And>k. walk c' k = grown (walk c k) (walk c (drop (length (rkey c)) key)) k
               (drop (length (rkey c)) key) (drop (length (rkey c)) val)"
  shows "into c' k = grown (into c k) (into c key) k key val"
proof -
  let ?p = "length (rkey c)" and ?r = "key_match (rkey c) k"
  have key: "rkey c = take ?p key" using key_match_same [of ?p "rkey c" key] assms(1) by simp
  have r: "?r = min ?p (key_match k key)"
    by (subst key) (simp add: key_match_take key_match_comm [of key])
  show ?thesis
  proof (cases "?r < ?p")
    case True
    then have "key_match k key = ?r" using r by simp
    then show ?thesis using True assms(2-4) by (simp add: into_def grown_def Let_def)
  next
    case False
    then have q: "key_match k key = ?p + key_match (drop ?p k) (drop ?p key)"
      using r key_match_drop [of ?p k key] by simp
    have rp: "?r = ?p" using False r by simp
    show ?thesis
      using assms(1-4,6) by (auto simp: into_def grown_def Let_def q rp add.commute)
  qed
qed

lemma walk_grown:
  assumes "map_of cs (hd key) = Some c" "key \<noteq> []" "\<And>k. into c' k = grown (into c k) (into c key) k key val"
  shows "walk (RNode i ky v l t' (kput (hd key) c' cs)) k
       = grown (walk (RNode i ky v l t cs) k) (walk (RNode i ky v l t cs) key) k key val"
  using assms by (auto simp: walk_into map_of_kput grown_def Let_def key_match_zero)

lemma insert_walk:
  assumes "insert_helper clock n key val s = ((n', m, e), s')" "wf_tree n" "length val = length key"
  shows "m = length (walk n key) \<and> wf_tree n' \<and> (\<forall>k. walk n' k = grown (walk n k) (walk n key) k key val)"
proof -
  let ?P = "\<lambda>n (key :: int list) val (s :: nat \<times> nat) r. length val = length key \<longrightarrow>
     fst (snd (fst r)) = length (walk n key) \<and> wf_tree (fst (fst r))
     \<and> (\<forall>k. walk (fst (fst r)) k = grown (walk n k) (walk n key) k key val)
     \<and> rkey (fst (fst r)) = rkey n \<and> rval (fst (fst r)) = rval n"
  have "?P n key val s (insert_helper clock n key val s)"
    using assms(2)
  proof (induction rule: insert_induct [where clock = clock and P = ?P])
    case (stop i ky v l t cs val s)
    then show ?case by (simp add: walk_into grown_def)
  next
    case (leaf i ky v l t cs key val s)
    let ?nd = "RNode (fst s) key val 0 (clock (Suc (snd s))) []"
    have "into ?nd k = take (key_match k key) val" if "length val = length key" for k
      using that key_match_le [of key k] by (auto simp: into_def Let_def walk_into key_match_comm [of k])
    moreover have "wf_tree (RNode i ky v l (clock (snd s)) (kput (hd key) ?nd cs))" if "length val = length key"
      using leaf that by (intro wf_kput) auto
    moreover have "cs @ [(hd key, ?nd)] = kput (hd key) ?nd cs" using leaf by (simp add: kput_new)
    ultimately show ?case
      using leaf by (auto simp: walk_into map_of_kput grown_def Let_def key_match_zero simp del: wf_tree.simps)
  next
    case (exact i ky v l t cs key val s c)
    have "key_match k key \<le> length (into c k)" for k
      using exact(4,5) wf_tree_val [of c] key_match_comm [of k key] key_match_le [of "rkey c" k] by (auto simp: into_def Let_def)
    then have "key_match k key \<le> length (walk (RNode i ky v l tt cs) k)" for k tt
      using exact by (cases "k = [] \<or> hd k \<noteq> hd key") (auto simp: walk_into key_match_zero)
    moreover have "into c key = rval c" using exact by (simp add: into_def)
    ultimately show ?case
      using exact wf_tree_val [of c] by (simp add: grown_def) (simp add: walk_into)
  next
    case (down i ky v l t cs key val s c p c' m e s')
    have wv: "length (rval c) = length (rkey c)" using down by (simp add: wf_tree_val)
    have "into c' k = grown (into c k) (into c key) k key val" if "length val = length key" for k
      using down that wv by (intro insert_into) auto
    moreover have "wf_tree (RNode i ky v l (clock (snd s)) (kput (hd key) c' cs))" if "length val = length key"
      using down that by (intro wf_kput) auto
    moreover have "length (walk (RNode i ky v l t cs) key) = p + length (walk c (drop p key))"
      using down wv by (simp add: walk_into into_def)
    moreover have "length val = length key \<Longrightarrow> m = length (walk c (drop p key))" using down by simp
    ultimately show ?case using down(2,3) by (simp add: walk_grown del: wf_tree.simps)
  next
    case (split i ky v l t cs key val s c p new new' m e s')
    have wv: "length (rval c) = length (rkey c)" using split by (simp add: wf_tree_val)
    have eq: "into new k = into c k" for k using split wv by (simp add: into_split)
    have nw: "rkey new = take p (rkey c)" "rval new = take p (rval c)" "length (rkey new) = p"
      using split by (simp_all add: split_node_fields)
    have nk: "key_match (rkey new) key = p" using split nw by (simp add: key_match_take)
    have "into new' k = grown (into new k) (into new key) k key val" if "length val = length key" for k
      using split that nw wv nk by (intro insert_into) auto
    then have "into new' k = grown (into c k) (into c key) k key val" if "length val = length key" for k
      using eq that by simp
    moreover have "wf_tree (RNode i ky v l (clock (snd s)) (kput (hd key) new' cs))" if "length val = length key"
      using split that nw by (intro wf_kput) auto
    moreover have "length (walk (RNode i ky v l t cs) key) = p + length (walk new (drop p key))"
    proof -
      have "into new key = take p (rval c) @ walk new (drop p key)" using nw nk by (simp add: into_def)
      then show ?thesis using eq [of key] wv split(2,3,6) by (simp add: walk_into)
    qed
    moreover have "length val = length key \<Longrightarrow> m = length (walk new (drop p key))" using split by simp
    ultimately show ?case using split(2,3) by (simp add: walk_grown del: wf_tree.simps)
  qed
  then show ?thesis using assms(1,3) by simp
qed

end
