(* ===== verification/Radix_Locks.thy ===== *)
theory Radix_Locks
imports Radix_Cache
begin

text \<open>
  The radix cache's reference counts (\<^verbatim>\<open>inc_lock_ref\<close> and \<^verbatim>\<open>dec_lock_ref\<close> of
  \<^verbatim>\<open>python/sglang/srt/mem_cache/radix_cache.py\<close>) and the quantities its operations keep: the
  identities of the nodes, the unlocked and the total number of cached slots, and the references held on
  each node.
\<close>

section \<open>Counts over a tree\<close>

fun node_ids :: "rnode \<Rightarrow> nat list" where
  "node_ids (RNode i ky v l t cs) = i # concat (map (\<lambda>x. node_ids (snd x)) cs)"

fun total_size_helper :: "rnode \<Rightarrow> int" where
  "total_size_helper (RNode i ky v l t cs) = int (length v) + sum_list (map (\<lambda>x. total_size_helper (snd x)) cs)"

definition total_size :: "radix \<Rightarrow> int" where
  "total_size c = total_size_helper (rc_root c)"

fun usize :: "rnode \<Rightarrow> int" where
  "usize (RNode i ky v l t cs) = (if l = 0 then int (length v) else 0) + sum_list (map (\<lambda>x. usize (snd x)) cs)"

definition lock_sum :: "(int \<times> rnode) list \<Rightarrow> int" where
  "lock_sum cs = sum_list (map (\<lambda>x. rlock (snd x)) cs)"

text \<open>The references held on a node itself: its count less those its children pass on.\<close>

fun refs :: "rnode \<Rightarrow> nat \<Rightarrow> int" where
  "refs (RNode i ky v l t cs) j = (if i = j then l - lock_sum cs else 0) + sum_list (map (\<lambda>x. refs (snd x) j) cs)"

fun locks_ok :: "rnode \<Rightarrow> bool" where
  "locks_ok (RNode i ky v l t cs) = (0 \<le> l \<and> lock_sum cs \<le> l \<and> (\<forall>x \<in> set cs. locks_ok (snd x)))"

abbreviation kids_ok :: "rnode \<Rightarrow> bool" where
  "kids_ok n \<equiv> \<forall>x \<in> set (kids n). locks_ok (snd x)"

lemma locks_ok_iff: "locks_ok n \<longleftrightarrow> 0 \<le> rlock n \<and> lock_sum (kids n) \<le> rlock n \<and> kids_ok n"
  by (cases n) simp

lemma lock_sum_simps [simp]:
  "lock_sum [] = 0" "lock_sum (x # xs) = rlock (snd x) + lock_sum xs" "lock_sum (xs @ ys) = lock_sum xs + lock_sum ys"
  by (simp_all add: lock_sum_def)

lemma kput_mid:
  assumes "map_of cs k = Some c"
  obtains xs ys where "cs = xs @ (k, c) # ys" "\<And>c'. kput k c' cs = xs @ (k, c') # ys"
proof -
  have "\<exists>xs ys. cs = xs @ (k, c) # ys \<and> (\<forall>c'. kput k c' cs = xs @ (k, c') # ys)"
    using assms
  proof (induction cs)
    case (Cons x cs)
    obtain k' d where x: "x = (k', d)" by (cases x)
    show ?case
    proof (cases "k' = k")
      case True
      then show ?thesis using Cons.prems x by (intro exI [of _ "[]"] exI [of _ cs]) auto
    next
      case False
      then obtain xs ys where "cs = xs @ (k, c) # ys" "\<forall>c'. kput k c' cs = xs @ (k, c') # ys"
        using Cons x by auto
      then show ?thesis using x False by (intro exI [of _ "x # xs"] exI [of _ ys]) auto
    qed
  qed simp
  then show ?thesis using that by auto
qed

text \<open>How the counts change with one child.\<close>

lemma counts_mid:
  assumes "rlock c' = rlock c" "n = RNode i ky v l t (xs @ (k, c) # ys)" "n' = RNode i ky v l t' (xs @ (k, c') # ys)"
  shows "lock_sum (kids n') = lock_sum (kids n)"
    and "mset (node_ids n') + mset (node_ids c) = mset (node_ids n) + mset (node_ids c')"
    and "usize n' + usize c = usize n + usize c'"
    and "total_size_helper n' + total_size_helper c = total_size_helper n + total_size_helper c'"
    and "refs n' j + refs c j = refs n j + refs c' j"
    and "(locks_ok c \<Longrightarrow> locks_ok c') \<Longrightarrow> kids_ok n \<Longrightarrow> kids_ok n'"
  using assms by auto

lemma counts_kput:
  assumes "map_of cs k = Some c" "rlock c' = rlock c"
  shows "lock_sum (kids (RNode i ky v l t' (kput k c' cs))) = lock_sum (kids (RNode i ky v l t cs))"
    and "mset (node_ids (RNode i ky v l t' (kput k c' cs))) + mset (node_ids c) = mset (node_ids (RNode i ky v l t cs)) + mset (node_ids c')"
    and "usize (RNode i ky v l t' (kput k c' cs)) + usize c = usize (RNode i ky v l t cs) + usize c'"
    and "total_size_helper (RNode i ky v l t' (kput k c' cs)) + total_size_helper c
       = total_size_helper (RNode i ky v l t cs) + total_size_helper c'"
    and "refs (RNode i ky v l t' (kput k c' cs)) j + refs c j = refs (RNode i ky v l t cs) j + refs c' j"
    and "(locks_ok c \<Longrightarrow> locks_ok c') \<Longrightarrow> kids_ok (RNode i ky v l t cs) \<Longrightarrow> kids_ok (RNode i ky v l t' (kput k c' cs))"
proof -
  obtain xs ys where cs: "cs = xs @ (k, c) # ys" "kput k c' cs = xs @ (k, c') # ys"
    using kput_mid [OF assms(1)] by metis
  have "RNode i ky v l t cs = RNode i ky v l t (xs @ (k, c) # ys)"
    "RNode i ky v l t' (kput k c' cs) = RNode i ky v l t' (xs @ (k, c') # ys)"
    by (simp_all only: cs(2), simp only: cs(1))
  note counts_mid [OF assms(2) this]
  then show "lock_sum (kids (RNode i ky v l t' (kput k c' cs))) = lock_sum (kids (RNode i ky v l t cs))"
    and "mset (node_ids (RNode i ky v l t' (kput k c' cs))) + mset (node_ids c) = mset (node_ids (RNode i ky v l t cs)) + mset (node_ids c')"
    and "usize (RNode i ky v l t' (kput k c' cs)) + usize c = usize (RNode i ky v l t cs) + usize c'"
    and "total_size_helper (RNode i ky v l t' (kput k c' cs)) + total_size_helper c
       = total_size_helper (RNode i ky v l t cs) + total_size_helper c'"
    and "refs (RNode i ky v l t' (kput k c' cs)) j + refs c j = refs (RNode i ky v l t cs) j + refs c' j"
    and "(locks_ok c \<Longrightarrow> locks_ok c') \<Longrightarrow> kids_ok (RNode i ky v l t cs) \<Longrightarrow> kids_ok (RNode i ky v l t' (kput k c' cs))"
    by blast+
qed

lemma ids_kput: "set (node_ids c) \<subseteq> set (node_ids (RNode i ky v l t (kput k c cs)))"
proof -
  have "(k, c) \<in> set (kput k c cs)" by (induction k c cs rule: kput.induct) auto
  then show ?thesis by fastforce
qed

lemma split_counts:
  assumes "p \<le> length (rval c)" "new = fst (split_node clock c p s)"
  shows "mset (node_ids new) = add_mset (fst s) (mset (node_ids c))"
    and "usize new = usize c" and "total_size_helper new = total_size_helper c"
    and "refs new j = refs c j" and "locks_ok c \<Longrightarrow> locks_ok new"
  using assms by (cases c; auto simp: split_node_def split: prod.splits)+

lemma upt_append: "a \<le> b \<Longrightarrow> b \<le> c \<Longrightarrow> mset [a..<b] + mset [b..<c] = mset [a..<c]"
  by (metis mset_append upt_add_eq_append le_Suc_ex)

lemma match_counts:
  assumes "match_helper clock n key s = ((n', vs, nd), s')" "wf_tree n"
  shows "fst s \<le> fst s' \<and> mset (node_ids n') = mset (node_ids n) + mset [fst s..<fst s'] \<and> usize n' = usize n
    \<and> total_size_helper n' = total_size_helper n \<and> (\<forall>j. refs n' j = refs n j) \<and> nd \<in> set (node_ids n')
    \<and> (kids_ok n \<longrightarrow> kids_ok n') \<and> lock_sum (kids n') = lock_sum (kids n)"
proof -
  let ?P = "\<lambda>n (key :: int list) (s :: nat \<times> nat) ((n', vs :: nat list, nd), s' :: nat \<times> nat).
     fst s \<le> fst s' \<and> mset (node_ids n') = mset (node_ids n) + mset [fst s..<fst s'] \<and> usize n' = usize n
     \<and> total_size_helper n' = total_size_helper n \<and> (\<forall>j. refs n' j = refs n j) \<and> nd \<in> set (node_ids n')
     \<and> (kids_ok n \<longrightarrow> kids_ok n') \<and> lock_sum (kids n') = lock_sum (kids n)
     \<and> rlock n' = rlock n"
  have "?P n key s (match_helper clock n key s)"
    using assms(2)
  proof (induction rule: match_induct [where clock = clock and P = ?P])
    case (stop i ky v l t cs key s)
    then show ?case by simp
  next
    case (split i ky v l t cs key s c p new)
    let ?n = "RNode i ky v l t cs" and ?n' = "RNode i ky v l (clock (snd s)) (kput (hd key) new cs)"
    have lk: "rlock new = rlock c" "nid new = fst s" using split by (simp_all add: split_node_fields)
    have pv: "p \<le> length (rval c)" using split by (simp add: wf_tree_val)
    note sc = split_counts [OF pv split(9), simplified]
    note cm = counts_kput [OF split(3) lk(1), where i = i and ky = ky and v = v and l = l and t = t and t' = "clock (snd s)"]
    have "fst s \<in> set (node_ids new)" using sc(1) by (metis set_mset_mset union_single_eq_member)
    then have "fst s \<in> set (node_ids ?n')" using ids_kput by blast
    moreover have "mset (node_ids ?n') = mset (node_ids ?n) + {#fst s#}" using cm(2) sc(1) by simp
    ultimately show ?case using cm sc lk by (auto simp del: node_ids.simps refs.simps usize.simps total_size_helper.simps)
  next
    case (down i ky v l t cs key s c p c' vs nd s')
    let ?n = "RNode i ky v l t cs" and ?n' = "RNode i ky v l (clock (snd s)) (kput (hd key) c' cs)"
    note ih = down(9) [simplified]
    have lk: "rlock c' = rlock c" using ih by simp
    note cm = counts_kput [OF down(3) lk(1), where i = i and ky = ky and v = v and l = l and t = t and t' = "clock (snd s)"]
    have "mset (node_ids ?n') = mset (node_ids ?n) + mset [fst s..<fst s']"
      using cm(2) ih by simp
    moreover have "kids_ok ?n \<Longrightarrow> kids_ok ?n'"
      using ih locks_ok_iff [of c] locks_ok_iff [of c'] by (intro cm(6)) auto
    moreover have "nd \<in> set (node_ids ?n')" using ih ids_kput by blast
    moreover have "usize ?n' = usize ?n" "total_size_helper ?n' = total_size_helper ?n" "refs ?n' j = refs ?n j" for j
      using cm(3-5) ih by simp_all
    moreover have "fst s \<le> fst s'" using ih by simp
    ultimately show ?case using lk cm(1) by (simp only: split_conv rnode.sel) blast
  qed
  then show ?thesis using assms(1) by simp
qed

lemma insert_counts:
  assumes "insert_helper clock n key val s = ((n', m, e), s')" "wf_tree n"
  shows "fst s \<le> fst s' \<and> mset (node_ids n') = mset (node_ids n) + mset [fst s..<fst s'] \<and> usize n' = usize n + e
    \<and> total_size_helper n' = total_size_helper n + e \<and> (\<forall>j. refs n' j = refs n j)
    \<and> (kids_ok n \<longrightarrow> kids_ok n') \<and> lock_sum (kids n') = lock_sum (kids n)"
proof -
  let ?P = "\<lambda>n (key :: int list) (val :: nat list) (s :: nat \<times> nat) ((n', m :: nat, e), s' :: nat \<times> nat).
     fst s \<le> fst s' \<and> mset (node_ids n') = mset (node_ids n) + mset [fst s..<fst s'] \<and> usize n' = usize n + e
     \<and> total_size_helper n' = total_size_helper n + e \<and> (\<forall>j. refs n' j = refs n j)
     \<and> (kids_ok n \<longrightarrow> kids_ok n') \<and> lock_sum (kids n') = lock_sum (kids n) \<and> rlock n' = rlock n"
  have "?P n key val s (insert_helper clock n key val s)"
    using assms(2)
  proof (induction rule: insert_induct [where clock = clock and P = ?P])
    case (stop i ky v l t cs val s)
    then show ?case by simp
  next
    case (leaf i ky v l t cs key val s)
    then show ?case by simp
  next
    case (exact i ky v l t cs key val s c)
    then show ?case by simp
  next
    case (down i ky v l t cs key val s c p c' m e s')
    let ?n = "RNode i ky v l t cs" and ?n' = "RNode i ky v l (clock (snd s)) (kput (hd key) c' cs)"
    note ih = down(9) [simplified]
    have lk: "rlock c' = rlock c" using ih by simp
    note cm = counts_kput [OF down(3) lk(1), where i = i and ky = ky and v = v and l = l and t = t and t' = "clock (snd s)"]
    have "mset (node_ids ?n') = mset (node_ids ?n) + mset [fst s..<fst s']" using cm(2) ih by simp
    moreover have "kids_ok ?n \<Longrightarrow> kids_ok ?n'"
      using ih locks_ok_iff [of c] locks_ok_iff [of c'] by (intro cm(6)) auto
    moreover have "usize ?n' = usize ?n + e" "total_size_helper ?n' = total_size_helper ?n + e" "refs ?n' j = refs ?n j" for j
      using cm(3-5) ih by simp_all
    moreover have "fst s \<le> fst s'" using ih by simp
    ultimately show ?case using lk cm(1) by (simp only: split_conv rnode.sel) blast
  next
    case (split i ky v l t cs key val s c p new new' m e s')
    let ?n = "RNode i ky v l t cs" and ?n' = "RNode i ky v l (clock (snd s)) (kput (hd key) new' cs)"
    note ih = split(9) [simplified]
    have pv: "p \<le> length (rval c)" using split by (simp add: wf_tree_val)
    note sc = split_counts [OF pv split(10), simplified]
    have lk: "rlock new' = rlock c" using ih split by (simp add: split_node_fields)
    note cm = counts_kput [OF split(3) lk(1), where i = i and ky = ky and v = v and l = l and t = t and t' = "clock (snd s)"]
    have fs: "Suc (fst s) \<le> fst s'" using ih by simp
    then have "mset [fst s..<fst s'] = add_mset (fst s) (mset [Suc (fst s)..<fst s'])"
      by (simp add: upt_conv_Cons)
    then have "mset (node_ids ?n') = mset (node_ids ?n) + mset [fst s..<fst s']" using cm(2) ih sc(1) by simp
    moreover have "kids_ok ?n \<Longrightarrow> kids_ok ?n'"
      using ih sc(5) locks_ok_iff [of new] locks_ok_iff [of new'] by (intro cm(6)) auto
    moreover have "usize ?n' = usize ?n + e" "total_size_helper ?n' = total_size_helper ?n + e" "refs ?n' j = refs ?n j" for j
      using cm(3-5) ih sc by simp_all
    moreover have "fst s \<le> fst s'" using fs by simp
    ultimately show ?case using lk cm(1) by (simp only: split_conv rnode.sel) blast
  qed
  then show ?thesis using assms(1) by simp
qed

section \<open>Locks\<close>

text \<open>The walk from a node to the root, seen from the root: every node on the path but the root itself
  changes its count, and a node that becomes locked or unlocked changes the evictable size.  \<open>d\<close> is 1 for
  \<^verbatim>\<open>inc_lock_ref\<close> and -1 for \<^verbatim>\<open>dec_lock_ref\<close>.\<close>

definition lock_delta :: "int \<Rightarrow> int \<Rightarrow> nat list \<Rightarrow> int" where
  "lock_delta d l v =
     (if d = 1 then (if l = 0 then - int (length v) else 0) else (if l = 1 then int (length v) else 0))"

fun lock_path :: "int \<Rightarrow> nat \<Rightarrow> rnode \<Rightarrow> (rnode \<times> int) option"
and lock_kids :: "int \<Rightarrow> nat \<Rightarrow> (int \<times> rnode) list \<Rightarrow> ((int \<times> rnode) list \<times> int) option" where
  "lock_path d i (RNode j ky v l t cs) =
     (if j = i then Some (RNode j ky v (l + d) t cs, lock_delta d l v)
      else case lock_kids d i cs of
             None \<Rightarrow> None
           | Some (cs', e) \<Rightarrow> Some (RNode j ky v (l + d) t cs', e + lock_delta d l v))"
| "lock_kids d i [] = None"
| "lock_kids d i ((k, c) # cs) =
     (case lock_path d i c of
        Some (c', e) \<Rightarrow> Some ((k, c') # cs, e)
      | None \<Rightarrow> (case lock_kids d i cs of None \<Rightarrow> None | Some (cs', e) \<Rightarrow> Some ((k, c) # cs', e)))"

text \<open>A reference to a node that is no longer in the tree is an error of the model; that it does not
  happen is part of the theorem on reference counts.\<close>

definition change_lock :: "int \<Rightarrow> node_ref option \<Rightarrow> radix \<Rightarrow> (int \<times> radix) res" where
  "change_lock d nd c =
     (if rc_disable c then Ok (0, c)
      else case nd of
             Some (RadixNode i) \<Rightarrow>
               (if i = nid (rc_root c) then Ok (0, c)
                else case lock_kids d i (kids (rc_root c)) of
                       None \<Rightarrow> Err RuntimeError
                     | Some (cs, e) \<Rightarrow>
                         (case rc_root c of RNode j ky v l t _ \<Rightarrow>
                            Ok (e, c\<lparr>rc_root := RNode j ky v l t cs, rc_evictable := rc_evictable c + e\<rparr>)))
           | _ \<Rightarrow> Err AttributeError)"

definition radix_inc_lock_ref :: "node_ref option \<Rightarrow> radix \<Rightarrow> (int \<times> radix) res" where
  "radix_inc_lock_ref nd c = change_lock 1 nd c"

definition radix_dec_lock_ref :: "node_ref option \<Rightarrow> radix \<Rightarrow> (int \<times> radix) res" where
  "radix_dec_lock_ref nd c = change_lock (- 1) nd c"

lemma lock_kids_SomeE:
  assumes "lock_kids d i cs = Some (cs', e)"
  obtains xs k c ys c' where "cs = xs @ (k, c) # ys" "cs' = xs @ (k, c') # ys" "lock_path d i c = Some (c', e)"
proof -
  have "\<exists>xs k c ys c'. cs = xs @ (k, c) # ys \<and> cs' = xs @ (k, c') # ys \<and> lock_path d i c = Some (c', e)"
    using assms
  proof (induction cs arbitrary: cs' e)
    case (Cons x cs)
    obtain k c where x: "x = (k, c)" by (cases x)
    show ?case
    proof (cases "lock_path d i c")
      case (Some r)
      obtain c1 e1 where "r = (c1, e1)" by (cases r)
      then show ?thesis using Some Cons.prems x by (intro exI [of _ "[]"]) auto
    next
      case None
      then obtain cs1 where k: "lock_kids d i cs = Some (cs1, e)" "cs' = x # cs1"
        using Cons.prems x by (auto split: option.splits)
      from Cons.IH [OF k(1)] obtain xs k' c' ys c'' where
        "cs = xs @ (k', c') # ys" "cs1 = xs @ (k', c'') # ys" "lock_path d i c' = Some (c'', e)" by blast
      then show ?thesis using k by (intro exI [of _ "x # xs"]) auto
    qed
  qed simp
  then show ?thesis using that by auto
qed

lemma lock_path_None: "(lock_path d i n = None \<longleftrightarrow> i \<notin> set (node_ids n))"
  "(lock_kids d i cs = None \<longleftrightarrow> (\<forall>x \<in> set cs. i \<notin> set (node_ids (snd x))))"
  by (induction d i n and d i cs rule: lock_path_lock_kids.induct) (auto split: option.splits)

text \<open>An induction over the path.\<close>

lemma lock_induct [consumes 1, case_names here down]:
  assumes "lock_path d i n = Some (n', e)"
    and "\<And>ky v l t cs. P (RNode i ky v l t cs) (RNode i ky v (l + d) t cs) (lock_delta d l v)"
    and "\<And>j ky v l t xs k c ys c' e. j \<noteq> i \<Longrightarrow> lock_path d i c = Some (c', e) \<Longrightarrow> P c c' e \<Longrightarrow>
      P (RNode j ky v l t (xs @ (k, c) # ys)) (RNode j ky v (l + d) t (xs @ (k, c') # ys)) (e + lock_delta d l v)"
  shows "P n n' e"
  using assms(1)
proof (induction "size n" arbitrary: n n' e rule: less_induct)
  case less
  obtain j ky v l t cs where n: "n = RNode j ky v l t cs" by (cases n)
  show ?case
  proof (cases "j = i")
    case True
    then show ?thesis using less.prems n assms(2) by auto
  next
    case False
    then obtain cs' e' where r: "lock_kids d i cs = Some (cs', e')" "n' = RNode j ky v (l + d) t cs'" "e = e' + lock_delta d l v"
      using less.prems n by (auto split: option.splits)
    from lock_kids_SomeE [OF r(1)] obtain xs k c ys c' where
      k: "cs = xs @ (k, c) # ys" "cs' = xs @ (k, c') # ys" "lock_path d i c = Some (c', e')" .
    have "size c < size n" using n k(1) by simp
    from less.hyps [OF this k(3)] show ?thesis using assms(3) [OF False k(3)] n r k by simp
  qed
qed

lemma lock_path_keeps:
  assumes "lock_path d i n = Some (n', e)"
  shows "node_ids n' = node_ids n \<and> total_size_helper n' = total_size_helper n \<and> rkey n' = rkey n \<and> rval n' = rval n \<and> nid n' = nid n
    \<and> rlock n' = rlock n + d \<and> (wf_tree n \<longrightarrow> wf_tree n') \<and> (\<forall>k. walk n' k = walk n k)
    \<and> refs n' = (refs n)(i := refs n i + d)"
  using assms
proof (induction rule: lock_induct)
  case (here ky v l t cs)
  then show ?case by (auto simp: walk_into)
next
  case (down j ky v l t xs k c ys c' e)
  have "into c' z = into c z" for z using down by (simp add: into_def Let_def)
  then have "walk (RNode j ky v (l + d) t (xs @ (k, c') # ys)) z = walk (RNode j ky v l t (xs @ (k, c) # ys)) z" for z
    by (auto simp: walk_into map_add_def split: option.splits)
  then show ?case using down by auto
qed

lemma sum_map_zero: "\<forall>x \<in> set xs. f x = 0 \<Longrightarrow> sum_list (map f xs) = (0 :: int)"
  by (induction xs) auto

lemma refs_notin: "j \<notin> set (node_ids n) \<Longrightarrow> refs n j = 0"
proof (induction n j rule: refs.induct)
  case (1 i ky v l t cs j)
  then have "\<forall>x \<in> set cs. refs (snd x) j = 0" by auto
  from sum_map_zero [OF this] show ?case using 1 by simp
qed

lemma refs_kids_notin: "\<forall>x \<in> set cs. j \<notin> set (node_ids (snd x)) \<Longrightarrow> sum_list (map (\<lambda>x. refs (snd x) j) cs) = 0"
  by (intro sum_map_zero) (simp add: refs_notin)

lemma locks_ok_rlock: "locks_ok n \<Longrightarrow> 0 \<le> rlock n"
  by (cases n) simp

lemma lock_sum_nonneg: "\<forall>x \<in> set cs. locks_ok (snd x) \<Longrightarrow> 0 \<le> lock_sum cs"
  by (induction cs) (auto dest: locks_ok_rlock)

lemma lock_path_in: "lock_path d i n = Some r \<Longrightarrow> i \<in> set (node_ids n)"
  using lock_path_None(1) [of d i n] by auto

lemma lock_path_ok:
  assumes "lock_path d i n = Some (n', e)" "locks_ok n" "d = 1 \<or> d = -1 \<and> 0 < refs n i \<and> distinct (node_ids n)"
  shows "locks_ok n' \<and> usize n' = usize n + e \<and> (d = -1 \<longrightarrow> 1 \<le> rlock n)"
  using assms
proof (induction rule: lock_induct)
  case (here ky v l t cs)
  have "d = -1 \<Longrightarrow> refs (RNode i ky v l t cs) i = l - lock_sum cs"
    using here by (simp add: refs_kids_notin)
  then show ?case using here lock_sum_nonneg [of cs] by (auto simp: lock_delta_def)
next
  case (down j ky v l t xs k c ys c' e)
  have "i \<in> set (node_ids c)" using down(2) lock_path_in by blast
  then have "\<forall>x \<in> set (xs @ ys). i \<notin> set (node_ids (snd x))" if "d = -1"
    using down.prems(2) that by auto
  then have r: "d = -1 \<Longrightarrow> refs (RNode j ky v l t (xs @ (k, c) # ys)) i = refs c i"
    using down(1) refs_kids_notin [of xs i] refs_kids_notin [of ys i] by simp
  have ih: "locks_ok c'" "usize c' = usize c + e" "d = -1 \<longrightarrow> 1 \<le> rlock c"
    using down.IH down.prems r by auto
  have lk: "rlock c' = rlock c + d" using lock_path_keeps [OF down(2)] by simp
  have nn: "0 \<le> lock_sum xs" "0 \<le> lock_sum ys" using down.prems(1) by (auto intro: lock_sum_nonneg)
  show ?case using down.prems ih lk nn by (auto simp: lock_delta_def)
qed

lemma lock_kids_mid:
  assumes "\<forall>x \<in> set xs. i \<notin> set (node_ids (snd x))" "lock_path d i c = Some (c', e)"
  shows "lock_kids d i (xs @ (k, c) # ys) = Some (xs @ (k, c') # ys, e)"
  using assms(1)
proof (induction xs)
  case (Cons x xs)
  then have "lock_path d i (snd x) = None" by (simp add: lock_path_None(1))
  then show ?case using Cons by (cases x) auto
qed (use assms(2) in simp)

lemma lock_path_undo:
  assumes "lock_path 1 i n = Some (n', e)" "locks_ok n" "distinct (node_ids n)"
  shows "lock_path (- 1) i n' = Some (n, - e)"
  using assms
proof (induction rule: lock_induct)
  case (here ky v l t cs)
  then show ?case by (simp add: lock_delta_def)
next
  case (down j ky v l t xs k c ys c' e)
  have "i \<in> set (node_ids c')" using lock_path_in [OF down(2)] lock_path_keeps [OF down(2)] by simp
  then have "\<forall>x \<in> set xs. i \<notin> set (node_ids (snd x))"
    using down.prems(2) lock_path_in [OF down(2)] by auto
  then have "lock_kids (- 1) i (xs @ (k, c') # ys) = Some (xs @ (k, c) # ys, - e)"
    using lock_kids_mid down.IH down.prems by auto
  then show ?case using down(1) down.prems by (simp add: lock_delta_def)
qed

section \<open>The invariant of the cache\<close>

definition radix_inv :: "radix \<Rightarrow> bool" where
  "radix_inv c \<longleftrightarrow> wf_tree (rc_root c) \<and> rval (rc_root c) = [] \<and> rlock (rc_root c) = 1 \<and> kids_ok (rc_root c)
     \<and> distinct (node_ids (rc_root c)) \<and> (\<forall>i \<in> set (node_ids (rc_root c)). i < rc_next c)
     \<and> rc_evictable c = usize (rc_root c)"

text \<open>The references held on the nodes below the root; the root is never evicted and counts none.\<close>

definition held_refs :: "radix \<Rightarrow> nat \<Rightarrow> int" where
  "held_refs c i = (if i = nid (rc_root c) then 0 else refs (rc_root c) i)"

lemma inv_init: "radix_inv (radix_init clock dis)"
  by (simp add: radix_inv_def radix_init_def radix_reset_def)

lemma fresh_ids:
  assumes "distinct xs" "\<forall>i \<in> set xs. i < (a :: nat)" "a \<le> b" "mset ys = mset xs + mset [a..<b]"
  shows "distinct ys \<and> (\<forall>i \<in> set ys. i < b)"
proof -
  have "mset ys = mset (xs @ [a..<b])" using assms(4) by simp
  moreover have "distinct (xs @ [a..<b])" using assms by auto
  moreover have "\<forall>i \<in> set (xs @ [a..<b]). i < b" using assms by auto
  ultimately show ?thesis by (metis mset_eq_imp_distinct_iff mset_eq_setD)
qed

lemma match_keeps_fields:
  assumes "match_helper clock n key s = ((n', vs, nd), s')"
  shows "rval n' = rval n" "rlock n' = rlock n" "nid n' = nid n"
  using match_fields [of clock n key s] assms by simp_all

lemma insert_fields:
  "rval (fst (fst (insert_helper clock n key val s))) = rval n"
  "rlock (fst (fst (insert_helper clock n key val s))) = rlock n"
  "nid (fst (fst (insert_helper clock n key val s))) = nid n"
  by (cases n; simp add: insert_step Let_def split: option.splits)+

lemma inv_match:
  assumes "radix_match clock key c = ((vs, nd), c')" "radix_inv c" "\<not> rc_disable c"
  shows "radix_inv c' \<and> vs = walk (rc_root c) key \<and> (\<forall>k. walk (rc_root c') k = walk (rc_root c) k)
    \<and> held_refs c' = held_refs c \<and> nd \<in> set (node_ids (rc_root c'))
    \<and> rc_evictable c' = rc_evictable c \<and> total_size c' = total_size c
    \<and> nid (rc_root c') = nid (rc_root c) \<and> set (node_ids (rc_root c)) \<subseteq> set (node_ids (rc_root c'))"
proof -
  obtain root n t where m: "match_helper clock (rc_root c) key (rc_next c, rc_tick c) = ((root, vs, nd), (n, t))"
    and c': "c' = c\<lparr>rc_root := root, rc_next := n, rc_tick := t\<rparr>"
    using assms(1,3) by (auto simp: radix_match_def split: prod.splits)
  have w: "wf_tree (rc_root c)" using assms(2) by (simp add: radix_inv_def)
  note mc = match_counts [OF m w] and mw = match_walk [OF m w] and mf = match_keeps_fields [OF m]
  have "distinct (node_ids root) \<and> (\<forall>i \<in> set (node_ids root). i < n)"
    using mc assms(2) by (intro fresh_ids [of "node_ids (rc_root c)" "rc_next c"]) (auto simp: radix_inv_def)
  moreover have "set (node_ids (rc_root c)) \<subseteq> set (node_ids root)"
    using mc by (metis set_mset_mset set_mset_union sup.cobounded1)
  moreover have "refs root = refs (rc_root c)" using mc by auto
  ultimately show ?thesis using mc mw mf assms(2) c' by (auto simp: radix_inv_def total_size_def held_refs_def fun_eq_iff)
qed

lemma inv_insert:
  assumes "radix_insert clock key val c = (m, c')" "radix_inv c" "length val = length key" "\<not> rc_disable c"
  shows "radix_inv c' \<and> m = length (walk (rc_root c) key)
    \<and> (\<forall>k. walk (rc_root c') k = grown (walk (rc_root c) k) (walk (rc_root c) key) k key val)
    \<and> held_refs c' = held_refs c
    \<and> total_size c' - total_size c = rc_evictable c' - rc_evictable c
    \<and> nid (rc_root c') = nid (rc_root c) \<and> set (node_ids (rc_root c)) \<subseteq> set (node_ids (rc_root c'))"
proof -
  obtain root e n t where r: "insert_helper clock (rc_root c) key val (rc_next c, rc_tick c) = ((root, m, e), (n, t))"
    and c': "c' = c\<lparr>rc_root := root, rc_evictable := rc_evictable c + e, rc_next := n, rc_tick := t\<rparr>"
    using assms(1,4) by (auto simp: radix_insert_def split: prod.splits)
  have w: "wf_tree (rc_root c)" using assms(2) by (simp add: radix_inv_def)
  note mc = insert_counts [OF r w] and mw = insert_walk [OF r w assms(3)]
  have mf: "rval root = rval (rc_root c)" "rlock root = rlock (rc_root c)" "nid root = nid (rc_root c)"
    using insert_fields [of clock "rc_root c" key val "(rc_next c, rc_tick c)"] r by simp_all
  have "distinct (node_ids root) \<and> (\<forall>i \<in> set (node_ids root). i < n)"
    using mc assms(2) by (intro fresh_ids [of "node_ids (rc_root c)" "rc_next c"]) (auto simp: radix_inv_def)
  moreover have "set (node_ids (rc_root c)) \<subseteq> set (node_ids root)"
    using mc by (metis set_mset_mset set_mset_union sup.cobounded1)
  moreover have "refs root = refs (rc_root c)" using mc by auto
  ultimately show ?thesis using mc mw mf assms(2) c' by (auto simp: radix_inv_def total_size_def held_refs_def fun_eq_iff)
qed

lemma inv_lock:
  assumes inv: "radix_inv c" and d: "d = 1 \<and> i \<in> set (node_ids (rc_root c)) \<or> d = -1 \<and> 0 < held_refs c i"
    and dis: "\<not> rc_disable c" and i: "i \<noteq> nid (rc_root c)"
  shows "\<exists>e c'. change_lock d (Some (RadixNode i)) c = Ok (e, c') \<and> radix_inv c'
    \<and> held_refs c' = (held_refs c)(i := held_refs c i + d) \<and> node_ids (rc_root c') = node_ids (rc_root c)
    \<and> (\<forall>k. walk (rc_root c') k = walk (rc_root c) k) \<and> rc_evictable c' = rc_evictable c + e
    \<and> total_size c' = total_size c \<and> nid (rc_root c') = nid (rc_root c)"
proof -
  obtain j ky v l t cs where root: "rc_root c = RNode j ky v l t cs" by (cases "rc_root c")
  note w = inv [unfolded radix_inv_def root]
  have "i \<in> set (node_ids (rc_root c))" using d i refs_notin [of i "rc_root c"] by (cases "i \<in> set (node_ids (rc_root c))") (auto simp: held_refs_def)
  then have "\<exists>x \<in> set cs. i \<in> set (node_ids (snd x))" using i root by auto
  then obtain cs' e where lk: "lock_kids d i cs = Some (cs', e)"
    using lock_path_None(2) [of d i cs] by (cases "lock_kids d i cs") auto
  from lock_kids_SomeE [OF this] obtain xs k n ys n' where
    k: "cs = xs @ (k, n) # ys" "cs' = xs @ (k, n') # ys" "lock_path d i n = Some (n', e)" .
  have dis': "distinct (node_ids n)" "\<forall>x \<in> set (xs @ ys). i \<notin> set (node_ids (snd x))"
    using w k(1) lock_path_in [OF k(3)] by auto
  have "held_refs c i = refs n i"
    using dis'(2) root k(1) i refs_kids_notin [of xs i] refs_kids_notin [of ys i] by (simp add: held_refs_def)
  then have "d = 1 \<or> d = -1 \<and> 0 < refs n i \<and> distinct (node_ids n)" using d dis' by auto
  moreover have "locks_ok n" using w k(1) by simp
  ultimately have ok: "locks_ok n' \<and> usize n' = usize n + e \<and> (d = -1 \<longrightarrow> 1 \<le> rlock n)"
    using lock_path_ok [OF k(3)] by blast
  note kp = lock_path_keeps [OF k(3)]
  let ?root = "RNode j ky v l t cs'"
  have "into n' z = into n z" for z using kp by (simp add: into_def Let_def)
  then have "walk ?root z = walk (rc_root c) z" for z
    unfolding root k(1,2) by (auto simp: walk_into map_add_def split: option.splits)
  moreover have "node_ids ?root = node_ids (rc_root c)" "total_size_helper ?root = total_size_helper (rc_root c)"
    "usize ?root = usize (rc_root c) + e" "wf_tree ?root" "kids_ok ?root"
    using kp ok w unfolding root k(1,2) by auto
  moreover define c' where "c' = c\<lparr>rc_root := ?root, rc_evictable := rc_evictable c + e\<rparr>"
  moreover have "held_refs c' = (held_refs c)(i := held_refs c i + d)"
    using kp i root unfolding held_refs_def c'_def k(1,2) by auto
  moreover have "change_lock d (Some (RadixNode i)) c = Ok (e, c')"
    using dis i lk root by (simp add: change_lock_def c'_def)
  ultimately have "change_lock d (Some (RadixNode i)) c = Ok (e, c') \<and> radix_inv c'
    \<and> held_refs c' = (held_refs c)(i := held_refs c i + d) \<and> node_ids (rc_root c') = node_ids (rc_root c)
    \<and> (\<forall>k. walk (rc_root c') k = walk (rc_root c) k) \<and> rc_evictable c' = rc_evictable c + e
    \<and> total_size c' = total_size c \<and> nid (rc_root c') = nid (rc_root c)"
    using inv root by (simp add: radix_inv_def total_size_def)
  then show ?thesis by blast
qed

end
