(* ===== verification/Radix_Evict.thy ===== *)
theory Radix_Evict
imports Radix_Locks "HOL-Library.Sublist"
begin

text \<open>
  Eviction from the radix cache (\<^verbatim>\<open>evict\<close>, \<^verbatim>\<open>_delete_leaf\<close>, \<^verbatim>\<open>_collect_leaves\<close> of
  \<^verbatim>\<open>python/sglang/srt/mem_cache/radix_cache.py\<close>): unlocked leaves go, oldest first, and a parent that
  becomes a leaf joins the queue.
\<close>

section \<open>Eviction\<close>

fun nodes :: "rnode \<Rightarrow> rnode list" where
  "nodes (RNode i ky v l t cs) = RNode i ky v l t cs # concat (map (\<lambda>x. nodes (snd x)) cs)"

definition find_node :: "nat \<Rightarrow> rnode \<Rightarrow> rnode option" where
  "find_node i tr = find (\<lambda>n. nid n = i) (nodes tr)"

definition find_parent :: "nat \<Rightarrow> rnode \<Rightarrow> rnode option" where
  "find_parent i tr = find (\<lambda>n. list_ex (\<lambda>x. nid (snd x) = i) (kids n)) (nodes tr)"

text \<open>\<^verbatim>\<open>_delete_leaf\<close>: the entry of the node in its parent's dictionary goes away.\<close>

fun drop_node :: "nat \<Rightarrow> rnode \<Rightarrow> rnode" where
  "drop_node i (RNode j ky v l t cs) =
     RNode j ky v l t (map (\<lambda>x. (fst x, drop_node i (snd x))) (filter (\<lambda>x. nid (snd x) \<noteq> i) cs))"

text \<open>The leaves in the order of the depth-first stack.\<close>

fun collect_leaves :: "rnode \<Rightarrow> rnode list" where
  "collect_leaves (RNode i ky v l t cs) =
     (if cs = [] then [RNode i ky v l t cs] else concat (map (\<lambda>x. collect_leaves (snd x)) (rev cs)))"

text \<open>The heap holds nodes ordered by their access time; popping takes a smallest one (the first such,
  where times are equal).  An entry is the time and the node's identity.\<close>

type_synonym heap_entry = "real \<times> nat"

definition heap_entry :: "rnode \<Rightarrow> heap_entry" where
  "heap_entry n = (atime n, nid n)"

fun min_entry :: "heap_entry \<Rightarrow> heap_entry list \<Rightarrow> heap_entry" where
  "min_entry x [] = x"
| "min_entry x (y # ys) = (let m = min_entry y ys in if fst m < fst x then m else x)"

lemma min_entry_in: "min_entry x ys \<in> set (x # ys)"
  by (induction ys arbitrary: x) (auto simp: Let_def)

lemma nodes_ids: "node_ids n = map nid (nodes n)"
  by (induction n rule: nodes.induct) (auto simp: map_concat cong: map_cong)

lemma nodes_drop:
  assumes "\<forall>m \<in> set (nodes n). nid m = i \<longrightarrow> kids m = []" "nid n \<noteq> i"
  shows "nodes (drop_node i n) = map (drop_node i) (filter (\<lambda>m. nid m \<noteq> i) (nodes n))"
  using assms
proof (induction n rule: nodes.induct)
  case (1 j ky v l t cs)
  have *: "concat (map (\<lambda>x. nodes (drop_node i (snd x))) (filter (\<lambda>x. nid (snd x) \<noteq> i) xs))
      = map (drop_node i) (filter (\<lambda>m. nid m \<noteq> i) (concat (map (\<lambda>x. nodes (snd x)) xs)))" if "set xs \<subseteq> set cs" for xs
    using that
  proof (induction xs)
    case (Cons x xs)
    show ?case
    proof (cases "nid (snd x) = i")
      case True
      then have "kids (snd x) = []" using 1(2) Cons.prems by (cases "snd x") fastforce
      then have "nodes (snd x) = [snd x]" by (cases "snd x") simp
      then show ?thesis using Cons True by simp
    next
      case False
      then have "nodes (drop_node i (snd x)) = map (drop_node i) (filter (\<lambda>m. nid m \<noteq> i) (nodes (snd x)))"
        using 1(1) [of x] 1(2) Cons.prems by auto
      then show ?thesis using Cons False by simp
    qed
  qed simp
  from * [of cs] show ?case using 1(3) by (simp add: comp_def)
qed

lemma nodes_drop_le: "length (nodes (drop_node i t)) \<le> length (nodes t)"
proof (induction t rule: nodes.induct)
  case (1 j ky v l t cs)
  have "length (concat (map (\<lambda>x. nodes (drop_node i (snd x))) (filter (\<lambda>x. nid (snd x) \<noteq> i) xs)))
      \<le> length (concat (map (\<lambda>x. nodes (snd x)) xs))" if "set xs \<subseteq> set cs" for xs
    using that
  proof (induction xs)
    case (Cons x xs)
    then show ?case using 1 [of x] by auto
  qed simp
  from this [of cs] show ?case by (simp add: comp_def)
qed

lemma nodes_drop_less:
  "list_ex (\<lambda>m. list_ex (\<lambda>x. nid (snd x) = i) (kids m)) (nodes t) \<Longrightarrow> length (nodes (drop_node i t)) < length (nodes t)"
proof (induction t rule: nodes.induct)
  case (1 j ky v l t cs)
  let ?f = "\<lambda>xs. length (concat (map (\<lambda>x. nodes (drop_node i (snd x))) (filter (\<lambda>x. nid (snd x) \<noteq> i) xs)))"
  let ?g = "\<lambda>xs. length (concat (map (\<lambda>x. nodes (snd x)) xs))"
  have le: "?f xs \<le> ?g xs" for xs :: "(int \<times> rnode) list"
    by (induction xs) (auto intro: add_mono nodes_drop_le trans_le_add2)
  have pos: "0 < length (nodes n)" for n by (cases n) simp
  have "?f cs < ?g cs"
  proof -
    from 1(2) obtain x where x: "x \<in> set cs"
      "nid (snd x) = i \<or> list_ex (\<lambda>m. list_ex (\<lambda>x. nid (snd x) = i) (kids m)) (nodes (snd x))"
      by (auto simp: list_ex_iff)
    then obtain xs ys where cs: "cs = xs @ x # ys" by (meson split_list)
    have "(if nid (snd x) \<noteq> i then length (nodes (drop_node i (snd x))) else 0) < length (nodes (snd x))"
      using x 1(1) [OF x(1)] pos by auto
    then show ?thesis using le [of xs] le [of ys] cs by (auto split: if_splits)
  qed
  then show ?case by (simp add: comp_def)
qed

lemma find_parent_Some:
  "find_parent i t = Some p \<Longrightarrow> list_ex (\<lambda>m. list_ex (\<lambda>x. nid (snd x) = i) (kids m)) (nodes t)"
  by (auto simp: find_parent_def find_Some_iff list_ex_iff)

text \<open>One round of the loop: pop, stop at the root, skip a locked node, else hand its slots to the
  callback, delete it, and push its parent when that became a leaf.\<close>

function evict_loop ::
  "int \<Rightarrow> heap_entry list \<Rightarrow> int \<Rightarrow> rnode \<Rightarrow> int \<Rightarrow> nat list list \<Rightarrow> nat list list \<times> rnode \<times> int" where
  "evict_loop num_tokens leaves num_evicted tr ev calls =
     (if num_evicted < num_tokens \<and> leaves \<noteq> []
      then let x = min_entry (hd leaves) (tl leaves); leaves = remove1 x leaves
           in if snd x = nid tr then (calls, tr, ev)
              else case (find_node (snd x) tr, find_parent (snd x) tr) of
                     (Some n, Some p) \<Rightarrow>
                       if rlock n > 0 then evict_loop num_tokens leaves num_evicted tr ev calls
                       else let tr = drop_node (snd x) tr;
                                leaves = (case find_node (nid p) tr of
                                            Some p' \<Rightarrow> if kids p' = [] then leaves @ [heap_entry p'] else leaves
                                          | None \<Rightarrow> leaves)
                            in evict_loop num_tokens leaves (num_evicted + int (length (rval n))) tr
                                 (ev - int (length (rkey n))) (calls @ [rval n])
                   | _ \<Rightarrow> (calls, tr, ev)
      else (calls, tr, ev))"
  by pat_completeness auto

termination evict_loop
proof (relation "measures [\<lambda>(_, _, _, tr, _, _). length (nodes tr), \<lambda>(_, leaves, _, _, _, _). length leaves]",
    goal_cases)
  case 1
  then show ?case by simp
next
  case (2 num_tokens leaves num_evicted tr ev calls x ls n p)
  then have "x \<in> set leaves" using min_entry_in [of "hd leaves" "tl leaves"] by auto
  then show ?case using 2 by (auto simp: length_remove1 intro: length_pos_if_in_set)
next
  case (3 num_tokens leaves num_evicted tr ev calls x ls pr n p)
  then show ?case by (auto dest!: find_parent_Some [OF sym] nodes_drop_less)
qed

declare evict_loop.simps [simp del]

definition radix_evict :: "nat \<Rightarrow> radix \<Rightarrow> nat list list \<times> radix" where
  "radix_evict num_tokens c =
     (if rc_disable c then ([], c)
      else let (calls, tr, ev) = evict_loop (int num_tokens) (map heap_entry (collect_leaves (rc_root c))) 0
                                   (rc_root c) (rc_evictable c) []
           in (calls, c\<lparr>rc_root := tr, rc_evictable := ev\<rparr>))"

definition radix_evictable_size :: "radix \<Rightarrow> int" where
  "radix_evictable_size c = rc_evictable c"

section \<open>Dropping an unlocked leaf\<close>

lemma drop_fields [simp]:
  "nid (drop_node i n) = nid n" "rkey (drop_node i n) = rkey n" "rval (drop_node i n) = rval n"
  "rlock (drop_node i n) = rlock n" "atime (drop_node i n) = atime n"
  "kids (drop_node i n) = map (\<lambda>x. (fst x, drop_node i (snd x))) (filter (\<lambda>x. nid (snd x) \<noteq> i) (kids n))"
  by (cases n; simp)+

definition spare :: "nat \<Rightarrow> rnode \<Rightarrow> bool" where
  "spare i t \<longleftrightarrow> (\<forall>m \<in> set (nodes t). nid m = i \<longrightarrow> kids m = [] \<and> rlock m = 0)"

lemma spare_kids: "spare i (RNode j ky v l t cs) \<Longrightarrow> x \<in> set cs \<Longrightarrow> spare i (snd x)"
  by (auto simp: spare_def)

lemma nodes_self: "n \<in> set (nodes n)"
  by (cases n) simp

lemma spare_self: "spare i n \<Longrightarrow> nid n = i \<Longrightarrow> kids n = [] \<and> rlock n = 0"
  using nodes_self by (auto simp: spare_def)

lemma lock_sum_drop:
  "\<forall>x \<in> set cs. spare i (snd x) \<Longrightarrow>
   lock_sum (map (\<lambda>x. (fst x, drop_node i (snd x))) (filter (\<lambda>x. nid (snd x) \<noteq> i) cs)) = lock_sum cs"
  by (induction cs) (auto dest: spare_self)

lemma refs_childless: "kids n = [] \<Longrightarrow> rlock n = 0 \<Longrightarrow> refs n j = 0"
  by (cases n) simp

lemma refs_drop: "spare i t \<Longrightarrow> refs (drop_node i t) j = refs t j"
proof (induction t j rule: refs.induct)
  case (1 n ky v l t cs j)
  have sp: "\<forall>x \<in> set cs. spare i (snd x)" using 1(2) spare_kids by blast
  have "sum_list (map (\<lambda>x. refs (drop_node i (snd x)) j) (filter (\<lambda>x. nid (snd x) \<noteq> i) xs))
      = sum_list (map (\<lambda>x. refs (snd x) j) xs)" if "set xs \<subseteq> set cs" for xs
    using that
  proof (induction xs)
    case (Cons x xs)
    then show ?case using 1(1) [of x] sp spare_self [of i "snd x"] refs_childless [of "snd x" j] by auto
  qed simp
  from this [of cs] show ?case using lock_sum_drop [OF sp] by (simp add: comp_def)
qed

lemma locks_drop: "spare i t \<Longrightarrow> locks_ok t \<Longrightarrow> locks_ok (drop_node i t)"
proof (induction t rule: locks_ok.induct)
  case (1 n ky v l t cs)
  have sp: "\<forall>x \<in> set cs. spare i (snd x)" using 1(2) spare_kids by blast
  then show ?case using 1 lock_sum_drop [OF sp] by auto
qed

lemma kids_ok_drop: "spare i t \<Longrightarrow> kids_ok t \<Longrightarrow> kids_ok (drop_node i t)"
  using spare_kids [of i] locks_drop [of i] by (cases t) fastforce

lemma wf_drop: "wf_tree t \<Longrightarrow> wf_tree (drop_node i t)"
proof (induction t rule: wf_tree.induct)
  case (1 n ky v l t cs)
  have "map fst (map (\<lambda>x. (fst x, drop_node i (snd x))) (filter P cs)) = map fst (filter P cs)" for P
    by (simp add: comp_def)
  then show ?case using 1 distinct_map_filter [of fst cs] by (auto simp del: map_map)
qed

lemma map_of_drop:
  "distinct (map fst cs) \<Longrightarrow> map_of (map (\<lambda>x. (fst x, drop_node i (snd x))) (filter (\<lambda>x. nid (snd x) \<noteq> i) cs)) k
   = (case map_of cs k of None \<Rightarrow> None | Some c \<Rightarrow> if nid c = i then None else Some (drop_node i c))"
  by (induction cs) (auto split: option.splits simp: map_of_eq_None_iff image_iff)

text \<open>After a deletion every walk is a prefix of what it was.\<close>

lemma walk_drop: "wf_tree t \<Longrightarrow> prefix (walk (drop_node i t) key) (walk t key)"
proof (induction t key rule: walk.induct)
  case (1 n ky v l t cs key)
  show ?case
  proof (cases "key = [] \<or> map_of cs (hd key) = None")
    case True
    then show ?thesis using 1(2) by (auto simp: walk_into map_of_drop)
  next
    case False
    then obtain c where c: "map_of cs (hd key) = Some c" "key \<noteq> []" by auto
    then have wc: "wf_tree c" using wf_kid 1(2) by blast
    have "prefix (into (drop_node i c) key) (into c key)"
      using 1(1) [OF c(2,1) refl _ wc] by (auto simp: into_def Let_def)
    then show ?thesis using c 1(2) by (auto simp: walk_into map_of_drop)
  qed
qed

lemma sum_concat: "sum_list (concat xss) = sum_list (map sum_list xss)"
  by (induction xss) auto

lemma usize_nodes: "usize t = sum_list (map (\<lambda>m. if rlock m = 0 then int (length (rval m)) else 0) (nodes t))"
proof (induction t rule: usize.induct)
  case (1 i ky v l t cs)
  then show ?case by (simp add: map_concat sum_concat comp_def cong: map_cong)
qed

lemma total_nodes: "total_size_helper t = sum_list (map (\<lambda>m. int (length (rval m))) (nodes t))"
proof (induction t rule: total_size_helper.induct)
  case (1 i ky v l t cs)
  then show ?case by (simp add: map_concat sum_concat comp_def cong: map_cong)
qed

lemma sum_filter_one:
  assumes "distinct (map f xs)" "n \<in> set xs"
  shows "sum_list (map g (filter (\<lambda>m. f m \<noteq> f n) xs)) = sum_list (map g xs) - (g n :: int)"
proof -
  obtain as bs where xs: "xs = as @ n # bs" using assms(2) by (meson split_list)
  then have "filter (\<lambda>m. f m \<noteq> f n) as = as" "filter (\<lambda>m. f m \<noteq> f n) bs = bs"
    using assms(1) by (auto simp: filter_id_conv image_iff)
  then show ?thesis using xs by simp
qed

lemma spareI:
  assumes "distinct (node_ids t)" "n \<in> set (nodes t)" "kids n = []" "rlock n = 0"
  shows "spare (nid n) t"
proof -
  have "inj_on nid (set (nodes t))" using assms(1) by (simp add: nodes_ids distinct_map)
  then show ?thesis using assms(2-4) by (auto simp: spare_def dest: inj_onD)
qed

lemma drop_counts:
  assumes d: "distinct (node_ids t)" and n: "n \<in> set (nodes t)" "kids n = []" "rlock n = 0" "nid n \<noteq> nid t"
  shows "nodes (drop_node (nid n) t) = map (drop_node (nid n)) (filter (\<lambda>m. nid m \<noteq> nid n) (nodes t))"
    and "node_ids (drop_node (nid n) t) = filter (\<lambda>j. j \<noteq> nid n) (node_ids t)"
    and "usize (drop_node (nid n) t) = usize t - int (length (rval n))"
    and "total_size_helper (drop_node (nid n) t) = total_size_helper t - int (length (rval n))"
proof -
  have sp: "spare (nid n) t" by (rule spareI [OF d n(1-3)])
  then show nd: "nodes (drop_node (nid n) t) = map (drop_node (nid n)) (filter (\<lambda>m. nid m \<noteq> nid n) (nodes t))"
    using n(4) by (intro nodes_drop) (auto simp: spare_def)
  have dn: "distinct (map nid (nodes t))" using d by (simp add: nodes_ids)
  show "node_ids (drop_node (nid n) t) = filter (\<lambda>j. j \<noteq> nid n) (node_ids t)"
    by (simp add: nodes_ids nd filter_map comp_def)
  show "usize (drop_node (nid n) t) = usize t - int (length (rval n))"
    "total_size_helper (drop_node (nid n) t) = total_size_helper t - int (length (rval n))"
    using sum_filter_one [OF dn n(1)] n(3) by (simp_all add: usize_nodes total_nodes nd comp_def cong: if_cong)
qed

section \<open>What an eviction does\<close>

lemma kid_ids: "mset (node_ids t) = add_mset (nid t) (mset (concat (map (\<lambda>m. map (\<lambda>x. nid (snd x)) (kids m)) (nodes t))))"
proof (induction t rule: node_ids.induct)
  case (1 i ky v l t cs)
  let ?f = "\<lambda>m. map (\<lambda>x. nid (snd x)) (kids m)"
  have "mset (concat (map (\<lambda>x. node_ids (snd x)) xs))
      = mset (map (\<lambda>x. nid (snd x)) xs) + mset (concat (map ?f (concat (map (\<lambda>x. nodes (snd x)) xs))))"
    if "set xs \<subseteq> set cs" for xs
    using that 1 by (induction xs) auto
  from this [of cs] show ?case by simp
qed

lemma unique_parent:
  assumes "distinct (node_ids t)" "m \<in> set (nodes t)" "p \<in> set (nodes t)"
    and "x \<in> set (kids m)" "y \<in> set (kids p)" "nid (snd x) = nid (snd y)"
  shows "m = p"
proof (rule ccontr)
  let ?f = "\<lambda>m. map (\<lambda>x. nid (snd x)) (kids m)"
  assume ne: "m \<noteq> p"
  have "distinct (concat (map ?f (nodes t)))"
    using assms(1) kid_ids [of t] by (metis distinct.simps(2) mset.simps(2) mset_eq_imp_distinct_iff)
  moreover obtain as bs where n: "nodes t = as @ m # bs" using assms(2) by (meson split_list)
  ultimately have "distinct (concat (map ?f as) @ ?f m @ concat (map ?f bs))" by simp
  then have disj: "set (?f m) \<inter> (set (concat (map ?f as)) \<union> set (concat (map ?f bs))) = {}"
    unfolding distinct_append set_append by blast
  have "p \<in> set as \<union> set bs" using n ne assms(3) by auto
  then have "set (?f p) \<subseteq> set (concat (map ?f as)) \<union> set (concat (map ?f bs))" by auto
  moreover have "nid (snd x) \<in> set (?f m)" "nid (snd y) \<in> set (?f p)"
    using assms(4,5) by (simp_all only: set_map) (rule imageI, assumption)+
  then have "nid (snd x) \<in> set (?f m)" "nid (snd x) \<in> set (?f p)" using assms(6) by simp_all
  ultimately show False using disj by blast
qed

lemma nid_inj: "distinct (node_ids t) \<Longrightarrow> m \<in> set (nodes t) \<Longrightarrow> n \<in> set (nodes t) \<Longrightarrow> nid m = nid n \<Longrightarrow> m = n"
  by (metis nodes_ids distinct_map inj_onD)

lemma find_node_eq: "distinct (node_ids t) \<Longrightarrow> n \<in> set (nodes t) \<Longrightarrow> find_node (nid n) t = Some n"
proof -
  assume a: "distinct (node_ids t)" "n \<in> set (nodes t)"
  then have "find (\<lambda>m. nid m = nid n) (nodes t) \<noteq> None" by (auto simp: find_None_iff)
  then obtain m where m: "find (\<lambda>m. nid m = nid n) (nodes t) = Some m" by auto
  then have "m \<in> set (nodes t)" "nid m = nid n" by (auto simp: find_Some_iff)
  then show ?thesis using nid_inj [OF a(1) _ a(2)] m by (simp add: find_node_def)
qed

lemma find_parent_eq:
  assumes "distinct (node_ids t)" "n \<in> set (nodes t)" "nid n \<noteq> nid t"
  obtains p where "find_parent (nid n) t = Some p" "p \<in> set (nodes t)" "\<exists>x \<in> set (kids p). nid (snd x) = nid n"
proof -
  have "nid n \<in># mset (node_ids t)" using assms(2) by (simp add: nodes_ids)
  then have "nid n \<in> set (concat (map (\<lambda>m. map (\<lambda>x. nid (snd x)) (kids m)) (nodes t)))"
    using assms(3) unfolding kid_ids by simp
  then have "nid n \<in> (\<Union>m \<in> set (nodes t). (\<lambda>x. nid (snd x)) ` set (kids m))"
    by (simp only: set_concat set_map image_image)
  then obtain m where m: "m \<in> set (nodes t)" "nid n \<in> (\<lambda>x. nid (snd x)) ` set (kids m)" by blast
  then have "\<exists>x \<in> set (kids m). nid (snd x) = nid n" unfolding image_iff by metis
  then have "\<exists>m \<in> set (nodes t). \<exists>x \<in> set (kids m). nid (snd x) = nid n" using m(1) by blast
  then have "find_parent (nid n) t \<noteq> None" unfolding find_parent_def find_None_iff list_ex_iff by blast
  then obtain p where p: "find_parent (nid n) t = Some p" by auto
  then have "p \<in> set (nodes t)" "\<exists>x \<in> set (kids p). nid (snd x) = nid n"
    by (auto simp: find_parent_def find_Some_iff list_ex_iff)
  then show ?thesis using p that by blast
qed

text \<open>With no unlocked leaf left nothing below the root is unlocked.\<close>

lemma locked_below:
  "locks_ok n \<Longrightarrow> (\<forall>x \<in> set (nodes n). kids x = [] \<longrightarrow> rlock x \<noteq> 0) \<Longrightarrow> usize n = 0 \<and> 0 < rlock n"
proof (induction n rule: usize.induct)
  case (1 i ky v l t cs)
  have k: "usize (snd x) = 0 \<and> 0 < rlock (snd x)" if "x \<in> set cs" for x
    using 1(1) [OF that] 1(2,3) that by auto
  have u: "sum_list (map (\<lambda>x. usize (snd x)) cs) = 0" using k by (intro sum_map_zero) simp
  have "0 < l"
  proof (cases cs)
    case Nil
    then show ?thesis using 1(2,3) by auto
  next
    case (Cons x xs)
    then have "0 \<le> lock_sum xs" using 1(2) by (intro lock_sum_nonneg) simp
    then show ?thesis using Cons k [of x] 1(2) by simp
  qed
  then show ?case using u by simp
qed

definition evict_state :: "rnode \<Rightarrow> heap_entry list \<Rightarrow> bool" where
  "evict_state tr leaves \<longleftrightarrow> wf_tree tr \<and> distinct (node_ids tr) \<and> kids_ok tr \<and> rlock tr = 1 \<and> rval tr = []
     \<and> distinct (map snd leaves)
     \<and> (\<forall>x \<in> set leaves. \<exists>n \<in> set (nodes tr). heap_entry n = x \<and> kids n = [])
     \<and> (\<forall>n \<in> set (nodes tr). kids n = [] \<and> rlock n = 0 \<longrightarrow> heap_entry n \<in> set leaves)"

lemma drained:
  assumes "evict_state tr leaves" "\<forall>n \<in> set (nodes tr). \<not> (kids n = [] \<and> rlock n = 0)"
  shows "usize tr = 0"
proof -
  obtain i ky v l t cs where tr: "tr = RNode i ky v l t cs" by (cases tr)
  have "usize (snd x) = 0" if "x \<in> set cs" for x
    using locked_below [of "snd x"] assms that unfolding tr by (auto simp: evict_state_def)
  then have "sum_list (map (\<lambda>x. usize (snd x)) cs) = 0" by (intro sum_map_zero) simp
  then show ?thesis using assms(1) tr by (simp add: evict_state_def)
qed

text \<open>Deleting an unlocked leaf and queueing its parent keeps the state of the loop.\<close>

lemma evict_state_skip:
  assumes st: "evict_state tr leaves" and x: "x \<in> set leaves" and n: "n \<in> set (nodes tr)" "heap_entry n = x" "rlock n \<noteq> 0"
  shows "evict_state tr (remove1 x leaves)"
proof -
  have dl: "distinct leaves" using st by (auto simp: evict_state_def distinct_map)
  have "heap_entry m \<in> set (remove1 x leaves)" if m: "m \<in> set (nodes tr)" "kids m = []" "rlock m = 0" for m
  proof -
    have "heap_entry m \<noteq> x"
      using st m n nid_inj [of tr m n] by (auto simp: evict_state_def heap_entry_def)
    then show ?thesis using st m dl by (auto simp: evict_state_def)
  qed
  then show ?thesis using st dl by (auto simp: evict_state_def distinct_map inj_on_def)
qed

lemma evict_state_drop:
  assumes st: "evict_state tr leaves" and x: "x \<in> set leaves"
    and n: "n \<in> set (nodes tr)" "heap_entry n = x" "kids n = []" "rlock n = 0" "nid n \<noteq> nid tr"
    and p: "p \<in> set (nodes tr)" "\<exists>y \<in> set (kids p). nid (snd y) = nid n"
  defines "tr' \<equiv> drop_node (nid n) tr" and "p' \<equiv> drop_node (nid n) p"
  shows "evict_state tr' (if kids p' = [] then remove1 x leaves @ [heap_entry p'] else remove1 x leaves)
    \<and> find_node (nid p) tr' = Some p'"
proof -
  have d: "distinct (node_ids tr)" using st by (simp add: evict_state_def)
  note dc = drop_counts [OF d n(1,3-5), folded tr'_def]
  have sp: "spare (nid n) tr" by (rule spareI [OF d n(1,3,4)])
  have d': "distinct (node_ids tr')" using d dc(2) by simp
  have pn: "nid p \<noteq> nid n"
  proof
    assume "nid p = nid n"
    then have "p = n" using nid_inj [OF d p(1) n(1)] by simp
    then show False using p(2) n(3) by simp
  qed
  then have p': "p' \<in> set (nodes tr')" using dc(1) p(1) by (auto simp: p'_def)
  have fp: "find_node (nid p) tr' = Some p'"
    using find_node_eq [OF d' p'] by (simp add: p'_def)
  have dl: "distinct leaves" "distinct (map snd leaves)" using st by (auto simp: evict_state_def distinct_map)
  have entry: "\<exists>m \<in> set (nodes tr). heap_entry m = z \<and> kids m = []" if "z \<in> set leaves" for z
    using st that by (simp add: evict_state_def)
  have new: "nid p \<notin> snd ` set leaves"
  proof
    assume "nid p \<in> snd ` set leaves"
    then obtain m where "m \<in> set (nodes tr)" "nid m = nid p" "kids m = []"
      using entry by (fastforce simp: heap_entry_def)
    then show False using nid_inj [OF d _ p(1)] p(2) by fastforce
  qed
  have keep: "\<exists>m \<in> set (nodes tr'). heap_entry m = z \<and> kids m = []" if z: "z \<in> set (remove1 x leaves)" for z
  proof -
    have zl: "z \<in> set leaves" "z \<noteq> x" using z dl(1) by auto
    from entry [OF zl(1)] obtain m where m: "m \<in> set (nodes tr)" "heap_entry m = z" "kids m = []" by blast
    have "nid m \<noteq> nid n" using nid_inj [OF d m(1) n(1)] m(2) n(2) zl(2) by auto
    then have "drop_node (nid n) m \<in> set (nodes tr')" using dc(1) m(1) by auto
    then show ?thesis using m by (intro bexI [of _ "drop_node (nid n) m"]) (auto simp: heap_entry_def)
  qed
  have leaf: "heap_entry m \<in> set (if kids p' = [] then remove1 x leaves @ [heap_entry p'] else remove1 x leaves)"
    if m: "m \<in> set (nodes tr')" "kids m = []" "rlock m = 0" for m
  proof -
    obtain k where k: "k \<in> set (nodes tr)" "nid k \<noteq> nid n" "m = drop_node (nid n) k" using m(1) dc(1) by auto
    show ?thesis
    proof (cases "kids k = []")
      case True
      then have "heap_entry k \<in> set leaves" using st k m by (auto simp: evict_state_def)
      moreover have "heap_entry k \<noteq> x" using n(2) k(2) by (auto simp: heap_entry_def)
      ultimately show ?thesis using k(3) by (auto simp: heap_entry_def)
    next
      case False
      then obtain y where y: "y \<in> set (kids k)" by (meson ex_in_conv set_empty)
      have "nid (snd y) = nid n" using m(2) k(3) y by (auto simp: filter_empty_conv)
      then have "k = p" using unique_parent [OF d k(1) p(1) y] p(2) by metis
      then show ?thesis using m k p'_def by auto
    qed
  qed
  have "distinct (map snd (remove1 x leaves))" using dl by (auto simp: distinct_map inj_on_def)
  moreover have "nid p \<notin> snd ` set (remove1 x leaves)" using new dl(1) by auto
  moreover have "kids_ok tr'" using st kids_ok_drop [OF sp] unfolding tr'_def by (simp add: evict_state_def del: drop_fields)
  moreover have "wf_tree tr'" "rlock tr' = 1" "rval tr' = []"
    using st wf_drop by (simp_all add: evict_state_def tr'_def)
  moreover have own: "snd (heap_entry p') = nid p"
    "kids p' = [] \<Longrightarrow> \<exists>m \<in> set (nodes tr'). heap_entry m = heap_entry p' \<and> kids m = []"
    using p' by (simp add: heap_entry_def p'_def, blast)
  ultimately have "evict_state tr' (if kids p' = [] then remove1 x leaves @ [heap_entry p'] else remove1 x leaves)"
    using d' keep leaf own by (auto simp: evict_state_def)
  with fp show ?thesis by blast
qed

text \<open>What a number of deletions leaves of a tree, \<open>out\<close> being the slots handed out.\<close>

definition locked_kept :: "rnode \<Rightarrow> rnode \<Rightarrow> bool" where
  "locked_kept tr tr' \<longleftrightarrow> (\<forall>n \<in> set (nodes tr). rlock n \<noteq> 0 \<longrightarrow>
     (\<exists>n' \<in> set (nodes tr'). nid n' = nid n \<and> rval n' = rval n \<and> rlock n' = rlock n))"

definition evicts :: "rnode \<Rightarrow> nat list \<Rightarrow> rnode \<Rightarrow> bool" where
  "evicts tr out tr' \<longleftrightarrow> wf_tree tr' \<and> distinct (node_ids tr') \<and> kids_ok tr' \<and> rlock tr' = 1 \<and> rval tr' = []
     \<and> usize tr' = usize tr - int (length out) \<and> total_size_helper tr' = total_size_helper tr - int (length out)
     \<and> nid tr' = nid tr \<and> set (node_ids tr') \<subseteq> set (node_ids tr) \<and> refs tr' = refs tr
     \<and> (\<forall>k. prefix (walk tr' k) (walk tr k)) \<and> locked_kept tr tr'"

lemma evicts_refl: "evict_state tr leaves \<Longrightarrow> evicts tr [] tr"
  by (auto simp: evicts_def evict_state_def locked_kept_def)

lemma locked_kept_trans: "locked_kept a b \<Longrightarrow> locked_kept b c \<Longrightarrow> locked_kept a c"
  unfolding locked_kept_def by metis

lemma evicts_trans: "evicts a xs b \<Longrightarrow> evicts b ys c \<Longrightarrow> evicts a (xs @ ys) c"
  by (auto simp: evicts_def intro: prefix_order.trans locked_kept_trans)

lemma evicts_drop:
  assumes "evict_state tr leaves" "n \<in> set (nodes tr)" "kids n = []" "rlock n = 0" "nid n \<noteq> nid tr"
  shows "evicts tr (rval n) (drop_node (nid n) tr)"
proof -
  have d: "distinct (node_ids tr)" using assms(1) by (simp add: evict_state_def)
  have sp: "spare (nid n) tr" by (rule spareI [OF d assms(2-4)])
  have "locked_kept tr (drop_node (nid n) tr)"
    unfolding locked_kept_def
  proof (intro ballI impI)
    fix m assume m: "m \<in> set (nodes tr)" "rlock m \<noteq> 0"
    then have "nid m \<noteq> nid n" using nid_inj [OF d m(1) assms(2)] assms(4) by auto
    then have "drop_node (nid n) m \<in> set (nodes (drop_node (nid n) tr))"
      using m(1) drop_counts(1) [OF d assms(2-5)] by auto
    then show "\<exists>n' \<in> set (nodes (drop_node (nid n) tr)). nid n' = nid m \<and> rval n' = rval m \<and> rlock n' = rlock m"
      by (intro bexI [of _ "drop_node (nid n) m"]) simp_all
  qed
  then show ?thesis
    using assms(1) drop_counts [OF d assms(2-5)] wf_drop walk_drop refs_drop [OF sp] kids_ok_drop [OF sp]
    by (auto simp: evicts_def evict_state_def fun_eq_iff simp del: drop_fields(6))
qed

lemma root_entry:
  assumes "evict_state tr leaves" "x \<in> set leaves" "snd x = nid tr"
  shows "usize tr = 0"
proof -
  obtain n where n: "n \<in> set (nodes tr)" "heap_entry n = x" "kids n = []" using assms(1,2) by (auto simp: evict_state_def)
  then have "n = tr" using nid_inj [of tr n tr] assms nodes_self by (auto simp: evict_state_def heap_entry_def)
  then show ?thesis using n assms(1) by (cases tr) (simp add: evict_state_def)
qed

lemma node_len: "wf_tree t \<Longrightarrow> n \<in> set (nodes t) \<Longrightarrow> length (rkey n) = length (rval n)"
proof (induction t rule: wf_tree.induct)
  case (1 i ky v l t cs)
  then show ?case by auto
qed

lemma locks_ok_nodes: "locks_ok t \<Longrightarrow> n \<in> set (nodes t) \<Longrightarrow> 0 \<le> rlock n"
proof (induction t rule: locks_ok.induct)
  case (1 i ky v l t cs)
  then show ?case by auto
qed

lemma locks_nonneg: "evict_state tr leaves \<Longrightarrow> n \<in> set (nodes tr) \<Longrightarrow> 0 \<le> rlock n"
  by (cases tr) (auto simp: evict_state_def dest: locks_ok_nodes)

lemma evict_loop_spec:
  assumes "evict_loop num leaves n0 tr ev calls = (calls', tr', ev')" "evict_state tr leaves"
  shows "\<exists>new. calls' = calls @ new \<and> evicts tr (concat new) tr' \<and> ev' = ev - int (length (concat new))
    \<and> (num \<le> n0 + int (length (concat new)) \<or> usize tr' = 0)"
  using assms
proof (induction num leaves n0 tr ev calls rule: evict_loop.induct)
  case (1 num leaves n0 tr ev calls)
  note st = 1(4)
  show ?case
  proof (cases "n0 < num \<and> leaves \<noteq> []")
    case False
    then have r: "calls' = calls" "tr' = tr" "ev' = ev" using 1(3) by (subst (asm) evict_loop.simps, simp)+
    have "num \<le> n0 \<or> usize tr = 0" using False drained [OF st] st by (auto simp: evict_state_def)
    then show ?thesis using r evicts_refl [OF st] by (intro exI [of _ "[]"]) auto
  next
    case True
    define x where "x = min_entry (hd leaves) (tl leaves)"
    have x: "x \<in> set leaves" using min_entry_in [of "hd leaves" "tl leaves"] True by (simp add: x_def)
    show ?thesis
    proof (cases "snd x = nid tr")
      case root: True
      then have r: "calls' = calls" "tr' = tr" "ev' = ev"
        using 1(3) True by (subst (asm) evict_loop.simps, simp add: x_def)+
      then show ?thesis using r evicts_refl [OF st] root_entry [OF st x root] by (intro exI [of _ "[]"]) auto
    next
      case inner: False
      obtain n where n: "n \<in> set (nodes tr)" "heap_entry n = x" "kids n = []"
        using st x by (auto simp: evict_state_def)
      then have ni: "nid n = snd x" by (auto simp: heap_entry_def)
      have d: "distinct (node_ids tr)" "wf_tree tr" using st by (simp_all add: evict_state_def)
      have fn: "find_node (snd x) tr = Some n" using find_node_eq [OF d(1) n(1)] ni by simp
      obtain p where p: "find_parent (snd x) tr = Some p" "p \<in> set (nodes tr)" "\<exists>y \<in> set (kids p). nid (snd y) = nid n"
        using find_parent_eq [OF d(1) n(1)] ni inner by metis
      show ?thesis
      proof (cases "rlock n > 0")
        case locked: True
        have "evict_loop num (remove1 x leaves) n0 tr ev calls = (calls', tr', ev')"
          using 1(3) True inner fn p(1) locked by (subst (asm) evict_loop.simps) (simp add: x_def)
        moreover have "evict_state tr (remove1 x leaves)" using evict_state_skip [OF st x n(1,2)] locked by simp
        ultimately show ?thesis
          using 1(1) [OF True x_def refl inner refl fn p(1) locked] by simp
      next
        case unlocked: False
        let ?tr = "drop_node (snd x) tr"
        let ?p = "drop_node (nid n) p"
        let ?ls = "if kids ?p = [] then remove1 x leaves @ [heap_entry ?p] else remove1 x leaves"
        have "0 \<le> rlock n" by (rule locks_nonneg [OF st n(1)])
        then have l0: "rlock n = 0" using unlocked by simp
        have es: "evict_state ?tr ?ls" "find_node (nid p) ?tr = Some ?p"
          using evict_state_drop [OF st x n l0 _ p(2,3)] ni inner by simp_all
        have "evict_loop num ?ls (n0 + int (length (rval n))) ?tr (ev - int (length (rkey n))) (calls @ [rval n])
            = (calls', tr', ev')"
          using 1(3) True inner fn p(1) unlocked es(2)
          by (subst (asm) evict_loop.simps) (simp add: x_def [symmetric] Let_def split del: if_split)
        from 1(2) [OF True x_def refl inner refl fn p(1) unlocked refl _ this es(1)] es(2) obtain new where
          new: "calls' = (calls @ [rval n]) @ new" "evicts ?tr (concat new) tr'"
            "ev' = ev - int (length (rkey n)) - int (length (concat new))"
            "num \<le> n0 + int (length (rval n)) + int (length (concat new)) \<or> usize tr' = 0"
          by auto
        have "evicts tr (rval n) ?tr" using evicts_drop [OF st n(1,3) l0] ni inner by simp
        then have "evicts tr (concat (rval n # new)) tr'" using evicts_trans [OF _ new(2)] by simp
        moreover have "length (rkey n) = length (rval n)" by (rule node_len [OF d(2) n(1)])
        ultimately show ?thesis using new by (intro exI [of _ "rval n # new"]) auto
      qed
    qed
  qed
qed

lemma leaves_nodes: "mset (collect_leaves t) = mset (filter (\<lambda>n. kids n = []) (nodes t))"
proof (induction t rule: collect_leaves.induct)
  case (1 i ky v l t cs)
  have "mset (concat (map (\<lambda>x. collect_leaves (snd x)) (rev xs)))
      = mset (filter (\<lambda>n. kids n = []) (concat (map (\<lambda>x. nodes (snd x)) xs)))" if "set xs \<subseteq> set cs" "cs \<noteq> []" for xs
    using that 1 by (induction xs) auto
  from this [of cs] show ?case by (cases "cs = []") auto
qed

lemma start_state:
  assumes "radix_inv c"
  shows "evict_state (rc_root c) (map heap_entry (collect_leaves (rc_root c)))"
proof -
  let ?t = "rc_root c"
  note inv = assms [unfolded radix_inv_def]
  have s: "set (collect_leaves ?t) = {n \<in> set (nodes ?t). kids n = []}"
    using leaves_nodes [of ?t] by (metis mset_eq_setD set_filter)
  have "mset (map nid (collect_leaves ?t)) = mset (map nid (filter (\<lambda>n. kids n = []) (nodes ?t)))"
    using leaves_nodes [of ?t] by (metis mset_map)
  moreover have "distinct (map nid (filter (\<lambda>n. kids n = []) (nodes ?t)))"
    using inv by (simp add: nodes_ids distinct_map_filter)
  ultimately have "distinct (map nid (collect_leaves ?t))" by (metis mset_eq_imp_distinct_iff)
  then have "distinct (map snd (map heap_entry (collect_leaves ?t)))"
    by (simp add: heap_entry_def comp_def)
  then show ?thesis using inv s by (auto simp: evict_state_def)
qed

lemma inv_evict:
  assumes "radix_evict n c = (calls, c')" "radix_inv c" "\<not> rc_disable c"
  shows "radix_inv c' \<and> rc_evictable c' = rc_evictable c - int (length (concat calls))
    \<and> total_size c' = total_size c - int (length (concat calls)) \<and> held_refs c' = held_refs c
    \<and> (\<forall>k. prefix (walk (rc_root c') k) (walk (rc_root c) k)) \<and> nid (rc_root c') = nid (rc_root c)
    \<and> locked_kept (rc_root c) (rc_root c')
    \<and> (int n \<le> int (length (concat calls)) \<or> rc_evictable c' = 0)"
proof -
  obtain tr ev where l: "evict_loop (int n) (map heap_entry (collect_leaves (rc_root c))) 0 (rc_root c) (rc_evictable c) []
      = (calls, tr, ev)" and c': "c' = c\<lparr>rc_root := tr, rc_evictable := ev\<rparr>"
    using assms(1,3) by (auto simp: radix_evict_def split: prod.splits)
  from evict_loop_spec [OF l start_state [OF assms(2)]]
  have sp: "evicts (rc_root c) (concat calls) tr" "ev = rc_evictable c - int (length (concat calls))"
    "int n \<le> int (length (concat calls)) \<or> usize tr = 0" by auto
  moreover have "\<forall>i \<in> set (node_ids tr). i < rc_next c"
    using sp(1) assms(2) by (auto simp: evicts_def radix_inv_def)
  ultimately show ?thesis
    using c' assms(2) by (simp add: radix_inv_def evicts_def total_size_def held_refs_def fun_eq_iff)
qed

section \<open>Reference counting\<close>

text \<open>The runs of the cache under its clients' discipline: a client that releases a node has locked it
  before.  \<open>H\<close> collects the locks taken and not yet released.\<close>

inductive radix_run :: "(nat \<Rightarrow> real) \<Rightarrow> radix \<Rightarrow> nat multiset \<Rightarrow> bool" for clock where
  Start: "radix_run clock (radix_init clock False) {#}"
| Match: "radix_run clock c H \<Longrightarrow> radix_match clock key c = (r, c') \<Longrightarrow> radix_run clock c' H"
| Insert: "radix_run clock c H \<Longrightarrow> length val = length key \<Longrightarrow> radix_insert clock key val c = (n, c') \<Longrightarrow>
    radix_run clock c' H"
| Inc: "radix_run clock c H \<Longrightarrow> i \<in> set (node_ids (rc_root c)) \<Longrightarrow> i \<noteq> nid (rc_root c) \<Longrightarrow>
    radix_inc_lock_ref (Some (RadixNode i)) c = Ok (e, c') \<Longrightarrow> radix_run clock c' (add_mset i H)"
| Dec: "radix_run clock c H \<Longrightarrow> i \<in># H \<Longrightarrow>
    radix_dec_lock_ref (Some (RadixNode i)) c = Ok (e, c') \<Longrightarrow> radix_run clock c' (H - {#i#})"
| Evict: "radix_run clock c H \<Longrightarrow> radix_evict n c = (calls, c') \<Longrightarrow> radix_run clock c' H"

lemma disable_keeps:
  "radix_match clock key c = (r, c') \<Longrightarrow> rc_disable c' = rc_disable c"
  "radix_insert clock key val c = (n, c') \<Longrightarrow> rc_disable c' = rc_disable c"
  "change_lock d nd c = Ok (e, c') \<Longrightarrow> rc_disable c' = rc_disable c"
  "radix_evict k c = (calls, c') \<Longrightarrow> rc_disable c' = rc_disable c"
  by (auto simp: radix_match_def radix_insert_def change_lock_def radix_evict_def
      split: if_splits prod.splits option.splits node_ref.splits rnode.splits)

lemma run_invariant:
  "radix_run clock c H \<Longrightarrow> \<not> rc_disable c \<and> radix_inv c \<and> (\<forall>i. held_refs c i = int (count H i))"
proof (induction rule: radix_run.induct)
  case Start
  then show ?case by (simp add: radix_inv_def held_refs_def radix_init_def radix_reset_def)
next
  case (Match c H key r c')
  obtain vs nd where r: "r = (vs, nd)" by (cases r)
  show ?case using inv_match [of clock key c vs nd c'] disable_keeps(1) [of clock key c r c'] Match r by simp
next
  case (Insert c H val key n c')
  then show ?case using inv_insert [of clock key val c n c'] disable_keeps(2) [of clock key val c n c'] by simp
next
  case (Inc c H i e c')
  have "\<exists>e c'. change_lock 1 (Some (RadixNode i)) c = Ok (e, c') \<and> radix_inv c' \<and> held_refs c' = (held_refs c)(i := held_refs c i + 1)"
    using inv_lock [of c 1 i] Inc by blast
  then show ?case using Inc disable_keeps(3) [of 1 "Some (RadixNode i)" c e c'] by (auto simp: radix_inc_lock_ref_def)
next
  case (Dec c H i e c')
  have h: "0 < held_refs c i" using Dec by simp
  then have "i \<noteq> nid (rc_root c)" by (auto simp: held_refs_def)
  then have "\<exists>e c'. change_lock (- 1) (Some (RadixNode i)) c = Ok (e, c') \<and> radix_inv c' \<and> held_refs c' = (held_refs c)(i := held_refs c i - 1)"
    using inv_lock [of c "- 1" i] Dec h by fastforce
  then show ?case using Dec h disable_keeps(3) [of "- 1" "Some (RadixNode i)" c e c'] by (auto simp: radix_dec_lock_ref_def)
next
  case (Evict c H n calls c')
  then show ?case using inv_evict [of n c calls c'] disable_keeps(4) [of n c calls c'] by simp
qed

end
