(* ===== verification/Radix_Req.thy ===== *)
theory Radix_Req
imports Radix_Evict
begin

text \<open>
  The radix cache as the batches use it: a request's computed slots enter the tree when the request is
  chunked or finishes (\<^verbatim>\<open>cache_unfinished_req\<close>, \<^verbatim>\<open>cache_finished_req\<close> of
  \<^verbatim>\<open>python/sglang/srt/mem_cache/radix_cache.py\<close>), the method record of the cache, and the properties
  of the tree.
\<close>

section \<open>Requests enter the tree\<close>

definition row_slots :: "nat list \<Rightarrow> nat \<Rightarrow> nat \<Rightarrow> nat list" where
  "row_slots kv_indices a b = take (b - a) (drop a kv_indices)"

definition radix_cache_finished_req ::
  "(nat \<Rightarrow> real) \<Rightarrow> 'g req \<Rightarrow> int list option \<Rightarrow> radix \<Rightarrow> mem \<Rightarrow> ('g req \<times> radix \<times> mem) res" where
  "radix_cache_finished_req clock r token_ids c m =
     (if rc_disable c
      then let token_ids_len = (case token_ids of
                 None \<Rightarrow> int (length (origin_input_ids r)) + int (length (output_ids r)) - 1
               | Some xs \<Rightarrow> int (length xs))
           in rbind (req_row r token_ids_len m) (\<lambda>kv_indices.
              rbind (free_req_slot r (free_kv kv_indices m)) (\<lambda>m. Ok (r, c, m)))
      else let toks = (case token_ids of
                 None \<Rightarrow> butlast (origin_input_ids r @ output_ids r) | Some xs \<Rightarrow> xs)
           in rbind (req_row r (int (length toks)) m) (\<lambda>kv_indices.
              let (new_prefix_len, c) = radix_insert clock toks kv_indices c;
                  m = free_kv (row_slots kv_indices (length (prefix_indices r)) new_prefix_len) m
              in rbind (free_req_slot r m) (\<lambda>m.
                 rbind (radix_dec_lock_ref (last_node r) c) (\<lambda>(_, c). Ok (r, c, m)))))"

definition radix_cache_unfinished_req ::
  "(nat \<Rightarrow> real) \<Rightarrow> 'g req \<Rightarrow> int list option \<Rightarrow> radix \<Rightarrow> mem \<Rightarrow> ('g req \<times> radix \<times> mem) res" where
  "radix_cache_unfinished_req clock r token_ids c m =
     (if rc_disable c then Ok (r, c, m)
      else rbind (case token_ids of
                    None \<Rightarrow> (case fill_ids r of None \<Rightarrow> Err TypeError | Some xs \<Rightarrow> Ok xs)
                  | Some xs \<Rightarrow> Ok xs) (\<lambda>toks.
           rbind (req_row r (int (length toks)) m) (\<lambda>kv_indices.
           let (new_prefix_len, c) = radix_insert clock toks kv_indices c;
               m = free_kv (row_slots kv_indices (length (prefix_indices r)) new_prefix_len) m;
               ((new_indices, new_last_node), c) = radix_match clock toks c
           in rbind (assertR (length new_indices = length toks)) (\<lambda>_.
              rbind (case req_pool_idx r of None \<Rightarrow> Err TypeError
                     | Some i \<Rightarrow> rp_write (m_rpool m) (RowSlice i (length (prefix_indices r)) (length new_indices))
                                  (drop (length (prefix_indices r)) new_indices)) (\<lambda>rp.
              rbind (radix_dec_lock_ref (last_node r) c) (\<lambda>(_, c).
              rbind (radix_inc_lock_ref (Some (RadixNode new_last_node)) c) (\<lambda>(_, c).
                Ok (r\<lparr>prefix_indices := new_indices, last_node := Some (RadixNode new_last_node)\<rparr>,
                    c, m\<lparr>m_rpool := rp\<rparr>))))))))"

text \<open>The attribute \<^verbatim>\<open>entries\<close> exists only on the chunk cache.\<close>

definition radix_del_entry :: "string \<Rightarrow> radix \<Rightarrow> radix res" where
  "radix_del_entry r c = Err AttributeError"

definition radix_ops :: "(nat \<Rightarrow> real) \<Rightarrow> ('g, radix) cache_ops" where
  "radix_ops clock = \<lparr>is_chunk_cache = False, op_disable = rc_disable,
     op_match_prefix = (\<lambda>r key c. let ((vs, nd), c) = radix_match clock key c in ((vs, Some (RadixNode nd)), c)),
     op_cache_finished = radix_cache_finished_req clock, op_cache_unfinished = radix_cache_unfinished_req clock,
     op_evict = radix_evict, op_inc_lock = radix_inc_lock_ref, op_dec_lock = radix_dec_lock_ref,
     op_evictable_size = radix_evictable_size, op_del_entry = radix_del_entry\<rparr>"

lemma walk_length: "wf_tree t \<Longrightarrow> length (walk t key) \<le> length key"
proof (induction t key rule: walk.induct)
  case (1 n ky v l t cs key)
  show ?case
  proof (cases "key = [] \<or> map_of cs (hd key) = None")
    case True
    then show ?thesis by (auto simp: walk_into)
  next
    case False
    then obtain c where c: "map_of cs (hd key) = Some c" "key \<noteq> []" by auto
    then have wc: "wf_tree c" using wf_kid 1(2) by blast
    have "length (into c key) \<le> length key"
    proof (cases "key_match (rkey c) key < length (rkey c)")
      case True
      then show ?thesis using key_match_le [of "rkey c" key] by (simp add: into_def)
    next
      case False
      moreover have "length (walk c (drop (key_match (rkey c) key) key)) \<le> length key - key_match (rkey c) key"
        using 1(1) [OF c(2,1) refl False wc] by simp
      ultimately show ?thesis
        using key_match_le [of "rkey c" key] wf_tree_val [OF wc] by (auto simp: into_def)
    qed
    then show ?thesis using c by (simp add: walk_into)
  qed
qed

definition radix_ok :: "radix \<Rightarrow> bool" where
  "radix_ok c \<longleftrightarrow> radix_inv c \<and> (rc_disable c \<longrightarrow> rc_evictable c = 0)"

lemma usize_nonneg: "0 \<le> usize t"
proof (induction t rule: usize.induct)
  case (1 i ky v l t cs)
  then have "0 \<le> sum_list (map (\<lambda>x. usize (snd x)) cs)" by (intro sum_list_nonneg) auto
  then show ?case by simp
qed

interpretation rx: prefix_cache "radix_ops clock" radix_ok
proof unfold_locales
  fix c :: radix and r and key :: "int list"
  assume ok: "radix_ok c"
  obtain vs nd c' where m: "radix_match clock key c = ((vs, nd), c')" by (metis prod.collapse)
  have "length vs \<le> length key \<and> radix_ok c'"
  proof (cases "rc_disable c")
    case True
    then show ?thesis using m ok by (auto simp: radix_match_def)
  next
    case False
    then show ?thesis
      using inv_match [OF m] ok walk_length [of "rc_root c" key] disable_keeps(1) [OF m]
      by (simp add: radix_ok_def radix_inv_def)
  qed
  then show "length (fst (fst (op_match_prefix (radix_ops clock) r key c))) \<le> length key"
    and "radix_ok (snd (op_match_prefix (radix_ops clock) r key c))"
    using m by (simp_all add: radix_ops_def)
next
  fix c :: radix and n :: nat
  assume ok: "radix_ok c"
  obtain calls c' where e: "radix_evict n c = (calls, c')" by fastforce
  have "radix_ok c' \<and> rc_evictable c' = rc_evictable c - int (length (concat calls))
      \<and> min (int n) (rc_evictable c) \<le> int (length (concat calls))"
  proof (cases "rc_disable c")
    case True
    then show ?thesis using e ok by (auto simp: radix_evict_def radix_ok_def)
  next
    case False
    then show ?thesis using inv_evict [OF e] ok disable_keeps(4) [OF e] by (auto simp: radix_ok_def)
  qed
  then show "radix_ok (snd (op_evict (radix_ops clock) n c))"
    and "op_evictable_size (radix_ops clock) (snd (op_evict (radix_ops clock) n c))
        = op_evictable_size (radix_ops clock) c - int (length (concat (fst (op_evict (radix_ops clock) n c))))"
    and "min (int n) (op_evictable_size (radix_ops clock) c) \<le> int (length (concat (fst (op_evict (radix_ops clock) n c))))"
    using e by (simp_all add: radix_ops_def radix_evictable_size_def)
qed

section \<open>The tree is a trie\<close>

text \<open>The token sequences spelled by the paths from the root, with the slots along them.\<close>

fun paths :: "rnode \<Rightarrow> (int list \<times> nat list) list" where
  "paths (RNode i ky v l t cs) =
     ([], []) # concat (map (\<lambda>x. map (\<lambda>pv. (rkey (snd x) @ fst pv, rval (snd x) @ snd pv)) (paths (snd x))) cs)"

lemma key_match_append:
  "key_match (xs @ ys) zs = (if key_match xs zs < length xs then key_match xs zs
     else length xs + key_match ys (drop (length xs) zs))"
  by (rule key_match_prefix)

lemma walk_upper:
  "wf_tree t \<Longrightarrow> pv \<in> set (paths t) \<Longrightarrow>
   key_match (fst pv) key \<le> length (walk t key) \<and> prefix (take (key_match (fst pv) key) (snd pv)) (walk t key)"
proof (induction t arbitrary: pv key rule: paths.induct)
  case (1 i ky v l t cs)
  from 1(3) consider "pv = ([], [])" | x q where "x \<in> set cs" "q \<in> set (paths (snd x))"
      "pv = (rkey (snd x) @ fst q, rval (snd x) @ snd q)" by auto
  then show ?case
  proof cases
    case 1
    then show ?thesis by simp
  next
    case (2 x q)
    let ?c = "snd x"
    have w: "rkey ?c \<noteq> []" "hd (rkey ?c) = fst x" "wf_tree ?c" "length (rval ?c) = length (rkey ?c)"
      using "1.prems"(1) 2(1) wf_tree_val by auto
    have m: "map_of cs (fst x) = Some ?c" using "1.prems"(1) 2(1) by simp
    show ?thesis
    proof (cases "key = [] \<or> hd key \<noteq> fst x")
      case True
      then have "key_match (fst pv) key = 0" using 2(3) w by (auto simp: key_match_zero)
      then show ?thesis by simp
    next
      case False
      then have wk: "walk (RNode i ky v l t cs) key = into ?c key" using m by (auto simp: walk_into)
      let ?p = "key_match (rkey ?c) key"
      show ?thesis
      proof (cases "?p < length (rkey ?c)")
        case True
        then show ?thesis using wk w 2(3) by (simp add: into_def key_match_append)
      next
        case F: False
        then have p: "?p = length (rkey ?c)" using key_match_le [of "rkey ?c" key] by simp
        from 1(1) [OF 2(1) w(3) 2(2)] show ?thesis
          using F p wk w 2(3) by (simp add: into_def key_match_append)
      qed
    qed
  qed
qed

lemma walk_lower: "wf_tree t \<Longrightarrow> \<exists>pv \<in> set (paths t). walk t key = take (key_match (fst pv) key) (snd pv)"
proof (induction t key rule: walk.induct)
  case (1 n ky v l t cs key)
  show ?case
  proof (cases "key = [] \<or> map_of cs (hd key) = None")
    case True
    then show ?thesis by (intro bexI [of _ "([], [])"]) (auto simp: walk_into)
  next
    case False
    then obtain c where c: "map_of cs (hd key) = Some c" "key \<noteq> []" by auto
    then have wc: "wf_tree c" "(hd key, c) \<in> set cs" using wf_kid [OF 1(2) c(1)] map_of_SomeD [OF c(1)] by auto
    have lv: "length (rval c) = length (rkey c)" by (rule wf_tree_val [OF wc(1)])
    have mem: "q \<in> set (paths c) \<Longrightarrow> (rkey c @ fst q, rval c @ snd q) \<in> set (paths (RNode n ky v l t cs))" for q
      using wc(2) by force
    show ?thesis
    proof (cases "key_match (rkey c) key < length (rkey c)")
      case True
      have "([], []) \<in> set (paths c)" by (cases c) simp
      then show ?thesis
        using True c lv by (intro bexI [OF _ mem]) (auto simp: walk_into into_def key_match_append)
    next
      case F: False
      from 1(1) [OF c(2,1) refl F wc(1)] obtain q where
        "q \<in> set (paths c)" "walk c (drop (key_match (rkey c) key) key) = take (key_match (fst q) (drop (key_match (rkey c) key) key)) (snd q)"
        by blast
      moreover have "key_match (rkey c) key = length (rkey c)" using F key_match_le [of "rkey c" key] by simp
      ultimately show ?thesis
        using F c lv by (intro bexI [OF _ mem]) (auto simp: walk_into into_def key_match_append)
    qed
  qed
qed

text \<open>C15: Matching finds the longest cached prefix: the slots it returns are those along some path of
  the tree as far as the path agrees with the key, no path agrees with the key further, and all
  paths agree on the slots.  Matching may split an edge, but every later match gives what it would have
  given before, and neither the cached nor the evictable number of tokens changes.\<close>

theorem radix_match_longest:
  assumes inv: "radix_inv c" "\<not> rc_disable c" and m: "radix_match clock key c = ((vs, nd), c')"
  shows "(\<exists>(xs, us) \<in> set (paths (rc_root c)). vs = take (key_match xs key) us)
    \<and> (\<forall>(xs, us) \<in> set (paths (rc_root c)). key_match xs key \<le> length vs \<and> prefix (take (key_match xs key) us) vs)
    \<and> (\<forall>clock' key'. fst (fst (radix_match clock' key' c')) = fst (fst (radix_match clock' key' c)))
    \<and> total_size c' = total_size c \<and> radix_evictable_size c' = radix_evictable_size c"
proof -
  note im = inv_match [OF m inv]
  have w: "wf_tree (rc_root c)" using inv by (simp add: radix_inv_def)
  have later: "fst (fst (radix_match clk k d)) = walk (rc_root d) k" if "radix_inv d" "\<not> rc_disable d" for clk k d
    using inv_match [of clk k d "fst (fst (radix_match clk k d))" "snd (fst (radix_match clk k d))" "snd (radix_match clk k d)"]
      that by simp
  have "\<not> rc_disable c'" using disable_keeps(1) [OF m] inv by simp
  then have "fst (fst (radix_match clk k c')) = fst (fst (radix_match clk k c))" for clk k
    using later im inv by simp
  moreover have "vs = walk (rc_root c) key" using im by blast
  ultimately show ?thesis
    using im walk_lower [OF w, of key] walk_upper [OF w, of _ key]
    by (simp add: radix_evictable_size_def case_prod_beta)
qed

text \<open>C5: Inserting is extending the trie and nothing else: the result is the number of tokens that were
  cached already, a later match of the key returns the old slots for them and the given slots for the
  rest, and any other key is matched as before unless it agrees with the inserted key beyond what
  was cached, when it follows the inserted key as far as they agree.  The evictable size grows by
  the tokens added.\<close>

theorem radix_insert_extends:
  assumes inv: "radix_inv c" "\<not> rc_disable c" and len: "length val = length key"
    and ins: "radix_insert clock key val c = (n, c')"
  shows "n = length (walk (rc_root c) key)
    \<and> fst (fst (radix_match clock' key c')) = walk (rc_root c) key @ drop n val
    \<and> (\<forall>k. walk (rc_root c') k = (let q = key_match k key; old = walk (rc_root c) k
            in if q \<le> length old then old else take q (walk (rc_root c) key @ drop n val)))
    \<and> radix_evictable_size c' - radix_evictable_size c = total_size c' - total_size c
    \<and> radix_inv c'"
proof -
  note ii = inv_insert [OF ins inv(1) len inv(2)]
  have w: "wf_tree (rc_root c)" using inv by (simp add: radix_inv_def)
  have "walk (rc_root c') key = walk (rc_root c) key @ drop n val"
    using ii walk_length [OF w, of key] len by (auto simp: grown_def Let_def)
  moreover have "\<not> rc_disable c'" using disable_keeps(2) [OF ins] inv by simp
  ultimately have "fst (fst (radix_match clock' key c')) = walk (rc_root c) key @ drop n val"
    using inv_match [of clock' key c' "fst (fst (radix_match clock' key c'))" "snd (fst (radix_match clock' key c'))"
        "snd (radix_match clock' key c')"] ii by simp
  then show ?thesis using ii by (simp add: grown_def Let_def radix_evictable_size_def)
qed

text \<open>C7: Reference counts are exact: after any run of the cache in which a client releases only locks it
  took, the evictable size is the number of slots in unlocked nodes, and every node still locked is in the
  tree and can be released.\<close>

theorem radix_locks_counted:
  assumes "radix_run clock c H"
  shows "radix_evictable_size c = usize (rc_root c)
    \<and> (\<forall>i \<in># H. i \<in> set (node_ids (rc_root c)) \<and> refs (rc_root c) i = int (count H i)
        \<and> (\<exists>e c'. radix_dec_lock_ref (Some (RadixNode i)) c = Ok (e, c')
             \<and> radix_evictable_size c' = radix_evictable_size c + e))"
proof -
  note ri = run_invariant [OF assms]
  have "i \<in> set (node_ids (rc_root c)) \<and> refs (rc_root c) i = int (count H i)
        \<and> (\<exists>e c'. radix_dec_lock_ref (Some (RadixNode i)) c = Ok (e, c') \<and> rc_evictable c' = rc_evictable c + e)"
    if "i \<in># H" for i
  proof -
    have h: "0 < held_refs c i" "held_refs c i = int (count H i)" using ri that by simp_all
    then have i: "i \<noteq> nid (rc_root c)" "refs (rc_root c) i = int (count H i)" using that by (auto simp: held_refs_def count_eq_zero_iff split: if_splits)
    moreover have "i \<in> set (node_ids (rc_root c))" using refs_notin [of i "rc_root c"] h i by (cases "i \<in> set (node_ids (rc_root c))") auto
    moreover have "\<exists>e c'. change_lock (- 1) (Some (RadixNode i)) c = Ok (e, c') \<and> rc_evictable c' = rc_evictable c + e"
      using inv_lock [of c "- 1" i] ri h i(1) by blast
    ultimately show ?thesis by (simp add: radix_dec_lock_ref_def)
  qed
  then show ?thesis using ri by (simp add: radix_evictable_size_def radix_inv_def)
qed


section \<open>Caching a request's slots\<close>



text \<open>The node a request holds: locked by it, or the root.\<close>

definition holds :: "radix \<Rightarrow> node_ref option \<Rightarrow> bool" where
  "holds c nd \<longleftrightarrow> (\<exists>i. nd = Some (RadixNode i) \<and> (i = nid (rc_root c) \<or> 0 < held_refs c i))"

text \<open>The one reference that a request with this last node holds.\<close>

definition ref_of :: "radix \<Rightarrow> node_ref option \<Rightarrow> nat \<Rightarrow> int" where
  "ref_of c nd j = (if nd = Some (RadixNode j) \<and> j \<noteq> nid (rc_root c) then 1 else 0)"



lemma dec_held:
  assumes "holds c nd" "radix_inv c" "\<not> rc_disable c"
  shows "\<exists>e c'. radix_dec_lock_ref nd c = Ok (e, c') \<and> radix_inv c' \<and> \<not> rc_disable c'
    \<and> (\<forall>k. walk (rc_root c') k = walk (rc_root c) k) \<and> node_ids (rc_root c') = node_ids (rc_root c)
    \<and> nid (rc_root c') = nid (rc_root c) \<and> (\<forall>j. held_refs c' j = held_refs c j - ref_of c nd j)"
proof -
  obtain i where i: "nd = Some (RadixNode i)" "i = nid (rc_root c) \<or> 0 < held_refs c i"
    using assms(1) by (auto simp: holds_def)
  show ?thesis
  proof (cases "i = nid (rc_root c)")
    case True
    then show ?thesis using i assms by (simp add: radix_dec_lock_ref_def change_lock_def ref_of_def)
  next
    case False
    obtain e c' where r: "change_lock (- 1) nd c = Ok (e, c')" "radix_inv c'" "held_refs c' = (held_refs c)(i := held_refs c i - 1)"
      "node_ids (rc_root c') = node_ids (rc_root c)" "\<forall>k. walk (rc_root c') k = walk (rc_root c) k" "nid (rc_root c') = nid (rc_root c)"
      using inv_lock [of c "- 1" i] i assms False by auto
    moreover have "\<forall>j. held_refs c' j = held_refs c j - ref_of c nd j" using r(3) i(1) False by (auto simp: ref_of_def)
    ultimately show ?thesis using disable_keeps(3) [OF r(1)] assms(3) unfolding radix_dec_lock_ref_def by blast
  qed
qed


text \<open>Inserting the slots of a row whose first part came out of the tree.\<close>

lemma insert_row:
  assumes inv: "radix_inv c" "\<not> rc_disable c" and len: "length toks \<le> length own"
    and prefix: "pre = take (length pre) (walk (rc_root c) toks)"
    and ins: "radix_insert clock toks (take (length toks) own) c = (n, c1)"
  shows "n = length (walk (rc_root c) toks) \<and> n \<le> length toks \<and> length pre \<le> n
    \<and> radix_inv c1 \<and> \<not> rc_disable c1 \<and> held_refs c1 = held_refs c \<and> nid (rc_root c1) = nid (rc_root c)
    \<and> walk (rc_root c1) toks = walk (rc_root c) toks @ take (length toks - n) (drop n own)
    \<and> row_slots (take (length toks) own) (length pre) n = take (n - length pre) (drop (length pre) own)"
proof -
  let ?n = "length (walk (rc_root c) toks)"
  have "length (take (length toks) own) = length toks" using len by simp
  note ii = inv_insert [OF ins inv(1) this inv(2)]
  have n: "n = ?n" using ii by blast
  have nL: "?n \<le> length toks" using walk_length [of "rc_root c" toks] inv by (simp add: radix_inv_def)
  have pn: "length pre \<le> ?n" using prefix by (metis length_take min.cobounded1)
  have "walk (rc_root c1) toks = walk (rc_root c) toks @ take (length toks - n) (drop n own)"
    using ii nL len n by (auto simp: grown_def Let_def drop_take)
  moreover have "row_slots (take (length toks) own) (length pre) n = take (n - length pre) (drop (length pre) own)"
    using n nL by (simp add: row_slots_def drop_take)
  moreover have "\<not> rc_disable c1" using disable_keeps(2) [OF ins] inv by simp
  ultimately show ?thesis using ii n nL pn by blast
qed


text \<open>C16: A finished request hands its slots over to the tree: its request slot and those of its slots
  the tree had other ones for go back to the pools, and a match of all its tokens but the last one, whose slot
  was never computed, finds the slots its row held or the ones the tree had.  Its lock is released: its last
  node has one reference less, and no other node's count of references changes.\<close>

theorem radix_finished_releases:
  assumes inv: "radix_inv c" "\<not> rc_disable c" "is_not_in_free_group (m_kv m)"
    and req: "req_pool_idx r = Some i" "holds c (last_node r)" "toks = butlast (origin_input_ids r @ output_ids r)"
    and row: "i < length (req_to_token (m_rpool m))" "length toks \<le> length (req_to_token (m_rpool m) ! i)"
    and prefix: "prefix_indices r = take (length (prefix_indices r)) (walk (rc_root c) toks)"
  shows "\<exists>c' m'. radix_cache_finished_req clock r None c m = Ok (r, c', m')
    \<and> (let own = req_to_token (m_rpool m) ! i; n = length (walk (rc_root c) toks); p = length (prefix_indices r)
       in walk (rc_root c') toks = walk (rc_root c) toks @ take (length toks - n) (drop n own)
        \<and> kv_free (m_kv m') = kv_free (m_kv m) @ take (n - p) (drop p own)
        \<and> rp_free (m_rpool m') = rp_free (m_rpool m) @ [i]
        \<and> req_to_token (m_rpool m') = req_to_token (m_rpool m) \<and> radix_inv c'
        \<and> (\<forall>j. held_refs c' j = held_refs c j - ref_of c (last_node r) j))"
proof -
  let ?own = "req_to_token (m_rpool m) ! i" and ?L = "length toks" and ?p = "length (prefix_indices r)"
  let ?n = "length (walk (rc_root c) toks)"
  obtain n c1 where ins: "radix_insert clock toks (take ?L ?own) c = (n, c1)" by fastforce
  note ii = insert_row [OF inv(1,2) row(2) prefix ins]
  have "holds c1 (last_node r)" using req(2) ii by (simp add: holds_def)
  from dec_held [OF this] ii obtain e c2 where c2: "radix_dec_lock_ref (last_node r) c1 = Ok (e, c2)"
    "radix_inv c2" "\<forall>k. walk (rc_root c2) k = walk (rc_root c1) k" "\<forall>j. held_refs c2 j = held_refs c1 j - ref_of c1 (last_node r) j"
    by blast
  have given: "\<forall>j. held_refs c2 j = held_refs c j - ref_of c (last_node r) j"
    using c2(4) ii by (simp add: ref_of_def)
  define m' where "m' = free_kv (take (?n - ?p) (drop ?p ?own)) m"
  have m': "free_kv (row_slots (take ?L ?own) ?p n) m = m'"
  proof -
    have "n = ?n" "row_slots (take ?L ?own) ?p n = take (n - ?p) (drop ?p ?own)" using ii by blast+
    then show ?thesis by (simp only: m'_def)
  qed
  have "radix_cache_finished_req clock r None c m = Ok (r, c2, m'\<lparr>m_rpool := rp_release (FreeInt i) (m_rpool m')\<rparr>)"
    using inv req(1) row ins c2(1)
    by (simp add: radix_cache_finished_req_def req_row_def free_req_slot_def req(3) [symmetric] m')
  moreover have "kv_free (m_kv m') = kv_free (m_kv m) @ take (?n - ?p) (drop ?p ?own)" "m_rpool m' = m_rpool m"
    using inv(3) by (auto simp: m'_def free_kv_def kv_release_def)
  ultimately show ?thesis using c2 ii given by (simp add: Let_def)
qed

section \<open>The properties on a concrete tree\<close>

definition demo_clock :: "nat \<Rightarrow> real" where
  "demo_clock n = real n"

definition demo_radix :: radix where
  "demo_radix = snd (radix_insert demo_clock [1, 2, 3] [5, 6, 7] (radix_init demo_clock False))"

lemma demo_radix_eq: "demo_radix = \<lparr>rc_root = RNode 0 [] [] 1 1 [(1, RNode 1 [1, 2, 3] [5, 6, 7] 0 2 [])],
    rc_evictable = 3, rc_next = 2, rc_tick = 3, rc_disable = False\<rparr>"
  by (simp add: demo_radix_def radix_insert_def radix_init_def radix_reset_def insert_step demo_clock_def)

lemma demo_radix_inv: "radix_inv demo_radix" "\<not> rc_disable demo_radix"
  by (simp_all add: demo_radix_eq radix_inv_def)

lemma demo_radix_run: "radix_run demo_clock demo_radix {#}"
  unfolding demo_radix_def
  by (rule radix_run.Insert [OF radix_run.Start, of "[5, 6, 7]" "[1, 2, 3]" _
        "fst (radix_insert demo_clock [1, 2, 3] [5, 6, 7] (radix_init demo_clock False))"]) auto

lemma radix_match_longest_witness:
  "\<exists>nd c'. radix_match demo_clock [1, 2, 9] demo_radix = (([5, 6], nd), c')
     \<and> radix_evictable_size c' = 3 \<and> fst (fst (radix_match demo_clock [1, 2, 3, 4] c')) = [5, 6, 7]"
proof -
  have "\<exists>nd c'. radix_match demo_clock [1, 2, 9] demo_radix = (([5, 6], nd), c')"
    by (simp add: demo_radix_eq radix_match_def match_step split_node_def Let_def)
  then obtain nd c' where m: "radix_match demo_clock [1, 2, 9] demo_radix = (([5, 6], nd), c')" by blast
  have "fst (fst (radix_match demo_clock [1, 2, 3, 4] demo_radix)) = [5, 6, 7]"
    by (simp add: demo_radix_eq radix_match_def match_step split_node_def Let_def)
  then show ?thesis
    using m radix_match_longest [OF demo_radix_inv m] by (simp add: radix_evictable_size_def demo_radix_eq)
qed

lemma demo_walk: "walk (rc_root demo_radix) [1, 2, 4] = [5, 6]"
  by (simp add: demo_radix_eq walk_into into_def)

lemma radix_insert_extends_witness:
  "\<exists>c'. radix_insert demo_clock [1, 2, 4] [15, 16, 8] demo_radix = (2, c')
     \<and> fst (fst (radix_match demo_clock [1, 2, 4] c')) = [5, 6, 8]"
proof -
  obtain n c' where i: "radix_insert demo_clock [1, 2, 4] [15, 16, 8] demo_radix = (n, c')" by fastforce
  show ?thesis
    using i radix_insert_extends [OF demo_radix_inv _ i, of demo_clock] by (simp add: demo_walk)
qed

lemma radix_locks_counted_witness:
  "\<exists>e c c'. radix_inc_lock_ref (Some (RadixNode 1)) demo_radix = Ok (e, c)
     \<and> radix_dec_lock_ref (Some (RadixNode 1)) c = Ok (3, c') \<and> radix_evictable_size c' = 3"
proof -
  have "\<exists>c. radix_inc_lock_ref (Some (RadixNode 1)) demo_radix = Ok (- 3, c) \<and> rc_evictable c = 0"
    by (simp add: demo_radix_eq radix_inc_lock_ref_def change_lock_def lock_delta_def)
  then obtain c where c: "radix_inc_lock_ref (Some (RadixNode 1)) demo_radix = Ok (- 3, c)" "rc_evictable c = 0" by blast
  have "radix_run demo_clock c {#1#}"
    by (rule radix_run.Inc [OF demo_radix_run _ _ c(1)]) (simp_all add: demo_radix_eq)
  from radix_locks_counted [OF this] obtain e c' where
    d: "radix_dec_lock_ref (Some (RadixNode 1)) c = Ok (e, c')" "radix_evictable_size c' = radix_evictable_size c + e"
    by auto
  moreover have "e = 3"
    using d(1) c(1) by (auto simp: demo_radix_eq radix_inc_lock_ref_def radix_dec_lock_ref_def change_lock_def
        lock_delta_def rnode.case_eq_if)
  ultimately show ?thesis using c by (auto simp: radix_evictable_size_def)
qed


text \<open>The node is locked by the request, whose row starts with one slot of the tree.\<close>

definition radix_mem :: mem where
  "radix_mem = \<lparr>m_rpool = (req_pool_init 2 4 False)\<lparr>req_to_token := [[5, 10, 11, 0], [0, 0, 0, 0]], rp_free := [1]\<rparr>,
                m_kv = (kv_pool_init 16)\<lparr>kv_free := [1, 2]\<rparr>\<rparr>"

definition demo_locked :: radix where
  "demo_locked = demo_radix\<lparr>rc_root := RNode 0 [] [] 1 1 [(1, RNode 1 [1, 2, 3] [5, 6, 7] 1 2 [])], rc_evictable := 0\<rparr>"

lemma demo_locked_inv: "radix_inv demo_locked" "\<not> rc_disable demo_locked" "walk (rc_root demo_locked) [1, 2, 4] = [5, 6]"
  "held_refs demo_locked j = (if j = 1 then 1 else 0)" "nid (rc_root demo_locked) = 0"
  by (simp_all add: demo_locked_def demo_radix_eq radix_inv_def walk_into into_def held_refs_def)

definition radix_req :: "unit req" where
  "radix_req = demo_req\<lparr>origin_input_ids := [1, 2, 4], output_ids := [7], fill_ids := Some [1, 2, 4], req_pool_idx := Some 0,
     prefix_indices := [5], last_node := Some (RadixNode 1)\<rparr>"


lemma radix_finished_releases_witness:
  "\<exists>c' m'. radix_cache_finished_req demo_clock radix_req None demo_locked radix_mem = Ok (radix_req, c', m')
     \<and> walk (rc_root c') [1, 2, 4] = [5, 6, 11] \<and> kv_free (m_kv m') = [1, 2, 10] \<and> rp_free (m_rpool m') = [1, 0]
     \<and> held_refs c' = (\<lambda>_. 0)"
proof -
  have "is_not_in_free_group (m_kv radix_mem)" by (simp add: radix_mem_def kv_pool_init_def kv_clear_def)
  moreover have "holds demo_locked (last_node radix_req)" by (simp add: holds_def demo_locked_inv radix_req_def)
  moreover have "origin_input_ids radix_req = [1, 2, 4]" "output_ids radix_req = [7]" "req_pool_idx radix_req = Some 0"
    "prefix_indices radix_req = [5]" "last_node radix_req = Some (RadixNode 1)" by (simp_all add: radix_req_def)
  moreover have "ref_of demo_locked (Some (RadixNode 1)) j = held_refs demo_locked j" for j
    by (simp add: ref_of_def demo_locked_inv)
  ultimately show ?thesis
    using radix_finished_releases [OF demo_locked_inv(1,2), of radix_mem radix_req 0 "[1, 2, 4]" demo_clock]
    by (simp add: demo_locked_inv(3) radix_mem_def Let_def fun_eq_iff) (auto simp: radix_mem_def fun_eq_iff)
qed

end
