(* ===== verification/Schedule_Policy.thy ===== *)
theory Schedule_Policy
imports Radix_Req
begin

text \<open>
  The order of the waiting queue (\<^verbatim>\<open>SchedulePolicy\<close> of
  \<^verbatim>\<open>python/sglang/srt/managers/schedule_policy.py\<close>).  A policy orders the waiting requests, the
  two cache-aware ones after matching every request against the cache.  \<^verbatim>\<open>random.shuffle\<close> is a
  parameter; the two thresholds are the defaults of their environment variables.
\<close>

section \<open>Policies\<close>

definition IN_BATCH_PREFIX_CACHING_CHECK_THRESHOLD :: int where
  "IN_BATCH_PREFIX_CACHING_CHECK_THRESHOLD = 32"

definition IN_BATCH_PREFIX_CACHING_DEPRIORITIZE_THRESHOLD :: int where
  "IN_BATCH_PREFIX_CACHING_DEPRIORITIZE_THRESHOLD = 32"

record sched_policy =
  sp_policy :: string
  sp_queue_tree :: radix

definition sched_policy_init :: "(nat \<Rightarrow> real) \<Rightarrow> string \<Rightarrow> bool \<Rightarrow> sched_policy" where
  "sched_policy_init clock policy dis =
     \<lparr>sp_policy = (if dis \<and> policy \<in> set [''lpm'', ''dfs-weight''] then ''fcfs'' else policy),
      sp_queue_tree = radix_init clock False\<rparr>"

text \<open>The matching loop: every request is matched against the cache; a request with a short match is
  also matched against the tree of the requests before it in the queue, and put off if that match is
  long, else entered there.  \<open>put_off\<close> collects the identifiers put off.\<close>

definition match_request ::
  "(nat \<Rightarrow> real) \<Rightarrow> ('g, 'c) cache_ops \<Rightarrow> 'g req \<Rightarrow> 'c \<times> radix \<times> string list \<Rightarrow> 'g req \<times> ('c \<times> radix \<times> string list)" where
  "match_request clock ops r s = (case s of (c, wq, put_off) \<Rightarrow>
     let (prefix_ids, r) = adjust_max_prefix_ids r;
         ((pre, nd), c) = op_match_prefix ops (rid r) prefix_ids c;
         r = r\<lparr>prefix_indices := pre, last_node := nd\<rparr>
     in if int (length pre) \<le> IN_BATCH_PREFIX_CACHING_CHECK_THRESHOLD
        then let ((inb, _), wq) = radix_match clock prefix_ids wq
             in if int (length inb) \<ge> IN_BATCH_PREFIX_CACHING_DEPRIORITIZE_THRESHOLD
                then (r, (c, wq, put_off @ [rid r]))
                else let (_, wq) = radix_insert clock prefix_ids (replicate (length prefix_ids) 0) wq
                     in (r, (c, wq, put_off))
        else (r, (c, wq, put_off)))"

fun match_requests ::
  "(nat \<Rightarrow> real) \<Rightarrow> ('g, 'c) cache_ops \<Rightarrow> 'g req list \<Rightarrow> 'c \<times> radix \<times> string list \<Rightarrow> 'g req list \<times> ('c \<times> radix \<times> string list)" where
  "match_requests clock ops [] s = ([], s)"
| "match_requests clock ops (r # rs) s =
     (let (r, s) = match_request clock ops r s; (rs, s) = match_requests clock ops rs s in (r # rs, s))"

text \<open>The dictionaries of the depth-first policy are keyed by node identity; both have a default.\<close>

fun calc_weight :: "rnode \<Rightarrow> (nat \<Rightarrow> int) \<Rightarrow> (nat \<Rightarrow> int)" where
  "calc_weight (RNode i ky v l t cs) w =
     fold (\<lambda>x w. let w = calc_weight (snd x) w in w(i := w i + w (nid (snd x)))) cs w"

fun get_dfs_priority :: "(nat \<Rightarrow> int) \<Rightarrow> (nat \<Rightarrow> 'g req list) \<Rightarrow> rnode \<Rightarrow> 'g req list" where
  "get_dfs_priority w reqs_of (RNode i ky v l t cs) =
     concat (map snd (sort_key fst (map (\<lambda>x. (- w (nid (snd x)), get_dfs_priority w reqs_of (snd x))) cs))) @ reqs_of i"

definition lpm_key :: "string list \<Rightarrow> 'g req \<Rightarrow> bool \<times> int" where
  "lpm_key put_off r = (if rid r \<notin> set put_off then (False, - int (length (prefix_indices r))) else (True, 0))"

definition last_node_to_reqs :: "'g req list \<Rightarrow> nat \<Rightarrow> 'g req list" where
  "last_node_to_reqs q i = filter (\<lambda>r. last_node r = Some (RadixNode i)) q"

text \<open>\<open>tree_root\<close> is the cache's \<^verbatim>\<open>root_node\<close>.  The first component of the result is the
  \<^verbatim>\<open>prefix_computed\<close> flag.\<close>

definition calc_priority ::
  "(nat \<Rightarrow> real) \<Rightarrow> ('g req list \<Rightarrow> 'g req list) \<Rightarrow> ('g, 'c) cache_ops \<Rightarrow> ('c \<Rightarrow> rnode)
    \<Rightarrow> sched_policy \<Rightarrow> 'g req list \<Rightarrow> 'c \<Rightarrow> (bool \<times> 'g req list \<times> 'c \<times> sched_policy) res" where
  "calc_priority clock shuffle ops tree_root p q c =
     (let policy = (if length q > 128 \<and> sp_policy p = ''lpm'' then ''fcfs'' else sp_policy p);
          computed = (policy = ''lpm'' \<or> policy = ''dfs-weight'');
          (q, c, wq, put_off) = (if computed
             then match_requests clock ops q (c, radix_reset clock (sp_queue_tree p), [])
             else (q, c, sp_queue_tree p, []));
          p = p\<lparr>sp_queue_tree := wq\<rparr>
      in if policy = ''lpm'' then Ok (computed, sort_key (lpm_key put_off) q, c, p)
         else if policy = ''fcfs'' then Ok (computed, q, c, p)
         else if policy = ''lof'' then Ok (computed, sort_key (\<lambda>r. - req_max_new r) q, c, p)
         else if policy = ''random'' then Ok (computed, shuffle q, c, p)
         else if policy = ''dfs-weight''
         then let weight = calc_weight (tree_root c) (\<lambda>i. int (length (last_node_to_reqs q i)))
              in Ok (computed, get_dfs_priority weight (last_node_to_reqs q) (tree_root c), c, p)
         else Err ValueError)"

section \<open>Matching the queue\<close>

text \<open>A request as the loop leaves it: only what matching sets has changed.\<close>

definition rematched :: "'g req \<Rightarrow> 'g req \<Rightarrow> bool" where
  "rematched r r1 \<longleftrightarrow> r1 = r\<lparr>fill_ids := fill_ids r1, prefix_indices := prefix_indices r1, last_node := last_node r1\<rparr>"

lemma rematched_refl [simp]: "rematched r r"
  by (simp add: rematched_def)

definition placed :: "radix \<Rightarrow> 'g req \<Rightarrow> bool" where
  "placed c r \<longleftrightarrow> (\<exists>i \<in> set (node_ids (rc_root c)). last_node r = Some (RadixNode i))"

definition put_off_ok :: "string list \<Rightarrow> 'g req list \<Rightarrow> bool" where
  "put_off_ok put_off q \<longleftrightarrow> (\<forall>x \<in> set put_off. \<exists>r \<in> set q. rid r = x
     \<and> int (length (prefix_indices r)) \<le> IN_BATCH_PREFIX_CACHING_CHECK_THRESHOLD)"

lemma match_request_radix:
  assumes "match_request clock (radix_ops clock) r (c, wq, put_off) = (r1, (c1, wq1, put_off1))"
    and "radix_inv c" "\<not> rc_disable c" "radix_inv wq" "\<not> rc_disable wq"
  shows "rematched r r1 \<and> placed c1 r1 \<and> radix_inv c1 \<and> \<not> rc_disable c1 \<and> radix_inv wq1 \<and> \<not> rc_disable wq1
    \<and> set (node_ids (rc_root c)) \<subseteq> set (node_ids (rc_root c1))
    \<and> (\<exists>new. put_off1 = put_off @ new \<and> put_off_ok new [r1])"
proof -
  obtain ids1 r2 where a: "adjust_max_prefix_ids r = (ids1, r2)" by fastforce
  have r2: "r2 = r\<lparr>fill_ids := Some (origin_input_ids r @ output_ids r)\<rparr>"
    using adjust_max_prefix_ids_fields [of r] a by simp
  obtain pre nd c2 where m: "radix_match clock ids1 c = ((pre, nd), c2)" by (metis prod.collapse)
  note im = inv_match [OF m assms(2,3)]
  have d2: "\<not> rc_disable c2" using disable_keeps(1) [OF m] assms(3) by simp
  define r3 where "r3 = r2\<lparr>prefix_indices := pre, last_node := Some (RadixNode nd)\<rparr>"
  have r3: "rematched r r3" using r2 by (simp add: rematched_def r3_def)
  have pl: "placed c2 r3" using im by (simp add: placed_def r3_def)
  obtain inb x wq2 where mw: "radix_match clock ids1 wq = ((inb, x), wq2)" by (metis prod.collapse)
  have w2: "radix_inv wq2" "\<not> rc_disable wq2"
    using inv_match [OF mw assms(4,5)] disable_keeps(1) [OF mw] assms(5) by simp_all
  obtain n wq3 where iw: "radix_insert clock ids1 (replicate (length ids1) 0) wq2 = (n, wq3)" by fastforce
  have w3: "radix_inv wq3" "\<not> rc_disable wq3"
    using inv_insert [OF iw w2(1) _ w2(2)] disable_keeps(2) [OF iw] w2 by simp_all
  have step: "match_request clock (radix_ops clock) r (c, wq, put_off)
      = (if int (length pre) \<le> IN_BATCH_PREFIX_CACHING_CHECK_THRESHOLD
         then if int (length inb) \<ge> IN_BATCH_PREFIX_CACHING_DEPRIORITIZE_THRESHOLD
              then (r3, (c2, wq2, put_off @ [rid r3])) else (r3, (c2, wq3, put_off))
         else (r3, (c2, wq, put_off)))"
    using a m mw iw by (simp add: match_request_def radix_ops_def r3_def)
  have "rid r3 = rid r2" by (simp add: r3_def)
  then show ?thesis
    using assms step r3 pl im d2 w2 w3
    by (auto simp: put_off_ok_def r3_def [symmetric] split: if_splits) (auto simp: r3_def)
qed

lemma placed_mono: "placed c r \<Longrightarrow> set (node_ids (rc_root c)) \<subseteq> set (node_ids (rc_root c1)) \<Longrightarrow> placed c1 r"
  by (auto simp: placed_def)

lemma match_requests_radix:
  assumes "match_requests clock (radix_ops clock) q (c, wq, put_off) = (q1, (c1, wq1, put_off1))"
    and "radix_inv c" "\<not> rc_disable c" "radix_inv wq" "\<not> rc_disable wq"
  shows "list_all2 rematched q q1 \<and> (\<forall>r \<in> set q1. placed c1 r) \<and> radix_inv c1 \<and> \<not> rc_disable c1
    \<and> set (node_ids (rc_root c)) \<subseteq> set (node_ids (rc_root c1))
    \<and> (\<exists>new. put_off1 = put_off @ new \<and> put_off_ok new q1)"
  using assms
proof (induction q arbitrary: c wq put_off q1)
  case Nil
  then show ?case by (auto simp: put_off_ok_def)
next
  case (Cons r q)
  obtain r1 c2 wq2 po2 where s: "match_request clock (radix_ops clock) r (c, wq, put_off) = (r1, (c2, wq2, po2))"
    by (metis prod.collapse)
  obtain q2 c3 wq3 po3 where t: "match_requests clock (radix_ops clock) q (c2, wq2, po2) = (q2, (c3, wq3, po3))"
    by (metis prod.collapse)
  have e: "q1 = r1 # q2" "c1 = c3" "wq1 = wq3" "put_off1 = po3" using Cons.prems(1) s t by auto
  note one = match_request_radix [OF s Cons.prems(2-5)]
  then have "radix_inv c2" "\<not> rc_disable c2" "radix_inv wq2" "\<not> rc_disable wq2" by simp_all
  note rest = Cons.IH [OF t [folded e] this]
  obtain n1 n2 where n: "po2 = put_off @ n1" "put_off_ok n1 [r1]" "put_off1 = po2 @ n2" "put_off_ok n2 q2"
    using one rest by blast
  have "put_off_ok (n1 @ n2) q1" using n(2,4) e(1) by (auto simp: put_off_ok_def)
  moreover have "placed c1 r1" using one rest placed_mono by blast
  ultimately show ?case using one rest n e(1) by auto
qed

section \<open>The depth-first order\<close>

lemma dfs_mset: "mset (get_dfs_priority w f t) = mset (concat (map f (node_ids t)))"
proof (induction w f t rule: get_dfs_priority.induct)
  case (1 w f i ky v l t cs)
  have "mset (concat (map snd (sort_key fst xs))) = mset (concat (map snd xs))" for xs :: "(int \<times> 'a req list) list"
  proof -
    have "mset (concat ys) = \<Sum>\<^sub># (image_mset mset (mset ys))" for ys :: "'a req list list"
      by (induction ys) auto
    then show ?thesis by (metis mset_map mset_sort)
  qed
  then have "mset (get_dfs_priority w f (RNode i ky v l t cs))
      = mset (concat (map (\<lambda>x. get_dfs_priority w f (snd x)) cs)) + mset (f i)" by (simp add: comp_def)
  also have "mset (concat (map (\<lambda>x. get_dfs_priority w f (snd x)) xs)) = mset (concat (map f (concat (map (\<lambda>x. node_ids (snd x)) xs))))"
    if "set xs \<subseteq> set cs" for xs
    using that 1 by (induction xs) auto
  from this [of cs] have "mset (concat (map (\<lambda>x. get_dfs_priority w f (snd x)) cs))
      = mset (concat (map f (concat (map (\<lambda>x. node_ids (snd x)) cs))))" by simp
  finally show ?case by simp
qed

lemma mset_by_node:
  assumes "distinct js" "\<forall>r \<in> set q. \<exists>i \<in> set js. last_node r = Some (RadixNode i)"
  shows "mset (concat (map (last_node_to_reqs q) js)) = mset q"
  using assms(2)
proof (induction q)
  case Nil
  have "concat (map (last_node_to_reqs []) js) = []" by (simp add: last_node_to_reqs_def)
  then show ?case by simp
next
  case (Cons r q)
  then obtain i where i: "i \<in> set js" "last_node r = Some (RadixNode i)" by auto
  obtain as bs where js: "js = as @ i # bs" "i \<notin> set as" "i \<notin> set bs"
    using assms(1) i(1) by (metis distinct.simps(2) distinct_append not_distinct_conv_prefix split_list_first)
  have "last_node_to_reqs (r # q) j = (if j = i then r # last_node_to_reqs q j else last_node_to_reqs q j)" for j
    using i(2) by (auto simp: last_node_to_reqs_def)
  then have "concat (map (last_node_to_reqs (r # q)) as) = concat (map (last_node_to_reqs q) as)"
    "concat (map (last_node_to_reqs (r # q)) bs) = concat (map (last_node_to_reqs q) bs)"
    "last_node_to_reqs (r # q) i = r # last_node_to_reqs q i"
    using js by (auto intro!: arg_cong [where f = concat])
  then have "mset (concat (map (last_node_to_reqs (r # q)) js)) = add_mset r (mset (concat (map (last_node_to_reqs q) js)))"
    using js(1) by simp
  then show ?case using Cons by simp
qed

lemma nodes_in_ids: "n \<in> set (nodes t) \<Longrightarrow> set (node_ids n) \<subseteq> set (node_ids t)"
proof (induction t rule: nodes.induct)
  case (1 i ky v l t cs)
  then show ?case by fastforce
qed

lemma nodes_ids_distinct: "n \<in> set (nodes t) \<Longrightarrow> distinct (node_ids t) \<Longrightarrow> distinct (node_ids n)"
proof (induction t rule: nodes.induct)
  case (1 i ky v l t cs)
  then show ?case by (auto simp: distinct_concat_iff)
qed

lemma calc_weight_spec:
  "distinct (node_ids t) \<Longrightarrow> (\<forall>i. i \<notin> set (node_ids t) \<longrightarrow> calc_weight t w i = w i)
     \<and> (\<forall>n \<in> set (nodes t). calc_weight t w (nid n) = sum_list (map w (node_ids n)))"
proof (induction t w rule: calc_weight.induct)
  case (1 i ky v l t cs w)
  let ?all = "\<lambda>xs. concat (map (\<lambda>x. node_ids (snd x)) xs)"
  define step where "step = (\<lambda>(x :: int \<times> rnode) w. let w = calc_weight (snd x) w in w(i := w i + w (nid (snd x))))"
  have *: "(\<forall>j. j \<noteq> i \<and> j \<notin> set (?all xs) \<longrightarrow> fold step xs w j = w j)
      \<and> fold step xs w i = w i + sum_list (map w (?all xs))
      \<and> (\<forall>x \<in> set xs. \<forall>n \<in> set (nodes (snd x)). fold step xs w (nid n) = sum_list (map w (node_ids n)))"
    if "set xs \<subseteq> set cs" "distinct (i # ?all xs)" for xs w
    using that
  proof (induction xs arbitrary: w)
    case Nil
    then show ?case by simp
  next
    case (Cons x xs)
    have dx: "distinct (node_ids (snd x))" "i \<notin> set (node_ids (snd x))" "i \<notin> set (?all xs)" "distinct (i # ?all xs)"
      "set (node_ids (snd x)) \<inter> set (?all xs) = {}" using Cons.prems(2) by auto
    have x: "x \<in> set cs" using Cons.prems(1) by simp
    define w1 where "w1 = step x w"
    note cw = 1(1) [OF x dx(1), of w]
    have nx: "calc_weight (snd x) w (nid (snd x)) = sum_list (map w (node_ids (snd x)))"
      using cw nodes_self by blast
    have w1: "w1 j = (if j = i then w i + sum_list (map w (node_ids (snd x))) else calc_weight (snd x) w j)" for j
      using cw dx(2) nx by (simp add: w1_def step_def Let_def)
    have out: "w1 j = w j" if "j \<noteq> i" "j \<notin> set (node_ids (snd x))" for j using w1 [of j] cw that by simp
    have same: "map w1 js = map w js" if "set js \<subseteq> set (?all xs)" for js
    proof -
      have "\<forall>j \<in> set js. j \<noteq> i \<and> j \<notin> set (node_ids (snd x))" using that dx(3,5) by blast
      then show ?thesis using out by (intro map_cong) auto
    qed
    have st: "fold step (x # xs) w = fold step xs w1" by (simp add: w1_def)
    have "set xs \<subseteq> set cs" using Cons.prems(1) by simp
    from Cons.IH [OF this dx(4), of w1]
    have ih1: "\<And>j. j \<noteq> i \<Longrightarrow> j \<notin> set (?all xs) \<Longrightarrow> fold step xs w1 j = w1 j"
      and ih2: "fold step xs w1 i = w1 i + sum_list (map w1 (?all xs))"
      and ih3: "\<And>x n. x \<in> set xs \<Longrightarrow> n \<in> set (nodes (snd x)) \<Longrightarrow> fold step xs w1 (nid n) = sum_list (map w1 (node_ids n))"
      by blast+
    have a: "fold step (x # xs) w j = w j" if "j \<noteq> i" "j \<notin> set (?all (x # xs))" for j
      unfolding st using ih1 [of j] out [of j] that by simp
    have b: "fold step (x # xs) w i = w i + sum_list (map w (?all (x # xs)))"
      unfolding st using ih2 same [of "?all xs"] w1 [of i] by simp
    have c: "fold step (x # xs) w (nid n) = sum_list (map w (node_ids n))" if n: "n \<in> set (nodes (snd y))" "y \<in> set (x # xs)" for y n
    proof (cases "y \<in> set xs")
      case True
      have "set (node_ids n) \<subseteq> set (?all xs)" using nodes_in_ids [OF n(1)] True by auto
      then show ?thesis unfolding st using ih3 [OF True n(1)] same by simp
    next
      case False
      then have y: "y = x" using n(2) by simp
      have "nid n \<in> set (node_ids (snd x))" using n(1) y by (simp add: nodes_ids)
      then have ne: "nid n \<noteq> i" "nid n \<notin> set (?all xs)" using dx by auto
      have "fold step xs w1 (nid n) = w1 (nid n)" by (rule ih1 [OF ne])
      also have "\<dots> = sum_list (map w (node_ids n))" using w1 [of "nid n"] ne(1) cw n(1) y by simp
      finally show ?thesis unfolding st .
    qed
    show ?case using a b c by blast
  qed
  have d: "distinct (i # ?all cs)" using 1(2) by simp
  have eq: "calc_weight (RNode i ky v l t cs) w = fold step cs w" by (simp add: step_def)
  from * [OF subset_refl d, of w] show ?case unfolding eq by auto
qed

lemma sort_key_map: "sort_key g (map f xs) = map f (sort_key (\<lambda>x. g (f x)) xs)"
proof (induction xs)
  case (Cons x xs)
  have "insort_key g (f x) (map f ys) = map f (insort_key (\<lambda>x. g (f x)) x ys)" for ys
    by (induction ys) auto
  then show ?case using Cons by simp
qed simp

lemma requests_at:
  assumes "distinct js"
  shows "sum_list (map (\<lambda>j. int (length (last_node_to_reqs q j))) js)
    = int (length (filter (\<lambda>r. \<exists>j \<in> set js. last_node r = Some (RadixNode j)) q))"
proof -
  let ?q = "filter (\<lambda>r. \<exists>j \<in> set js. last_node r = Some (RadixNode j)) q"
  have in_q: "\<forall>r \<in> set ?q. \<exists>i \<in> set js. last_node r = Some (RadixNode i)" by simp
  have "last_node_to_reqs ?q j = last_node_to_reqs q j" if "j \<in> set js" for j
    unfolding last_node_to_reqs_def filter_filter using that by (intro filter_cong) blast+
  then have eq: "map (last_node_to_reqs q) js = map (last_node_to_reqs ?q) js" by simp
  have "mset (concat (map (last_node_to_reqs q) js)) = mset ?q"
    unfolding eq by (rule mset_by_node [OF assms in_q])
  from arg_cong [where f = size, OF this]
  have "length (concat (map (last_node_to_reqs q) js)) = length ?q" unfolding size_mset .
  moreover have "sum_list (map (\<lambda>j. int (length (last_node_to_reqs q j))) ks) = int (length (concat (map (last_node_to_reqs q) ks)))" for ks
    by (induction ks) auto
  ultimately show ?thesis by simp
qed

section \<open>What the policies promise\<close>

text \<open>C14: A scheduling policy reorders the waiting queue and does nothing else to it: no request is
  lost or duplicated, a request changes only in what matching sets, the cache stays well formed, and under
  longest-prefix-match the queue is sorted by matched length, longest first, followed by requests that
  were put off, each of which has at most the threshold of tokens cached.\<close>

theorem calc_priority_permutes:
  assumes cache: "radix_inv c" "\<not> rc_disable c" "radix_inv (sp_queue_tree p)" "\<not> rc_disable (sp_queue_tree p)"
    and shuffle: "\<And>xs. mset (shuffle xs) = mset xs"
    and run: "calc_priority clock shuffle (radix_ops clock) rc_root p q c = Ok (computed, q', c', p')"
  shows "\<exists>q1 put_off. list_all2 rematched q q1 \<and> mset q' = mset q1 \<and> radix_inv c'
    \<and> (computed \<longrightarrow> (\<forall>r \<in> set q'. placed c' r)) \<and> put_off_ok put_off q1
    \<and> (sp_policy p = ''lpm'' \<and> length q \<le> 128 \<longrightarrow>
         sorted_wrt (\<lambda>a b. rid b \<notin> set put_off \<longrightarrow> rid a \<notin> set put_off
           \<and> length (prefix_indices b) \<le> length (prefix_indices a)) q')
    \<and> (sp_policy p = ''lpm'' \<and> 128 < length q \<or> sp_policy p = ''fcfs'' \<longrightarrow> q' = q)"
proof -
  define policy where "policy = (if length q > 128 \<and> sp_policy p = ''lpm'' then ''fcfs'' else sp_policy p)"
  define comp where "comp = (policy = ''lpm'' \<or> policy = ''dfs-weight'')"
  obtain q1 c1 wq po where m: "(if comp then match_requests clock (radix_ops clock) q (c, radix_reset clock (sp_queue_tree p), [])
      else (q, c, sp_queue_tree p, [])) = (q1, c1, wq, po)" by (metis prod.collapse)
  have wr: "radix_inv (radix_reset clock (sp_queue_tree p))" "\<not> rc_disable (radix_reset clock (sp_queue_tree p))"
    using cache(4) by (simp_all add: radix_inv_def radix_reset_def)
  have mr: "list_all2 rematched q q1 \<and> (comp \<longrightarrow> (\<forall>r \<in> set q1. placed c1 r)) \<and> radix_inv c1 \<and> put_off_ok po q1"
  proof (cases comp)
    case True
    then show ?thesis using match_requests_radix [of clock q c _ "[]" q1 c1 wq po] m cache(1,2) wr by auto
  next
    case False
    then show ?thesis using m cache(1) by (auto simp: list_all2_same put_off_ok_def)
  qed
  have base: "c' = c1 \<and> computed = comp" "policy = ''lpm'' \<Longrightarrow> q' = sort_key (lpm_key po) q1"
    "policy = ''fcfs'' \<Longrightarrow> q' = q1" "policy = ''lof'' \<Longrightarrow> q' = sort_key (\<lambda>r. - req_max_new r) q1"
    "policy = ''random'' \<Longrightarrow> q' = shuffle q1"
    "policy = ''dfs-weight'' \<Longrightarrow> q' = get_dfs_priority (calc_weight (rc_root c1) (\<lambda>i. int (length (last_node_to_reqs q1 i))))
        (last_node_to_reqs q1) (rc_root c1)"
    "policy \<in> {''lpm'', ''fcfs'', ''lof'', ''random'', ''dfs-weight''}"
    using run m unfolding calc_priority_def policy_def [symmetric] Let_def comp_def [symmetric]
    by (auto split: if_splits)
  have perm: "mset q' = mset q1"
  proof (cases "policy = ''dfs-weight''")
    case True
    then have "\<forall>r \<in> set q1. \<exists>i \<in> set (node_ids (rc_root c1)). last_node r = Some (RadixNode i)"
      using mr by (simp add: comp_def placed_def)
    moreover have "distinct (node_ids (rc_root c1))" using mr by (simp add: radix_inv_def)
    ultimately show ?thesis using base(6) [OF True] by (simp add: dfs_mset mset_by_node)
  next
    case False
    then show ?thesis using base shuffle by auto
  qed
  have sorted: "sorted_wrt (\<lambda>a b. rid b \<notin> set po \<longrightarrow> rid a \<notin> set po \<and> length (prefix_indices b) \<le> length (prefix_indices a)) q'"
    if "policy = ''lpm''"
  proof -
    have "sorted (map (lpm_key po) q')" using base(2) [OF that] by simp
    then have "sorted_wrt (\<lambda>a b. lpm_key po a \<le> lpm_key po b) q'" by (simp add: sorted_map)
    then show ?thesis by (rule sorted_wrt_mono_rel [rotated]) (auto simp: lpm_key_def less_eq_prod_def split: if_splits)
  qed
  have "q' = q1" "q1 = q" if "policy = ''fcfs''"
    using base(3) that m by (auto simp: comp_def)
  then show ?thesis
    using mr perm sorted base(1) mset_eq_setD [OF perm]
    by (intro exI [of _ q1] exI [of _ po]) (auto simp: policy_def)
qed

text \<open>The depth-first policy visits subtrees in the order of the number of waiting requests in
  them: a node's weight is the number of requests whose last matched node lies in its subtree, and the
  order lists the children's requests, heaviest child first, before the node's own.\<close>

theorem dfs_weights_count:
  fixes q :: "'g req list"
  assumes inv: "radix_inv c" and n: "RNode i ky v l t cs \<in> set (nodes (rc_root c))"
  defines "w \<equiv> calc_weight (rc_root c) (\<lambda>i. int (length (last_node_to_reqs q i)))"
  shows "w i = int (length (filter (\<lambda>r. \<exists>j \<in> set (node_ids (RNode i ky v l t cs)). last_node r = Some (RadixNode j)) q))
    \<and> (\<exists>ks. mset ks = mset (map snd cs) \<and> sorted_wrt (\<lambda>a b. w (nid b) \<le> w (nid a)) ks
        \<and> get_dfs_priority w (last_node_to_reqs q) (RNode i ky v l t cs)
          = concat (map (get_dfs_priority w (last_node_to_reqs q)) ks) @ last_node_to_reqs q i)"
proof -
  let ?t = "RNode i ky v l t cs"
  have d: "distinct (node_ids (rc_root c))" using inv by (simp add: radix_inv_def)
  have dt: "distinct (node_ids ?t)" using d n nodes_ids_distinct by blast
  have "w i = sum_list (map (\<lambda>j. int (length (last_node_to_reqs q j))) (node_ids ?t))"
    using calc_weight_spec [OF d, of "\<lambda>i. int (length (last_node_to_reqs q i))"] n unfolding w_def by fastforce
  then have "w i = int (length (filter (\<lambda>r. \<exists>j \<in> set (node_ids ?t). last_node r = Some (RadixNode j)) q))"
    using requests_at [OF dt, of q] by simp
  moreover
  let ?f = "\<lambda>x. - w (nid (snd x))"
  have "sorted (map ?f (sort_key ?f cs))" by simp
  then have "sorted_wrt (\<lambda>a b. w (nid b) \<le> w (nid a)) (map snd (sort_key ?f cs))"
    by (simp add: sorted_map sorted_wrt_map)
  moreover have "mset (map snd (sort_key ?f cs)) = mset (map snd cs)" by simp
  ultimately show ?thesis
    by (intro conjI exI [of _ "map snd (sort_key ?f cs)"]) (simp_all add: sort_key_map comp_def)
qed

section \<open>The properties on a concrete queue\<close>

definition demo_policy :: sched_policy where
  "demo_policy = sched_policy_init demo_clock ''lpm'' False"

definition demo_queue :: "unit req list" where
  "demo_queue = [demo_req, demo_req\<lparr>rid := ''b'', origin_input_ids := [1, 2, 3, 4]\<rparr>]"

lemma calc_priority_permutes_witness:
  "\<exists>computed q' c' p'. calc_priority demo_clock (\<lambda>xs. xs) (radix_ops demo_clock) rc_root demo_policy demo_queue demo_radix
       = Ok (computed, q', c', p') \<and> length q' = 2 \<and> radix_inv c'"
proof -
  have tree: "radix_inv (sp_queue_tree demo_policy)" "\<not> rc_disable (sp_queue_tree demo_policy)"
    by (simp_all add: demo_policy_def sched_policy_init_def inv_init, simp add: radix_init_def radix_reset_def)
  have "\<exists>x. calc_priority demo_clock (\<lambda>xs. xs) (radix_ops demo_clock) rc_root demo_policy demo_queue demo_radix = Ok x"
    by (simp add: calc_priority_def case_prod_beta Let_def demo_policy_def sched_policy_init_def demo_queue_def, blast)
  then obtain computed q' c' p' where
    r: "calc_priority demo_clock (\<lambda>xs. xs) (radix_ops demo_clock) rc_root demo_policy demo_queue demo_radix
       = Ok (computed, q', c', p')" by auto
  from calc_priority_permutes [OF demo_radix_inv tree _ r] obtain q1 where
    "list_all2 rematched demo_queue q1" "mset q' = mset q1" "radix_inv c'" by auto
  moreover from this(1,2) have "length q' = 2"
    by (metis demo_queue_def length_Cons list.size(3) list_all2_lengthD numeral_2_eq_2 size_mset)
  ultimately show ?thesis using r by blast
qed

lemma dfs_weights_count_witness:
  "calc_weight (rc_root demo_radix)
     (\<lambda>i. int (length (last_node_to_reqs [demo_req\<lparr>last_node := Some (RadixNode 1)\<rparr>, demo_req\<lparr>last_node := None\<rparr>] i))) 0 = 1"
  using dfs_weights_count [OF demo_radix_inv(1), of 0 "[]" "[]" 1 1 "[(1, RNode 1 [1, 2, 3] [5, 6, 7] 0 2 [])]"
      "[demo_req\<lparr>last_node := Some (RadixNode 1)\<rparr>, demo_req\<lparr>last_node := None\<rparr>]"]
  by (simp add: demo_radix_eq)

end
