(* ===== verification/Prefill_Adder.thy ===== *)
theory Prefill_Adder
imports Schedule_Policy
begin

text \<open>
  Admission of requests to a prefill batch (\<^verbatim>\<open>PrefillAdder\<close> of
  \<^verbatim>\<open>python/sglang/srt/managers/schedule_policy.py\<close>): token budgets that every admitted request
  draws on, chunking of a request that exceeds the chunk budget, and the locks taken on the cache.
  The total budget is a float in the code (it is reduced by a ratio of the running requests' remaining
  tokens) and a real here; the other budgets are integers.
\<close>

section \<open>The admission interface of a cache\<close>

text \<open>Locking changes the evictable size by what it reports, a second lock of the same node reports
  nothing, and unlocking right after a lock restores the cache.\<close>

locale locking_cache = prefix_cache ops inv for ops :: "('g, 'c) cache_ops" and inv :: "'c \<Rightarrow> bool" +
  assumes inc_size: "inv c \<Longrightarrow> op_inc_lock ops nd c = Ok (e, c') \<Longrightarrow>
      inv c' \<and> op_evictable_size ops c' = op_evictable_size ops c + e"
    and inc_twice: "inv c \<Longrightarrow> op_inc_lock ops nd c = Ok (e, c') \<Longrightarrow> op_inc_lock ops nd c' = Ok (e', c'') \<Longrightarrow> e' = 0"
    and inc_undo: "inv c \<Longrightarrow> op_inc_lock ops nd c = Ok (e, c') \<Longrightarrow> op_dec_lock ops nd c' = Ok (- e, c)"

interpretation cl: locking_cache chunk_ops "\<lambda>_. True"
  by unfold_locales
     (simp_all add: chunk_ops_def cc_inc_lock_ref_def cc_dec_lock_ref_def cc_evictable_size_def)

lemma lock_path_again:
  assumes "lock_path 1 i n = Some (n', e)" "locks_ok n" "distinct (node_ids n)"
  shows "\<exists>n''. lock_path 1 i n' = Some (n'', 0)"
  using assms
proof (induction rule: lock_induct)
  case (here ky v l t cs)
  then show ?case by (simp add: lock_delta_def)
next
  case (down j ky v l t xs k c ys c' e)
  have "i \<in> set (node_ids c)" using lock_path_in [OF down(2)] .
  then have "\<forall>x \<in> set xs. i \<notin> set (node_ids (snd x))" using down.prems(2) by auto
  moreover obtain c'' where "lock_path 1 i c' = Some (c'', 0)" using down.IH down.prems by auto
  ultimately have "lock_kids 1 i (xs @ (k, c') # ys) = Some (xs @ (k, c'') # ys, 0)" by (intro lock_kids_mid)
  then show ?case using down(1) down.prems by (simp add: lock_delta_def)
qed

lemma radix_inc_undo:
  assumes inv: "radix_inv c" and inc: "change_lock 1 nd c = Ok (e, c')"
  shows "change_lock (- 1) nd c' = Ok (- e, c) \<and> (\<exists>c''. change_lock 1 nd c' = Ok (0, c'')) \<and> (\<not> rc_disable c \<longrightarrow> radix_inv c' \<and> rc_evictable c' = rc_evictable c + e)"
proof (cases "rc_disable c \<or> nd = Some (RadixNode (nid (rc_root c)))")
  case True
  then show ?thesis using inc inv by (auto simp: change_lock_def split: if_splits)
next
  case False
  obtain j ky v l t cs where root: "rc_root c = RNode j ky v l t cs" by (cases "rc_root c")
  obtain i cs' where i: "nd = Some (RadixNode i)" "i \<noteq> nid (rc_root c)" "lock_kids 1 i cs = Some (cs', e)"
    "c' = c\<lparr>rc_root := RNode j ky v l t cs', rc_evictable := rc_evictable c + e\<rparr>"
    using inc False root by (auto simp: change_lock_def split: option.splits node_ref.splits if_splits)
  from lock_kids_SomeE [OF i(3)] obtain xs k n ys n' where
    k: "cs = xs @ (k, n) # ys" "cs' = xs @ (k, n') # ys" "lock_path 1 i n = Some (n', e)" .
  note w = inv [unfolded radix_inv_def root]
  have d: "distinct (node_ids n)" "\<forall>x \<in> set xs. i \<notin> set (node_ids (snd x))" "locks_ok n"
    using w k(1) lock_path_in [OF k(3)] by auto
  have "lock_kids (- 1) i cs' = Some (cs, - e)"
    unfolding k(1,2) using lock_path_undo [OF k(3) d(3,1)] d(2) by (intro lock_kids_mid) auto
  then have "change_lock (- 1) nd c' = Ok (- e, c)" using i root False by (simp add: change_lock_def)
  moreover obtain n'' where "lock_path 1 i n' = Some (n'', 0)" using lock_path_again [OF k(3) d(3,1)] by blast
  then have "lock_kids 1 i cs' = Some (xs @ (k, n'') # ys, 0)"
    unfolding k(2) using d(2) by (intro lock_kids_mid)
  then have "\<exists>c''. change_lock 1 nd c' = Ok (0, c'')" using i root False by (simp add: change_lock_def)
  moreover have "i \<in> set (node_ids (rc_root c))" using lock_path_in [OF k(3)] root k(1) by simp
  then have "radix_inv c' \<and> rc_evictable c' = rc_evictable c + e"
    using inv_lock [OF inv, of 1 i] i inc False by auto
  ultimately show ?thesis by blast
qed

interpretation rl: locking_cache "radix_ops clock" radix_ok
proof unfold_locales
  fix c c' :: radix and nd e
  assume ok: "radix_ok c" and i: "op_inc_lock (radix_ops clock) nd c = Ok (e, c')"
  then have inc: "change_lock 1 nd c = Ok (e, c')" by (simp add: radix_ops_def radix_inc_lock_ref_def)
  have u: "change_lock (- 1) nd c' = Ok (- e, c)" "\<exists>c''. change_lock 1 nd c' = Ok (0, c'')" "\<not> rc_disable c \<longrightarrow> radix_inv c' \<and> rc_evictable c' = rc_evictable c + e"
    using radix_inc_undo [OF _ inc] ok by (auto simp: radix_ok_def)
  have "radix_ok c' \<and> rc_evictable c' = rc_evictable c + e"
  proof (cases "rc_disable c")
    case True
    then show ?thesis using inc ok by (auto simp: change_lock_def)
  next
    case False
    then show ?thesis using u(3) disable_keeps(3) [OF inc] by (simp add: radix_ok_def)
  qed
  then show "radix_ok c' \<and> op_evictable_size (radix_ops clock) c' = op_evictable_size (radix_ops clock) c + e"
    by (simp add: radix_ops_def radix_evictable_size_def)
  show "op_inc_lock (radix_ops clock) nd c' = Ok (e', c'') \<Longrightarrow> e' = 0" for e' c''
    using u(2) by (auto simp: radix_ops_def radix_inc_lock_ref_def)
  show "op_dec_lock (radix_ops clock) nd c' = Ok (- e, c)"
    using u(1) by (simp add: radix_ops_def radix_dec_lock_ref_def)
qed

section \<open>Budgets\<close>

definition CLIP_MAX_NEW_TOKENS_ESTIMATION :: int where
  "CLIP_MAX_NEW_TOKENS_ESTIMATION = 4096"

datatype add_result = CONTINUE | NO_TOKEN | OTHER

record ('g, 'c) adder =
  ad_cache :: 'c
  ad_running :: "'g req list option list"
  ad_ratio :: real
  rem_total_tokens :: real
  rem_input_tokens :: int
  rem_chunk_tokens :: "int option"
  cur_rem_tokens :: int
  ad_states :: "(real \<times> int) list option"
  can_run_list :: "'g req list"
  new_being_chunked_req :: "'g req option"
  log_hit_tokens :: int
  log_input_tokens :: int
  ad_pp_size :: int

definition clipped_new :: "'g req \<Rightarrow> int" where
  "clipped_new r = min (req_max_new r) CLIP_MAX_NEW_TOKENS_ESTIMATION"

definition reserved_tokens :: "real \<Rightarrow> 'g req list \<Rightarrow> real" where
  "reserved_tokens ratio rs =
     sum_list (map (\<lambda>r. real_of_int (min (req_max_new r - output_ids_len r) CLIP_MAX_NEW_TOKENS_ESTIMATION) * ratio) rs)"

fun reserve_running :: "real \<Rightarrow> 'g req list option list \<Rightarrow> real \<Rightarrow> real" where
  "reserve_running ratio [] t = t"
| "reserve_running ratio (b # bs) t =
     reserve_running ratio bs (case b of None \<Rightarrow> t | Some rs \<Rightarrow> t - reserved_tokens ratio rs)"

definition adder_init ::
  "'c \<Rightarrow> 'g req list option list \<Rightarrow> real \<Rightarrow> int \<Rightarrow> int \<Rightarrow> int option \<Rightarrow> int \<Rightarrow> int \<Rightarrow> ('g, 'c) adder" where
  "adder_init c running ratio total_budget input_budget chunk_budget mixed pp =
     \<lparr>ad_cache = c, ad_running = running, ad_ratio = ratio,
      rem_total_tokens = reserve_running ratio running (real_of_int (total_budget - mixed)),
      rem_input_tokens = input_budget - mixed, rem_chunk_tokens = map_option (\<lambda>k. k - mixed) chunk_budget,
      cur_rem_tokens = total_budget - mixed, ad_states = None, can_run_list = [], new_being_chunked_req = None,
      log_hit_tokens = 0, log_input_tokens = 0, ad_pp_size = pp\<rparr>"

definition budget_state :: "('g, 'c) adder \<Rightarrow> add_result" where
  "budget_state ad =
     (if rem_total_tokens ad \<le> 0 \<or> cur_rem_tokens ad \<le> 0 then NO_TOKEN
      else if rem_input_tokens ad \<le> 0 \<or> (case rem_chunk_tokens ad of None \<Rightarrow> False | Some k \<Rightarrow> k \<le> 0) then OTHER
      else CONTINUE)"

definition prefill_one_req :: "int \<Rightarrow> int \<Rightarrow> int \<Rightarrow> bool \<Rightarrow> ('g, 'c) adder \<Rightarrow> ('g, 'c) adder" where
  "prefill_one_req prefix_len ext new fetch ad =
     (let ad = ad\<lparr>rem_total_tokens := rem_total_tokens ad - real_of_int (ext + new),
                  cur_rem_tokens := cur_rem_tokens ad - ext,
                  rem_input_tokens := rem_input_tokens ad - ext,
                  rem_chunk_tokens := map_option (\<lambda>k. k - ext) (rem_chunk_tokens ad)\<rparr>;
          ad = (if fetch then ad\<lparr>rem_total_tokens := rem_total_tokens ad - real_of_int prefix_len,
                                 cur_rem_tokens := cur_rem_tokens ad - prefix_len\<rparr> else ad)
      in ad\<lparr>log_hit_tokens := log_hit_tokens ad + prefix_len, log_input_tokens := log_input_tokens ad + ext\<rparr>)"

definition prefix_len :: "'g req \<Rightarrow> int" where
  "prefix_len r = int (length (prefix_indices r))"

text \<open>\<^verbatim>\<open>req.fill_ids = req.fill_ids[: len(req.prefix_indices) + n]\<close> with the new length set.\<close>

definition cut_req :: "int \<Rightarrow> 'g req \<Rightarrow> 'g req res" where
  "cut_req n r = (case fill_ids r of None \<Rightarrow> Err TypeError
     | Some xs \<Rightarrow> Ok (r\<lparr>extend_input_len := n, fill_ids := Some (py_take xs (prefix_len r + n))\<rparr>))"

section \<open>Admission\<close>

text \<open>The continued chunk of a long request comes first.  The result is the request itself when it
  is not finished with this chunk.\<close>

definition add_being_chunked_req :: "'g req \<Rightarrow> ('g, 'c) adder \<Rightarrow> ('g req option \<times> 'g req \<times> ('g, 'c) adder) res" where
  "add_being_chunked_req r ad =
     (case rem_chunk_tokens ad of
        None \<Rightarrow> Err TypeError
      | Some k \<Rightarrow>
          let truncated = extend_input_len r > k
          in rbind (cut_req (min (extend_input_len r) k) r) (\<lambda>r.
             let ad = ad\<lparr>can_run_list := can_run_list ad @ [r]\<rparr>;
                 ad = prefill_one_req (prefix_len r) (extend_input_len r)
                        (if \<not> truncated then clipped_new r else 0) False ad
             in Ok (if truncated then Some r else None, r, ad)))"

text \<open>The conservative check for requests that ignore the end-of-sequence token: the states of the
  running requests are ordered by the tokens they still need, and the run is simulated.\<close>

definition state_of_req :: "('g, 'c) adder \<Rightarrow> 'g req \<Rightarrow> real \<times> int" where
  "state_of_req ad r =
     (let ratio = (if ignore_eos (params r) then 1 else ad_ratio ad);
          base = real_of_int (req_max_new r) * ratio - real_of_int (output_ids_len r);
          margin = (if ad_pp_size ad > 1 then ad_pp_size ad - 1 else 0)
      in (base + real_of_int margin, int (length (origin_input_ids r)) + output_ids_len r))"

definition append_state :: "real \<times> int \<Rightarrow> (real \<times> int) list \<Rightarrow> (real \<times> int) list" where
  "append_state st sts = (if fst st > 0 then sts @ [st] else sts)"

text \<open>The index the search loop stops with: the first entry that is not smaller, else the last one
  looked at, 0 for an empty list.\<close>

fun insert_pos :: "real \<Rightarrow> nat \<Rightarrow> (real \<times> int) list \<Rightarrow> nat" where
  "insert_pos x i [] = i"
| "insert_pos x i [s] = i"
| "insert_pos x i (s # t # ss) = (if x \<le> fst s then i else insert_pos x (Suc i) (t # ss))"

definition insert_state :: "real \<times> int \<Rightarrow> (real \<times> int) list \<Rightarrow> (real \<times> int) list" where
  "insert_state st sts =
     (if fst st > 0 then let i = insert_pos (fst st) 0 sts in take i sts @ st # drop i sts else sts)"

definition running_reqs :: "('g, 'c) adder \<Rightarrow> 'g req list" where
  "running_reqs ad = concat (map (\<lambda>b. case b of None \<Rightarrow> [] | Some rs \<Rightarrow> rs) (ad_running ad))"

definition eos_states :: "'g req \<Rightarrow> ('g, 'c) adder \<Rightarrow> (real \<times> int) list" where
  "eos_states r ad = (case ad_states ad of
      None \<Rightarrow> sort_key fst (fold (\<lambda>r sts. append_state (state_of_req ad r) sts)
               (r # running_reqs ad @ can_run_list ad) [])
    | Some sts \<Rightarrow> insert_state (state_of_req ad r) sts)"

text \<open>The simulation: before each completion the running requests need their decode steps.\<close>

fun eos_fits :: "int \<Rightarrow> int \<Rightarrow> (real \<times> int) list \<Rightarrow> bool" where
  "eos_fits cur freed [] = True"
| "eos_fits cur freed ((left, occ) # ss) =
     (let steps = (case ss of [] \<Rightarrow> left | s # _ \<Rightarrow> fst s)
      in if real_of_int (cur + freed) - steps * real (Suc (length ss)) \<le> 0 then False
         else eos_fits cur (freed + occ) ss)"

definition add_one_req_ignore_eos_safe ::
  "'g req \<Rightarrow> ('g, 'c) adder \<Rightarrow> (add_result \<times> 'g req \<times> ('g, 'c) adder) res" where
  "add_one_req_ignore_eos_safe r ad =
     (let sts = eos_states r ad; ad = ad\<lparr>ad_states := Some sts\<rparr>
      in if \<not> eos_fits (cur_rem_tokens ad - int (length (origin_input_ids r))) 0 sts then Ok (NO_TOKEN, r, ad)
         else if (case rem_chunk_tokens ad of None \<Rightarrow> True | Some k \<Rightarrow> extend_input_len r \<le> k)
         then let ad = ad\<lparr>can_run_list := can_run_list ad @ [r]\<rparr>;
                  ad = prefill_one_req 0 (extend_input_len r) (clipped_new r) False ad
              in Ok (budget_state ad, r, ad)
         else let trunc_len = (case rem_chunk_tokens ad of None \<Rightarrow> 0 | Some k \<Rightarrow> k)
              in if trunc_len = 0 then Ok (OTHER, r, ad)
                 else rbind (cut_req trunc_len r) (\<lambda>r.
                      let ad = ad\<lparr>can_run_list := can_run_list ad @ [r], new_being_chunked_req := Some r\<rparr>;
                          ad = prefill_one_req 0 trunc_len 0 False ad
                      in Ok (budget_state ad, r, ad)))"

text \<open>The general case.  The body runs with the request's last node locked; the lock is given back on
  every way out, and an admitted request keeps a lock of its own.  \<open>lock_and_charge\<close> admits.\<close>

definition with_lock_delta :: "(int \<times> 'c) res \<Rightarrow> ('g, 'c) adder \<Rightarrow> ('g, 'c) adder res" where
  "with_lock_delta l ad =
     rbind l (\<lambda>(d, c). Ok (ad\<lparr>ad_cache := c, rem_total_tokens := rem_total_tokens ad + real_of_int d\<rparr>))"

definition lock_and_charge ::
  "('g, 'c) cache_ops \<Rightarrow> 'g req \<Rightarrow> int \<Rightarrow> int \<Rightarrow> ('g, 'c) adder \<Rightarrow> ('g, 'c) adder res" where
  "lock_and_charge ops r ext new ad =
     rbind (op_inc_lock ops (last_node r) (ad_cache ad)) (\<lambda>(_, c).
       Ok (prefill_one_req (prefix_len r) ext new False (ad\<lparr>ad_cache := c\<rparr>)))"

definition logprob_whole :: "'g req \<Rightarrow> bool" where
  "logprob_whole r \<longleftrightarrow> return_logprob r \<and> normalized_prompt_logprob r = None
     \<and> logprob_start_len r \<noteq> int (length (origin_input_ids r)) - 1"

definition admit_locked ::
  "('g, 'c) cache_ops \<Rightarrow> int \<Rightarrow> 'g req \<Rightarrow> ('g, 'c) adder \<Rightarrow> (add_result option \<times> 'g req \<times> ('g, 'c) adder) res" where
  "admit_locked ops tokens_needed r ad =
     (if real_of_int tokens_needed > rem_total_tokens ad then Ok (Some NO_TOKEN, r, ad)
      else if (case rem_chunk_tokens ad of None \<Rightarrow> True | Some k \<Rightarrow> extend_input_len r \<le> k) \<or> logprob_whole r
      then rbind (lock_and_charge ops r (extend_input_len r) (clipped_new r)
                   (ad\<lparr>can_run_list := can_run_list ad @ [r]\<rparr>)) (\<lambda>ad. Ok (None, r, ad))
      else let trunc_len = (case rem_chunk_tokens ad of None \<Rightarrow> 0 | Some k \<Rightarrow> k)
           in if trunc_len = 0 then Ok (Some OTHER, r, ad)
              else rbind (cut_req trunc_len r) (\<lambda>r.
                   rbind (lock_and_charge ops r trunc_len 0
                     (ad\<lparr>can_run_list := can_run_list ad @ [r], new_being_chunked_req := Some r\<rparr>)) (\<lambda>ad.
                     Ok (None, r, ad))))"

definition add_one_req ::
  "('g, 'c) cache_ops \<Rightarrow> 'g req \<Rightarrow> bool \<Rightarrow> ('g, 'c) adder \<Rightarrow> (add_result \<times> 'g req \<times> ('g, 'c) adder) res" where
  "add_one_req ops r fetch_chunked ad =
     (if ignore_eos (params r) \<and> op_disable ops (ad_cache ad) then add_one_req_ignore_eos_safe r ad
      else let tokens_needed = extend_input_len r + clipped_new r + (if fetch_chunked then prefix_len r else 0)
           in if real_of_int tokens_needed \<ge> rem_total_tokens ad then Ok (NO_TOKEN, r, ad)
              else if extend_input_len r > rem_input_tokens ad \<and> length (can_run_list ad) \<noteq> 0 then Ok (OTHER, r, ad)
              else rbind (with_lock_delta (op_inc_lock ops (last_node r) (ad_cache ad)) ad) (\<lambda>ad.
                   rbind (admit_locked ops tokens_needed r ad) (\<lambda>(early, r', ad).
                   rbind (with_lock_delta (op_dec_lock ops (last_node r) (ad_cache ad)) ad) (\<lambda>ad.
                     Ok (case early of None \<Rightarrow> budget_state ad | Some res \<Rightarrow> res, r', ad)))))"

section \<open>What admission promises\<close>

lemma prefill_one_req_fields [simp]:
  "ad_cache (prefill_one_req p ext new f ad) = ad_cache ad"
  "can_run_list (prefill_one_req p ext new f ad) = can_run_list ad"
  "new_being_chunked_req (prefill_one_req p ext new f ad) = new_being_chunked_req ad"
  "rem_input_tokens (prefill_one_req p ext new f ad) = rem_input_tokens ad - ext"
  "rem_chunk_tokens (prefill_one_req p ext new f ad) = map_option (\<lambda>k. k - ext) (rem_chunk_tokens ad)"
  "rem_total_tokens (prefill_one_req p ext new False ad) = rem_total_tokens ad - real_of_int (ext + new)"
  "cur_rem_tokens (prefill_one_req p ext new False ad) = cur_rem_tokens ad - ext"
  by (simp_all add: prefill_one_req_def Let_def)

lemma cut_req_Ok:
  "cut_req n r = Ok r' \<longleftrightarrow> (\<exists>xs. fill_ids r = Some xs
     \<and> r' = r\<lparr>extend_input_len := n, fill_ids := Some (py_take xs (prefix_len r + n))\<rparr>)"
  by (auto simp: cut_req_def split: option.splits)

text \<open>Either nothing changed and adding stops, or the request (possibly cut) was appended, one lock on
  its last node is held for it, and every budget was charged.\<close>

definition rejected :: "add_result \<Rightarrow> 'g req \<Rightarrow> ('g, 'c) adder \<Rightarrow> 'g req \<Rightarrow> ('g, 'c) adder \<Rightarrow> bool" where
  "rejected res r ad r' ad' \<longleftrightarrow> res \<noteq> CONTINUE \<and> r' = r \<and> ad' = ad"

definition charged :: "int \<Rightarrow> 'g req \<Rightarrow> ('g, 'c) adder \<Rightarrow> int \<Rightarrow> ('g, 'c) adder \<Rightarrow> bool" where
  "charged e r' ad new ad' \<longleftrightarrow> can_run_list ad' = can_run_list ad @ [r']
     \<and> rem_total_tokens ad' = rem_total_tokens ad + real_of_int e - real_of_int (extend_input_len r' + new)
     \<and> cur_rem_tokens ad' = cur_rem_tokens ad - extend_input_len r'
     \<and> rem_input_tokens ad' = rem_input_tokens ad - extend_input_len r'
     \<and> rem_chunk_tokens ad' = map_option (\<lambda>k. k - extend_input_len r') (rem_chunk_tokens ad)"

text \<open>How the request was taken: whole, or cut to what the chunk budget has left.\<close>

definition taken_whole :: "'g req \<Rightarrow> ('g, 'c) adder \<Rightarrow> 'g req \<Rightarrow> ('g, 'c) adder \<Rightarrow> bool" where
  "taken_whole r ad r' ad' \<longleftrightarrow> r' = r \<and> new_being_chunked_req ad' = new_being_chunked_req ad
     \<and> (\<forall>k. rem_chunk_tokens ad = Some k \<longrightarrow> extend_input_len r \<le> k \<or> logprob_whole r)"

definition taken_cut :: "'g req \<Rightarrow> ('g, 'c) adder \<Rightarrow> 'g req \<Rightarrow> ('g, 'c) adder \<Rightarrow> bool" where
  "taken_cut r ad r' ad' \<longleftrightarrow> (\<exists>k xs. rem_chunk_tokens ad = Some k \<and> k \<noteq> 0 \<and> k < extend_input_len r \<and> fill_ids r = Some xs
     \<and> r' = r\<lparr>extend_input_len := k, fill_ids := Some (py_take xs (prefix_len r + k))\<rparr>
     \<and> new_being_chunked_req ad' = Some r' \<and> rem_chunk_tokens ad' = Some 0)"

lemma admit_locked_cases:
  assumes "admit_locked ops need r ad = Ok (early, r', ad')"
  shows "(\<exists>x. early = Some x \<and> x \<noteq> CONTINUE \<and> r' = r \<and> ad' = ad)
    \<or> (\<exists>e c. early = None \<and> op_inc_lock ops (last_node r) (ad_cache ad) = Ok (e, c) \<and> ad_cache ad' = c
        \<and> taken_whole r ad r' ad' \<and> charged 0 r' ad (clipped_new r) ad')
    \<or> (\<exists>e c. early = None \<and> op_inc_lock ops (last_node r) (ad_cache ad) = Ok (e, c) \<and> ad_cache ad' = c
        \<and> taken_cut r ad r' ad' \<and> charged 0 r' ad 0 ad')"
proof -
  consider "real_of_int need > rem_total_tokens ad"
    | "\<not> real_of_int need > rem_total_tokens ad"
      "(case rem_chunk_tokens ad of None \<Rightarrow> True | Some k \<Rightarrow> extend_input_len r \<le> k) \<or> logprob_whole r"
    | k where "\<not> real_of_int need > rem_total_tokens ad" "rem_chunk_tokens ad = Some k" "\<not> extend_input_len r \<le> k" "\<not> logprob_whole r"
    by (cases "rem_chunk_tokens ad") auto
  then show ?thesis
  proof cases
    case 1
    then show ?thesis using assms by (auto simp: admit_locked_def)
  next
    case 2
    then obtain e c where "op_inc_lock ops (last_node r) (ad_cache ad) = Ok (e, c)" "early = None" "r' = r"
      "ad' = prefill_one_req (prefix_len r) (extend_input_len r) (clipped_new r) False
         (ad\<lparr>can_run_list := can_run_list ad @ [r], ad_cache := c\<rparr>)"
      using assms by (auto simp: admit_locked_def lock_and_charge_def elim!: rbind_OkE)
    then show ?thesis using 2 by (auto simp: taken_whole_def charged_def)
  next
    case 3
    show ?thesis
    proof (cases "k = 0")
      case True
      then show ?thesis using 3 assms by (auto simp: admit_locked_def)
    next
      case False
      obtain e c r1 xs where "op_inc_lock ops (last_node r) (ad_cache ad) = Ok (e, c)" "early = None" "r' = r1"
        "fill_ids r = Some xs" "r1 = r\<lparr>extend_input_len := k, fill_ids := Some (py_take xs (prefix_len r + k))\<rparr>"
        "ad' = prefill_one_req (prefix_len r1) k 0 False
           (ad\<lparr>can_run_list := can_run_list ad @ [r1], new_being_chunked_req := Some r1, ad_cache := c\<rparr>)"
        using assms 3 False by (auto simp: admit_locked_def lock_and_charge_def cut_req_Ok elim!: rbind_OkE)
      then show ?thesis using 3 False by (auto simp: taken_cut_def charged_def)
    qed
  qed
qed

context locking_cache
begin

lemma lock_restored:
  assumes inv: "inv c" and i: "op_inc_lock ops nd c = Ok (e, c1)"
  shows "with_lock_delta (op_dec_lock ops nd c1) ad = Ok (ad\<lparr>ad_cache := c, rem_total_tokens := rem_total_tokens ad - real_of_int e\<rparr>)"
  using inc_undo [OF inv i] by (simp add: with_lock_delta_def)

lemma add_one_req_cases:
  assumes inv: "inv (ad_cache ad)" and general: "\<not> (ignore_eos (params r) \<and> op_disable ops (ad_cache ad))"
    and run: "add_one_req ops r fetch ad = Ok (res, r', ad')"
  shows "rejected res r ad r' ad'
    \<or> (\<exists>e c'. op_inc_lock ops (last_node r) (ad_cache ad) = Ok (e, c') \<and> ad_cache ad' = c' \<and> inv c'
        \<and> res = budget_state ad'
        \<and> (taken_whole r ad r' ad' \<and> charged e r' ad (clipped_new r) ad' \<or> taken_cut r ad r' ad' \<and> charged e r' ad 0 ad'))"
proof -
  let ?need = "extend_input_len r + clipped_new r + (if fetch then prefix_len r else 0)"
  consider "real_of_int ?need \<ge> rem_total_tokens ad" | "real_of_int ?need < rem_total_tokens ad"
      "extend_input_len r > rem_input_tokens ad" "length (can_run_list ad) \<noteq> 0"
    | "real_of_int ?need < rem_total_tokens ad" "\<not> (extend_input_len r > rem_input_tokens ad \<and> length (can_run_list ad) \<noteq> 0)"
    by linarith
  then show ?thesis
  proof cases
    case 1
    then show ?thesis using run general by (auto simp: add_one_req_def rejected_def)
  next
    case 2
    then show ?thesis using run general by (auto simp: add_one_req_def rejected_def)
  next
    case 3
    from run general 3 obtain e c1 early ad2 where
      i: "op_inc_lock ops (last_node r) (ad_cache ad) = Ok (e, c1)"
      and b: "admit_locked ops ?need r (ad\<lparr>ad_cache := c1, rem_total_tokens := rem_total_tokens ad + real_of_int e\<rparr>) = Ok (early, r', ad2)"
      and d: "with_lock_delta (op_dec_lock ops (last_node r) (ad_cache ad2)) ad2 = Ok ad'"
      and res: "res = (case early of None \<Rightarrow> budget_state ad' | Some x \<Rightarrow> x)"
      by (auto simp: add_one_req_def with_lock_delta_def not_le elim!: rbind_OkE split: if_splits)
    let ?ad1 = "ad\<lparr>ad_cache := c1, rem_total_tokens := rem_total_tokens ad + real_of_int e\<rparr>"
    have inv1: "inv c1" using inc_size [OF inv i] by simp
    from admit_locked_cases [OF b]
    show ?thesis
    proof (elim disjE exE conjE)
      fix x assume "early = Some x" "x \<noteq> CONTINUE" "r' = r" "ad2 = ?ad1"
      then have "ad' = ad" "res = x" using d res lock_restored [OF inv i, of ad2] by simp_all
      then show ?thesis using \<open>r' = r\<close> \<open>x \<noteq> CONTINUE\<close> by (simp add: rejected_def)
    next
      fix e2 c2 assume a: "early = None" "op_inc_lock ops (last_node r) (ad_cache ?ad1) = Ok (e2, c2)"
        "ad_cache ad2 = c2" "taken_whole r ?ad1 r' ad2" "charged 0 r' ?ad1 (clipped_new r) ad2"
      have i2: "op_inc_lock ops (last_node r) c1 = Ok (e2, c2)" using a(2) by simp
      have "e2 = 0" by (rule inc_twice [OF inv i i2])
      then have "ad' = ad2\<lparr>ad_cache := c1\<rparr>" using lock_restored [OF inv1 i2, of ad2] d a(3) by simp
      then show ?thesis using a i inv1 res by (auto simp: taken_whole_def charged_def)
    next
      fix e2 c2 assume a: "early = None" "op_inc_lock ops (last_node r) (ad_cache ?ad1) = Ok (e2, c2)"
        "ad_cache ad2 = c2" "taken_cut r ?ad1 r' ad2" "charged 0 r' ?ad1 0 ad2"
      have i2: "op_inc_lock ops (last_node r) c1 = Ok (e2, c2)" using a(2) by simp
      have "e2 = 0" by (rule inc_twice [OF inv i i2])
      then have "ad' = ad2\<lparr>ad_cache := c1\<rparr>" using lock_restored [OF inv1 i2, of ad2] d a(3) by simp
      then show ?thesis using a i inv1 res by (auto simp: taken_cut_def charged_def)
    qed
  qed
qed

end

text \<open>C9: Admission is all or nothing.  A request that is turned away leaves the request, the budgets and
  every lock of the radix cache as they were and stops the adding.  An admitted one is last in the
  batch, holds exactly one more lock on its last node, and the budgets are charged with its tokens to
  compute (and, when it is not cut, its clipped new tokens); the total budget also follows the
  evictable size, which the lock may have lowered.\<close>

theorem admission_all_or_nothing:
  assumes ok: "radix_ok (ad_cache ad)" and general: "\<not> (ignore_eos (params r) \<and> rc_disable (ad_cache ad))"
    and run: "add_one_req (radix_ops clock) r fetch ad = Ok (res, r', ad')"
  shows "res \<noteq> CONTINUE \<and> r' = r \<and> ad' = ad
    \<or> (\<exists>e new. radix_inc_lock_ref (last_node r) (ad_cache ad) = Ok (e, ad_cache ad')
        \<and> radix_ok (ad_cache ad') \<and> can_run_list ad' = can_run_list ad @ [r'] \<and> res = budget_state ad'
        \<and> new = (if r' = r then clipped_new r else 0)
        \<and> rem_total_tokens ad' - rem_total_tokens ad
          = real_of_int (radix_evictable_size (ad_cache ad') - radix_evictable_size (ad_cache ad))
            - real_of_int (extend_input_len r' + new)
        \<and> cur_rem_tokens ad' = cur_rem_tokens ad - extend_input_len r'
        \<and> rem_input_tokens ad' = rem_input_tokens ad - extend_input_len r')"
proof -
  have "\<not> (ignore_eos (params r) \<and> op_disable (radix_ops clock) (ad_cache ad))"
    using general by (simp add: radix_ops_def)
  from rl.add_one_req_cases [OF ok this run] show ?thesis
  proof (elim disjE exE conjE)
    assume "rejected res r ad r' ad'"
    then show ?thesis by (simp add: rejected_def)
  next
    fix e c' assume a: "op_inc_lock (radix_ops clock) (last_node r) (ad_cache ad) = Ok (e, c')" "ad_cache ad' = c'" "radix_ok c'"
      "res = budget_state ad'" "taken_whole r ad r' ad'" "charged e r' ad (clipped_new r) ad'"
    have "rc_evictable c' = rc_evictable (ad_cache ad) + e"
      using rl.inc_size [OF ok a(1)] by (simp add: radix_ops_def radix_evictable_size_def)
    then show ?thesis
      using a by (simp add: radix_ops_def radix_evictable_size_def charged_def taken_whole_def)
  next
    fix e c' assume a: "op_inc_lock (radix_ops clock) (last_node r) (ad_cache ad) = Ok (e, c')" "ad_cache ad' = c'" "radix_ok c'"
      "res = budget_state ad'" "taken_cut r ad r' ad'" "charged e r' ad 0 ad'"
    have "rc_evictable c' = rc_evictable (ad_cache ad) + e"
      using rl.inc_size [OF ok a(1)] by (simp add: radix_ops_def radix_evictable_size_def)
    moreover have "r' \<noteq> r" using a(5) by (auto simp: taken_cut_def dest: arg_cong [where f = extend_input_len])
    ultimately show ?thesis
      using a by (simp add: radix_ops_def radix_evictable_size_def charged_def)
  qed
qed

text \<open>C17: The chunk budget holds, and a cut request ends the batch: with the chunk cache, for requests that do
  not ignore the end of the sequence, and with a budget that is not negative, an admitted request (other than one whose prompt log-probabilities are wanted whole) computes at most what
  the budget has left, a request that is cut is remembered for the next round with the fill of exactly
  its prefix and its share, it uses the budget up, and nothing is added after it.\<close>

theorem chunk_budget_respected:
  assumes general: "\<not> ignore_eos (params r)" and k: "rem_chunk_tokens ad = Some k" "0 \<le> k" "\<not> logprob_whole r"
    and run: "add_one_req chunk_ops r fetch ad = Ok (res, r', ad')"
    and added: "can_run_list ad' \<noteq> can_run_list ad"
  shows "extend_input_len r' \<le> k \<and> rem_chunk_tokens ad' = Some (k - extend_input_len r')
    \<and> (r' = r \<or> new_being_chunked_req ad' = Some r' \<and> extend_input_len r' = k \<and> rem_chunk_tokens ad' = Some 0
        \<and> fill_ids r' = map_option (take (length (prefix_indices r) + nat k)) (fill_ids r) \<and> res \<noteq> CONTINUE)"
proof -
  have "\<not> (ignore_eos (params r) \<and> op_disable chunk_ops (ad_cache ad))" using general by simp
  from cl.add_one_req_cases [OF TrueI this run] show ?thesis
  proof (elim disjE exE conjE)
    assume "rejected res r ad r' ad'"
    then show ?thesis using added by (simp add: rejected_def)
  next
    fix e c' assume "taken_whole r ad r' ad'" "charged e r' ad (clipped_new r) ad'"
    then show ?thesis using k by (auto simp: taken_whole_def charged_def)
  next
    fix e c' assume a: "taken_cut r ad r' ad'" "res = budget_state ad'"
    then obtain xs where r': "fill_ids r = Some xs" "r' = r\<lparr>extend_input_len := k, fill_ids := Some (py_take xs (prefix_len r + k))\<rparr>"
      "new_being_chunked_req ad' = Some r'" "rem_chunk_tokens ad' = Some 0"
      using k(1) by (auto simp: taken_cut_def)
    have "py_take xs (prefix_len r + k) = take (length (prefix_indices r) + nat k) xs"
      using k(2) by (simp add: prefix_len_def py_take_nonneg nat_add_distrib)
    moreover have "res \<noteq> CONTINUE" using a(2) r'(4) by (simp add: budget_state_def)
    ultimately show ?thesis using r' by simp
  qed
qed

text \<open>A negative chunk budget is not caught: when the tokens of a mixed decode batch exceed the chunk
  size, a request that passes the other budgets is admitted with a negative number of tokens to
  compute, and the budgets grow.\<close>

theorem negative_chunk_admitted:
  assumes general: "\<not> ignore_eos (params r)" "\<not> logprob_whole r" "fill_ids r = Some xs"
    and k: "rem_chunk_tokens ad = Some k" "k < 0" "0 \<le> extend_input_len r"
    and room: "real_of_int (extend_input_len r + clipped_new r) < rem_total_tokens ad" "can_run_list ad = []"
  shows "\<exists>res r' ad'. add_one_req chunk_ops r False ad = Ok (res, r', ad') \<and> can_run_list ad' = [r']
    \<and> extend_input_len r' = k \<and> cur_rem_tokens ad < cur_rem_tokens ad'"
  using assms
  by (simp add: add_one_req_def with_lock_delta_def chunk_ops_def cc_inc_lock_ref_def cc_dec_lock_ref_def
      admit_locked_def lock_and_charge_def cut_req_def split_beta)

text \<open>The list of running requests' states does not stay sorted: a state larger than all others is put
  before the last one, so the simulation of completions that follows runs on an unsorted list.\<close>

theorem insert_state_unsorted:
  assumes "sts \<noteq> []" "\<forall>s \<in> set sts. fst s < x" "0 < x"
  shows "insert_state (x, occ) sts = butlast sts @ [(x, occ), last sts]
    \<and> \<not> sorted (map fst (insert_state (x, occ) sts))"
proof -
  have pos: "insert_pos x i sts = i + (length sts - 1)" for i
    using assms(1,2)
  proof (induction x i sts rule: insert_pos.induct)
    case (3 x i s t ss)
    then show ?case by auto
  qed auto
  have "drop (length sts - 1) sts = [last sts]"
    using assms(1) by (metis append_butlast_last_id append_eq_conv_conj length_butlast)
  then have eq: "insert_state (x, occ) sts = butlast sts @ [(x, occ), last sts]"
    using pos [of 0] assms(3) by (simp add: insert_state_def butlast_conv_take)
  have "fst (last sts) < x" using assms(1,2) by simp
  then show ?thesis unfolding eq by (simp add: sorted_append)
qed

section \<open>The properties on a concrete request\<close>

definition demo_adder :: "'c \<Rightarrow> int \<Rightarrow> int \<Rightarrow> (unit, 'c) adder" where
  "demo_adder c chunk mixed = adder_init c [] 0 1000 100 (Some chunk) mixed 1"

definition long_req :: "unit req" where
  "long_req = demo_req\<lparr>fill_ids := Some [1, 2, 3, 4, 5, 6], extend_input_len := 6\<rparr>"

lemmas adder_defs = demo_adder_def adder_init_def long_req_def demo_defs clipped_new_def req_max_new_def
  CLIP_MAX_NEW_TOKENS_ESTIMATION_def logprob_whole_def

lemma admission_all_or_nothing_witness:
  "\<exists>res r' ad'. add_one_req (radix_ops demo_clock) (long_req\<lparr>last_node := Some (RadixNode 1), prefix_indices := [5, 6, 7]\<rparr>) False
      (demo_adder demo_radix 4 0) = Ok (res, r', ad')
     \<and> (ad' = demo_adder demo_radix 4 0 \<or> can_run_list ad' = [r'] \<and> res = budget_state ad')"
proof -
  let ?r = "long_req\<lparr>last_node := Some (RadixNode 1), prefix_indices := [5, 6, 7]\<rparr>" and ?ad = "demo_adder demo_radix 4 0"
  have "\<exists>x. add_one_req (radix_ops demo_clock) ?r False ?ad = Ok x"
    by (simp add: add_one_req_def with_lock_delta_def radix_ops_def radix_inc_lock_ref_def radix_dec_lock_ref_def
        change_lock_def demo_radix_eq lock_delta_def admit_locked_def lock_and_charge_def cut_req_def adder_defs
        prefix_len_def)
  then obtain res r' ad' where run: "add_one_req (radix_ops demo_clock) ?r False ?ad = Ok (res, r', ad')" by auto
  have "radix_ok (ad_cache ?ad)" "\<not> (ignore_eos (params ?r) \<and> rc_disable (ad_cache ?ad))" "can_run_list ?ad = []"
    using demo_radix_inv by (simp_all add: radix_ok_def adder_defs)
  from admission_all_or_nothing [OF this(1,2) run] this(3) run show ?thesis by auto
qed

lemma chunk_budget_respected_witness:
  "\<exists>res r' ad'. add_one_req chunk_ops long_req False (demo_adder Map.empty 4 0) = Ok (res, r', ad')
     \<and> extend_input_len r' \<le> 4 \<and> can_run_list ad' \<noteq> []"
proof -
  have "\<exists>x. add_one_req chunk_ops long_req False (demo_adder Map.empty 4 0) = Ok x \<and> can_run_list (snd (snd x)) \<noteq> []"
    by (simp add: add_one_req_def with_lock_delta_def chunk_ops_def cc_inc_lock_ref_def cc_dec_lock_ref_def
        admit_locked_def lock_and_charge_def cut_req_def adder_defs prefix_len_def)
  then obtain res r' ad' where run: "add_one_req chunk_ops long_req False (demo_adder Map.empty 4 0) = Ok (res, r', ad')"
    "can_run_list ad' \<noteq> []" by auto
  have "can_run_list (demo_adder Map.empty 4 0 :: (unit, chunk_cache) adder) = []"
    "rem_chunk_tokens (demo_adder Map.empty 4 0 :: (unit, chunk_cache) adder) = Some 4"
    "\<not> ignore_eos (params long_req)" "\<not> logprob_whole long_req" by (simp_all add: adder_defs)
  then show ?thesis using chunk_budget_respected [OF _ _ _ _ run(1), of 4] run by auto
qed

lemma negative_chunk_admitted_witness:
  "\<exists>res r' ad'. add_one_req chunk_ops long_req False (demo_adder Map.empty 4 7) = Ok (res, r', ad') \<and> extend_input_len r' = - 3"
  using negative_chunk_admitted [of long_req "[1, 2, 3, 4, 5, 6]" "demo_adder Map.empty 4 7" "- 3"]
  by (auto simp: adder_defs)

lemma insert_state_unsorted_witness:
  "insert_state (5, 7) [(1, 2), (3, 4)] = [(1, 2), (5, 7), (3, 4)]
   \<and> \<not> sorted (map fst (insert_state (5, 7) [(1, 2), (3, 4)]))"
  using insert_state_unsorted [of "[(1, 2), (3, 4)]" 5 7] by simp

end
