(* ===== verification/ALP_Scheduler.thy ===== *)
theory ALP_Scheduler
imports Prelude
begin

text \<open>
  The runtime predictor of the adaptive chunk size (\<^verbatim>\<open>ALPScheduler\<close> of
  \<^verbatim>\<open>python/sglang/srt/managers/alp_scheduler.py\<close>): a table of measured execution times per chunk
  size, corrected by a recursive least-squares model of four features that learns online.  Floats are
  reals; a division Python would refuse is an error.  The file the table is stored in is a parameter:
  \<open>bundle\<close> is its parsed contents with every entry optional.
\<close>

section \<open>State\<close>

type_synonym vec4 = "real \<times> real \<times> real \<times> real"
type_synonym mat4 = "vec4 \<times> vec4 \<times> vec4 \<times> vec4"

fun dot4 :: "vec4 \<Rightarrow> vec4 \<Rightarrow> real" where
  "dot4 (a, b, c, d) (e, f, g, h) = a * e + b * f + c * g + d * h"

fun scale4 :: "real \<Rightarrow> vec4 \<Rightarrow> vec4" where
  "scale4 k (a, b, c, d) = (k * a, k * b, k * c, k * d)"

fun add4 :: "vec4 \<Rightarrow> vec4 \<Rightarrow> vec4" where
  "add4 (a, b, c, d) (e, f, g, h) = (a + e, b + f, c + g, d + h)"

fun mat_vec :: "mat4 \<Rightarrow> vec4 \<Rightarrow> vec4" where
  "mat_vec (r0, r1, r2, r3) x = (dot4 r0 x, dot4 r1 x, dot4 r2 x, dot4 r3 x)"

fun vec_mat :: "vec4 \<Rightarrow> mat4 \<Rightarrow> vec4" where
  "vec_mat (x0, x1, x2, x3) (r0, r1, r2, r3) =
     add4 (scale4 x0 r0) (add4 (scale4 x1 r1) (add4 (scale4 x2 r2) (scale4 x3 r3)))"

definition eye4 :: "real \<Rightarrow> mat4" where
  "eye4 d = ((d, 0, 0, 0), (0, d, 0, 0), (0, 0, d, 0), (0, 0, 0, d))"

definition zero4 :: vec4 where
  "zero4 = (0, 0, 0, 0)"

record alp_bundle =
  b_threshold :: "real option"
  b_forget :: "real option"
  b_delta :: "real option"
  b_ctx_scale :: "real option"
  b_prefill_scale :: "real option"
  b_prefix_scale :: "real option"
  b_exec_times :: "int \<rightharpoonup> real"
  b_theta :: "real list option"
  b_cov :: "real list list option"
  b_updates :: "int option"

record alp =
  alp_pp_size :: int
  candidate_chunks :: "int list"
  outlier_threshold :: real
  forget_factor :: real
  rls_delta :: real
  ctx_norm_scale :: real
  prefill_tok_norm_scale :: real
  prefix_sum_norm_scale :: real
  exec_time_by_chunk :: "int \<rightharpoonup> real"
  theta :: vec4
  cov :: mat4
  alp_updates :: int
  runtime_table :: "alp_bundle option"

definition DEFAULT_RUNTIME_OUTLIER_SKIP_THRESHOLD :: real where "DEFAULT_RUNTIME_OUTLIER_SKIP_THRESHOLD = 4 / 10"
definition DEFAULT_FORGET_FACTOR :: real where "DEFAULT_FORGET_FACTOR = 9975 / 10000"
definition DEFAULT_RLS_DELTA :: real where "DEFAULT_RLS_DELTA = 125 / 100"
definition DEFAULT_CTX_NORM_SCALE :: real where "DEFAULT_CTX_NORM_SCALE = 100000"
definition DEFAULT_PREFILL_TOK_NORM_SCALE :: real where "DEFAULT_PREFILL_TOK_NORM_SCALE = 1024 * 1024"
definition DEFAULT_PREFIX_SUM_NORM_SCALE :: real where "DEFAULT_PREFIX_SUM_NORM_SCALE = 1024 * 2048"
definition MIN_RELATIVE_ERROR_DENOM :: real where "MIN_RELATIVE_ERROR_DENOM = 1 / 10 ^ 9"
definition MIN_RLS_DENOM :: real where "MIN_RLS_DENOM = 1 / 10 ^ 12"
definition MIN_EXEC_TIME :: real where "MIN_EXEC_TIME = 1 / 10 ^ 9"
definition INTERFERENCE_BIAS_FEATURE :: real where "INTERFERENCE_BIAS_FEATURE = 1 / 10"

text \<open>Loading: what the table gives replaces the defaults; a shorter parameter vector or matrix
  fills the upper left part.\<close>

definition pad4 :: "vec4 \<Rightarrow> real list \<Rightarrow> vec4" where
  "pad4 old xs = (case old of (a, b, c, d) \<Rightarrow>
     (if 0 < length xs then xs ! 0 else a, if 1 < length xs then xs ! 1 else b,
      if 2 < length xs then xs ! 2 else c, if 3 < length xs then xs ! 3 else d))"

definition pad_mat4 :: "mat4 \<Rightarrow> real list list \<Rightarrow> mat4" where
  "pad_mat4 old rows = (case old of (r0, r1, r2, r3) \<Rightarrow>
     (if 0 < length rows then pad4 r0 (rows ! 0) else r0, if 1 < length rows then pad4 r1 (rows ! 1) else r1,
      if 2 < length rows then pad4 r2 (rows ! 2) else r2, if 3 < length rows then pad4 r3 (rows ! 3) else r3))"

definition or_default :: "'a option \<Rightarrow> 'a \<Rightarrow> 'a" where
  "or_default x d = (case x of None \<Rightarrow> d | Some y \<Rightarrow> y)"

definition load_runtime_table_state :: "alp_bundle option \<Rightarrow> alp \<Rightarrow> alp" where
  "load_runtime_table_state bundle a = (case bundle of
      None \<Rightarrow> a
    | Some b \<Rightarrow>
        let a = a\<lparr>outlier_threshold := or_default (b_threshold b) (outlier_threshold a),
                  forget_factor := or_default (b_forget b) (forget_factor a),
                  rls_delta := or_default (b_delta b) (rls_delta a),
                  ctx_norm_scale := or_default (b_ctx_scale b) (ctx_norm_scale a),
                  prefill_tok_norm_scale := or_default (b_prefill_scale b) (prefill_tok_norm_scale a),
                  prefix_sum_norm_scale := or_default (b_prefix_scale b) (prefix_sum_norm_scale a)\<rparr>;
            table = fold (\<lambda>c t. case b_exec_times b c of None \<Rightarrow> t | Some v \<Rightarrow> t(c \<mapsto> max v MIN_EXEC_TIME))
                      (candidate_chunks a) (exec_time_by_chunk a)
        in a\<lparr>exec_time_by_chunk := table,
             theta := pad4 zero4 (or_default (b_theta b) [0, 0, 0, 0]),
             cov := (case b_cov b of None \<Rightarrow> eye4 (rls_delta a) | Some rows \<Rightarrow> pad_mat4 (eye4 (rls_delta a)) rows),
             alp_updates := or_default (b_updates b) 0\<rparr>)"

definition zero_table :: "int list \<Rightarrow> (int \<rightharpoonup> real)" where
  "zero_table cs = fold (\<lambda>c t. t(c \<mapsto> 0)) cs Map.empty"

text \<open>\<^verbatim>\<open>range(lo, hi + 1, step)\<close> with a positive step.\<close>

definition chunk_range :: "int \<Rightarrow> int \<Rightarrow> int \<Rightarrow> int list" where
  "chunk_range lo hi step = map (\<lambda>k. lo + int k * step) [0..<nat ((hi - lo) div step + 1)]"

definition alp_init :: "int \<Rightarrow> int list option \<Rightarrow> int \<Rightarrow> int \<Rightarrow> int \<Rightarrow> alp_bundle option \<Rightarrow> alp" where
  "alp_init pp chunks lo hi step bundle =
     (let cs = sort (if truthy chunks then opt_list chunks else chunk_range lo hi (max step 1))
      in load_runtime_table_state bundle
           \<lparr>alp_pp_size = pp, candidate_chunks = cs,
            outlier_threshold = DEFAULT_RUNTIME_OUTLIER_SKIP_THRESHOLD, forget_factor = DEFAULT_FORGET_FACTOR,
            rls_delta = DEFAULT_RLS_DELTA, ctx_norm_scale = DEFAULT_CTX_NORM_SCALE,
            prefill_tok_norm_scale = DEFAULT_PREFILL_TOK_NORM_SCALE,
            prefix_sum_norm_scale = DEFAULT_PREFIX_SUM_NORM_SCALE,
            exec_time_by_chunk = zero_table cs, theta = zero4, cov = eye4 DEFAULT_RLS_DELTA,
            alp_updates = 0, runtime_table = bundle\<rparr>)"

definition reset_runtime_calibration :: "alp \<Rightarrow> alp" where
  "reset_runtime_calibration a =
     load_runtime_table_state (runtime_table a)
       (a\<lparr>exec_time_by_chunk := zero_table (candidate_chunks a), theta := zero4, cov := eye4 (rls_delta a),
          alp_updates := 0\<rparr>)"

section \<open>Features, update and prediction\<close>

definition interference_features :: "alp \<Rightarrow> real \<Rightarrow> real \<Rightarrow> real \<Rightarrow> vec4 res" where
  "interference_features a ctx sq pp =
     (if ctx_norm_scale a = 0 \<or> prefill_tok_norm_scale a = 0 \<or> prefix_sum_norm_scale a = 0
      then Err ZeroDivisionError
      else Ok (ctx / ctx_norm_scale a, sq / prefill_tok_norm_scale a, pp / prefix_sum_norm_scale a,
               INTERFERENCE_BIAS_FEATURE))"

definition clip_error :: "real \<Rightarrow> real \<Rightarrow> real \<Rightarrow> real" where
  "clip_error threshold pred err =
     (if threshold > 0
      then let denom = max \<bar>pred\<bar> MIN_RELATIVE_ERROR_DENOM
           in if \<bar>err\<bar> / denom > threshold
              then let m = threshold * denom in min (max err (- m)) m
              else err
      else err)"

definition gain_denom :: "real \<Rightarrow> vec4 \<Rightarrow> vec4 \<Rightarrow> real" where
  "gain_denom ff x px = (let d = ff + dot4 x px in if d < MIN_RLS_DENOM then MIN_RLS_DENOM else d)"

text \<open>One row of the covariance after the update: \<^verbatim>\<open>(p_ij - g_i * xp_j) / ff\<close>.\<close>

fun cov_row :: "real \<Rightarrow> real \<Rightarrow> vec4 \<Rightarrow> vec4 \<Rightarrow> vec4" where
  "cov_row ff g (xp0, xp1, xp2, xp3) (p0, p1, p2, p3) =
     ((p0 - g * xp0) / ff, (p1 - g * xp1) / ff, (p2 - g * xp2) / ff, (p3 - g * xp3) / ff)"

fun cov_next :: "real \<Rightarrow> vec4 \<Rightarrow> vec4 \<Rightarrow> mat4 \<Rightarrow> mat4" where
  "cov_next ff (g0, g1, g2, g3) xp (r0, r1, r2, r3) =
     (cov_row ff g0 xp r0, cov_row ff g1 xp r1, cov_row ff g2 xp r2, cov_row ff g3 xp r3)"

definition rls_step :: "real \<Rightarrow> vec4 \<Rightarrow> alp \<Rightarrow> alp" where
  "rls_step err x a =
     (let px = mat_vec (cov a) x;
          g = scale4 (1 / gain_denom (forget_factor a) x px) px;
          xp = vec_mat x (cov a)
      in a\<lparr>theta := add4 (theta a) (scale4 err g), cov := cov_next (forget_factor a) g xp (cov a),
           alp_updates := alp_updates a + 1\<rparr>)"

definition table_time :: "alp \<Rightarrow> int \<Rightarrow> real" where
  "table_time a c = (case exec_time_by_chunk a c of None \<Rightarrow> 0 | Some t \<Rightarrow> t)"

definition update_runtime_overhead ::
  "real \<Rightarrow> int option \<Rightarrow> real \<Rightarrow> real \<Rightarrow> real \<Rightarrow> alp \<Rightarrow> alp res" where
  "update_runtime_overhead observed chunk ctx sq pp a =
     (case chunk of None \<Rightarrow> Ok a
      | Some c \<Rightarrow>
          if observed \<le> 0 then Ok a
          else if table_time a c \<le> 0 then Ok a
          else rbind (interference_features a ctx sq pp) (\<lambda>x.
               let pred = table_time a c + dot4 (theta a) x;
                   err = clip_error (outlier_threshold a) pred (observed - pred)
               in if forget_factor a = 0 then Err ZeroDivisionError else Ok (rls_step err x a)))"

record chunk_features =
  running_token_max :: real
  selected_decode_ctx_sum :: real
  prefill_square_sum :: real
  prefill_prefix_prod_sum :: real

definition predict_exec_time_for_chunk :: "int \<Rightarrow> chunk_features \<Rightarrow> alp \<Rightarrow> real res" where
  "predict_exec_time_for_chunk c f a =
     (if table_time a c \<le> 0 then Err RuntimeError
      else rbind (interference_features a (selected_decode_ctx_sum f) (prefill_square_sum f) (prefill_prefix_prod_sum f)) (\<lambda>x.
           Ok (max (max (table_time a c) MIN_EXEC_TIME + dot4 (theta a) x) MIN_EXEC_TIME)))"

section \<open>Startup profiling\<close>

definition is_profile_case_feasible :: "alp \<Rightarrow> nat \<Rightarrow> nat \<Rightarrow> nat \<Rightarrow> int \<Rightarrow> int \<Rightarrow> bool" where
  "is_profile_case_feasible a req_pool_size kv_pool_size max_ctx prefill_len prefix_len =
     (if max 1 (alp_pp_size a) > int req_pool_size then False
      else if (prefill_len + prefix_len) * alp_pp_size a > int kv_pool_size then False
      else if prefill_len + prefix_len > int max_ctx then False
      else True)"

text \<open>The measurements of a chunk are aggregated by their maximum; the result is the table written to
  the file.\<close>

definition chunk_measure :: "(int \<times> real) list \<Rightarrow> int \<Rightarrow> (int \<times> real) res" where
  "chunk_measure rows c =
     (let vals = map snd (filter (\<lambda>r. fst r = c) rows)
      in if vals = [] then Err ValueError else Ok (c, Max (set vals)))"

definition aggregate_profile_outputs :: "alp \<Rightarrow> (int \<times> real) list \<Rightarrow> alp_bundle res" where
  "aggregate_profile_outputs a rows =
     (if rows = [] then Err ValueError
      else rbind (mapR (chunk_measure rows) (candidate_chunks a)) (\<lambda>times.
        Ok \<lparr>b_threshold = Some (outlier_threshold a), b_forget = Some (forget_factor a), b_delta = Some (rls_delta a),
            b_ctx_scale = Some (ctx_norm_scale a), b_prefill_scale = Some (prefill_tok_norm_scale a),
            b_prefix_scale = Some (prefix_sum_norm_scale a), b_exec_times = map_of times,
            b_theta = Some [0, 0, 0, 0],
            b_cov = Some [[rls_delta a, 0, 0, 0], [0, rls_delta a, 0, 0], [0, 0, rls_delta a, 0], [0, 0, 0, rls_delta a]],
            b_updates = Some 0\<rparr>))"

section \<open>The covariance stays symmetric and positive semidefinite\<close>

definition qform :: "mat4 \<Rightarrow> vec4 \<Rightarrow> vec4 \<Rightarrow> real" where
  "qform p u w = dot4 u (mat_vec p w)"

definition sym4 :: "mat4 \<Rightarrow> bool" where
  "sym4 p \<longleftrightarrow> (\<forall>u w. qform p u w = qform p w u)"

definition psd4 :: "mat4 \<Rightarrow> bool" where
  "psd4 p \<longleftrightarrow> (\<forall>u. 0 \<le> qform p u u)"

lemma sym4D: "sym4 p \<Longrightarrow> qform p u w = qform p w u"
  unfolding sym4_def by blast

lemma psd4D: "psd4 p \<Longrightarrow> 0 \<le> qform p u u"
  unfolding psd4_def by blast

lemma dot4_comm: "dot4 u w = dot4 w u"
  by (cases u; cases w) simp

lemma dot4_add: "dot4 u (add4 v w) = dot4 u v + dot4 u w"
  by (cases u; cases v; cases w) (simp add: algebra_simps)

lemma dot4_scale: "dot4 u (scale4 k w) = k * dot4 u w"
  by (cases u; cases w) (simp add: algebra_simps)

lemma dot4_add_left: "dot4 (add4 v w) u = dot4 v u + dot4 w u"
  by (simp add: dot4_comm [of _ u] dot4_add)

lemma dot4_scale_left: "dot4 (scale4 k w) u = k * dot4 w u"
  by (simp add: dot4_comm [of _ u] dot4_scale)

lemma qform_rows: "qform (r0, r1, r2, r3) (a, b, c, d) w = a * dot4 r0 w + b * dot4 r1 w + c * dot4 r2 w + d * dot4 r3 w"
  by (simp add: qform_def)

lemma qform_add_right: "qform p u (add4 v w) = qform p u v + qform p u w"
proof -
  obtain r0 r1 r2 r3 a b c d where "p = (r0, r1, r2, r3)" "u = (a, b, c, d)" by (metis prod.exhaust)
  then show ?thesis by (simp add: qform_rows dot4_add algebra_simps)
qed

lemma qform_scale_right: "qform p u (scale4 k w) = k * qform p u w"
proof -
  obtain r0 r1 r2 r3 a b c d where "p = (r0, r1, r2, r3)" "u = (a, b, c, d)" by (metis prod.exhaust)
  then show ?thesis by (simp add: qform_rows dot4_scale algebra_simps)
qed

lemma qform_vec_mat: "dot4 (vec_mat x p) w = qform p x w"
proof -
  obtain r0 r1 r2 r3 a b c d where "p = (r0, r1, r2, r3)" "x = (a, b, c, d)" by (metis prod.exhaust)
  then show ?thesis by (simp add: qform_rows dot4_add_left dot4_scale_left)
qed

lemma qform_cov_next:
  assumes "ff \<noteq> 0"
  shows "qform (cov_next ff g xp p) u w = (qform p u w - dot4 u g * dot4 xp w) / ff"
proof -
  obtain r0 r1 r2 r3 u0 u1 u2 u3 where p: "p = (r0, r1, r2, r3)" and u: "u = (u0, u1, u2, u3)" by (metis prod.exhaust)
  obtain g0 g1 g2 g3 where g: "g = (g0, g1, g2, g3)" by (metis prod.exhaust)
  have row: "dot4 (cov_row ff c xp r) w = (dot4 r w - c * dot4 xp w) / ff" for c r
    using assms by (cases r; cases xp; cases w) (simp add: field_simps)
  show ?thesis
    using assms by (simp add: p u g row qform_rows field_simps)
qed

lemma cauchy_schwarz4:
  assumes "sym4 p" "psd4 p"
  shows "(qform p u x)\<^sup>2 \<le> qform p u u * qform p x x"
proof -
  let ?a = "qform p x x" and ?b = "qform p u x" and ?c = "qform p u u"
  have q: "0 \<le> ?c + 2 * t * ?b + t\<^sup>2 * ?a" for t
  proof -
    let ?v = "add4 u (scale4 t x)"
    have "qform p ?v ?v = qform p ?v u + t * qform p ?v x"
      by (simp add: qform_add_right qform_scale_right)
    also have "qform p ?v u = ?c + t * ?b"
      by (simp add: sym4D [OF assms(1), of ?v] qform_add_right qform_scale_right)
    also have "qform p ?v x = ?b + t * ?a"
      by (simp add: sym4D [OF assms(1), of ?v] sym4D [OF assms(1), of x u] qform_add_right qform_scale_right)
    finally show ?thesis using psd4D [OF assms(2), of ?v] by (simp add: algebra_simps power2_eq_square)
  qed
  have a: "0 \<le> ?a" by (rule psd4D [OF assms(2)])
  show ?thesis
  proof (cases "?a = 0")
    case True
    have "?b = 0"
    proof (rule ccontr)
      assume "?b \<noteq> 0"
      then show False using q [of "- (?c + 1) / (2 * ?b)"] True by (simp add: field_simps)
    qed
    then show ?thesis using True by simp
  next
    case False
    then have "0 < ?a" using a by simp
    then show ?thesis using q [of "- ?b / ?a"] by (simp add: field_simps power2_eq_square)
  qed
qed

lemma eye4_ok: "0 \<le> d \<Longrightarrow> sym4 (eye4 d) \<and> psd4 (eye4 d)"
proof -
  assume "0 \<le> d"
  then have "0 \<le> a * (d * a)" for a using mult_nonneg_nonneg [of d "a * a"] by (simp add: mult.left_commute)
  then show ?thesis by (auto simp: sym4_def psd4_def qform_def eye4_def add_nonneg_nonneg)
qed

definition alp_ok :: "alp \<Rightarrow> bool" where
  "alp_ok a \<longleftrightarrow> sym4 (cov a) \<and> psd4 (cov a) \<and> MIN_RLS_DENOM \<le> forget_factor a"


lemma gain_denom_ok: "alp_ok a \<Longrightarrow> gain_denom (forget_factor a) x (mat_vec (cov a) x) = forget_factor a + qform (cov a) x x
    \<and> 0 < forget_factor a"
proof -
  assume ok: "alp_ok a"
  then have "0 \<le> dot4 x (mat_vec (cov a) x)" using psd4D [of "cov a" x] by (simp add: alp_ok_def qform_def)
  moreover have "0 < MIN_RLS_DENOM" "MIN_RLS_DENOM \<le> forget_factor a"
    using ok by (simp_all add: alp_ok_def MIN_RLS_DENOM_def)
  ultimately show ?thesis by (simp add: gain_denom_def qform_def)
qed



lemma rls_step_ok:
  assumes ok: "alp_ok a"
  shows "alp_ok (rls_step err x a)"
proof -
  let ?p = "cov a" and ?ff = "forget_factor a"
  let ?d = "?ff + qform ?p x x"
  have d: "gain_denom ?ff x (mat_vec ?p x) = ?d" "0 < ?ff" using gain_denom_ok [OF ok, of x] by simp_all
  have xx: "0 \<le> qform ?p x x" using ok psd4D by (simp add: alp_ok_def)
  then have dpos: "0 < ?d" using d by simp
  have q: "qform (cov (rls_step err x a)) u w = (qform ?p u w - qform ?p u x * qform ?p x w / ?d) / ?ff" for u w
    using d by (simp add: rls_step_def Let_def qform_cov_next dot4_scale qform_vec_mat qform_def [of _ u x, symmetric])
  have sym: "qform ?p u w = qform ?p w u" for u w using ok sym4D by (simp add: alp_ok_def)
  have "sym4 (cov (rls_step err x a))"
    unfolding sym4_def using q sym by (metis mult.commute)
  moreover have "0 \<le> qform (cov (rls_step err x a)) u u" for u
  proof -
    have "(qform ?p u x)\<^sup>2 \<le> qform ?p u u * qform ?p x x"
      using cauchy_schwarz4 ok by (simp add: alp_ok_def)
    also have "\<dots> \<le> qform ?p u u * ?d"
      using ok d(2) psd4D by (intro mult_left_mono) (simp_all add: alp_ok_def)
    finally have "qform ?p u x * qform ?p x u / ?d \<le> qform ?p u u"
      using dpos by (simp add: sym [of x u] power2_eq_square divide_le_eq)
    then show ?thesis using d(2) by (simp add: q)
  qed
  ultimately have "psd4 (cov (rls_step err x a))" "sym4 (cov (rls_step err x a))" unfolding psd4_def by blast+
  then show ?thesis using ok by (simp add: alp_ok_def rls_step_def Let_def)
qed

section \<open>What the predictor promises\<close>





lemma fold_table:
  "fold (\<lambda>c t. case f c of None \<Rightarrow> t | Some v \<Rightarrow> t(c \<mapsto> g v)) cs t k
   = (if k \<in> set cs \<and> f k \<noteq> None then Some (g (the (f k))) else t k)"
  by (induction cs arbitrary: t) (auto split: option.splits)

lemma measured_chunk:
  "list_all2 (\<lambda>c y. chunk_measure rows c = Ok y) cs ts \<Longrightarrow> c \<in> set cs \<Longrightarrow>
   map_of ts c = Some (Max (set (map snd (filter (\<lambda>r. fst r = c) rows))))"
proof (induction rule: list_all2_induct)
  case (Cons d ds t ts)
  have t: "t = (d, Max (set (map snd (filter (\<lambda>r. fst r = d) rows))))"
    using Cons(1) by (auto simp: chunk_measure_def Let_def split: if_splits)
  then show ?case using Cons by (cases "c = d") auto
qed simp

lemma update_keeps_ok:
  assumes "update_runtime_overhead obs ch ctx sq pr a = Ok a'" "alp_ok a"
  shows "alp_ok a'"
  using assms
  by (auto simp: update_runtime_overhead_def Let_def intro: rls_step_ok elim!: rbind_OkE split: option.splits if_splits)

definition observe :: "real \<times> int option \<times> real \<times> real \<times> real \<Rightarrow> alp \<Rightarrow> alp res" where
  "observe s a = (case s of (obs, ch, ctx, sq, pr) \<Rightarrow> update_runtime_overhead obs ch ctx sq pr a)"

lemma observe_all_ok: "foldR observe samples a = Ok a' \<Longrightarrow> alp_ok a \<Longrightarrow> alp_ok a'"
proof (induction samples arbitrary: a)
  case (Cons s samples)
  then obtain a1 where "observe s a = Ok a1" "foldR observe samples a1 = Ok a'" by (auto simp: rbind_eq_Ok)
  then show ?case using Cons update_keeps_ok by (auto simp: observe_def split: prod.splits)
qed simp











text \<open>What profiling writes is what a restart reads: from the table aggregated of the measurements a
  scheduler of the same candidates starts with the largest measurement of every chunk, no correction
  and a covariance the learning accepts, and no sequence of observations, whatever their sizes, breaks
  it: the covariance stays valid and every prediction is positive.\<close>

theorem alp_profile_roundtrip:
  assumes a0: "0 \<le> rls_delta a0" "MIN_RLS_DENOM \<le> forget_factor a0" "candidate_chunks a0 = sort cs" "cs \<noteq> []"
    and agg: "aggregate_profile_outputs a0 rows = Ok b"
  shows "(let a = alp_init pp (Some cs) lo hi step (Some b)
     in (\<forall>c \<in> set cs. exec_time_by_chunk a c = Some (max (Max (snd ` {r \<in> set rows. fst r = c})) MIN_EXEC_TIME))
      \<and> theta a = zero4 \<and> alp_updates a = 0
      \<and> (\<forall>samples a'. foldR observe samples a = Ok a' \<longrightarrow>
           alp_ok a' \<and> (\<forall>c f t. predict_exec_time_for_chunk c f a' = Ok t \<longrightarrow> 0 < t)))"
proof -
  obtain ts where ts: "list_all2 (\<lambda>c y. chunk_measure rows c = Ok y) (sort cs) ts"
    and b: "b_exec_times b = map_of ts" "b_theta b = Some [0, 0, 0, 0]" "b_updates b = Some 0"
      "b_cov b = Some [[rls_delta a0, 0, 0, 0], [0, rls_delta a0, 0, 0], [0, 0, rls_delta a0, 0], [0, 0, 0, rls_delta a0]]"
      "b_forget b = Some (forget_factor a0)" "b_delta b = Some (rls_delta a0)"
    using agg a0(3) by (auto simp: aggregate_profile_outputs_def mapR_Ok_iff elim!: rbind_OkE split: if_splits)
  let ?a = "alp_init pp (Some cs) lo hi step (Some b)"
  have cands: "candidate_chunks ?a = sort cs" "cov ?a = eye4 (rls_delta a0)" "theta ?a = zero4"
    "alp_updates ?a = 0" "forget_factor ?a = forget_factor a0"
    using a0(4) b
    by (simp_all add: alp_init_def load_runtime_table_state_def truthy_def or_default_def Let_def pad4_def zero4_def
        pad_mat4_def eye4_def)
  have table: "exec_time_by_chunk ?a c = Some (max (Max (snd ` {r \<in> set rows. fst r = c})) MIN_EXEC_TIME)" if "c \<in> set cs" for c
  proof -
    have m: "map_of ts c = Some (Max (snd ` {r \<in> set rows. fst r = c}))"
      using measured_chunk [OF ts, of c] that by simp
    then show ?thesis
      using a0(4) b(1) that
      by (simp add: alp_init_def load_runtime_table_state_def truthy_def Let_def fold_table [where g = "\<lambda>v. max v MIN_EXEC_TIME"])
  qed
  have "alp_ok ?a" using cands eye4_ok a0 by (simp add: alp_ok_def)
  then have "alp_ok a'" if "foldR observe samples ?a = Ok a'" for samples a' using observe_all_ok that by blast
  moreover have "0 < t" if "predict_exec_time_for_chunk c f a' = Ok t" for c f a' t
    using that by (auto simp: predict_exec_time_for_chunk_def MIN_EXEC_TIME_def less_max_iff_disj elim!: rbind_OkE split: if_splits)
  ultimately show ?thesis using table cands by (simp add: Let_def)
qed

section \<open>The properties on a concrete table\<close>

definition demo_alp :: alp where
  "demo_alp = (alp_init 1 (Some [128]) 0 0 1 None)\<lparr>exec_time_by_chunk := [128 \<mapsto> 1]\<rparr>"

lemmas demo_alp_defs = demo_alp_def alp_init_def load_runtime_table_state_def truthy_def Let_def

lemma demo_alp_ok: "alp_ok demo_alp"
  by (simp add: alp_ok_def demo_alp_defs eye4_ok DEFAULT_RLS_DELTA_def
      DEFAULT_FORGET_FACTOR_def MIN_RLS_DENOM_def)




lemma alp_profile_roundtrip_witness:
  "\<exists>b. aggregate_profile_outputs demo_alp [(128, 1), (128, 3)] = Ok b
     \<and> exec_time_by_chunk (alp_init 1 (Some [128]) 0 0 1 (Some b)) 128 = Some 3"
proof -
  have agg: "\<exists>b. aggregate_profile_outputs demo_alp [(128, 1), (128, 3)] = Ok b"
    by (simp add: aggregate_profile_outputs_def chunk_measure_def demo_alp_defs)
  then obtain b where b: "aggregate_profile_outputs demo_alp [(128, 1), (128, 3)] = Ok b" by blast
  have "0 \<le> rls_delta demo_alp" "MIN_RLS_DENOM \<le> forget_factor demo_alp" "candidate_chunks demo_alp = sort [128]"
    by (simp_all add: demo_alp_defs
        DEFAULT_RLS_DELTA_def DEFAULT_FORGET_FACTOR_def MIN_RLS_DENOM_def)
  moreover have "{r \<in> set [(128, 1), (128, 3)]. fst r = (128 :: int)} = {(128, 1 :: real), (128, 3)}" by auto
  ultimately show ?thesis
    using b alp_profile_roundtrip [OF _ _ _ _ b, of "[128]" 1 0 0 1] by (simp add: Let_def MIN_EXEC_TIME_def)
qed

end
