(* ===== verification/Dynamic_Chunk.thy ===== *)
theory Dynamic_Chunk
imports Schedule_Batch ALP_Scheduler
begin

text \<open>
  The controller of the chunk size (\<^verbatim>\<open>python/sglang/srt/managers/dynamic_chunk_controller.py\<close>):
  its metrics, the greedy strategy, the propagation of the decision to the other workers, and the
  collection of execution-time samples for the runtime predictor.  What the controller reads and
  writes of the scheduler is the record \<open>sched\<close>; the pipeline stages' batches are a list with one entry
  per stage.  Clock readings are arguments.
\<close>

section \<open>State\<close>

record dc_args =
  slo_ttft :: real
  slo_tpot :: real
  base_chunk :: int
  max_chunk :: int
  min_chunk :: int
  dc_kv_threshold :: real
  tpot_violation_ratio :: real
  ttft_low_ratio :: real
  ttft_high_ratio :: real
  tpot_safe_ratio :: real
  alp_fresh_epsilon :: real
  alp_slo_tpot_coeff :: real
  alp_throughput_coeff :: real
  alp_window_sec :: real

record dc =
  dc_alp :: "alp option"
  cur_chunk :: "int option"
  next_chunk :: "int option"
  step_count :: nat
  kv_restore :: "string \<rightharpoonup> int"
  exec_sum :: real
  exec_count :: nat
  table_warned :: bool
  dc_snapshot :: "(real \<times> real \<times> real \<times> real) option"

definition dc_init :: "alp option \<Rightarrow> dc" where
  "dc_init a = \<lparr>dc_alp = a, cur_chunk = None, next_chunk = None, step_count = 0, kv_restore = Map.empty,
     exec_sum = 0, exec_count = 0, table_warned = False, dc_snapshot = None\<rparr>"

definition dc_reset :: "dc \<Rightarrow> dc" where
  "dc_reset d = d\<lparr>step_count := 0, kv_restore := Map.empty, exec_sum := 0, exec_count := 0, table_warned := False\<rparr>"

record ('g, 'm) sched =
  sc_pp_size :: nat
  sc_cur :: nat
  sc_last :: "('g, 'm) batch option list"
  sc_chunked :: "'g req option list"
  sc_waiting :: "'g req list"
  sc_chunk_size :: int
  sc_max_prefill :: int
  sc_ttft :: real
  sc_tpot :: real
  sc_kv_available :: int
  sc_evictable :: int
  sc_max_total :: nat
  sc_mixed :: bool
  sc_qps :: "'g req list"
  sc_start_time :: real
  sc_metrics :: "(real \<times> int \<times> real) option"

definition set_chunked_prefill_size :: "int \<Rightarrow> ('g, 'm) sched \<Rightarrow> ('g, 'm) sched" where
  "set_chunked_prefill_size n s = s\<lparr>sc_chunk_size := n, sc_max_prefill := n\<rparr>"

section \<open>Metrics and guards\<close>

record base_metrics =
  bm_running :: "int list"
  bm_ttft :: "real list"
  bm_tpot :: "real list"
  bm_last :: "nat option"
  bm_kv_free :: real

text \<open>Collecting drains the latencies stored on the stages' batches.\<close>

definition drain_batch :: "('g, 'm) batch option \<Rightarrow> ('g, 'm) batch option" where
  "drain_batch = map_option (\<lambda>b. b\<lparr>b_ttft := [], b_tpot := []\<rparr>)"

definition last_with_tpot :: "('g, 'm) batch option list \<Rightarrow> nat option" where
  "last_with_tpot bs = (case filter (\<lambda>i. case bs ! i of None \<Rightarrow> False | Some b \<Rightarrow> b_tpot b \<noteq> []) [0..<length bs] of
      [] \<Rightarrow> None | i # js \<Rightarrow> Some (last (i # js)))"

definition kv_free_ratio :: "('g, 'm) sched \<Rightarrow> int \<Rightarrow> real res" where
  "kv_free_ratio s used = (if sc_max_total s = 0 then Err ZeroDivisionError
     else Ok (real_of_int (sc_kv_available s + sc_evictable s - used) / real (sc_max_total s)))"

definition opt_reqs :: "('g, 'm) batch option \<Rightarrow> 'g req list" where
  "opt_reqs b = (case b of None \<Rightarrow> [] | Some b \<Rightarrow> b_reqs b)"

definition collect_base_metrics :: "('g, 'm) sched \<Rightarrow> (base_metrics \<times> ('g, 'm) sched) res" where
  "collect_base_metrics s =
     (let bs = sc_last s; running = map (\<lambda>b. int (length (opt_reqs b))) bs
      in rbind (kv_free_ratio s (sum_list running)) (\<lambda>kv_free.
        Ok (\<lparr>bm_running = running,
             bm_ttft = concat (map (\<lambda>b. case b of None \<Rightarrow> [] | Some b \<Rightarrow> b_ttft b) bs),
             bm_tpot = concat (map (\<lambda>b. case b of None \<Rightarrow> [] | Some b \<Rightarrow> b_tpot b) bs),
             bm_last = last_with_tpot bs, bm_kv_free = kv_free\<rparr>,
            s\<lparr>sc_last := map drain_batch bs\<rparr>)))"

definition overruns :: "int \<Rightarrow> ('g, 'm) batch option list \<Rightarrow> bool" where
  "overruns n bs = list_ex (\<lambda>b. case b of None \<Rightarrow> False | Some b \<Rightarrow> n \<le> int (length (b_reqs b))) bs"

definition round_up_128 :: "int \<Rightarrow> int" where
  "round_up_128 n = (n div 128 + 1) * 128"

definition max_or_zero :: "int list \<Rightarrow> int" where
  "max_or_zero ns = (if ns = [] then 0 else Max (set ns))"

definition apply_safety_guard :: "int \<Rightarrow> int list \<Rightarrow> ('g, 'm) sched \<Rightarrow> int" where
  "apply_safety_guard n running s =
     (if overruns n (sc_last s) then round_up_128 (max_or_zero running) else n)"

definition update_kv_pressure_restore_chunk :: "string \<Rightarrow> bool \<Rightarrow> int \<Rightarrow> int \<Rightarrow> int option \<Rightarrow> dc \<Rightarrow> dc" where
  "update_kv_pressure_restore_chunk name pressure cur applied restore d =
     (if pressure
      then case restore of
             None \<Rightarrow> if applied < cur then d\<lparr>kv_restore := (kv_restore d)(name \<mapsto> cur)\<rparr> else d
           | Some r \<Rightarrow> if applied \<ge> r then d\<lparr>kv_restore := (kv_restore d)(name := None)\<rparr> else d
      else case restore of
             None \<Rightarrow> d
           | Some r \<Rightarrow> if applied = r then d\<lparr>kv_restore := (kv_restore d)(name := None)\<rparr> else d)"

section \<open>The greedy strategy\<close>

definition greedy_target :: "dc_args \<Rightarrow> bool \<Rightarrow> int option \<Rightarrow> int list \<Rightarrow> ('g, 'm) sched \<Rightarrow> int" where
  "greedy_target a pressure restore running s =
     (let cur = sc_chunk_size s
      in if pressure then round_up_128 (Min (set running) + 64)
         else case restore of
                Some r \<Rightarrow> r
              | None \<Rightarrow>
                  if sc_tpot s > slo_tpot a * tpot_violation_ratio a \<or> sc_ttft s < slo_ttft a * ttft_low_ratio a
                  then max (cur - base_chunk a) (min_chunk a)
                  else if sc_ttft s > slo_ttft a * ttft_high_ratio a \<and> sc_tpot s < slo_tpot a * tpot_safe_ratio a
                  then min (cur + base_chunk a) (max_chunk a)
                  else cur)"

definition ema :: "real list \<Rightarrow> real \<Rightarrow> real" where
  "ema vals old = (if vals = [] then old else mean vals)"

definition decide_chunk_greedy :: "dc_args \<Rightarrow> ('g, 'm) sched \<Rightarrow> dc \<Rightarrow> (('g, 'm) sched \<times> dc) res" where
  "decide_chunk_greedy a s d =
     rbind (collect_base_metrics s) (\<lambda>(m, s).
       if bm_ttft m = []
       then Ok (case bm_last m of
                  None \<Rightarrow> s
                | Some i \<Rightarrow> s\<lparr>sc_last := (sc_last s)[i := map_option (\<lambda>b. b\<lparr>b_tpot := bm_tpot m\<rparr>) (sc_last s ! i)]\<rparr>, d)
       else let s = s\<lparr>sc_ttft := ema (bm_ttft m) (sc_ttft s), sc_tpot := ema (bm_tpot m) (sc_tpot s)\<rparr>;
                cur = sc_chunk_size s;
                restore = kv_restore d ''heu'';
                pressure = (bm_kv_free m < dc_kv_threshold a)
            in if pressure \<and> bm_running m = [] then Err ValueError
               else let target = apply_safety_guard (greedy_target a pressure restore (bm_running m) s) (bm_running m) s
            in Ok (set_chunked_prefill_size target s,
                   update_kv_pressure_restore_chunk ''heu'' pressure cur target restore d))"

section \<open>Propagation\<close>

datatype sync_msg = ChunkOnly int | ChunkMetrics int "real \<times> int \<times> real"

definition rebalance_metrics_of :: "('g, 'm) sched \<Rightarrow> (real \<times> int \<times> real) res" where
  "rebalance_metrics_of s =
     rbind (kv_free_ratio s 0) (\<lambda>kv_free.
       Ok (sc_tpot s, sum_list (map (\<lambda>r. int (length (origin_input_ids r))) (sc_waiting s)), kv_free))"

text \<open>The sender, and a worker that receives what was sent.\<close>

definition sync_send :: "bool \<Rightarrow> ('g, 'm) sched \<Rightarrow> (sync_msg \<times> ('g, 'm) sched) res" where
  "sync_send dp_attention s =
     (let n = sc_chunk_size s
      in if dp_attention then Ok (ChunkOnly n, set_chunked_prefill_size n (s\<lparr>sc_metrics := None\<rparr>))
         else rbind (rebalance_metrics_of s) (\<lambda>m.
                Ok (ChunkMetrics n m, set_chunked_prefill_size n (s\<lparr>sc_metrics := Some m\<rparr>))))"

fun sync_recv :: "sync_msg \<Rightarrow> ('g, 'm) sched \<Rightarrow> ('g, 'm) sched" where
  "sync_recv (ChunkMetrics n m) s = set_chunked_prefill_size n (s\<lparr>sc_metrics := Some m\<rparr>)"
| "sync_recv (ChunkOnly n) s = set_chunked_prefill_size n (s\<lparr>sc_metrics := None\<rparr>)"

section \<open>Execution-time samples\<close>

text \<open>The features of a batch: its tokens, the context its decoding requests attend to, and the squares
  and prefix products of what its prefilling requests compute.\<close>

definition batch_runtime_features :: "('g, 'm) batch \<Rightarrow> (real \<times> real \<times> real \<times> real) option res" where
  "batch_runtime_features b = (case input_ids b of
      None \<Rightarrow> Ok None
    | Some toks \<Rightarrow>
        if toks = [] then Ok None
        else case b_mode b of
               None \<Rightarrow> Err AttributeError
             | Some mode \<Rightarrow>
                 let dec = (if is_decode mode then b_reqs b
                            else case decoding_reqs b of None \<Rightarrow> [] | Some rs \<Rightarrow> rs);
                     pre = (if is_decode mode then []
                            else filter (\<lambda>r. oid r \<notin> oid ` set dec) (b_reqs b));
                     pre = filter (\<lambda>r. extend_input_len r > 0) pre
                 in Ok (Some (real (length toks),
                       real (sum_list (map (\<lambda>r. length (origin_input_ids r) + length (output_ids r)) dec)),
                       real_of_int (sum_list (map (\<lambda>r. extend_input_len r * extend_input_len r) pre)),
                       real_of_int (sum_list (map (\<lambda>r. extend_input_len r * int (length (prefix_indices r))) pre)))))"

definition stash_batch :: "('g, 'm) batch \<Rightarrow> ('g, 'm) batch res" where
  "stash_batch b = rbind (batch_runtime_features b) (\<lambda>f. Ok (b\<lparr>alp_snapshot := f\<rparr>))"

definition runtime_update_chunk :: "('g, 'm) sched \<Rightarrow> alp option \<Rightarrow> int \<Rightarrow> int option" where
  "runtime_update_chunk s a observed = (case a of
      None \<Rightarrow> None
    | Some a \<Rightarrow> (case candidate_chunks a of
        [] \<Rightarrow> None
      | c # cs \<Rightarrow> if observed \<le> 0 then Some (sc_chunk_size s)
                 else Some (case find (\<lambda>k. observed \<le> k) (c # cs) of Some k \<Rightarrow> k | None \<Rightarrow> last (c # cs))))"

definition feature_score :: "alp \<Rightarrow> bool \<Rightarrow> real \<times> real \<times> real \<times> real \<Rightarrow> real res" where
  "feature_score a learned f = (case f of (_, ctx, sq, pp) \<Rightarrow>
     if \<not> learned then Ok (ctx + sq + pp)
     else rbind (interference_features a ctx sq pp) (\<lambda>x. Ok (dot4 (theta a) x)))"

definition WARMUP_UPDATES :: int where
  "WARMUP_UPDATES = 16"

text \<open>Of the snapshots those of the largest update chunk are considered, and of several the one with the
  largest score is taken.\<close>

definition select_runtime_feature_snapshot ::
  "('g, 'm) sched \<Rightarrow> alp \<Rightarrow> (real \<times> real \<times> real \<times> real) list \<Rightarrow> (real \<times> real \<times> real \<times> real) option res" where
  "select_runtime_feature_snapshot s a fs =
     (let cands = concat (map (\<lambda>f. case runtime_update_chunk s (Some a) \<lfloor>fst f\<rfloor> of None \<Rightarrow> [] | Some c \<Rightarrow> [(f, c)]) fs)
      in if cands = [] then Ok None
         else let m = Max (set (map snd cands)); best = filter (\<lambda>p. snd p = m) cands
              in if length best = 1 then Ok (Some (fst (hd best)))
                 else rbind (mapR (\<lambda>p. feature_score a (alp_updates a \<ge> WARMUP_UPDATES) (fst p)) best) (\<lambda>scores.
                      let scored = zip (map fst best) scores
                      in Ok (Some (fst (first_max_by snd (hd scored) (tl scored))))))"

fun stash_missing :: "('g, 'm) batch option list \<Rightarrow> ('g, 'm) batch option list res" where
  "stash_missing [] = Ok []"
| "stash_missing (None # bs) = rbind (stash_missing bs) (\<lambda>bs. Ok (None # bs))"
| "stash_missing (Some b # bs) =
     rbind (if alp_snapshot b = None then stash_batch b else Ok b) (\<lambda>b.
     rbind (stash_missing bs) (\<lambda>bs. Ok (Some b # bs)))"

definition runtime_exec_sample_snapshot ::
  "('g, 'm) batch option \<Rightarrow> ('g, 'm) sched \<Rightarrow> alp \<Rightarrow> ((real \<times> real \<times> real \<times> real) option \<times> ('g, 'm) batch option \<times> ('g, 'm) sched) res" where
  "runtime_exec_sample_snapshot batch s a =
     (let bs = (sc_last s)[sc_cur s := batch]; valid = concat (map (\<lambda>b. case b of None \<Rightarrow> [] | Some b \<Rightarrow> [b]) bs)
      in if valid = [] \<or> \<not> list_ex (\<lambda>b. case b_mode b of None \<Rightarrow> False | Some mode \<Rightarrow> is_extend mode) valid
         then Ok (None, batch, s)
         else rbind (stash_missing bs) (\<lambda>bs.
              let fs = concat (map (\<lambda>b. case b of None \<Rightarrow> [] | Some b \<Rightarrow> (case alp_snapshot b of None \<Rightarrow> [] | Some f \<Rightarrow> [f])) bs)
              in rbind (select_runtime_feature_snapshot s a fs) (\<lambda>f.
                 Ok (f, if sc_cur s < length bs then bs ! sc_cur s else batch,
                     s\<lparr>sc_last := bs[sc_cur s := (sc_last s @ [None]) ! sc_cur s]\<rparr>))))"

definition pre_step :: "('g, 'm) batch option \<Rightarrow> ('g, 'm) sched \<Rightarrow> dc \<Rightarrow> (('g, 'm) batch option \<times> ('g, 'm) sched \<times> dc) res" where
  "pre_step batch s d = (case dc_alp d of
      None \<Rightarrow> Ok (batch, s, d)
    | Some a \<Rightarrow>
        rbind (case batch of None \<Rightarrow> Ok None | Some b \<Rightarrow> rbind (stash_batch b) (\<lambda>b. Ok (Some b))) (\<lambda>batch.
        rbind (runtime_exec_sample_snapshot batch s a) (\<lambda>(f, batch, s).
          Ok (batch, s, d\<lparr>dc_snapshot := f\<rparr>))))"

definition bucket_128 :: "int \<Rightarrow> int" where
  "bucket_128 n = ((n - 1) div 128 + 1) * 128"

text \<open>A sample counts only if the observed step has as many tokens, in buckets, as the snapshot.\<close>

definition record_runtime_exec_sample ::
  "real \<Rightarrow> real \<Rightarrow> ('g, 'm) batch option \<Rightarrow> ('g, 'm) sched \<Rightarrow> dc \<Rightarrow> dc res" where
  "record_runtime_exec_sample now start batch s d = (case dc_snapshot d of
      None \<Rightarrow> Ok d
    | Some (f0, f1, f2, f3) \<Rightarrow>
        let exec_time = now - start; toks = \<lfloor>f0\<rfloor>;
            inputs = (case batch of None \<Rightarrow> 0 | Some b \<Rightarrow> (case input_ids b of None \<Rightarrow> 0 | Some xs \<Rightarrow> int (length xs)))
        in if exec_time \<le> 0 \<or> toks \<le> 0 \<or> bucket_128 toks \<noteq> bucket_128 inputs then Ok d
           else case runtime_update_chunk s (dc_alp d) toks of
                  None \<Rightarrow> Ok d
                | Some c \<Rightarrow>
                    rbind (case dc_alp d of
                             None \<Rightarrow> Ok None
                           | Some a \<Rightarrow> rbind (update_runtime_overhead exec_time (Some c) f1 f2 f3 a) (\<lambda>a. Ok (Some a))) (\<lambda>a.
                      Ok (d\<lparr>dc_alp := a, exec_sum := exec_sum d + exec_time, exec_count := exec_count d + 1\<rparr>)))"

definition post_step :: "real \<Rightarrow> real \<Rightarrow> ('g, 'm) batch option \<Rightarrow> ('g, 'm) sched \<Rightarrow> dc \<Rightarrow> dc res" where
  "post_step now start batch s d =
     rbind (if dc_alp d = None then Ok d else record_runtime_exec_sample now start batch s d) (\<lambda>d.
       Ok (d\<lparr>dc_snapshot := None, step_count := step_count d + 1\<rparr>))"

definition consume_runtime_exec_samples :: "dc \<Rightarrow> real \<times> dc" where
  "consume_runtime_exec_samples d =
     (if exec_count d > 0 then exec_sum d / real (exec_count d) else 0, d\<lparr>exec_sum := 0, exec_count := 0\<rparr>)"

section \<open>The greedy decision\<close>

definition kv_tight :: "dc_args \<Rightarrow> ('g, 'm) sched \<Rightarrow> bool" where
  "kv_tight a s \<longleftrightarrow> real_of_int (sc_kv_available s + sc_evictable s
       - sum_list (map (\<lambda>b. int (length (opt_reqs b))) (sc_last s))) / real (sc_max_total s) < dc_kv_threshold a"

lemma overruns_iff: "overruns n bs \<longleftrightarrow> (\<exists>b. Some b \<in> set bs \<and> n \<le> int (length (b_reqs b)))"
  by (induction bs) (auto simp: overruns_def split: option.splits)

lemma round_up_128_gt: "n < round_up_128 n"
  by (simp add: round_up_128_def)

lemma guard_exceeds:
  assumes "Some b \<in> set bs" "running = map (\<lambda>b. int (length (opt_reqs b))) bs"
  shows "int (length (b_reqs b)) < round_up_128 (max_or_zero running)"
proof -
  have "int (length (b_reqs b)) \<in> set running" using assms by (force simp: opt_reqs_def)
  then have "int (length (b_reqs b)) \<le> max_or_zero running" by (auto simp: max_or_zero_def)
  then show ?thesis using round_up_128_gt [of "max_or_zero running"] by simp
qed

lemma guarded_not_overrun:
  assumes "running = map (\<lambda>b. int (length (opt_reqs b))) (sc_last s)"
  shows "\<not> overruns (apply_safety_guard n running s) (sc_last s)"
  using guard_exceeds [OF _ assms] by (auto simp: apply_safety_guard_def overruns_iff not_le)

lemma opt_reqs_drain: "opt_reqs (drain_batch b) = opt_reqs b"
  by (simp add: drain_batch_def opt_reqs_def split: option.splits)

lemma overruns_drain [simp]: "overruns n (map drain_batch bs) = overruns n bs"
  by (induction bs) (simp_all add: overruns_def drain_batch_def split: option.splits)

lemma greedy_step:
  assumes "decide_chunk_greedy a s d = Ok (s', d')" "Some b \<in> set (sc_last s)" "b_ttft b \<noteq> []"
  obtains s1 target where
    "sc_chunk_size s1 = sc_chunk_size s" "sc_last s1 = map drain_batch (sc_last s)"
    "target = apply_safety_guard (greedy_target a (kv_tight a s) (kv_restore d ''heu'')
       (map (\<lambda>b. int (length (opt_reqs b))) (sc_last s)) s1) (map (\<lambda>b. int (length (opt_reqs b))) (sc_last s)) s1"
    "s' = set_chunked_prefill_size target s1"
    "d' = update_kv_pressure_restore_chunk ''heu'' (kv_tight a s) (sc_chunk_size s) target (kv_restore d ''heu'') d"
proof -
  let ?ttfts = "concat (map (\<lambda>b. case b of None \<Rightarrow> [] | Some b \<Rightarrow> b_ttft b) (sc_last s))"
  let ?tpots = "concat (map (\<lambda>b. case b of None \<Rightarrow> [] | Some b \<Rightarrow> b_tpot b) (sc_last s))"
  let ?s1 = "s\<lparr>sc_last := map drain_batch (sc_last s), sc_ttft := ema ?ttfts (sc_ttft s), sc_tpot := ema ?tpots (sc_tpot s)\<rparr>"
  have t: "?ttfts \<noteq> []" using assms(2,3) by (auto simp: Bex_def split: option.splits)
  show thesis
    by (rule that [of ?s1, OF _ _ refl], simp_all)
      (insert assms(1) t, auto simp: decide_chunk_greedy_def collect_base_metrics_def kv_free_ratio_def Let_def
        kv_tight_def elim!: rbind_OkE split: if_splits simp del: concat_eq_Nil_conv)
qed

text \<open>C37: After a greedy decision for which a first-token latency was observed, the chunk exceeds the number
  of requests of every stage's batch, so that the next batch has room for more than its decoding
  requests; without memory pressure and without a chunk to restore it stays within the configured bounds
  and moves by at most the base step, unless the guard raised it.  Under pressure a shrunken chunk is
  remembered, and the first decision without pressure restores it and forgets it.\<close>

theorem greedy_chunk_bounds:
  assumes dec: "decide_chunk_greedy a s d = Ok (s', d')" and seen: "Some b \<in> set (sc_last s)" "b_ttft b \<noteq> []"
  shows "\<not> overruns (sc_chunk_size s') (sc_last s') \<and> sc_max_prefill s' = sc_chunk_size s'
    \<and> (\<not> kv_tight a s \<and> kv_restore d ''heu'' = None \<and> 0 \<le> base_chunk a
         \<and> sc_chunk_size s \<in> {min_chunk a..max_chunk a}
       \<longrightarrow> (sc_chunk_size s' \<in> {min_chunk a..max_chunk a} \<and> \<bar>sc_chunk_size s' - sc_chunk_size s\<bar> \<le> base_chunk a
            \<or> (\<exists>n \<in> {min_chunk a..max_chunk a}. overruns n (sc_last s))))
    \<and> (kv_tight a s \<and> kv_restore d ''heu'' = None
       \<longrightarrow> kv_restore d' ''heu'' = (if sc_chunk_size s' < sc_chunk_size s then Some (sc_chunk_size s) else None))
    \<and> (\<not> kv_tight a s \<and> kv_restore d ''heu'' = Some r \<and> \<not> overruns r (sc_last s)
       \<longrightarrow> sc_chunk_size s' = r \<and> kv_restore d' ''heu'' = None)"
proof -
  let ?running = "map (\<lambda>b. int (length (opt_reqs b))) (sc_last s)"
  obtain s1 target where
    s1: "sc_chunk_size s1 = sc_chunk_size s" "sc_last s1 = map drain_batch (sc_last s)"
    and target: "target = apply_safety_guard (greedy_target a (kv_tight a s) (kv_restore d ''heu'') ?running s1) ?running s1"
    and s': "s' = set_chunked_prefill_size target s1"
    and d': "d' = update_kv_pressure_restore_chunk ''heu'' (kv_tight a s) (sc_chunk_size s) target (kv_restore d ''heu'') d"
    using greedy_step [OF dec seen] .
  note ds = s' d' target set_chunked_prefill_size_def apply_safety_guard_def greedy_target_def s1 Let_def
    update_kv_pressure_restore_chunk_def
  have "?running = map (\<lambda>b. int (length (opt_reqs b))) (sc_last s1)"
    by (simp add: s1 opt_reqs_drain comp_def)
  then have "\<not> overruns target (sc_last s1)" unfolding target by (rule guarded_not_overrun)
  then have A: "\<not> overruns (sc_chunk_size s') (sc_last s') \<and> sc_max_prefill s' = sc_chunk_size s'"
    by (simp add: s' set_chunked_prefill_size_def)
  have B: "\<not> kv_tight a s \<and> kv_restore d ''heu'' = None \<and> 0 \<le> base_chunk a
         \<and> sc_chunk_size s \<in> {min_chunk a..max_chunk a}
       \<longrightarrow> (sc_chunk_size s' \<in> {min_chunk a..max_chunk a} \<and> \<bar>sc_chunk_size s' - sc_chunk_size s\<bar> \<le> base_chunk a
            \<or> (\<exists>n \<in> {min_chunk a..max_chunk a}. overruns n (sc_last s)))"
    by (auto simp: ds split: if_splits)
  have C: "kv_tight a s \<and> kv_restore d ''heu'' = None
       \<longrightarrow> kv_restore d' ''heu'' = (if sc_chunk_size s' < sc_chunk_size s then Some (sc_chunk_size s) else None)"
    by (simp add: d' s' set_chunked_prefill_size_def update_kv_pressure_restore_chunk_def)
  have D: "\<not> kv_tight a s \<and> kv_restore d ''heu'' = Some r \<and> \<not> overruns r (sc_last s)
       \<longrightarrow> sc_chunk_size s' = r \<and> kv_restore d' ''heu'' = None"
    by (auto simp: ds)
  show ?thesis using A B C D by blast
qed

definition demo_args :: dc_args where
  "demo_args = \<lparr>slo_ttft = 2, slo_tpot = 1, base_chunk = 128, max_chunk = 2048, min_chunk = 128,
     dc_kv_threshold = 1 / 10, tpot_violation_ratio = 1, ttft_low_ratio = 1 / 2, ttft_high_ratio = 1, tpot_safe_ratio = 1,
     alp_fresh_epsilon = 1 / 2, alp_slo_tpot_coeff = 1, alp_throughput_coeff = 1, alp_window_sec = 10\<rparr>"

definition demo_sched :: "int \<Rightarrow> (unit, unit) batch option list \<Rightarrow> unit req list \<Rightarrow> (unit, unit) sched" where
  "demo_sched n bs waiting = \<lparr>sc_pp_size = length bs, sc_cur = 0, sc_last = bs, sc_chunked = map (\<lambda>_. None) bs,
     sc_waiting = waiting, sc_chunk_size = n, sc_max_prefill = n, sc_ttft = 1, sc_tpot = 1 / 2,
     sc_kv_available = 900, sc_evictable = 0, sc_max_total = 1000, sc_mixed = True, sc_qps = [],
     sc_start_time = 0, sc_metrics = None\<rparr>"

definition demo_stage :: "(unit, unit) batch" where
  "demo_stage = (new_batch 0 [demo_req, demo_req])\<lparr>b_ttft := [3], b_tpot := [1 / 4]\<rparr>"

theorem greedy_chunk_bounds_witness:
  "\<exists>s' d'. decide_chunk_greedy demo_args (demo_sched 512 [Some demo_stage] []) (dc_init None) = Ok (s', d')
     \<and> sc_chunk_size s' = 640 \<and> \<not> overruns (sc_chunk_size s') (sc_last s')"
proof -
  let ?s = "demo_sched 512 [Some demo_stage] []"
  obtain s' d' where r: "decide_chunk_greedy demo_args ?s (dc_init None) = Ok (s', d')" "sc_chunk_size s' = 640"
    by (simp add: decide_chunk_greedy_def collect_base_metrics_def kv_free_ratio_def demo_args_def demo_sched_def
        demo_stage_def opt_reqs_def new_batch_def ema_def mean_def dc_init_def greedy_target_def Let_def
        apply_safety_guard_def overruns_def drain_batch_def set_chunked_prefill_size_def)
  have seen: "Some demo_stage \<in> set (sc_last ?s)" "b_ttft demo_stage \<noteq> []" by (simp_all add: demo_sched_def demo_stage_def)
  show ?thesis using r greedy_chunk_bounds [OF r(1) seen] by blast
qed

end
