(* ===== verification/Chunk_Decision.thy ===== *)
theory Chunk_Decision
imports Dynamic_Chunk
begin

text \<open>
  The model-based strategy of the chunk-size controller
  (\<^verbatim>\<open>python/sglang/srt/managers/dynamic_chunk_controller.py\<close>): the context the prediction of the next
  steps is made in, the features of a candidate chunk, simulated by packing the waiting requests into
  the coming stages, the choice of a candidate, the decision and its dispatch.
\<close>

section \<open>The prediction context\<close>

record stage_ctx =
  st_ctx_sum :: int
  st_mixed :: int
  st_chunked :: "(int \<times> int) option"

type_synonym req_meta = "int \<times> int \<times> bool"

definition prediction_stage_order :: "nat \<Rightarrow> nat \<Rightarrow> nat list" where
  "prediction_stage_order cur pp = map (\<lambda>k. (cur + k) mod pp) [0..<pp]"

definition decode_reqs_for_prediction :: "('g, 'm) batch option \<Rightarrow> 'g req list res" where
  "decode_reqs_for_prediction b = (case b of
      None \<Rightarrow> Ok []
    | Some b \<Rightarrow> rbind (the_obj (b_mode b)) (\<lambda>mode.
        Ok (if is_decode mode then b_reqs b else opt_list (decoding_reqs b))))"

text \<open>The request being chunked on a stage: the stage's own, or the one the previous stage hands over.\<close>

definition own_chunk :: "nat \<Rightarrow> 'g req option \<Rightarrow> 'g req option" where
  "own_chunk i r = (case r of None \<Rightarrow> None | Some r \<Rightarrow> if pp_idx r = int i then Some r else None)"

definition prediction_chunked_req :: "('g, 'm) sched \<Rightarrow> nat \<Rightarrow> 'g req option" where
  "prediction_chunked_req s i = (case own_chunk i (sc_chunked s ! i) of
      Some r \<Rightarrow> Some r
    | None \<Rightarrow> if sc_pp_size s = 1 then None
             else let j = (i + sc_pp_size s - 1) mod sc_pp_size s in own_chunk j (sc_chunked s ! j))"

definition waiting_prefill_lens :: "'g req \<Rightarrow> int \<times> int" where
  "waiting_prefill_lens r =
     (let n = (case fill_ids r of Some f \<Rightarrow> int (length f) | None \<Rightarrow> int (length (origin_input_ids r) + length (output_ids r)));
          p = int (length (prefix_indices r))
      in (p, max (n - p) 0))"

definition chunked_prefill_lens :: "'g req \<Rightarrow> int \<times> int" where
  "chunked_prefill_lens r =
     (let n = int (length (origin_input_ids r) + length (output_ids r));
          p = (case fill_ids r of Some f \<Rightarrow> int (length f) | None \<Rightarrow> int (length (prefix_indices r)))
      in (p, max (n - p) 0))"

definition waiting_req_meta :: "'g req \<Rightarrow> req_meta" where
  "waiting_req_meta r = (case waiting_prefill_lens r of (p, n) \<Rightarrow>
     (p, n, return_logprob r \<and> normalized_prompt_logprob r = None
            \<and> logprob_start_len r \<noteq> int (length (origin_input_ids r)) - 1))"

definition stage_context :: "('g, 'm) sched \<Rightarrow> nat \<Rightarrow> stage_ctx res" where
  "stage_context s i =
     rbind (decode_reqs_for_prediction (sc_last s ! i)) (\<lambda>dec.
       Ok \<lparr>st_ctx_sum = sum_list (map (\<lambda>r. int (length (origin_input_ids r) + length (output_ids r))) dec),
           st_mixed = (if sc_mixed s then int (length dec) else 0),
           st_chunked = map_option chunked_prefill_lens (prediction_chunked_req s i)\<rparr>)"

definition runtime_prediction_context :: "('g, 'm) sched \<Rightarrow> (stage_ctx list \<times> req_meta list) res" where
  "runtime_prediction_context s =
     rbind (mapR (stage_context s) (prediction_stage_order (sc_cur s) (sc_pp_size s))) (\<lambda>stages.
       Ok (stages, map waiting_req_meta (sc_waiting s)))"

section \<open>The features of a candidate chunk\<close>

text \<open>Packing the queue into one stage: the tokens left of the chunk, the prefill tokens packed and
  their squares and prefix products, the requests not yet packed and how much of the first is.\<close>

fun pack_queue ::
  "int \<Rightarrow> int \<times> int \<times> int \<Rightarrow> req_meta list \<Rightarrow> int \<Rightarrow> (int \<times> int \<times> int) \<times> req_meta list \<times> int" where
  "pack_queue left acc [] off = (acc, [], off)"
| "pack_queue left (packed, sq, pp) ((p, n, whole) # ms) off =
     (if left \<le> 0 then ((packed, sq, pp), (p, n, whole) # ms, off)
      else let consumed = max off 0; prefix = p + consumed; n' = max (n - consumed) 0
      in if n' \<le> 0 then pack_queue left (packed, sq, pp) ms 0
         else if n' > left \<and> whole \<and> packed > 0 then ((packed, sq, pp), (p, n, whole) # ms, off)
         else let e = (if n' > left \<and> whole then n' else min n' left);
                  acc = (packed + e, sq + e * e, pp + e * prefix)
              in if e \<ge> n' then pack_queue (left - min e left) acc ms 0
                 else (acc, (p, n, whole) # ms, off + e))"

text \<open>One stage: first the request being chunked; if that does not fit, the stage takes nothing else.\<close>

definition stage_features ::
  "int \<Rightarrow> stage_ctx \<Rightarrow> req_meta list \<times> int \<Rightarrow> chunk_features \<times> req_meta list \<times> int" where
  "stage_features chunk c q =
     (let left = max (chunk - st_mixed c) 0;
          (e, sq, pp, cut) = (case st_chunked c of
              None \<Rightarrow> (0, 0, 0, False)
            | Some (p, n) \<Rightarrow> if left \<le> 0 then (0, 0, 0, False)
                            else let e = min n left in (max e 0, max e 0 * max e 0, max e 0 * p, e < n))
      in if cut then (\<lparr>running_token_max = real_of_int (e + st_mixed c), selected_decode_ctx_sum = real_of_int (st_ctx_sum c),
                       prefill_square_sum = real_of_int sq, prefill_prefix_prod_sum = real_of_int pp\<rparr>, q)
         else case q of (ms, off) \<Rightarrow>
           let left = left - e;
               ((packed, sq, pp), q) = pack_queue left (max (chunk - st_mixed c - left) 0, sq, pp) ms off
           in (\<lparr>running_token_max = real_of_int (packed + st_mixed c), selected_decode_ctx_sum = real_of_int (st_ctx_sum c),
                prefill_square_sum = real_of_int sq, prefill_prefix_prod_sum = real_of_int pp\<rparr>, q))"

fun all_stage_features :: "int \<Rightarrow> stage_ctx list \<Rightarrow> req_meta list \<times> int \<Rightarrow> chunk_features list" where
  "all_stage_features chunk [] q = []"
| "all_stage_features chunk (c # cs) q = (case stage_features chunk c q of (f, q) \<Rightarrow> f # all_stage_features chunk cs q)"

definition candidate_features :: "int \<Rightarrow> stage_ctx list \<times> req_meta list \<Rightarrow> chunk_features" where
  "candidate_features chunk ctx = (case ctx of (stages, ms) \<Rightarrow>
     let fs = all_stage_features chunk stages (ms, 0); n = real (length fs)
     in if fs = [] then \<lparr>running_token_max = 0, selected_decode_ctx_sum = 0, prefill_square_sum = 0, prefill_prefix_prod_sum = 0\<rparr>
        else \<lparr>running_token_max = sum_list (map running_token_max fs) / n,
              selected_decode_ctx_sum = sum_list (map selected_decode_ctx_sum fs) / n,
              prefill_square_sum = sum_list (map prefill_square_sum fs) / n,
              prefill_prefix_prod_sum = sum_list (map prefill_prefix_prod_sum fs) / n\<rparr>)"

section \<open>The choice of a chunk\<close>

text \<open>A required speed is a number or infinite; the product with a coefficient follows IEEE: infinity
  times zero is not a number and no comparison with it holds.\<close>

datatype speed = Finite real | Infinite

fun reaches :: "real \<Rightarrow> speed \<Rightarrow> real \<Rightarrow> bool" where
  "reaches capacity (Finite v) coeff = (capacity \<ge> v * coeff)"
| "reaches capacity Infinite coeff = (coeff < 0)"

datatype choice_reason = Optimal | Best_Effort | Fail_SLO

definition ALP_EPS :: real where
  "ALP_EPS = 1 / 10 ^ 9"

definition capacity_of :: "real \<Rightarrow> int \<Rightarrow> real \<Rightarrow> real" where
  "capacity_of avg chunk t = max (real_of_int chunk - avg) 0 / max t ALP_EPS"

text \<open>Predicting a chunk: a missing measurement ends the choice without a result and is reported once.\<close>

definition predict_chunk :: "alp \<Rightarrow> stage_ctx list \<times> req_meta list \<Rightarrow> int \<Rightarrow> real option res" where
  "predict_chunk a ctx c = (case predict_exec_time_for_chunk c (candidate_features c ctx) a of
      Inl RuntimeError \<Rightarrow> Ok None
    | Inl e \<Rightarrow> Err e
    | Inr t \<Rightarrow> Ok (Some t))"

fun pick_chunk ::
  "(int \<Rightarrow> real option res) \<Rightarrow> (real \<Rightarrow> bool) \<Rightarrow> (int \<Rightarrow> real \<Rightarrow> bool) \<Rightarrow> int option \<Rightarrow> int list
   \<Rightarrow> (int option \<times> choice_reason) option res" where
  "pick_chunk pred safe adequate best [] = Ok (Some (best, Best_Effort))"
| "pick_chunk pred safe adequate best (c # cs) =
     rbind (pred c) (\<lambda>t. case t of
         None \<Rightarrow> Ok None
       | Some t \<Rightarrow> if \<not> safe t then Ok (Some (best, Best_Effort))
                  else if adequate c t then Ok (Some (Some c, Optimal))
                  else pick_chunk pred safe adequate (Some c) cs)"

definition select_alp_chunk ::
  "(int \<Rightarrow> real option res) \<Rightarrow> (real \<Rightarrow> bool) \<Rightarrow> (int \<Rightarrow> real \<Rightarrow> bool) \<Rightarrow> int list \<Rightarrow> (int \<times> choice_reason) option res" where
  "select_alp_chunk pred safe adequate cands =
     rbind (pick_chunk pred safe adequate None (sort cands)) (\<lambda>r. case r of
         None \<Rightarrow> Ok None
       | Some (Some c, why) \<Rightarrow> Ok (Some (c, why))
       | Some (None, _) \<Rightarrow> rbind (py_min cands) (\<lambda>c. Ok (Some (c, Fail_SLO))))"

section \<open>The decision\<close>

definition nothing_to_prefill :: "('g, 'm) sched \<Rightarrow> bool" where
  "nothing_to_prefill s \<longleftrightarrow> sc_waiting s = [] \<and> list_all (\<lambda>i. own_chunk i (sc_chunked s ! i) = None) [0..<sc_pp_size s]"

definition inflow :: "real \<Rightarrow> dc_args \<Rightarrow> ('g, 'm) sched \<Rightarrow> real res" where
  "inflow now a s =
     (let w = min (alp_window_sec a) (now - sc_start_time s);
          rs = filter (\<lambda>r. now - alp_window_sec a \<le> arrival_time r) (sc_qps s)
      in if rs = [] then Ok 0
         else if w = 0 then Err ZeroDivisionError
         else Ok (sum_list (map (\<lambda>r. real (length (origin_input_ids r)) / w) rs)))"

text \<open>A stage's contribution: the rest of the request it is chunking, with its waiting time, and the
  number of its requests without the one being chunked.\<close>

definition stage_load :: "real \<Rightarrow> nat \<Rightarrow> ('g, 'm) batch option \<Rightarrow> 'g req option \<Rightarrow> ((real \<times> int) list \<times> int) res" where
  "stage_load now i b chunk = (case b of
      None \<Rightarrow> Ok ([], 0)
    | Some b \<Rightarrow>
        rbind (case own_chunk i chunk of
                 None \<Rightarrow> Ok []
               | Some r \<Rightarrow> (case fill_ids r of
                     None \<Rightarrow> Err TypeError
                   | Some f \<Rightarrow> Ok [(now - arrival_time r,
                        max (int (length (origin_input_ids r) + length (output_ids r)) - int (length f)) 0)])) (\<lambda>w.
        rbind (case input_ids b of None \<Rightarrow> Err TypeError | Some _ \<Rightarrow> Ok ()) (\<lambda>_.
          Ok (w, int (length (filter (\<lambda>r. chunk = None \<or> oid r \<noteq> oid (the chunk)) (b_reqs b)))))))"

definition stage_loads :: "real \<Rightarrow> ('g, 'm) sched \<Rightarrow> ((real \<times> int) list \<times> int) list res" where
  "stage_loads now s =
     mapR (\<lambda>i. stage_load now i (sc_last s ! i) (sc_chunked s ! i)) [0..<sc_pp_size s]"

definition catch_up_speed :: "dc_args \<Rightarrow> (real \<times> int) list \<Rightarrow> speed res" where
  "catch_up_speed a waits =
     (let stale = filter (\<lambda>w. fst w \<ge> slo_ttft a * alp_fresh_epsilon a) waits;
          tokens = real_of_int (sum_list (map snd stale));
          budget = slo_ttft a - (if stale = [] then 0 else mean (map fst stale))
      in if \<not> tokens > 0 then Ok (Finite 0)
         else if budget \<le> slo_tpot a then Ok Infinite
         else if budget = 0 then Err ZeroDivisionError
         else Ok (Finite (tokens / budget)))"

fun plus_speed :: "speed \<Rightarrow> real \<Rightarrow> speed" where
  "plus_speed (Finite v) w = Finite (v + w)"
| "plus_speed Infinite w = Infinite"

definition min_or_zero :: "int list \<Rightarrow> int" where
  "min_or_zero ns = (if ns = [] then 0 else Min (set ns))"

definition mean_or_zero :: "int list \<Rightarrow> real" where
  "mean_or_zero ns = (if ns = [] then 0 else mean (map real_of_int ns))"

text \<open>The target before the safety guard: \<open>None\<close> when the table has no measurement for a candidate.\<close>

definition alp_target ::
  "dc_args \<Rightarrow> alp \<Rightarrow> ('g, 'm) sched \<Rightarrow> real \<Rightarrow> real \<Rightarrow> (real \<times> int) list \<Rightarrow> int list \<Rightarrow> int option res" where
  "alp_target a p s kvf qps waits running =
     (if kvf < dc_kv_threshold a then Ok (Some (round_up_128 (min_or_zero running + 64)))
      else rbind (catch_up_speed a waits) (\<lambda>v.
           rbind (runtime_prediction_context s) (\<lambda>ctx.
           rbind (select_alp_chunk (predict_chunk p ctx)
                    (\<lambda>t. \<not> t * real (sc_pp_size s) > slo_tpot a * alp_slo_tpot_coeff a)
                    (\<lambda>c t. reaches (capacity_of (mean_or_zero running) c t) (plus_speed v qps) (alp_throughput_coeff a))
                    (candidate_chunks p)) (\<lambda>r.
             Ok (map_option fst r)))))"

definition alp_guard :: "int \<Rightarrow> int list \<Rightarrow> ('g, 'm) sched \<Rightarrow> int" where
  "alp_guard n running s = (if overruns n (sc_last s) then round_up_128 (Max (set running)) else n)"

definition decide_chunk_alp :: "real \<Rightarrow> dc_args \<Rightarrow> ('g, 'm) sched \<Rightarrow> dc \<Rightarrow> (('g, 'm) sched \<times> dc) res" where
  "decide_chunk_alp now a s d = (case dc_alp d of
      None \<Rightarrow> Ok (s, d)
    | Some p \<Rightarrow>
        if nothing_to_prefill s then Ok (s, d)
        else rbind (collect_base_metrics s) (\<lambda>(m, s).
             rbind (inflow now a s) (\<lambda>qps.
             rbind (stage_loads now s) (\<lambda>loads.
               let waits = zip (map (\<lambda>r. now - arrival_time r) (sc_waiting s)) (map (snd \<circ> waiting_prefill_lens) (sc_waiting s))
                           @ concat (map fst loads);
                   running = map snd loads;
                   kvf = real_of_int (max 0 (sc_kv_available s + sc_evictable s - sum_list running)) / real (sc_max_total s);
                   s = s\<lparr>sc_ttft := ema (bm_ttft m) (sc_ttft s), sc_tpot := ema (bm_tpot m) (sc_tpot s)\<rparr>;
                   d = (snd (consume_runtime_exec_samples d))\<lparr>cur_chunk := Some (sc_chunk_size s)\<rparr>
               in rbind (alp_target a p s kvf qps waits running) (\<lambda>t. case t of
                      None \<Rightarrow> Ok (s, d\<lparr>table_warned := True\<rparr>)
                    | Some n \<Rightarrow> let n = alp_guard n running s
                               in Ok (set_chunked_prefill_size n s, d\<lparr>next_chunk := Some n\<rparr>))))))"

text \<open>The dispatch at the start of a scheduler iteration.  The first worker decides; it, and every
  worker under data-parallel attention, sends the size, the others take the message they receive.\<close>

definition decision_due :: "bool \<Rightarrow> nat \<Rightarrow> dc \<Rightarrow> bool" where
  "decision_due use_alp pp d \<longleftrightarrow> step_count d mod (if use_alp then pp * 2 else pp) = 0"

definition decide_chunk_size ::
  "bool \<Rightarrow> bool \<Rightarrow> bool \<Rightarrow> bool \<Rightarrow> real \<Rightarrow> dc_args \<Rightarrow> sync_msg \<Rightarrow> ('g, 'm) sched \<Rightarrow> dc
   \<Rightarrow> (sync_msg option \<times> ('g, 'm) sched \<times> dc) res" where
  "decide_chunk_size enabled use_alp leader dp_attention now a received s d =
     (if \<not> enabled then Ok (None, s, d)
      else if sc_pp_size s = 0 then Err ZeroDivisionError
      else if \<not> decision_due use_alp (sc_pp_size s) d then Ok (None, s, d)
      else rbind (if leader then (if use_alp then decide_chunk_alp now a s d else decide_chunk_greedy a s d) else Ok (s, d))
        (\<lambda>(s, d). if leader \<or> dp_attention
                  then rbind (sync_send dp_attention s) (\<lambda>(msg, s). Ok (Some msg, s, d))
                  else Ok (None, sync_recv received s, d)))"

section \<open>The choice is the least adequate safe chunk\<close>

lemma pick_chunk_fold:
  assumes "\<And>c. c \<in> set cs \<Longrightarrow> pred c = Ok (Some (t c))"
  shows "pick_chunk pred safe adequate best cs =
    (let ok = (\<lambda>c. safe (t c) \<and> \<not> adequate c (t c)); kept = foldl (\<lambda>_ c. Some c) best (takeWhile ok cs)
     in Ok (Some (case dropWhile ok cs of [] \<Rightarrow> (kept, Best_Effort)
          | y # _ \<Rightarrow> if safe (t y) then (Some y, Optimal) else (kept, Best_Effort))))"
  using assms
proof (induction cs arbitrary: best)
  case (Cons c cs)
  then have "pred c = Ok (Some (t c))" by simp
  with Cons show ?case by (cases "safe (t c)"; cases "adequate c (t c)";
        cases "dropWhile (\<lambda>c. safe (t c) \<and> \<not> adequate c (t c)) cs")
      (simp_all add: Let_def del: dropWhile_eq_Nil_conv)
qed (simp add: Let_def)

lemma foldl_last: "foldl (\<lambda>_ c. Some c) best xs = (if xs = [] then best else Some (last xs))"
  by (induction xs arbitrary: best) auto

lemma sorted_split_least:
  assumes "sorted (xs @ y # ys)" "d \<in> set (xs @ y # ys)"
  shows "d < y \<Longrightarrow> d \<in> set xs"
  using assms by (auto simp: sorted_append)

definition chosen :: "(int \<Rightarrow> bool) \<Rightarrow> (int \<Rightarrow> bool) \<Rightarrow> int set \<Rightarrow> int \<Rightarrow> choice_reason \<Rightarrow> bool" where
  "chosen ok adequate cands c why = (c \<in> cands \<and> (case why of
      Optimal \<Rightarrow> adequate c \<and> (\<forall>d \<in> cands. d \<le> c \<longrightarrow> ok d) \<and> (\<forall>d \<in> cands. d < c \<longrightarrow> \<not> adequate d)
    | Best_Effort \<Rightarrow> (\<forall>d \<in> cands. d \<le> c \<longrightarrow> ok d \<and> \<not> adequate d)
         \<and> (\<forall>d \<in> cands. c < d \<longrightarrow> (\<exists>e \<in> cands. c < e \<and> e \<le> d \<and> \<not> ok e))
    | Fail_SLO \<Rightarrow> \<not> ok c \<and> (\<forall>d \<in> cands. c \<le> d)))"

lemma select_alp_chunk_chosen:
  assumes ne: "cands \<noteq> []" and pred: "\<And>c. c \<in> set cands \<Longrightarrow> pred c = Ok (Some (t c))"
  shows "\<exists>c why. select_alp_chunk pred safe adequate cands = Ok (Some (c, why))
     \<and> chosen (\<lambda>c. safe (t c)) (\<lambda>c. adequate c (t c)) (set cands) c why"
proof -
  let ?ok = "\<lambda>c. safe (t c) \<and> \<not> adequate c (t c)"
  define xs ys where "xs = takeWhile ?ok (sort cands)" and "ys = dropWhile ?ok (sort cands)"
  have split: "sort cands = xs @ ys" and sorted: "sorted (xs @ ys)"
    by (simp_all add: xs_def ys_def)
  have set: "set cands = set xs \<union> set ys" using split by (metis set_append set_sort)
  have oks: "x \<in> set xs \<Longrightarrow> ?ok x" for x by (auto simp: xs_def dest: set_takeWhileD)
  have pick: "pick_chunk pred safe adequate None (sort cands) =
     Ok (Some (case ys of [] \<Rightarrow> (if xs = [] then None else Some (last xs), Best_Effort)
          | y # _ \<Rightarrow> if safe (t y) then (Some y, Optimal) else (if xs = [] then None else Some (last xs), Best_Effort)))"
    unfolding xs_def ys_def using pick_chunk_fold [of "sort cands" pred t safe adequate None] pred
    by (simp add: Let_def foldl_last)
  show ?thesis
  proof (cases "\<exists>y zs. ys = y # zs \<and> safe (t y)")
    case True
    then obtain y zs where y: "ys = y # zs" "safe (t y)" by blast
    then have "\<not> ?ok y" using hd_dropWhile [of ?ok "sort cands"] by (simp add: ys_def [symmetric])
    then have "adequate y (t y)" using y by simp
    moreover have "d \<in> set xs" if "d \<in> set cands" "d < y" for d
      using sorted_split_least [of xs y zs d] sorted that y set by auto
    moreover have "d = y \<or> d \<in> set xs" if "d \<in> set cands" "d \<le> y" for d using that calculation(2) by fastforce
    ultimately have "chosen (\<lambda>c. safe (t c)) (\<lambda>c. adequate c (t c)) (set cands) y Optimal"
      using oks y set by (auto simp: chosen_def)
    then show ?thesis using pick y by (auto simp: select_alp_chunk_def)
  next
    case False
    then have best: "pick_chunk pred safe adequate None (sort cands)
       = Ok (Some (if xs = [] then None else Some (last xs), Best_Effort))"
      using pick by (auto split: list.splits)
    have tail: "\<exists>e \<in> set cands. e \<le> d \<and> e \<in> set ys \<and> \<not> safe (t e)" if d: "d \<in> set ys" for d
    proof -
      obtain y zs where y: "ys = y # zs" using d by (cases ys) auto
      then show ?thesis using False sorted d set by (auto simp: sorted_append)
    qed
    show ?thesis
    proof (cases "xs = []")
      case True
      then have ys: "ys = sort cands" using split by simp
      then have "ys \<noteq> []" using ne by (metis set_empty set_sort)
      obtain y zs where y: "ys = y # zs" using \<open>ys \<noteq> []\<close> by (cases ys) auto
      have least: "d \<in> set cands \<Longrightarrow> y \<le> d" for d using sorted y True set by (auto simp: sorted_append)
      have "Min (set cands) = y" using least y set by (intro Min_eqI) auto
      moreover have "\<not> safe (t y)" using False y by blast
      ultimately have "select_alp_chunk pred safe adequate cands = Ok (Some (y, Fail_SLO))"
        using best True ne by (simp add: select_alp_chunk_def py_min_Ok)
      moreover have "chosen (\<lambda>c. safe (t c)) (\<lambda>c. adequate c (t c)) (set cands) y Fail_SLO"
        using \<open>\<not> safe (t y)\<close> least y set by (simp add: chosen_def)
      ultimately show ?thesis by blast
    next
      case False
      let ?c = "last xs"
      have c: "?c \<in> set xs" using False by simp
      have le: "x \<in> set xs \<Longrightarrow> x \<le> ?c" for x
        using sorted False by (metis append_butlast_last_id in_set_conv_nth last_in_set le_less
            length_append_singleton less_Suc_eq_le nth_append_length sorted_append sorted_iff_nth_mono sorted_wrt_append)
      have "d \<in> set xs" if "d \<in> set cands" "d \<le> ?c" for d
      proof (rule ccontr)
        assume "d \<notin> set xs"
        then have "d \<in> set ys" using that set by auto
        then have "?c \<le> d" using sorted c by (auto simp: sorted_append)
        then have "d = ?c" using that by simp
        then show False using c \<open>d \<notin> set xs\<close> by simp
      qed
      moreover have "\<exists>e \<in> set cands. ?c < e \<and> e \<le> d \<and> \<not> safe (t e)" if "d \<in> set cands" "?c < d" for d
      proof -
        have "d \<in> set ys" using that set le by force
        then obtain e where e: "e \<in> set cands" "e \<le> d" "e \<in> set ys" "\<not> safe (t e)" using tail by blast
        then have "?c \<le> e" using sorted c by (auto simp: sorted_append)
        moreover have "?c \<noteq> e" using e(4) oks [OF c] by auto
        ultimately show ?thesis using e by force
      qed
      ultimately have "chosen (\<lambda>c. safe (t c)) (\<lambda>c. adequate c (t c)) (set cands) ?c Best_Effort"
        using oks c set by (auto simp: chosen_def)
      moreover have "select_alp_chunk pred safe adequate cands = Ok (Some (?c, Best_Effort))"
        using best False by (simp add: select_alp_chunk_def)
      ultimately show ?thesis by blast
    qed
  qed
qed

text \<open>A runtime table that measured every candidate lets every prediction succeed.\<close>

definition alp_ready :: "alp \<Rightarrow> bool" where
  "alp_ready p \<longleftrightarrow> candidate_chunks p \<noteq> [] \<and> (\<forall>c \<in> set (candidate_chunks p). 0 < table_time p c)
     \<and> ctx_norm_scale p \<noteq> 0 \<and> prefill_tok_norm_scale p \<noteq> 0 \<and> prefix_sum_norm_scale p \<noteq> 0"

lemma predict_chunk_Ok:
  assumes "alp_ready p" "c \<in> set (candidate_chunks p)"
  shows "\<exists>t. predict_exec_time_for_chunk c (candidate_features c ctx) p = Ok t \<and> predict_chunk p ctx c = Ok (Some t)"
  using assms by (auto simp: predict_chunk_def predict_exec_time_for_chunk_def interference_features_def alp_ready_def
      dest!: bspec)

text \<open>C35: With memory to spare and a complete runtime table the model-based strategy always decides, and
  for the predicted times of the candidates it takes the smallest chunk that reaches the required speed
  if every chunk up to it keeps the latency target; otherwise the largest chunk below the first that
  misses the target; and the smallest candidate when even that one misses it.\<close>

theorem alp_target_meets_slo:
  assumes ready: "alp_ready p" and room: "\<not> kvf < dc_kv_threshold a"
    and v: "catch_up_speed a waits = Ok v" and ctx: "runtime_prediction_context s = Ok ctx"
  shows "\<exists>c why t. alp_target a p s kvf qps waits running = Ok (Some c)
     \<and> (\<forall>d \<in> set (candidate_chunks p). predict_exec_time_for_chunk d (candidate_features d ctx) p = Ok (t d))
     \<and> chosen (\<lambda>d. t d * real (sc_pp_size s) \<le> slo_tpot a * alp_slo_tpot_coeff a)
         (\<lambda>d. reaches (capacity_of (mean_or_zero running) d (t d)) (plus_speed v qps) (alp_throughput_coeff a))
         (set (candidate_chunks p)) c why"
proof -
  obtain t where t: "\<And>c. c \<in> set (candidate_chunks p) \<Longrightarrow>
     predict_exec_time_for_chunk c (candidate_features c ctx) p = Ok (t c) \<and> predict_chunk p ctx c = Ok (Some (t c))"
    using predict_chunk_Ok [OF ready, where ctx = ctx] by metis
  have ne: "candidate_chunks p \<noteq> []" using ready by (simp add: alp_ready_def)
  obtain c why where sel: "select_alp_chunk (predict_chunk p ctx)
        (\<lambda>t. \<not> t * real (sc_pp_size s) > slo_tpot a * alp_slo_tpot_coeff a)
        (\<lambda>c t. reaches (capacity_of (mean_or_zero running) c t) (plus_speed v qps) (alp_throughput_coeff a))
        (candidate_chunks p) = Ok (Some (c, why))"
    "chosen (\<lambda>d. \<not> t d * real (sc_pp_size s) > slo_tpot a * alp_slo_tpot_coeff a)
       (\<lambda>d. reaches (capacity_of (mean_or_zero running) d (t d)) (plus_speed v qps) (alp_throughput_coeff a))
       (set (candidate_chunks p)) c why"
    using select_alp_chunk_chosen [OF ne, of "predict_chunk p ctx" t
        "\<lambda>t. \<not> t * real (sc_pp_size s) > slo_tpot a * alp_slo_tpot_coeff a"
        "\<lambda>c t. reaches (capacity_of (mean_or_zero running) c t) (plus_speed v qps) (alp_throughput_coeff a)"] t
    by blast
  then have "alp_target a p s kvf qps waits running = Ok (Some c)"
    using room v ctx by (simp add: alp_target_def)
  then show ?thesis using sel(2) t unfolding not_less by blast
qed

section \<open>The simulated packing\<close>

definition queue_left :: "req_meta list \<Rightarrow> int \<Rightarrow> int" where
  "queue_left ms off = (case ms of [] \<Rightarrow> 0
     | (p, n, w) # ms \<Rightarrow> max (n - max off 0) 0 + sum_list (map (\<lambda>(p, n, w). max n 0) ms))"

lemma queue_left_simps [simp]:
  "queue_left [] off = 0"
  "queue_left ((p, n, w) # ms) off = max (n - max off 0) 0 + queue_left ms 0"
  by (auto simp: queue_left_def split: list.splits)

lemma pack_queue_full: "left \<le> 0 \<Longrightarrow> pack_queue left acc ms off = (acc, ms, off)"
  by (cases acc; cases ms) auto

lemma pack_queue_step:
  assumes "0 < left" "0 \<le> off" "n' = max (n - off) 0"
  shows "pack_queue left (packed, sq, pp) ((p, n, whole) # ms) off =
    (if n' = 0 then pack_queue left (packed, sq, pp) ms 0
     else if n' \<le> left then pack_queue (left - n') (packed + n', sq + n' * n', pp + n' * (p + off)) ms 0
     else if \<not> whole then ((packed + left, sq + left * left, pp + left * (p + off)), (p, n, whole) # ms, off + left)
     else if packed > 0 then ((packed, sq, pp), (p, n, whole) # ms, off)
     else ((packed + n', sq + n' * n', pp + n' * (p + off)), ms, 0))"
  using assms by (auto simp: Let_def pack_queue_full)

lemma pack_queue_sound:
  assumes "pack_queue left (packed, sq, pp) ms off = ((packed', sq', pp'), ms', off')"
    and "0 \<le> packed" "0 \<le> off" "0 \<le> left"
  shows "packed' + queue_left ms' off' = packed + queue_left ms off \<and> packed \<le> packed' \<and> 0 \<le> off'
    \<and> (packed' \<le> packed + left \<or> packed = 0 \<and> (\<exists>p n. (p, n, True) \<in> set ms \<and> left < n \<and> packed' \<le> n))"
  using assms
proof (induction ms arbitrary: left packed sq pp off)
  case (Cons m ms)
  obtain p n whole where m: "m = (p, n, whole)" by (metis prod.exhaust)
  define k where "k = max (n - off) 0"
  have k: "0 \<le> k" "k \<le> max n 0" using Cons.prems by (auto simp: k_def)
  show ?case
  proof (cases "left = 0")
    case True
    then show ?thesis using Cons.prems by (simp add: pack_queue_full)
  next
    case False
    then have run: "(if k = 0 then pack_queue left (packed, sq, pp) ms 0
       else if k \<le> left then pack_queue (left - k) (packed + k, sq + k * k, pp + k * (p + off)) ms 0
       else if \<not> whole then ((packed + left, sq + left * left, pp + left * (p + off)), (p, n, whole) # ms, off + left)
       else if packed > 0 then ((packed, sq, pp), (p, n, whole) # ms, off)
       else ((packed + k, sq + k * k, pp + k * (p + off)), ms, 0)) = ((packed', sq', pp'), ms', off')"
      using pack_queue_step [of left off k n packed sq pp p whole ms] Cons.prems m k_def by simp
    consider (skip) "k = 0" | (take) "k \<noteq> 0" "k \<le> left" | (other) "k > left" by linarith
    then show ?thesis
    proof cases
      case skip
      then have "pack_queue left (packed, sq, pp) ms 0 = ((packed', sq', pp'), ms', off')" using run by simp
      from Cons.IH [OF this] show ?thesis using skip Cons.prems m by (auto simp: k_def)
    next
      case take
      then have "pack_queue (left - k) (packed + k, sq + k * k, pp + k * (p + off)) ms 0
          = ((packed', sq', pp'), ms', off')" using run by simp
      from Cons.IH [OF this] show ?thesis using take Cons.prems m k by (auto simp: k_def [symmetric])
    next
      case other
      then show ?thesis using run Cons.prems m False
        by (auto simp: k_def split: if_splits) (rule exI [of _ p], rule exI [of _ n], simp)
    qed
  qed
qed simp

lemma all_stage_length: "length (all_stage_features chunk cs q) = length cs"
  by (induction cs arbitrary: q) (auto split: prod.splits)

text \<open>What one stage is predicted to prefill of the request it is chunking.\<close>

definition chunk_part :: "int \<Rightarrow> stage_ctx \<Rightarrow> int" where
  "chunk_part chunk c = (case st_chunked c of None \<Rightarrow> 0 | Some (p, n) \<Rightarrow> min n (max (chunk - st_mixed c) 0))"

definition stage_ok :: "stage_ctx \<Rightarrow> bool" where
  "stage_ok c \<longleftrightarrow> 0 \<le> st_mixed c \<and> (case st_chunked c of None \<Rightarrow> True | Some (p, n) \<Rightarrow> 0 \<le> n)"

text \<open>The simulated packing neither invents nor loses tokens: the step size predicted for a stage is its
  decoding tokens, its share of the request being chunked, and exactly the tokens it takes from the
  waiting queue, in order; it stays within the candidate chunk, unless the decoding tokens alone exceed it
  or a request that may not be cut for its log-probabilities is taken whole into an empty step.\<close>

theorem stage_packing_sound:
  assumes run: "stage_features chunk c (ms, off) = (f, ms', off')" and ok: "stage_ok c" "0 \<le> off"
  shows "running_token_max f = real_of_int (st_mixed c + chunk_part chunk c + (queue_left ms off - queue_left ms' off'))
    \<and> queue_left ms' off' \<le> queue_left ms off \<and> 0 \<le> off'
    \<and> (running_token_max f \<le> real_of_int (max chunk (st_mixed c))
       \<or> (\<exists>p n. (p, n, True) \<in> set ms \<and> chunk < st_mixed c + n \<and> running_token_max f \<le> real_of_int (st_mixed c + n)))"
proof -
  define left where "left = max (chunk - st_mixed c) 0"
  have left: "0 \<le> left" by (simp add: left_def)
  obtain e sq pp cut where e: "(case st_chunked c of
              None \<Rightarrow> (0, 0, 0, False)
            | Some (p, n) \<Rightarrow> if left \<le> 0 then (0, 0, 0, False)
                            else let e = min n left in (max e 0, max e 0 * max e 0, max e 0 * p, e < n)) = (e, sq, pp, cut)"
    by (rule prod_cases4)
  have part: "e = chunk_part chunk c" "0 \<le> e" "e \<le> left" "cut \<Longrightarrow> 0 < left \<and> e = left"
    using e ok left by (auto simp: chunk_part_def stage_ok_def left_def Let_def split: option.splits if_splits)
  show ?thesis
  proof (cases cut)
    case True
    then show ?thesis
      using run ok part by (auto simp: stage_features_def left_def [symmetric] e Let_def) (simp_all add: left_def)
  next
    case False
    obtain packed sq' pp' where pack: "pack_queue (left - e) (max (chunk - st_mixed c - (left - e)) 0, sq, pp) ms off
        = ((packed, sq', pp'), ms', off')" and f: "running_token_max f = real_of_int (packed + st_mixed c)"
      using run False by (auto simp: stage_features_def left_def [symmetric] e Let_def split: prod.splits)
    have packed0: "max (chunk - st_mixed c - (left - e)) 0 = e" using part left by (auto simp: left_def)
    have "0 \<le> left - e" using part by simp
    note sound = pack_queue_sound [OF pack [unfolded packed0] part(2) ok(2) this]
    have packed: "packed = chunk_part chunk c + (queue_left ms off - queue_left ms' off')"
      and mono: "queue_left ms' off' \<le> queue_left ms off" "0 \<le> off'"
      using sound part(1) by linarith+
    have m: "0 \<le> st_mixed c" using ok(1) by (simp add: stage_ok_def)
    have "packed \<le> left \<or> (\<exists>p n. (p, n, True) \<in> set ms \<and> left < n \<and> packed \<le> n)" using sound by auto
    then have "packed + st_mixed c \<le> max chunk (st_mixed c)
       \<or> (\<exists>p n. (p, n, True) \<in> set ms \<and> chunk < st_mixed c + n \<and> packed + st_mixed c \<le> st_mixed c + n)"
    proof
      assume "packed \<le> left"
      then show ?thesis using m unfolding left_def by linarith
    next
      assume "\<exists>p n. (p, n, True) \<in> set ms \<and> left < n \<and> packed \<le> n"
      then obtain p n where "(p, n, True) \<in> set ms" "left < n" "packed \<le> n" by blast
      moreover from this have "chunk < st_mixed c + n" "packed + st_mixed c \<le> st_mixed c + n"
        unfolding left_def by linarith+
      ultimately show ?thesis by blast
    qed
    then have "running_token_max f \<le> real_of_int (max chunk (st_mixed c))
       \<or> (\<exists>p n. (p, n, True) \<in> set ms \<and> chunk < st_mixed c + n \<and> running_token_max f \<le> real_of_int (st_mixed c + n))"
      unfolding f of_int_le_iff .
    moreover have "running_token_max f = real_of_int (st_mixed c + chunk_part chunk c + (queue_left ms off - queue_left ms' off'))"
      unfolding f packed by simp
    ultimately show ?thesis using mono by blast
  qed
qed

section \<open>The guard of the model-based decision\<close>

text \<open>The requests of a stage without the one being chunked, which the guard counts.\<close>

definition others :: "'g req option \<Rightarrow> ('g, 'm) batch \<Rightarrow> 'g req list" where
  "others chunk b = filter (\<lambda>r. chunk = None \<or> oid r \<noteq> oid (the chunk)) (b_reqs b)"

lemma stage_load_count:
  "stage_load now i (Some b) chunk = Ok (w, n) \<Longrightarrow> n = int (length (others chunk b))"
  by (auto simp: stage_load_def others_def elim!: rbind_OkE split: option.splits)

lemma stage_loads_nth:
  assumes "stage_loads now s = Ok loads" "i < sc_pp_size s"
  shows "stage_load now i (sc_last s ! i) (sc_chunked s ! i) = Ok (loads ! i) \<and> i < length loads"
  using assms by (auto simp: stage_loads_def mapR_Ok_iff list_all2_conv_all_nth)

lemma alp_guard_exceeds:
  assumes loads: "stage_loads now s = Ok loads" and len: "length (sc_last s) = sc_pp_size s"
    and b: "i < sc_pp_size s" "sc_last s ! i = Some b"
  shows "int (length (others (sc_chunked s ! i) b)) < alp_guard n (map snd loads) s"
proof (cases "overruns n (sc_last s)")
  case True
  have "snd (loads ! i) = int (length (others (sc_chunked s ! i) b))" "i < length loads"
    using stage_loads_nth [OF loads b(1)] b(2) by (metis prod.collapse stage_load_count)+
  then have "int (length (others (sc_chunked s ! i) b)) \<in> set (map snd loads)"
    by (metis length_map nth_map nth_mem)
  then have "int (length (others (sc_chunked s ! i) b)) \<le> Max (set (map snd loads))" by (intro Max_ge) auto
  then show ?thesis using round_up_128_gt [of "Max (set (map snd loads))"] True by (simp add: alp_guard_def)
next
  case False
  have "Some b \<in> set (sc_last s)" using b len by (metis nth_mem)
  then have "int (length (b_reqs b)) < n" using False by (auto simp: overruns_iff)
  moreover have "length (others (sc_chunked s ! i) b) \<le> length (b_reqs b)" by (simp add: others_def)
  ultimately show ?thesis using False by (simp add: alp_guard_def)
qed

lemma decide_alp_cases:
  assumes "decide_chunk_alp now a s d = Ok (s', d')"
  obtains (same) "sc_chunk_size s' = sc_chunk_size s" "sc_max_prefill s' = sc_max_prefill s"
  | (decided) s1 loads n where "sc_last s1 = map drain_batch (sc_last s)" "sc_pp_size s1 = sc_pp_size s"
      "sc_chunked s1 = sc_chunked s" "stage_loads now s1 = Ok loads" "sc_last s' = sc_last s1"
      "sc_chunk_size s' = alp_guard n (map snd loads) s1" "sc_max_prefill s' = sc_chunk_size s'"
      "next_chunk d' = Some (sc_chunk_size s')" "dc_alp d \<noteq> None" "\<not> nothing_to_prefill s"
proof (cases "dc_alp d = None \<or> nothing_to_prefill s")
  case True
  then show thesis using assms same by (auto simp: decide_chunk_alp_def split: option.splits)
next
  case False
  then obtain p where p: "dc_alp d = Some p" by auto
  have m: "collect_base_metrics s = Ok (m, s1) \<Longrightarrow> s1 = s\<lparr>sc_last := map drain_batch (sc_last s)\<rparr>" for m s1
    by (auto simp: collect_base_metrics_def Let_def elim!: rbind_OkE)
  obtain mm where mm: "collect_base_metrics s = Ok (mm, s\<lparr>sc_last := map drain_batch (sc_last s)\<rparr>)"
    using assms False p m by (fastforce simp: decide_chunk_alp_def elim!: rbind_OkE)
  let ?s0 = "s\<lparr>sc_last := map drain_batch (sc_last s)\<rparr>"
  let ?s1 = "?s0\<lparr>sc_ttft := ema (bm_ttft mm) (sc_ttft s), sc_tpot := ema (bm_tpot mm) (sc_tpot s)\<rparr>"
  have keep: "stage_loads now ?s1 = stage_loads now ?s0" by (simp add: stage_loads_def)
  have run: "rbind (inflow now a ?s0) (\<lambda>qps. rbind (stage_loads now ?s0) (\<lambda>loads.
      rbind (alp_target a p ?s1 (real_of_int (max 0 (sc_kv_available s + sc_evictable s - sum_list (map snd loads))) / real (sc_max_total s))
         qps (zip (map (\<lambda>r. now - arrival_time r) (sc_waiting s)) (map (snd \<circ> waiting_prefill_lens) (sc_waiting s)) @ concat (map fst loads))
         (map snd loads))
       (\<lambda>t. case t of None \<Rightarrow> Ok (?s1, (snd (consume_runtime_exec_samples d))\<lparr>cur_chunk := Some (sc_chunk_size s), table_warned := True\<rparr>)
          | Some n \<Rightarrow> Ok (set_chunked_prefill_size (alp_guard n (map snd loads) ?s1) ?s1,
              (snd (consume_runtime_exec_samples d))\<lparr>cur_chunk := Some (sc_chunk_size s),
                 next_chunk := Some (alp_guard n (map snd loads) ?s1)\<rparr>)))) = Ok (s', d')"
    using assms False p mm by (simp add: decide_chunk_alp_def Let_def comp_def cong: option.case_cong)
  then obtain loads t where l: "stage_loads now ?s0 = Ok loads"
    and res: "(case t of None \<Rightarrow> Ok (?s1, (snd (consume_runtime_exec_samples d))\<lparr>cur_chunk := Some (sc_chunk_size s), table_warned := True\<rparr>)
          | Some n \<Rightarrow> Ok (set_chunked_prefill_size (alp_guard n (map snd loads) ?s1) ?s1,
              (snd (consume_runtime_exec_samples d))\<lparr>cur_chunk := Some (sc_chunk_size s),
                 next_chunk := Some (alp_guard n (map snd loads) ?s1)\<rparr>)) = Ok (s', d')"
    by (elim rbind_OkE) blast
  show thesis
  proof (cases t)
    case None
    then show ?thesis using res same by auto
  next
    case (Some n)
    then show ?thesis
      using res False p l keep
      by (intro decided [of ?s1 loads n]) (auto simp: set_chunked_prefill_size_def)
  qed
qed

text \<open>After a model-based decision the chunk exceeds, on every stage, the number of requests besides the
  one being chunked; the sizes of prefill and chunk agree, and without a decision both stay.\<close>

theorem alp_decision_guarded:
  assumes dec: "decide_chunk_alp now a s d = Ok (s', d')" and len: "length (sc_last s) = sc_pp_size s"
    and i: "i < sc_pp_size s" "sc_last s ! i = Some b"
  shows "sc_chunk_size s' = sc_chunk_size s \<and> sc_max_prefill s' = sc_max_prefill s
    \<or> int (length (others (sc_chunked s ! i) b)) < sc_chunk_size s' \<and> sc_max_prefill s' = sc_chunk_size s'
      \<and> next_chunk d' = Some (sc_chunk_size s')"
  using dec
proof (cases rule: decide_alp_cases)
  case (decided s1 loads n)
  have "sc_last s1 ! i = Some (b\<lparr>b_ttft := [], b_tpot := []\<rparr>)"
    using decided(1) i len by (simp add: drain_batch_def)
  from alp_guard_exceeds [OF decided(4) _ _ this, of n] show ?thesis
    using decided len i by (simp add: others_def)
qed simp

lemma others_of_member:
  assumes "distinct (map oid (b_reqs b))" "r \<in> set (b_reqs b)"
  shows "length (others (Some r) b) + 1 = length (b_reqs b)"
proof -
  have "distinct (map oid rs) \<Longrightarrow> r \<in> set rs \<Longrightarrow> length (filter (\<lambda>q. oid q \<noteq> oid r) rs) + 1 = length rs" for rs :: "'a req list"
  proof (induction rs)
    case (Cons q rs)
    show ?case
    proof (cases "oid q = oid r")
      case True
      then have "filter (\<lambda>q. oid q \<noteq> oid r) rs = rs" using Cons.prems by (auto simp: image_iff intro!: filter_True)
      then show ?thesis using True by simp
    next
      case False
      then show ?thesis using Cons by auto
    qed
  qed simp
  then show ?thesis using assms by (simp add: others_def)
qed

lemma round_up_exact: "(x div 128 + 1) * 128 = 128 * int k" if "x = 128 * int k - 1" "0 < k"
  using that by presburger

text \<open>The guard of the model-based decision falls one short: it counts a stage's requests without the one
  being chunked, while the test counts them all.  When the fullest batch has a multiple of 128 requests,
  the one being chunked among them, the guard replaces an insufficient chunk by one that the same
  test still finds insufficient.\<close>

theorem alp_guard_falls_short:
  assumes loads: "stage_loads now s = Ok loads" and one: "sc_pp_size s = 1" "sc_last s = [Some b]"
    and chunk: "sc_chunked s = [Some r]" "r \<in> set (b_reqs b)" "distinct (map oid (b_reqs b))"
    and len: "length (b_reqs b) = 128 * k" and n: "overruns n (sc_last s)"
  shows "alp_guard n (map snd loads) s = 128 * int k \<and> overruns (alp_guard n (map snd loads) s) (sc_last s)"
proof -
  obtain l where l: "loads = [l]" "stage_load now 0 (Some b) (Some r) = Ok l"
    using loads one chunk by (auto simp: stage_loads_def elim!: rbind_OkE)
  have "int (length (others (Some r) b)) = 128 * int k - 1" using others_of_member [OF chunk(3,2)] len by simp
  then have "snd l = 128 * int k - 1" using l(2) stage_load_count by (metis prod.collapse)
  moreover have "0 < k" using len chunk(2) by (cases k) auto
  ultimately have "alp_guard n (map snd loads) s = 128 * int k"
    using n round_up_exact [of "snd l" k] by (simp add: alp_guard_def round_up_128_def l(1))
  then show ?thesis using one len by (simp add: overruns_iff)
qed

section \<open>Dispatch and propagation\<close>

lemma sync_send_chunk:
  "sync_send dp s = Ok (msg, s') \<Longrightarrow> sc_chunk_size s' = sc_chunk_size s \<and> sc_max_prefill s' = sc_chunk_size s
     \<and> sync_recv msg t = set_chunked_prefill_size (sc_chunk_size s) (t\<lparr>sc_metrics := sc_metrics s'\<rparr>)"
  by (auto simp: sync_send_def Let_def set_chunked_prefill_size_def elim!: rbind_OkE split: if_splits)

text \<open>C36: Workers that start an iteration with the same step count and the same sizes end it with the same
  sizes and rebalancing metrics: either no decision is due for any of them, or the first worker's decision
  reaches the other one.\<close>

theorem chunk_size_agreement:
  assumes lead: "decide_chunk_size en alp True False now a any s d = Ok (msg, s', d')"
    and follow: "decide_chunk_size en alp False False now' a (the msg) t e = Ok (msg', t', e')"
    and same: "step_count d = step_count e" "sc_pp_size s = sc_pp_size t"
      "sc_chunk_size s = sc_chunk_size t" "sc_max_prefill s = sc_max_prefill t" "sc_metrics s = sc_metrics t"
  shows "sc_chunk_size s' = sc_chunk_size t' \<and> sc_max_prefill s' = sc_max_prefill t' \<and> sc_metrics s' = sc_metrics t'
    \<and> (en \<and> decision_due alp (sc_pp_size s) d \<longleftrightarrow> msg \<noteq> None) \<and> msg' = None \<and> e' = e"
proof (cases "en \<and> decision_due alp (sc_pp_size s) d")
  case False
  moreover have "decision_due alp (sc_pp_size t) e = decision_due alp (sc_pp_size s) d" using same by (simp add: decision_due_def)
  ultimately show ?thesis using lead follow same by (auto simp: decide_chunk_size_def split: if_splits)
next
  case True
  moreover have "decision_due alp (sc_pp_size t) e" using same True by (simp add: decision_due_def)
  moreover obtain s1 d1 m where "sync_send False s1 = Ok (m, s')" "msg = Some m"
    using lead True by (auto simp: decide_chunk_size_def elim!: rbind_OkE split: if_splits prod.splits)
  moreover have "sync_recv m t = t'" "msg' = None" "e' = e"
    using follow calculation by (auto simp: decide_chunk_size_def split: if_splits)
  ultimately show ?thesis
    using sync_send_chunk [of False s1 m s' t] by (auto simp: set_chunked_prefill_size_def)
qed

section \<open>Witnesses\<close>

definition demo_chunked :: "unit req" where
  "demo_chunked = demo_req\<lparr>oid := 127, pp_idx := 0, fill_ids := Some [1], prefix_indices := []\<rparr>"

definition demo_full_batch :: "(unit, unit) batch" where
  "demo_full_batch = (new_batch 0 (map (\<lambda>i. demo_req\<lparr>oid := i\<rparr>) [0..<127] @ [demo_chunked]))\<lparr>input_ids := Some [1]\<rparr>"

theorem alp_guard_falls_short_witness:
  "overruns (alp_guard 128 [127] ((demo_sched 128 [Some demo_full_batch] [])\<lparr>sc_chunked := [Some demo_chunked]\<rparr>)) [Some demo_full_batch]"
proof -
  let ?s = "(demo_sched 128 [Some demo_full_batch] [])\<lparr>sc_chunked := [Some demo_chunked]\<rparr>"
  have d: "distinct (map oid (b_reqs demo_full_batch))" "length (b_reqs demo_full_batch) = 128 * 1"
    "demo_chunked \<in> set (b_reqs demo_full_batch)" "input_ids demo_full_batch = Some [1]"
    by (simp_all add: demo_full_batch_def new_batch_def demo_chunked_def comp_def)
  have n: "length (others (Some demo_chunked) demo_full_batch) = 127"
    using others_of_member [OF d(1,3)] d(2) by simp
  have f: "fill_ids demo_chunked = Some [1]" "pp_idx demo_chunked = 0" by (simp_all add: demo_chunked_def)
  obtain w where "stage_load 5 0 (Some demo_full_batch) (Some demo_chunked) = Ok (w, 127)"
    using n by (simp add: stage_load_def others_def own_chunk_def f d(4))
  then have "stage_loads 5 ?s = Ok [(w, 127)]" by (simp add: stage_loads_def demo_sched_def)
  from alp_guard_falls_short [OF this _ _ _ d(3,1,2), of 128] show ?thesis
    using d(2) by (simp add: demo_sched_def overruns_iff)
qed

definition demo_waiting :: "unit req" where
  "demo_waiting = demo_req\<lparr>origin_input_ids := replicate 300 7, output_ids := [], fill_ids := None, prefix_indices := [],
     return_logprob := False, arrival_time := 0\<rparr>"

definition demo_alp_sched :: "(unit, unit) sched" where
  "demo_alp_sched = (demo_sched 512 [Some (demo_stage\<lparr>input_ids := Some [1], b_mode := Some DECODE\<rparr>)] [demo_waiting])"

lemma demo_alp_ready: "alp_ready demo_alp"
  by (simp add: alp_ready_def demo_alp_defs table_time_def DEFAULT_CTX_NORM_SCALE_def
      DEFAULT_PREFILL_TOK_NORM_SCALE_def DEFAULT_PREFIX_SUM_NORM_SCALE_def)

theorem alp_target_meets_slo_witness:
  "alp_target demo_args demo_alp demo_alp_sched 1 0 [] [2] = Ok (Some 128)"
proof -
  obtain ctx where "runtime_prediction_context demo_alp_sched = Ok ctx"
    by (simp add: runtime_prediction_context_def demo_alp_sched_def demo_sched_def prediction_stage_order_def
        stage_context_def decode_reqs_for_prediction_def is_decode_def)
  moreover have "catch_up_speed demo_args [] = Ok (Finite 0)" by (simp add: catch_up_speed_def)
  moreover have "\<not> 1 < dc_kv_threshold demo_args" by (simp add: demo_args_def)
  ultimately show ?thesis
    using alp_target_meets_slo [OF demo_alp_ready, of 1 demo_args "[]" "Finite 0" demo_alp_sched _ 0 "[2]"]
    by (auto simp: chosen_def demo_alp_defs)
qed

theorem stage_packing_sound_witness:
  "running_token_max (fst (stage_features 128 \<lparr>st_ctx_sum = 40, st_mixed = 2, st_chunked = Some (10, 6)\<rparr> ([(0, 50, False), (5, 90, True)], 0))) = 58"
proof -
  have r: "stage_features 128 \<lparr>st_ctx_sum = 40, st_mixed = 2, st_chunked = Some (10, 6)\<rparr> ([(0, 50, False), (5, 90, True)], 0)
     = (\<lparr>running_token_max = 58, selected_decode_ctx_sum = 40, prefill_square_sum = 2536, prefill_prefix_prod_sum = 60\<rparr>, [(5, 90, True)], 0)"
    by (simp add: stage_features_def)
  show ?thesis using stage_packing_sound [OF r] by (simp add: r stage_ok_def)
qed

lemmas demo_alp_sched_defs = demo_alp_sched_def demo_sched_def demo_stage_def demo_waiting_def new_batch_def

theorem alp_decision_guarded_witness:
  "\<exists>s' d'. decide_chunk_alp 5 (demo_args\<lparr>dc_kv_threshold := 2\<rparr>) demo_alp_sched (dc_init (Some demo_alp)) = Ok (s', d')
     \<and> sc_chunk_size s' = 128 \<and> 2 < sc_chunk_size s'"
proof -
  obtain s' d' where r: "decide_chunk_alp 5 (demo_args\<lparr>dc_kv_threshold := 2\<rparr>) demo_alp_sched (dc_init (Some demo_alp)) = Ok (s', d')"
    and n: "sc_chunk_size s' = 128" "next_chunk d' = Some 128"
    by (simp add: decide_chunk_alp_def dc_init_def nothing_to_prefill_def collect_base_metrics_def kv_free_ratio_def
        inflow_def stage_loads_def stage_load_def own_chunk_def drain_batch_def opt_reqs_def alp_target_def
        demo_alp_sched_defs demo_args_def Let_def alp_guard_def overruns_def round_up_128_def min_or_zero_def
        set_chunked_prefill_size_def consume_runtime_exec_samples_def)
  have "length (sc_last demo_alp_sched) = sc_pp_size demo_alp_sched" "0 < sc_pp_size demo_alp_sched"
    "sc_last demo_alp_sched ! 0 = Some (demo_stage\<lparr>input_ids := Some [1], b_mode := Some DECODE\<rparr>)"
    "others (sc_chunked demo_alp_sched ! 0) (demo_stage\<lparr>input_ids := Some [1], b_mode := Some DECODE\<rparr>) = [demo_req, demo_req]"
    "sc_chunk_size demo_alp_sched = 512"
    by (simp_all add: demo_alp_sched_defs others_def)
  from alp_decision_guarded [OF r this(1-3)] show ?thesis using r n \<open>others _ _ = _\<close> \<open>sc_chunk_size demo_alp_sched = 512\<close> by auto
qed

theorem chunk_size_agreement_witness:
  "\<exists>m s' d' t'. decide_chunk_size True False True False 0 demo_args (ChunkOnly 0) (demo_sched 512 [Some demo_stage] []) (dc_init None) = Ok (Some m, s', d')
     \<and> decide_chunk_size True False False False 0 demo_args m (demo_sched 512 [None] []) (dc_init None) = Ok (None, t', dc_init None)
     \<and> sc_chunk_size t' = sc_chunk_size s'"
proof -
  let ?s = "demo_sched 512 [Some demo_stage] []" and ?t = "demo_sched 512 [None] []"
  obtain m s' d' where l: "decide_chunk_size True False True False 0 demo_args (ChunkOnly 0) ?s (dc_init None) = Ok (Some m, s', d')"
    by (simp add: decide_chunk_size_def decision_due_def sync_send_def rebalance_metrics_of_def
        decide_chunk_greedy_def collect_base_metrics_def kv_free_ratio_def demo_args_def demo_sched_def
        demo_stage_def opt_reqs_def new_batch_def ema_def mean_def dc_init_def greedy_target_def Let_def
        apply_safety_guard_def overruns_def drain_batch_def set_chunked_prefill_size_def)
  obtain t' where f: "decide_chunk_size True False False False 0 demo_args (the (Some m)) ?t (dc_init None) = Ok (None, t', dc_init None)"
    by (simp add: decide_chunk_size_def demo_sched_def decision_due_def dc_init_def)
  have "step_count (dc_init None) = step_count (dc_init None)" "sc_pp_size ?s = sc_pp_size ?t" "sc_chunk_size ?s = sc_chunk_size ?t"
    "sc_max_prefill ?s = sc_max_prefill ?t" "sc_metrics ?s = sc_metrics ?t" by (simp_all add: demo_sched_def)
  from chunk_size_agreement [OF l f this] show ?thesis using l f by auto
qed

end
