(* ===== verification/Jump_Forward.thy ===== *)
theory Jump_Forward
imports Batch_Rows Radix_Req
begin

text \<open>
  Jump-forward decoding of constrained requests and the packaging of a batch for the model worker
  (\<^verbatim>\<open>check_for_jump_forward\<close>, \<^verbatim>\<open>get_model_worker_batch\<close> and \<^verbatim>\<open>copy\<close> of \<^verbatim>\<open>ScheduleBatch\<close> in
  \<^verbatim>\<open>python/sglang/srt/managers/schedule_batch.py\<close>).  The grammar objects are not modelled: their methods
  are the fields of \<open>grammar_ops\<close>, with \<open>'h\<close> the type of a jump helper.
\<close>

section \<open>Jump-forward\<close>

record ('g, 'h) grammar_ops =
  gr_try_jump :: "'g \<Rightarrow> tokenizer option \<Rightarrow> 'h option"
  gr_suffix_ids :: "'h \<Rightarrow> int list"
  gr_jump_str_state :: "'g \<Rightarrow> 'h \<Rightarrow> pystr \<times> int"
  gr_retokenize :: "'g \<Rightarrow> int list \<Rightarrow> int list \<Rightarrow> int \<Rightarrow> 'g"
  gr_accept :: "'g \<Rightarrow> int \<Rightarrow> 'g"
  gr_set_finished :: "'g \<Rightarrow> bool \<Rightarrow> 'g"

text \<open>The loop body for one request; the first component tells whether the request left the batch.  The
  saved \<^verbatim>\<open>cur_output_ids\<close> is the list that \<^verbatim>\<open>extend\<close> changes in place, so assigning it back after a
  failed attempt keeps the appended tokens.\<close>

definition jump_req ::
  "('g, 'c) cache_ops \<Rightarrow> ('g, 'h) grammar_ops \<Rightarrow> (int list \<Rightarrow> nat option \<Rightarrow> int list) \<Rightarrow> 'g req \<Rightarrow> ('g, 'c) world
     \<Rightarrow> (bool \<times> 'g req \<times> ('g, 'c) world) res" where
  "jump_req ops gr pad r w = (case grammar r of
      None \<Rightarrow> Ok (False, r, w)
    | Some g \<Rightarrow> (case gr_try_jump gr g (tokenizer_of r) of
        None \<Rightarrow> Ok (False, r, w)
      | Some h \<Rightarrow>
          let cur_all_ids = butlast (origin_input_ids r @ output_ids r);
              r = r\<lparr>output_ids := output_ids r @ gr_suffix_ids gr h\<rparr>;
              ((decode_res, new_text), r) = get_next_inc_detokenization r
          in if \<not> decode_res then Ok (False, r, w)
             else let (jump_str, next_state) = gr_jump_str_state gr g h
             in rbind (jump_forward_and_retokenize (gr_retokenize gr) r (new_text @ jump_str) next_state) (\<lambda>(ok, r).
                if \<not> ok then Ok (False, r, w)
                else rbind (op_cache_finished ops (r\<lparr>vid := vid r + 1\<rparr>) (Some cur_all_ids) (w_cache w) (w_mem w)) (\<lambda>(r, c, m).
                     let r = (case image_inputs r of None \<Rightarrow> r
                              | Some img \<Rightarrow> r\<lparr>origin_input_ids := pad (origin_input_ids_unpadded r) img\<rparr>)
                     in Ok (True, r, w\<lparr>w_cache := c, w_mem := m\<rparr>)))))"

fun jump_reqs ::
  "('g, 'c) cache_ops \<Rightarrow> ('g, 'h) grammar_ops \<Rightarrow> (int list \<Rightarrow> nat option \<Rightarrow> int list) \<Rightarrow> 'g req list \<Rightarrow> ('g, 'c) world
     \<Rightarrow> ((bool \<times> 'g req) list \<times> ('g, 'c) world) res" where
  "jump_reqs ops gr pad [] w = Ok ([], w)"
| "jump_reqs ops gr pad (r # rs) w =
     rbind (jump_req ops gr pad r w) (\<lambda>(j, r, w). rbind (jump_reqs ops gr pad rs w) (\<lambda>(js, w). Ok ((j, r) # js, w)))"

definition check_for_jump_forward ::
  "('g, 'c) cache_ops \<Rightarrow> batch_cfg \<Rightarrow> ('g, 'h) grammar_ops \<Rightarrow> (int list \<Rightarrow> nat option \<Rightarrow> int list)
     \<Rightarrow> ('g, 'm) batch \<Rightarrow> ('g, 'c) world \<Rightarrow> ('g req list \<times> ('g, 'm) batch \<times> ('g, 'c) world) res" where
  "check_for_jump_forward ops cfg gr pad b w =
     rbind (jump_reqs ops gr pad (b_reqs b) w) (\<lambda>(js, w).
     let keep = filter (\<lambda>i. \<not> fst (js ! i)) [0..<length js];
         b = b\<lparr>b_reqs := map snd js\<rparr>
     in rbind (filter_batch cfg None (Some keep) b (store_set_reqs (b_id b) (b_reqs b) (w_pens w))) (\<lambda>(b, s).
          Ok (map snd (filter fst js), b, w\<lparr>w_pens := s\<rparr>)))"

section \<open>The batch of the model worker\<close>

record ('g, 'm) worker_batch =
  wb_bid :: nat
  wb_mode :: forward_mode
  wb_input_ids :: "int list option"
  wb_req_pool_indices :: "nat list option"
  wb_seq_lens :: "nat list option"
  wb_out_cache_loc :: "nat list option"
  wb_seq_lens_sum :: "nat option"
  wb_return_logprob :: bool
  wb_top_logprobs_nums :: "nat list option"
  wb_extend_num_tokens :: "int option"
  wb_extend_seq_lens :: "int list option"
  wb_extend_prefix_lens :: "int list option"
  wb_extend_logprob_start_lens :: "int list option"
  wb_image_inputs :: "nat option option list"
  wb_encoder_cached :: "bool list option"
  wb_encoder_lens :: "nat list option"
  wb_encoder_lens_cpu :: "nat list option"
  wb_encoder_out_cache_loc :: "nat list option"
  wb_lora_paths :: "string option list"
  wb_grammars :: "'g option list option"
  wb_sampling_info :: "('g, 'm) sampling_info option"
  wb_input_embeds :: "real list list option"

text \<open>\<open>bid\<close> is the module's counter before the call.  The two fields of data-parallel attention
  (\<^verbatim>\<open>global_num_tokens\<close>, \<^verbatim>\<open>can_run_dp_cuda_graph\<close>) are not modelled, here as in the batch.  The grammars of the sampling information are read
  with it, so they are a field of their own.\<close>

definition get_model_worker_batch :: "nat \<Rightarrow> ('g, 'm) batch \<Rightarrow> ('g, 'm) worker_batch res" where
  "get_model_worker_batch bid b =
     rbind (the_obj (b_mode b)) (\<lambda>mode.
     let no_extend = is_decode mode \<or> is_idle mode
     in Ok \<lparr>wb_bid = bid + 1, wb_mode = mode, wb_input_ids = input_ids b, wb_req_pool_indices = req_pool_indices b,
            wb_seq_lens = seq_lens b, wb_out_cache_loc = out_cache_loc b, wb_seq_lens_sum = seq_lens_sum b,
            wb_return_logprob = b_return_logprob b, wb_top_logprobs_nums = top_logprobs_nums b,
            wb_extend_num_tokens = extend_num_tokens b,
            wb_extend_seq_lens = (if no_extend then None else extend_lens b),
            wb_extend_prefix_lens = (if no_extend then None else prefix_lens b),
            wb_extend_logprob_start_lens = (if no_extend then None else extend_logprob_start_lens b),
            wb_image_inputs = map image_inputs (b_reqs b), wb_encoder_cached = encoder_cached b,
            wb_encoder_lens = encoder_lens b, wb_encoder_lens_cpu = encoder_lens_cpu b,
            wb_encoder_out_cache_loc = encoder_out_cache_loc b, wb_lora_paths = map lora_path (b_reqs b),
            wb_grammars = (if sinfo b = None then None else if has_grammar b then Some (map grammar (b_reqs b)) else None),
            wb_sampling_info = sinfo b, wb_input_embeds = b_embeds b\<rparr>)"

text \<open>The copy shares the list object of requests with the original in the source; here it has the list as it is
  at that moment, so that a later extension of that list in place (by a merge into the original before the result is
  processed) is not seen by the copy.\<close>

definition copy_batch :: "nat \<Rightarrow> ('g, 'm) batch \<Rightarrow> ('g, 'm) batch" where
  "copy_batch i b =
     (new_batch i (b_reqs b))\<lparr>seq_lens := seq_lens b, b_mode := b_mode b, out_cache_loc := out_cache_loc b,
        b_return_logprob := b_return_logprob b, decoding_reqs := decoding_reqs b, alp_snapshot := alp_snapshot b\<rparr>"

section \<open>Which requests leave\<close>

lemma filter_keep_reqs:
  assumes "filter_keep cfg keep b s = Ok (b', s')" "keep = filter P [0..<length (b_reqs b)]"
  shows "b_reqs b' = map ((!) (b_reqs b)) keep \<and> b_id b' = b_id b"
proof (cases "keep \<noteq> [] \<and> length keep = length (b_reqs b)")
  case True
  then have "keep = [0..<length (b_reqs b)]" using assms(2) filter_indices_all by blast
  then show ?thesis using assms(1) True by (simp add: filter_keep_def map_nth)
next
  case False
  then show ?thesis using assms(1)
    by (auto simp: filter_keep_def Let_def gather_eq_Ok elim!: rbind_OkE split: if_splits)
qed

text \<open>What a failed or skipped attempt may change of a request: its output grows and the offsets of the
  incremental detokenization and the recovered text are set.\<close>

definition core :: "'g req \<Rightarrow> 'g req" where
  "core r = r\<lparr>output_ids := [], surr_offset := None, read_offset := None, origin_input_text := None\<rparr>"

definition attempted :: "'g req \<Rightarrow> 'g req \<Rightarrow> bool" where
  "attempted r r' \<longleftrightarrow> core r' = core r \<and> (\<exists>xs. output_ids r' = output_ids r @ xs)"

definition jumped :: "'g req \<Rightarrow> 'g req \<Rightarrow> bool" where
  "jumped r r' \<longleftrightarrow> oid r' = oid r \<and> rid r' = rid r \<and> vid r' = vid r + 1 \<and> grammar r' \<noteq> None \<and> finished r' = finished r"

lemma attempted_refl: "attempted r r"
  by (simp add: attempted_def)

lemma init_incremental_core:
  "core (snd (init_incremental_detokenize r)) = core r \<and> output_ids (snd (init_incremental_detokenize r)) = output_ids r"
  by (simp add: init_incremental_detokenize_def core_def Let_def)

lemma next_inc_core:
  "core (snd (get_next_inc_detokenization r)) = core r \<and> output_ids (snd (get_next_inc_detokenization r)) = output_ids r"
  using init_incremental_core [of r]
  by (auto simp: get_next_inc_detokenization_def Let_def split: option.splits prod.splits)

lemma retokenize_failed:
  "jump_forward_and_retokenize f r str st = Ok (False, r') \<Longrightarrow> core r' = core r \<and> output_ids r' = output_ids r"
  by (auto simp: jump_forward_and_retokenize_def Let_def core_def elim!: rbind_OkE split: if_splits option.splits)

lemma retokenize_done:
  "jump_forward_and_retokenize f r str st = Ok (True, r') \<Longrightarrow>
     oid r' = oid r \<and> rid r' = rid r \<and> vid r' = vid r \<and> grammar r' \<noteq> None \<and> finished r' = finished r"
  by (auto simp: jump_forward_and_retokenize_def Let_def finished_def elim!: rbind_OkE split: if_splits option.splits)

lemma core_grow: "core (r\<lparr>output_ids := xs\<rparr>) = core r"
  by (simp add: core_def)

lemma core_ids:
  assumes "core r' = core r"
  shows "oid r' = oid r \<and> rid r' = rid r \<and> vid r' = vid r \<and> grammar r' = grammar r \<and> finished r' = finished r"
proof -
  have "oid (core x) = oid x \<and> rid (core x) = rid x \<and> vid (core x) = vid x \<and> grammar (core x) = grammar x
      \<and> finished (core x) = finished x" for x :: "'a req"
    by (simp add: core_def finished_def)
  then show ?thesis using assms by metis
qed

lemma attempted_oid: "attempted r r' \<Longrightarrow> oid r' = oid r"
  using core_ids by (auto simp: attempted_def)

lemma jumped_oid: "jumped r r' \<Longrightarrow> oid r' = oid r"
  by (simp add: jumped_def)

locale finishing_cache =
  fixes ops :: "('g, 'c) cache_ops"
  assumes finished_same: "op_cache_finished ops r ids c m = Ok (r', c', m') \<Longrightarrow> r' = r"
begin

lemma jump_req_cases:
  assumes "jump_req ops gr pad r w = Ok (j, r', w')"
  shows "if j then jumped r r' else attempted r r' \<and> w' = w"
proof (cases "grammar r = None \<or> (\<exists>g. grammar r = Some g \<and> gr_try_jump gr g (tokenizer_of r) = None)")
  case True
  then have "j = False \<and> r' = r \<and> w' = w" using assms by (auto simp: jump_req_def)
  then show ?thesis by (simp add: attempted_refl)
next
  case False
  then obtain g h where g: "grammar r = Some g" "gr_try_jump gr g (tokenizer_of r) = Some h" by auto
  define r1 where "r1 = r\<lparr>output_ids := output_ids r @ gr_suffix_ids gr h\<rparr>"
  obtain ok t r2 where r2: "get_next_inc_detokenization r1 = ((ok, t), r2)" by (metis prod.exhaust)
  have core2: "core r2 = core r \<and> output_ids r2 = output_ids r @ gr_suffix_ids gr h"
    using next_inc_core [of r1] r2 by (simp add: r1_def core_grow)
  then have att2: "attempted r r2" by (simp add: attempted_def)
  obtain str st where str: "gr_jump_str_state gr g h = (str, st)" by fastforce
  show ?thesis
  proof (cases ok)
    case False
    then show ?thesis using assms g r2 att2 by (simp add: jump_req_def r1_def [symmetric])
  next
    case True
    then obtain ok3 r3 where r3: "jump_forward_and_retokenize (gr_retokenize gr) r2 (t @ str) st = Ok (ok3, r3)"
      and rest: "(if \<not> ok3 then Ok (False, r3, w)
         else rbind (op_cache_finished ops (r3\<lparr>vid := vid r3 + 1\<rparr>) (Some (butlast (origin_input_ids r @ output_ids r))) (w_cache w) (w_mem w)) (\<lambda>(r, c, m).
                     let r = (case image_inputs r of None \<Rightarrow> r
                              | Some img \<Rightarrow> r\<lparr>origin_input_ids := pad (origin_input_ids_unpadded r) img\<rparr>)
                     in Ok (True, r, w\<lparr>w_cache := c, w_mem := m\<rparr>))) = Ok (j, r', w')"
      using assms g r2 str by (auto simp: jump_req_def r1_def [symmetric] elim!: rbind_OkE)
    show ?thesis
    proof (cases ok3)
      case False
      then show ?thesis using rest retokenize_failed r3 core2 by (fastforce simp: attempted_def)
    next
      case True
      have d: "oid r3 = oid r2 \<and> rid r3 = rid r2 \<and> vid r3 = vid r2 \<and> grammar r3 \<noteq> None \<and> finished r3 = finished r2"
        by (rule retokenize_done [OF r3 [simplified True]])
      have "oid r2 = oid r \<and> rid r2 = rid r \<and> vid r2 = vid r \<and> finished r2 = finished r" using core_ids core2 by blast
      then show ?thesis using rest True d
        by (auto simp: jumped_def Let_def finished_def elim!: rbind_OkE split: option.splits dest!: finished_same)
    qed
  qed
qed

lemma jump_reqs_cases:
  "jump_reqs ops gr pad rs w = Ok (js, w') \<Longrightarrow>
     list_all2 (\<lambda>r (j, r'). if j then jumped r r' else attempted r r') rs js"
proof (induction rs arbitrary: w js)
  case (Cons r rs)
  then obtain j r' w1 js1 where s: "jump_req ops gr pad r w = Ok (j, r', w1)" "jump_reqs ops gr pad rs w1 = Ok (js1, w')"
    "js = (j, r') # js1" by (auto elim!: rbind_OkE)
  then show ?case using jump_req_cases [OF s(1)] Cons.IH [OF s(2)] by auto
qed simp

lemma jump_forward_splits:
  assumes "check_for_jump_forward ops cfg gr pad b w = Ok (out, b', w')"
  shows "\<exists>js. list_all2 (\<lambda>r (j, r'). if j then jumped r r' else attempted r r') (b_reqs b) js
    \<and> out = map snd (filter fst js) \<and> b_reqs b' = map snd (filter (\<lambda>x. \<not> fst x) js) \<and> b_id b' = b_id b"
proof -
  obtain js w1 s s' where js: "jump_reqs ops gr pad (b_reqs b) w = Ok (js, w1)" and out: "out = map snd (filter fst js)"
    and f: "filter_keep cfg (filter (\<lambda>i. \<not> fst (js ! i)) [0..<length js]) (b\<lparr>b_reqs := map snd js\<rparr>) s = Ok (b', s')"
    using assms by (auto simp: check_for_jump_forward_def filter_batch_def Let_def elim!: rbind_OkE)
  have "b_reqs b' = map ((!) (map snd js)) (filter (\<lambda>i. \<not> fst (js ! i)) [0..<length js]) \<and> b_id b' = b_id b"
    using filter_keep_reqs [OF f, of "\<lambda>i. \<not> fst (js ! i)"] by simp
  moreover have "map ((!) (map snd js)) (filter (\<lambda>i. \<not> fst (js ! i)) [0..<length js])
      = map snd (map ((!) js) (filter (\<lambda>i. \<not> fst (js ! i)) [0..<length js]))"
    by simp
  ultimately show ?thesis
    using jump_reqs_cases [OF js] out map_nth_filter [where P = "\<lambda>x. \<not> fst x" and xs = js] by (intro exI [of _ js]) simp
qed

end

text \<open>Both caches are such caches.\<close>

interpretation fin_chunk: finishing_cache chunk_ops
  by unfold_locales (auto simp: chunk_ops_def cc_cache_finished_req_def Let_def elim!: rbind_OkE)

interpretation fin_radix: finishing_cache "radix_ops clock" for clock
  by unfold_locales (auto simp: radix_ops_def radix_cache_finished_req_def Let_def elim!: rbind_OkE split: if_splits prod.splits)

text \<open>C31: Jump-forward splits the batch: the requests that jumped leave it in order, with a new version number
  for the detokenizer and not finished by it, all others stay in order, and an attempt that fails changes only the output, which
  may have grown by the suffix, and detokenization bookkeeping.  No request is lost or duplicated.\<close>

theorem jump_forward_splits_requests:
  assumes "check_for_jump_forward (radix_ops clock) cfg gr pad b w = Ok (out, b', w')"
  shows "\<exists>js. list_all2 (\<lambda>r (j, r'). if j then jumped r r' else attempted r r') (b_reqs b) js
    \<and> out = map snd (filter fst js) \<and> b_reqs b' = map snd (filter (\<lambda>x. \<not> fst x) js)
    \<and> mset (map oid out) + mset (map oid (b_reqs b')) = mset (map oid (b_reqs b))"
proof -
  obtain js where js: "list_all2 (\<lambda>r (j, r'). if j then jumped r r' else attempted r r') (b_reqs b) js"
    and out: "out = map snd (filter fst js)" "b_reqs b' = map snd (filter (\<lambda>x. \<not> fst x) js)"
    using fin_radix.jump_forward_splits [OF assms] by blast
  from js have "mset (map oid (map snd (filter fst js))) + mset (map oid (map snd (filter (\<lambda>x. \<not> fst x) js)))
      = mset (map oid (b_reqs b))"
  proof (induction rule: list_all2_induct)
    case (Cons r rs x js)
    have "oid (snd x) = oid r" using Cons(1) jumped_oid [of r "snd x"] attempted_oid [of r "snd x"]
      by (cases "fst x") (simp_all add: case_prod_beta)
    then show ?case using Cons(3) by (cases "fst x") simp_all
  qed simp
  then show ?thesis using js out by (intro exI [of _ js] conjI) (assumption | simp only: out)+
qed

definition demo_grammar :: "(nat, unit) grammar_ops" where
  "demo_grammar = \<lparr>gr_try_jump = (\<lambda>_ _. Some ()), gr_suffix_ids = (\<lambda>_. [9]), gr_jump_str_state = (\<lambda>_ _. ([], 0)),
     gr_retokenize = (\<lambda>g _ _ _. g), gr_accept = (\<lambda>g _. g),
     gr_set_finished = (\<lambda>g _. g)\<rparr>"

definition demo_jump_req :: "nat req" where
  "demo_jump_req = (req_init 1 0 ''a'' None [10, 11] default_params False 0 False None None None None False True None)
     \<lparr>grammar := Some 0, output_ids := [5]\<rparr>"

text \<open>Without a tokenizer the attempt fails, and the output keeps the suffix it was extended by.\<close>

theorem jump_forward_splits_requests_witness:
  "\<forall>clock w. \<exists>b' w'. check_for_jump_forward (radix_ops clock) \<lparr>is_encoder_decoder = False, cfg_vocab_size = 10, torch_native = True,
     pen_order = [MinNewTokensP, PresenceP, RepetitionP, FrequencyP]\<rparr>
       demo_grammar (\<lambda>ids _. ids) ((new_batch 0 [demo_jump_req]) :: (nat, unit) batch) w = Ok ([], b', w')
     \<and> map output_ids (b_reqs b') = [[5, 9]] \<and> mset (map oid (b_reqs b')) = {#1#}"
proof (intro allI)
  fix clock :: "nat \<Rightarrow> real" and w :: "(nat, radix) world"
  let ?c = "\<lparr>is_encoder_decoder = False, cfg_vocab_size = 10, torch_native = True,
     pen_order = [MinNewTokensP, PresenceP, RepetitionP, FrequencyP]\<rparr>"
  let ?b = "(new_batch 0 [demo_jump_req]) :: (nat, unit) batch"
  obtain b' w' where r: "check_for_jump_forward (radix_ops clock) ?c demo_grammar (\<lambda>ids _. ids) ?b w = Ok ([], b', w')"
    and o1: "map output_ids (b_reqs b') = [[5, 9]]"
    by (simp add: check_for_jump_forward_def jump_req_def demo_grammar_def demo_jump_req_def new_batch_def req_init_def
        get_next_inc_detokenization_def filter_batch_def filter_keep_def)
  show "\<exists>b' w'. check_for_jump_forward (radix_ops clock) ?c demo_grammar (\<lambda>ids _. ids) ?b w = Ok ([], b', w')
     \<and> map output_ids (b_reqs b') = [[5, 9]] \<and> mset (map oid (b_reqs b')) = {#1#}"
    using jump_forward_splits_requests [OF r] r o1
    by (auto simp: new_batch_def demo_jump_req_def req_init_def)
qed

end
