(* ===== verification/Scheduler.thy ===== *)
theory Scheduler
imports Batch_Rebalancer Prefill_Adder Schedule_Policy Jump_Forward
begin

text \<open>
  The scheduling step of a worker (\<^verbatim>\<open>get_next_batch_to_run\<close> and what it calls in
  \<^verbatim>\<open>python/sglang/srt/managers/scheduler.py\<close>).  Requests and batches are shared objects there: a request
  may be in the waiting queue, in several batches and in the slot of the request being chunked at once.
  The state therefore keeps an object store: queues and slots hold identities, \<open>sh_objs\<close> and \<open>sh_bats\<close> the
  current value of every request and batch, and a batch is read with the current values of its requests.
  The lists with one entry per pipeline stage are indexed by \<open>sh_cur\<close>, the current stage.
\<close>

section \<open>State\<close>

record sched_cfg =
  sg_pp :: nat
  sg_rank0 :: bool
  sg_max_running :: nat
  sg_mixed :: bool
  sg_lora :: bool
  sg_max_loras :: nat
  sg_overlap :: bool
  sg_rebalance :: bool
  sg_jump :: bool
  sg_test_retract :: bool
  sg_min_ratio :: real
  sg_decay :: real
  sg_model :: batch_cfg
  sg_rb :: rb_cfg

record ('g, 'm, 'c) scheduler =
  sh_objs :: "nat \<Rightarrow> 'g req"
  sh_bats :: "nat \<Rightarrow> ('g, 'm) batch"
  sh_run :: "nat option list"
  sh_last :: "nat option list"
  sh_chunk :: "nat option list"
  sh_pending :: "nat option"
  sh_wait :: "nat list"
  sh_gq :: "nat list list"
  sh_full :: bool
  sh_ratio :: real
  sh_avail :: int
  sh_world :: "('g, 'c) world"
  sh_next :: nat
  sh_pol :: "sched_policy list"
  sh_cur :: nat
  sh_chunk_size :: "int option"
  sh_max_prefill :: int

text \<open>The properties of the class: the current stage's entry.\<close>

definition running_batch :: "('g, 'm, 'c) scheduler \<Rightarrow> nat option" where
  "running_batch s = sh_run s ! sh_cur s"

definition last_batch :: "('g, 'm, 'c) scheduler \<Rightarrow> nat option" where
  "last_batch s = sh_last s ! sh_cur s"

definition being_chunked_req :: "('g, 'm, 'c) scheduler \<Rightarrow> nat option" where
  "being_chunked_req s = sh_chunk s ! sh_cur s"

definition set_running_batch :: "nat option \<Rightarrow> ('g, 'm, 'c) scheduler \<Rightarrow> ('g, 'm, 'c) scheduler" where
  "set_running_batch x s = s\<lparr>sh_run := (sh_run s)[sh_cur s := x]\<rparr>"

definition set_being_chunked_req :: "nat option \<Rightarrow> ('g, 'm, 'c) scheduler \<Rightarrow> ('g, 'm, 'c) scheduler" where
  "set_being_chunked_req x s = s\<lparr>sh_chunk := (sh_chunk s)[sh_cur s := x]\<rparr>"

text \<open>Reading and writing objects.\<close>

definition obj_batch :: "(nat \<Rightarrow> 'g req) \<Rightarrow> ('g, 'm) batch \<Rightarrow> ('g, 'm) batch" where
  "obj_batch h b = b\<lparr>b_reqs := map (\<lambda>r. h (oid r)) (b_reqs b)\<rparr>"

definition the_batch :: "('g, 'm, 'c) scheduler \<Rightarrow> nat \<Rightarrow> ('g, 'm) batch" where
  "the_batch s i = obj_batch (sh_objs s) (sh_bats s i)"

definition save_reqs :: "'g req list \<Rightarrow> (nat \<Rightarrow> 'g req) \<Rightarrow> (nat \<Rightarrow> 'g req)" where
  "save_reqs rs h = fold (\<lambda>r h. h(oid r := r)) rs h"

definition put_batch :: "('g, 'm) batch \<Rightarrow> ('g, 'm, 'c) scheduler \<Rightarrow> ('g, 'm, 'c) scheduler" where
  "put_batch b s = s\<lparr>sh_bats := (sh_bats s)(b_id b := b), sh_objs := save_reqs (b_reqs b) (sh_objs s)\<rparr>"

definition put_req :: "'g req \<Rightarrow> ('g, 'm, 'c) scheduler \<Rightarrow> ('g, 'm, 'c) scheduler" where
  "put_req r s = s\<lparr>sh_objs := (sh_objs s)(oid r := r)\<rparr>"

definition put_world :: "('g, 'c) world \<Rightarrow> ('g, 'm, 'c) scheduler \<Rightarrow> ('g, 'm, 'c) scheduler" where
  "put_world w s = s\<lparr>sh_world := w\<rparr>"

text \<open>The penalizer orchestrators of a batch see its current requests.\<close>

definition synced_world :: "('g, 'm) batch \<Rightarrow> ('g, 'm, 'c) scheduler \<Rightarrow> ('g, 'c) world" where
  "synced_world b s = (sh_world s)\<lparr>w_pens := store_set_reqs (b_id b) (b_reqs b) (w_pens (sh_world s))\<rparr>"

definition set_pens :: "'g pstore \<Rightarrow> ('g, 'm, 'c) scheduler \<Rightarrow> ('g, 'm, 'c) scheduler" where
  "set_pens p s = s\<lparr>sh_world := (sh_world s)\<lparr>w_pens := p\<rparr>\<rparr>"

definition filter_at ::
  "batch_cfg \<Rightarrow> 'g req option \<Rightarrow> nat \<Rightarrow> ('g, 'm, 'c) scheduler \<Rightarrow> ('g, 'm, 'c) scheduler res" where
  "filter_at cfg being i s =
     (let b = the_batch s i
      in rbind (filter_batch cfg being None b (w_pens (synced_world b s))) (\<lambda>(b, p). Ok (set_pens p (put_batch b s))))"

section \<open>The request being chunked\<close>

text \<open>A stashed chunk stays in the cache; its request slot is given back.\<close>

definition stash_chunk ::
  "('g, 'c) cache_ops \<Rightarrow> nat \<Rightarrow> ('g, 'm, 'c) scheduler \<Rightarrow> ('g, 'm, 'c) scheduler res" where
  "stash_chunk ops i s =
     rbind (op_cache_unfinished ops (sh_objs s i) None (w_cache (sh_world s)) (w_mem (sh_world s))) (\<lambda>(r, c, m).
     rbind (free_req_slot r m) (\<lambda>m. Ok (put_req r (put_world ((sh_world s)\<lparr>w_cache := c, w_mem := m\<rparr>) s))))"

definition fetch_chunked_prefill ::
  "('g, 'c) cache_ops \<Rightarrow> sched_cfg \<Rightarrow> ('g, 'm, 'c) scheduler \<Rightarrow> ('g, 'm, 'c) scheduler res" where
  "fetch_chunked_prefill ops g s =
     (if sg_pp g = 1 then Ok s
      else case sh_chunk s ! ((sh_cur s + sg_pp g - 1) mod sg_pp g) of
             None \<Rightarrow> Ok s
           | Some i \<Rightarrow> stash_chunk ops i (set_being_chunked_req (Some i) s))"

section \<open>Absorbing the last batch\<close>

definition drop_chunked ::
  "('g, 'c) cache_ops \<Rightarrow> sched_cfg \<Rightarrow> nat \<Rightarrow> ('g, 'm, 'c) scheduler \<Rightarrow> ('g, 'm, 'c) scheduler res" where
  "drop_chunked ops g l s = (case being_chunked_req s of
      None \<Rightarrow> Ok s
    | Some c \<Rightarrow>
        if pp_idx (sh_objs s c) = int (sh_cur s)
        then rbind (filter_at (sg_model g) (Some (sh_objs s c)) l s) (\<lambda>s.
             rbind (stash_chunk ops c s) (\<lambda>s. Ok (s\<lparr>sh_full := False\<rparr>)))
        else rbind (filter_at (sg_model g) (Some (sh_objs s c)) l s) (\<lambda>s. Ok (set_being_chunked_req None s)))"

definition bump_output_len :: "'g req \<Rightarrow> 'g req" where
  "bump_output_len r = r\<lparr>output_ids_len := output_ids_len r + 1\<rparr>"

definition bump_lens :: "nat \<Rightarrow> ('g, 'm, 'c) scheduler \<Rightarrow> ('g, 'm, 'c) scheduler" where
  "bump_lens l s = s\<lparr>sh_objs := fold (\<lambda>r h. h(oid r := bump_output_len (h (oid r)))) (b_reqs (sh_bats s l)) (sh_objs s)\<rparr>"

definition merge_at :: "batch_cfg \<Rightarrow> nat \<Rightarrow> nat \<Rightarrow> ('g, 'm, 'c) scheduler \<Rightarrow> ('g, 'm, 'c) scheduler res" where
  "merge_at cfg r l s =
     (let b = the_batch s r; other = the_batch s l
      in rbind (merge_batch cfg b other
                 (store_set_reqs (b_id other) (b_reqs other) (w_pens (synced_world b s)))) (\<lambda>(b, p).
           Ok (set_pens p (put_batch b s))))"

definition absorb_last ::
  "('g, 'c) cache_ops \<Rightarrow> sched_cfg \<Rightarrow> ('g, 'm, 'c) scheduler \<Rightarrow> ('g, 'm, 'c) scheduler res" where
  "absorb_last ops g s = (case last_batch s of
      None \<Rightarrow> Ok s
    | Some l \<Rightarrow>
        rbind (the_obj (b_mode (sh_bats s l))) (\<lambda>mode.
        if is_extend mode
        then rbind (drop_chunked ops g l s) (\<lambda>s.
             if is_empty (the_batch s l) then Ok s
             else let s = bump_lens l s
                  in case running_batch s of
                       None \<Rightarrow> Ok (set_running_batch (Some l) s)
                     | Some r \<Rightarrow> merge_at (sg_model g) r l s)
        else if is_decode mode then Ok (bump_lens l s) else Ok s))"

section \<open>Forming a prefill batch\<close>

text \<open>The grammars of the first \<open>n\<close> queued requests are ready, as the workers have agreed.\<close>

definition move_ready_grammar_requests ::
  "nat \<Rightarrow> (nat \<Rightarrow> 'g) \<Rightarrow> ('g, 'm, 'c) scheduler \<Rightarrow> ('g, 'm, 'c) scheduler" where
  "move_ready_grammar_requests n ready s =
     (let gq = sh_gq s ! sh_cur s
      in if gq = [] then s
         else s\<lparr>sh_objs := fold (\<lambda>i h. h(i := (h i)\<lparr>grammar := Some (ready i)\<rparr>)) (take n gq) (sh_objs s),
                sh_wait := sh_wait s @ take n gq, sh_gq := (sh_gq s)[sh_cur s := drop n gq]\<rparr>)"

definition running_bs :: "('g, 'm, 'c) scheduler \<Rightarrow> nat" where
  "running_bs s = (case running_batch s of None \<Rightarrow> 0 | Some r \<Rightarrow> length (b_reqs (sh_bats s r)))"

definition sort_waiting ::
  "(nat \<Rightarrow> real) \<Rightarrow> ('g req list \<Rightarrow> 'g req list) \<Rightarrow> ('g, 'c) cache_ops \<Rightarrow> ('c \<Rightarrow> rnode)
     \<Rightarrow> ('g, 'm, 'c) scheduler \<Rightarrow> (bool \<times> ('g, 'm, 'c) scheduler) res" where
  "sort_waiting clock shuffle ops tree_root s =
     rbind (calc_priority clock shuffle ops tree_root (sh_pol s ! sh_cur s) (map (sh_objs s) (sh_wait s))
              (w_cache (sh_world s))) (\<lambda>(computed, q, c, p).
       Ok (computed, s\<lparr>sh_wait := map oid q, sh_objs := save_reqs q (sh_objs s),
                       sh_world := (sh_world s)\<lparr>w_cache := c\<rparr>, sh_pol := (sh_pol s)[sh_cur s := p]\<rparr>))"

definition new_adder :: "('g, 'c) cache_ops \<Rightarrow> sched_cfg \<Rightarrow> ('g, 'm, 'c) scheduler \<Rightarrow> ('g, 'c) adder" where
  "new_adder ops g s =
     adder_init (w_cache (sh_world s))
       (map (map_option (\<lambda>r. b_reqs (the_batch s r))) (sh_run s)) (sh_ratio s)
       (sh_avail s + op_evictable_size ops (w_cache (sh_world s))) (sh_max_prefill s) (sh_chunk_size s)
       (if sg_mixed g then int (running_bs s) else 0) (int (sg_pp g))"

text \<open>The request being chunked comes first.\<close>

definition admit_chunked ::
  "('g, 'm, 'c) scheduler \<Rightarrow> ('g, 'c) adder \<Rightarrow> (('g, 'c) adder \<times> ('g, 'm, 'c) scheduler) res" where
  "admit_chunked s ad = (case being_chunked_req s of
      None \<Rightarrow> Ok (ad, s)
    | Some c \<Rightarrow>
        let (r, ca) = init_next_round_input None (ad_cache ad) (sh_objs s c)
        in rbind (add_being_chunked_req r (ad\<lparr>ad_cache := ca\<rparr>)) (\<lambda>(rest, r, ad).
             Ok (ad, set_being_chunked_req (map_option oid rest) (put_req r s))))"

text \<open>The loop over the waiting queue; \<open>loras\<close> are the adapters of the running batch.  Requests that were
  tried keep what matching them set.  The last component is the new value of \<^verbatim>\<open>batch_is_full\<close>.\<close>

fun admit_waiting ::
  "('g, 'c) cache_ops \<Rightarrow> sched_cfg \<Rightarrow> bool \<Rightarrow> nat \<Rightarrow> string option set \<Rightarrow> nat list \<Rightarrow> ('g, 'c) adder \<Rightarrow> (nat \<Rightarrow> 'g req) \<Rightarrow> bool
     \<Rightarrow> (('g, 'c) adder \<times> (nat \<Rightarrow> 'g req) \<times> bool) res" where
  "admit_waiting ops g computed bs loras [] ad h full = Ok (ad, h, full)"
| "admit_waiting ops g computed bs loras (i # is) ad h full =
     (if sg_lora g \<and> card (loras \<union> set (map lora_path (can_run_list ad)) \<union> {lora_path (h i)}) > sg_max_loras g
      then Ok (ad, h, True)
      else if bs + length (can_run_list ad) \<ge> sg_max_running g then Ok (ad, h, True)
      else let (r, c) = init_next_round_input (if computed then None else Some (op_match_prefix ops)) (ad_cache ad) (h i)
           in rbind (add_one_req ops r False (ad\<lparr>ad_cache := c\<rparr>)) (\<lambda>(res, r, ad).
              let h = h(i := r)
              in if res = CONTINUE then admit_waiting ops g computed bs loras is ad h full
                 else Ok (ad, h, if res = NO_TOKEN then True else full)))"

definition stamp_req :: "real \<Rightarrow> int \<Rightarrow> 'g req \<Rightarrow> 'g req" where
  "stamp_req now pp r = r\<lparr>pp_idx := pp, start_time := (case start_time r of None \<Rightarrow> Some now | Some t \<Rightarrow> Some t)\<rparr>"

definition stamp :: "real \<Rightarrow> nat list \<Rightarrow> ('g, 'm, 'c) scheduler \<Rightarrow> ('g, 'm, 'c) scheduler" where
  "stamp now is s =
     s\<lparr>sh_objs := fold (\<lambda>i h. h(i := stamp_req now (int (sh_cur s)) (h i))) is (sh_objs s)\<rparr>"

text \<open>A request cut by the adder becomes the one being chunked, and whatever is being chunked counts the
  chunk.\<close>

definition note_chunked :: "nat option \<Rightarrow> ('g, 'm, 'c) scheduler \<Rightarrow> ('g, 'm, 'c) scheduler res" where
  "note_chunked new s =
     rbind (case new of
              None \<Rightarrow> Ok s
            | Some i \<Rightarrow> rbind (assertR (being_chunked_req s = None)) (\<lambda>_. Ok (set_being_chunked_req (Some i) s))) (\<lambda>s.
       Ok (case being_chunked_req s of
             None \<Rightarrow> s
           | Some i \<Rightarrow> put_req ((sh_objs s i)\<lparr>is_being_chunked := is_being_chunked (sh_objs s i) + 1\<rparr>) s))"

definition make_extend_batch ::
  "('g, 'c) cache_ops \<Rightarrow> sched_cfg \<Rightarrow> nat list \<Rightarrow> ('g, 'm, 'c) scheduler \<Rightarrow> (nat \<times> ('g, 'm, 'c) scheduler) res" where
  "make_extend_batch ops g can_run s =
     (let n = sh_next s; b = init_new n (map (sh_objs s) can_run) (sg_overlap g) (int (sh_cur s))
      in rbind (prepare_for_extend ops (sg_model g) (Suc n) b (sh_world s)) (\<lambda>(b, w).
           Ok (n, put_batch b (put_world w (s\<lparr>sh_next := n + 2\<rparr>)))))"

definition delay_req :: "'g req \<Rightarrow> 'g req" where
  "delay_req r = (if finished_reason r = None \<or> delayed r > 0 then r\<lparr>delayed := delayed r + 1\<rparr> else r)"

text \<open>Mixed chunked prefill: the decoding requests join the batch.  Otherwise nothing joins, and in an
  overlapping pipeline the requests of the running batch are delayed by a step.\<close>

definition mix_in ::
  "('g, 'c) cache_ops \<Rightarrow> sched_cfg \<Rightarrow> nat \<Rightarrow> ('g, 'm, 'c) scheduler \<Rightarrow> ('g, 'm, 'c) scheduler res" where
  "mix_in ops g n s =
     (case running_batch s of
        Some r \<Rightarrow>
          if sg_mixed g \<and> \<not> (b_return_logprob (sh_bats s n) \<or> b_return_logprob (sh_bats s r))
          then rbind (filter_at (sg_model g) None r s) (\<lambda>s.
               rbind (if is_empty (the_batch s r) then Ok s
                 else let run = the_batch s r
                 in rbind (prepare_for_decode ops (sg_model g) run (synced_world run s)) (\<lambda>(run, w).
                    let s = put_batch run (put_world w s); b = the_batch s n
                    in rbind (mix_with_running (sg_model g) b run (w_pens (synced_world b s))) (\<lambda>(b, p).
                         Ok (set_pens p (put_batch (b\<lparr>decoding_reqs := Some (b_reqs run)\<rparr>) s))))) (\<lambda>s.
                 Ok (set_running_batch None s)))
          else let s = (if sg_overlap g \<and> sg_pp g > 1 \<and> sg_rank0 g
                        then s\<lparr>sh_objs := fold (\<lambda>q h. h(oid q := delay_req (h (oid q)))) (b_reqs (sh_bats s r)) (sh_objs s)\<rparr>
                        else s)
               in Ok (s\<lparr>sh_bats := (sh_bats s)(n := (sh_bats s n)\<lparr>decoding_reqs := None\<rparr>)\<rparr>)
      | None \<Rightarrow> Ok (s\<lparr>sh_bats := (sh_bats s)(n := (sh_bats s n)\<lparr>decoding_reqs := None\<rparr>)\<rparr>))"

text \<open>What the environment supplies to a step: clock and shuffling, and the ready grammars.\<close>

record 'g sched_env =
  en_clock :: "nat \<Rightarrow> real"
  en_shuffle :: "'g req list \<Rightarrow> 'g req list"
  en_now :: real
  en_ready :: nat
  en_grammar :: "nat \<Rightarrow> 'g"

definition admit_batch ::
  "('g, 'c) cache_ops \<Rightarrow> sched_cfg \<Rightarrow> bool \<Rightarrow> ('g, 'm, 'c) scheduler \<Rightarrow> (('g, 'c) adder \<times> ('g, 'm, 'c) scheduler) res" where
  "admit_batch ops g computed s =
     rbind (admit_chunked s (new_adder ops g s)) (\<lambda>(ad, s).
     let loras = (case running_batch s of None \<Rightarrow> {} | Some r \<Rightarrow> set (map lora_path (b_reqs (the_batch s r))))
     in rbind (admit_waiting ops g computed (running_bs s) loras (sh_wait s) ad (sh_objs s) (sh_full s)) (\<lambda>(ad, h, full).
          Ok (ad, s\<lparr>sh_objs := h, sh_full := full, sh_world := (sh_world s)\<lparr>w_cache := ad_cache ad\<rparr>\<rparr>)))"

definition get_new_batch_prefill ::
  "('g, 'c) cache_ops \<Rightarrow> ('c \<Rightarrow> rnode) \<Rightarrow> sched_cfg \<Rightarrow> 'g sched_env \<Rightarrow> ('g, 'm, 'c) scheduler
     \<Rightarrow> (nat option \<times> ('g, 'm, 'c) scheduler) res" where
  "get_new_batch_prefill ops tree_root g env s =
     (let s = move_ready_grammar_requests (en_ready env) (en_grammar env) s
      in rbind (fetch_chunked_prefill ops g s) (\<lambda>s.
         if (sh_full s \<or> sh_wait s = []) \<and> being_chunked_req s = None then Ok (None, s)
         else if running_bs s \<ge> sg_max_running g then Ok (None, s\<lparr>sh_full := True\<rparr>)
         else rbind (sort_waiting (en_clock env) (en_shuffle env) ops tree_root s) (\<lambda>(computed, s).
              rbind (admit_batch ops g computed s) (\<lambda>(ad, s).
              let can_run = map oid (can_run_list ad); s = stamp (en_now env) can_run s
              in if can_run = [] then Ok (None, s)
                 else let s = s\<lparr>sh_wait := filter (\<lambda>i. i \<notin> set can_run) (sh_wait s)\<rparr>
                 in rbind (note_chunked (map_option oid (new_being_chunked_req ad)) s) (\<lambda>s.
                    rbind (make_extend_batch ops g can_run s) (\<lambda>(n, s).
                    rbind (mix_in ops g n s) (\<lambda>s. Ok (Some n, s))))))))"

section \<open>The decode step\<close>

text \<open>Requests sent back to the waiting queue, and the batch that remains.\<close>

definition send_back ::
  "'g req list \<Rightarrow> ('g, 'm) batch \<Rightarrow> ('g, 'c) world \<Rightarrow> ('g, 'm, 'c) scheduler \<Rightarrow> ('g, 'm, 'c) scheduler" where
  "send_back out b w s =
     put_batch b (put_world w (s\<lparr>sh_objs := save_reqs out (sh_objs s), sh_wait := sh_wait s @ map oid out\<rparr>))"

text \<open>When the memory does not suffice (or, in a test mode, the batch has more than ten requests) requests are
  retracted, else the new-token ratio decays.\<close>

definition make_room ::
  "('g, 'c) cache_ops \<Rightarrow> sched_cfg \<Rightarrow> ('g, 'm) batch \<Rightarrow> ('g, 'm, 'c) scheduler \<Rightarrow> (('g, 'm) batch \<times> ('g, 'm, 'c) scheduler) res" where
  "make_room ops g b s =
     (let (enough, w) = check_decode_mem ops (sh_avail s) b (synced_world b s)
      in if \<not> enough \<or> (sg_test_retract g \<and> 10 < length (b_reqs b))
         then rbind (retract_decode ops (sg_model g) (sh_avail s) b w) (\<lambda>((out, ratio), b, w).
                Ok (b, send_back out b w (s\<lparr>sh_ratio := ratio\<rparr>)))
         else Ok (b, (put_world w s)\<lparr>sh_ratio := max (sh_ratio s - sg_decay g) (sg_min_ratio g)\<rparr>))"

definition jump_out ::
  "('g, 'c) cache_ops \<Rightarrow> sched_cfg \<Rightarrow> ('g, 'h) grammar_ops \<Rightarrow> (int list \<Rightarrow> nat option \<Rightarrow> int list)
     \<Rightarrow> ('g, 'm) batch \<Rightarrow> ('g, 'm, 'c) scheduler \<Rightarrow> (('g, 'm) batch \<times> ('g, 'm, 'c) scheduler) res" where
  "jump_out ops g gr pad b s =
     (if sg_jump g
      then rbind (check_for_jump_forward ops (sg_model g) gr pad b (synced_world b s)) (\<lambda>(out, b, w).
             Ok (b, send_back out b w s))
      else Ok (b, s))"

definition update_running_batch ::
  "('g, 'c) cache_ops \<Rightarrow> sched_cfg \<Rightarrow> ('g, 'h) grammar_ops \<Rightarrow> (int list \<Rightarrow> nat option \<Rightarrow> int list) \<Rightarrow> nat
     \<Rightarrow> ('g, 'm, 'c) scheduler \<Rightarrow> (nat option \<times> ('g, 'm, 'c) scheduler) res" where
  "update_running_batch ops g gr pad i s =
     (let initial_bs = length (b_reqs (sh_bats s i))
      in rbind (filter_at (sg_model g) None i s) (\<lambda>s.
         if is_empty (the_batch s i) then Ok (None, s\<lparr>sh_full := False\<rparr>)
         else rbind (make_room ops g (the_batch s i) s) (\<lambda>(b, s).
              rbind (jump_out ops g gr pad b s) (\<lambda>(b, s).
              if sg_jump g \<and> is_empty b then Ok (None, s\<lparr>sh_full := False\<rparr>)
              else let s = (if length (b_reqs b) < initial_bs then s\<lparr>sh_full := False\<rparr> else s)
                   in rbind (prepare_for_decode ops (sg_model g) b (synced_world b s)) (\<lambda>(b, w).
                        Ok (Some i, put_batch b (put_world w s)))))))"

section \<open>Rebalancing and the scheduling step\<close>

definition last_entry_of :: "('g, 'm, 'c) scheduler \<Rightarrow> nat \<Rightarrow> last_entry" where
  "last_entry_of s i = (case sh_last s ! i of
      None \<Rightarrow> NoLast
    | Some l \<Rightarrow> if running_batch s = Some l then LastIsRunning else OtherLast (length (b_reqs (sh_bats s l))))"

record monitor =
  mn_slo_tpot :: real
  mn_tpot :: real
  mn_metrics :: "(real \<times> int \<times> real) option"
  mn_max_total :: int

definition rb_env_of ::
  "('g, 'c) cache_ops \<Rightarrow> monitor \<Rightarrow> sched_cfg \<Rightarrow> ('g, 'm, 'c) scheduler \<Rightarrow> 'g rb_env" where
  "rb_env_of ops mn g s =
     \<lparr>e_pp_size = sg_pp g, e_cur = int (sh_cur s), e_last = map (last_entry_of s) [0..<sg_pp g],
      e_being_chunked = map (\<lambda>c. c \<noteq> None) (sh_chunk s), e_slo_tpot = mn_slo_tpot mn, e_metrics = mn_metrics mn,
      e_waiting = map (sh_objs s) (sh_wait s),
      e_available = int (kv_available_size (m_kv (w_mem (sh_world s)))) + op_evictable_size ops (w_cache (sh_world s)),
      e_max_total = mn_max_total mn, e_tpot = mn_tpot mn\<rparr>"

definition rebalance_step :: "'g rb_env \<Rightarrow> sched_cfg \<Rightarrow> ('g, 'm, 'c) scheduler \<Rightarrow> ('g, 'm, 'c) scheduler res" where
  "rebalance_step env g s =
     (let run = map_option (the_batch s) (running_batch s); pend = map_option (the_batch s) (sh_pending s);
          pens = fold (\<lambda>b p. store_set_reqs (b_id b) (b_reqs b) p)
            ((case run of None \<Rightarrow> [] | Some b \<Rightarrow> [b]) @ (case pend of None \<Rightarrow> [] | Some b \<Rightarrow> [b])) (w_pens (sh_world s))
      in rbind (rebalance (sg_model g) (sg_rb g) env
                 \<lparr>running = run, pending = pend, batch_is_full = sh_full s, rb_pens = pens, next_id = sh_next s\<rparr>) (\<lambda>st.
           let s = (case running st of None \<Rightarrow> s | Some b \<Rightarrow> put_batch b s);
               s = (case pending st of None \<Rightarrow> s | Some b \<Rightarrow> put_batch b s)
           in Ok ((set_running_batch (map_option b_id (running st)) (set_pens (rb_pens st) s))
                    \<lparr>sh_pending := map_option b_id (pending st), sh_full := batch_is_full st, sh_next := next_id st\<rparr>)))"

definition get_next_batch_to_run ::
  "('g, 'c) cache_ops \<Rightarrow> ('c \<Rightarrow> rnode) \<Rightarrow> sched_cfg \<Rightarrow> ('g, 'h) grammar_ops \<Rightarrow> (int list \<Rightarrow> nat option \<Rightarrow> int list)
     \<Rightarrow> monitor \<Rightarrow> 'g sched_env \<Rightarrow> ('g, 'm, 'c) scheduler \<Rightarrow> (nat option \<times> ('g, 'm, 'c) scheduler) res" where
  "get_next_batch_to_run ops tree_root g gr pad mn env s =
     rbind (absorb_last ops g s) (\<lambda>s.
     rbind (if sg_rebalance g then rebalance_step (rb_env_of ops mn g s) g s else Ok s) (\<lambda>s.
     rbind (get_new_batch_prefill ops tree_root g env s) (\<lambda>(new, s).
       case new of
         Some n \<Rightarrow> Ok (Some n, s)
       | None \<Rightarrow> (case running_batch s of
           None \<Rightarrow> Ok (None, s)
         | Some i \<Rightarrow> rbind (update_running_batch ops g gr pad i s) (\<lambda>(i, s). Ok (i, set_running_batch i s))))))"

end
