(* ===== verification/Scheduler_Steps.thy ===== *)
theory Scheduler_Steps
imports Scheduler
begin

text \<open>
  What a scheduling step does with the requests: which objects it may change and how, which requests a
  prefill batch takes from the waiting queue, and where the requests of a decode batch go.
\<close>

section \<open>Stable objects\<close>

text \<open>The steps of the scheduler never change the identity of a request or whether it is finished.\<close>

definition same_req :: "'g req \<Rightarrow> 'g req \<Rightarrow> bool" where
  "same_req r r' \<longleftrightarrow> oid r' = oid r \<and> finished r' = finished r"

definition stable :: "(nat \<Rightarrow> 'g req) \<Rightarrow> (nat \<Rightarrow> 'g req) \<Rightarrow> bool" where
  "stable h h' \<longleftrightarrow> (\<forall>i. same_req (h i) (h' i))"

definition named :: "(nat \<Rightarrow> 'g req) \<Rightarrow> bool" where
  "named h \<longleftrightarrow> (\<forall>i. oid (h i) = i)"

lemma same_req_refl [simp, intro]: "same_req r r"
  by (simp add: same_req_def)

lemma same_req_trans: "same_req r r' \<Longrightarrow> same_req r' r'' \<Longrightarrow> same_req r r''"
  by (simp add: same_req_def)

lemma stable_refl [simp, intro]: "stable h h"
  by (simp add: stable_def)

lemma stable_trans: "stable h h' \<Longrightarrow> stable h' h'' \<Longrightarrow> stable h h''"
  by (auto simp: stable_def intro: same_req_trans)

lemma stable_named: "stable h h' \<Longrightarrow> named h \<Longrightarrow> named h'"
  by (simp add: stable_def named_def same_req_def)

lemma namedD: "named h \<Longrightarrow> oid (h i) = i"
  by (simp add: named_def)

lemma stable_finished: "stable h h' \<Longrightarrow> finished (h' i) = finished (h i)"
  by (simp add: stable_def same_req_def)

lemma stable_upd: "same_req (h i) r \<Longrightarrow> stable h (h(i := r))"
  by (simp add: stable_def)

lemma stable_fold:
  assumes "\<And>x h. stable h (f x h)"
  shows "stable h (fold f xs h)"
proof (induction xs arbitrary: h)
  case (Cons x xs)
  then show ?case unfolding fold_simps(2) using assms by (rule stable_trans [rotated])
qed simp

text \<open>Writing back requests.\<close>

lemma save_reqs_Cons: "save_reqs (r # rs) h = save_reqs rs (h(oid r := r))"
  by (simp add: save_reqs_def)

lemma save_reqs_stable:
  assumes "\<forall>r \<in> set rs. same_req (h (oid r)) r"
  shows "stable h (save_reqs rs h)"
  using assms
proof (induction rs arbitrary: h)
  case (Cons r rs)
  let ?h = "h(oid r := r)"
  have r: "same_req (h (oid r)) r" using Cons.prems by simp
  have s: "stable h ?h" using r by (auto simp: stable_def)
  have "\<forall>q \<in> set rs. same_req (?h (oid q)) q"
  proof
    fix q assume q: "q \<in> set rs"
    show "same_req (?h (oid q)) q"
    proof (cases "oid q = oid r")
      case True
      then show ?thesis using Cons.prems q r by (simp add: same_req_def)
    next
      case False
      then show ?thesis using Cons.prems q by simp
    qed
  qed
  then have "stable ?h (save_reqs rs ?h)" by (rule Cons.IH)
  then show ?case unfolding save_reqs_Cons by (rule stable_trans [OF s])
qed (simp add: save_reqs_def)

section \<open>Admission from the queue\<close>

lemma finished_fields:
  "finished (r\<lparr>fill_ids := a\<rparr>) = finished r" "finished (r\<lparr>prefix_indices := b\<rparr>) = finished r"
  "finished (r\<lparr>last_node := c\<rparr>) = finished r" "finished (r\<lparr>extend_input_len := d\<rparr>) = finished r"
  "finished (r\<lparr>pp_idx := e\<rparr>) = finished r" "finished (r\<lparr>start_time := f\<rparr>) = finished r"
  "finished (r\<lparr>is_being_chunked := k\<rparr>) = finished r" "finished (r\<lparr>output_ids_len := l\<rparr>) = finished r"
  "finished (r\<lparr>grammar := m\<rparr>) = finished r" "finished (r\<lparr>cached_tokens := k\<rparr>) = finished r"
  "finished (r\<lparr>req_pool_idx := n\<rparr>) = finished r" "finished (r\<lparr>extend_logprob_start_len := k\<rparr>) = finished r"
  "finished (r\<lparr>is_retracted := q\<rparr>) = finished r" "finished (r\<lparr>logprob_start_len := k\<rparr>) = finished r"
  "finished (r\<lparr>last_update_decode_tokens := k\<rparr>) = finished r"
  by (simp_all add: finished_def)

lemma next_round_same: "same_req r (fst (init_next_round_input mp c r))"
proof (cases mp)
  case None
  then show ?thesis by (simp add: init_next_round_input_def Let_def same_req_def finished_fields)
next
  case (Some f)
  obtain key r1 where a: "adjust_max_prefix_ids (r\<lparr>fill_ids := Some (origin_input_ids r @ output_ids r)\<rparr>) = (key, r1)"
    by fastforce
  have r1: "same_req r r1"
    using adjust_max_prefix_ids_fields [of "r\<lparr>fill_ids := Some (origin_input_ids r @ output_ids r)\<rparr>"] a
    by (simp add: same_req_def finished_fields)
  obtain pre nd c1 where m: "f (rid r1) key c = ((pre, nd), c1)" by (metis prod.exhaust_sel)
  show ?thesis using r1 by (simp add: init_next_round_input_def Some a m same_req_def finished_fields)
qed

lemma cut_req_same: "cut_req n r = Ok r' \<Longrightarrow> same_req r r'"
  by (auto simp: cut_req_Ok same_req_def finished_fields)

lemma budget_not_continue: "x \<noteq> CONTINUE \<Longrightarrow> x = NO_TOKEN \<or> x = OTHER"
  by (cases x) auto

lemma with_lock_delta_fields:
  "with_lock_delta l ad = Ok ad' \<Longrightarrow> can_run_list ad' = can_run_list ad \<and> new_being_chunked_req ad' = new_being_chunked_req ad"
  by (auto simp: with_lock_delta_def elim!: rbind_OkE)

lemma lock_and_charge_fields:
  "lock_and_charge ops r e n ad = Ok ad' \<Longrightarrow> can_run_list ad' = can_run_list ad \<and> new_being_chunked_req ad' = new_being_chunked_req ad"
  by (auto simp: lock_and_charge_def elim!: rbind_OkE)

definition admitted :: "'g req \<Rightarrow> ('g, 'c) adder \<Rightarrow> 'g req \<Rightarrow> ('g, 'c) adder \<Rightarrow> bool" where
  "admitted r ad r' ad' \<longleftrightarrow> can_run_list ad' = can_run_list ad @ [r'] \<and> same_req r r'
     \<and> (new_being_chunked_req ad' = new_being_chunked_req ad \<or> new_being_chunked_req ad' = Some r')"

definition refused :: "'g req \<Rightarrow> ('g, 'c) adder \<Rightarrow> 'g req \<Rightarrow> ('g, 'c) adder \<Rightarrow> bool" where
  "refused r ad r' ad' \<longleftrightarrow> can_run_list ad' = can_run_list ad \<and> r' = r \<and> new_being_chunked_req ad' = new_being_chunked_req ad"

lemma admit_locked_outcome:
  "admit_locked ops need r ad = Ok (early, r', ad') \<Longrightarrow>
     (early \<noteq> None \<and> early \<noteq> Some CONTINUE \<and> refused r ad r' ad') \<or> (early = None \<and> admitted r ad r' ad')"
  by (auto simp: admit_locked_def Let_def refused_def admitted_def elim!: rbind_OkE split: if_splits
      dest!: lock_and_charge_fields cut_req_same)

lemma add_one_req_outcome:
  assumes "add_one_req ops r fetch ad = Ok (res, r', ad')"
  shows "(res \<noteq> CONTINUE \<and> refused r ad r' ad') \<or> admitted r ad r' ad'"
proof (cases "ignore_eos (params r) \<and> op_disable ops (ad_cache ad)")
  case True
  then have "add_one_req_ignore_eos_safe r ad = Ok (res, r', ad')" using assms by (simp add: add_one_req_def)
  then show ?thesis
    by (auto simp: add_one_req_ignore_eos_safe_def Let_def refused_def admitted_def elim!: rbind_OkE split: if_splits
        dest!: cut_req_same)
next
  case False
  then show ?thesis
    using assms
    by (fastforce simp: add_one_req_def Let_def refused_def admitted_def elim!: rbind_OkE split: if_splits option.splits
      dest!: admit_locked_outcome with_lock_delta_fields)
qed

text \<open>The loop admits a prefix of the queue, in order, and never more than fit beside the running
  requests.\<close>

lemma admit_waiting_prefix:
  assumes "admit_waiting ops g computed bs loras is ad h full = Ok (ad', h', full')" "named h" "distinct is"
  shows "\<exists>k \<le> length is. can_run_list ad' = can_run_list ad @ map h' (take k is)
    \<and> stable h h' \<and> (\<forall>j. j \<notin> set is \<longrightarrow> h' j = h j)
    \<and> (k = 0 \<or> bs + length (can_run_list ad') \<le> sg_max_running g)
    \<and> (new_being_chunked_req ad' = new_being_chunked_req ad
       \<or> (\<exists>i \<in> set (take k is). new_being_chunked_req ad' = Some (h' i)))"
  using assms
proof (induction "is" arbitrary: ad h full)
  case (Cons i "is")
  show ?case
  proof (cases "sg_lora g \<and> card (loras \<union> set (map lora_path (can_run_list ad)) \<union> {lora_path (h i)}) > sg_max_loras g
      \<or> bs + length (can_run_list ad) \<ge> sg_max_running g")
    case True
    then have "ad' = ad \<and> h' = h" using Cons.prems(1) by (auto split: if_splits)
    then show ?thesis by (intro exI [of _ 0]) simp
  next
    case False
    obtain r c where rc: "init_next_round_input (if computed then None else Some (op_match_prefix ops)) (ad_cache ad) (h i) = (r, c)"
      by fastforce
    have r: "same_req (h i) r" using next_round_same [of "h i"] rc by (metis fst_conv)
    obtain res r1 ad1 where add: "add_one_req ops r False (ad\<lparr>ad_cache := c\<rparr>) = Ok (res, r1, ad1)"
      and rest: "(if res = CONTINUE then admit_waiting ops g computed bs loras is ad1 (h(i := r1)) full
         else Ok (ad1, h(i := r1), if res = NO_TOKEN then True else full)) = Ok (ad', h', full')"
      using Cons.prems(1) False rc by (auto simp: Let_def elim!: rbind_OkE)
    have o: "(res \<noteq> CONTINUE \<and> can_run_list ad1 = can_run_list ad \<and> r1 = r \<and> new_being_chunked_req ad1 = new_being_chunked_req ad)
      \<or> (can_run_list ad1 = can_run_list ad @ [r1] \<and> same_req r r1
         \<and> (new_being_chunked_req ad1 = new_being_chunked_req ad \<or> new_being_chunked_req ad1 = Some r1))"
      using add_one_req_outcome [OF add] by (simp add: admitted_def refused_def)
    have r1: "same_req (h i) r1" using o r same_req_trans by metis
    have st: "stable h (h(i := r1))" using r1 by (rule stable_upd)
    show ?thesis
    proof (cases "res = CONTINUE")
      case True
      have "admit_waiting ops g computed bs loras is ad1 (h(i := r1)) full = Ok (ad', h', full')" "distinct is"
        using rest True Cons.prems(3) by simp_all
      from Cons.IH [OF this(1) stable_named [OF st Cons.prems(2)] this(2)]
      obtain k where k: "k \<le> length is" "can_run_list ad' = can_run_list ad1 @ map h' (take k is)"
        "stable (h(i := r1)) h'" "\<forall>j. j \<notin> set is \<longrightarrow> h' j = (h(i := r1)) j"
        "k = 0 \<or> bs + length (can_run_list ad') \<le> sg_max_running g"
        "new_being_chunked_req ad' = new_being_chunked_req ad1 \<or> (\<exists>i \<in> set (take k is). new_being_chunked_req ad' = Some (h' i))"
        by blast
      have hi: "h' i = r1" using k(4) Cons.prems(3) by simp
      have c1: "can_run_list ad1 = can_run_list ad @ [h' i]"
        "new_being_chunked_req ad1 = new_being_chunked_req ad \<or> new_being_chunked_req ad1 = Some (h' i)"
        using o True hi by auto
      show ?thesis
      proof (intro exI [of _ "Suc k"] conjI)
        show "stable h h'" by (rule stable_trans [OF st k(3)])
        show "\<forall>j. j \<notin> set (i # is) \<longrightarrow> h' j = h j" using k(4) by simp
        show "Suc k = 0 \<or> bs + length (can_run_list ad') \<le> sg_max_running g"
          using k(2,5) c1(1) False by auto
        show "new_being_chunked_req ad' = new_being_chunked_req ad
          \<or> (\<exists>j \<in> set (take (Suc k) (i # is)). new_being_chunked_req ad' = Some (h' j))"
          using k(6) c1(2) by auto
      qed (use k c1 in auto)
    next
      case neq: False
      then have e: "ad' = ad1" "h' = h(i := r1)" using rest by auto
      have h: "stable h h'" "h' i = r1" "\<forall>j. j \<noteq> i \<longrightarrow> h' j = h j" using st e(2) by simp_all
      show ?thesis
      proof (cases "can_run_list ad1 = can_run_list ad @ [r1]")
        case True
        then show ?thesis using o h False e(1)
          by (intro exI [of _ 1]) auto
      next
        case False
        then show ?thesis using o h e(1) by (intro exI [of _ 0]) auto
      qed
    qed
  qed
qed auto

section \<open>Sorting the queue\<close>

lemma match_request_same: "same_req r (fst (match_request clock ops r st))"
proof -
  obtain c wq po where st: "st = (c, wq, po)" by (rule prod_cases3)
  obtain key r1 where a: "adjust_max_prefix_ids r = (key, r1)" by fastforce
  have r1: "same_req r r1" using adjust_max_prefix_ids_fields [of r] a by (simp add: same_req_def finished_fields)
  obtain pre nd c1 where m: "op_match_prefix ops (rid r1) key c = ((pre, nd), c1)" by (metis prod.exhaust_sel)
  show ?thesis using r1
    by (simp add: match_request_def st a m same_req_def finished_fields Let_def split: prod.splits)
qed

lemma match_requests_same:
  "match_requests clock ops q st = (q1, st1) \<Longrightarrow> list_all2 same_req q q1"
proof (induction q arbitrary: st q1 st1)
  case (Cons r q)
  obtain r1 s1 where r: "match_request clock ops r st = (r1, s1)" by (rule prod.exhaust)
  obtain q2 s2 where q: "match_requests clock ops q s1 = (q2, s2)" by (rule prod.exhaust)
  have e: "q1 = r1 # q2" using Cons.prems r q by simp
  have "same_req r r1" using match_request_same [of r clock ops st] r by simp
  then show ?case using Cons.IH [OF q] e by simp
qed simp

lemma calc_priority_perm:
  assumes run: "calc_priority clock shuffle ops tree_root p q c = Ok (computed, q', c', p')"
    and pol: "sp_policy p \<noteq> ''dfs-weight''" and shuffle: "\<And>xs. mset (shuffle xs) = mset xs"
  shows "\<exists>q1. list_all2 same_req q q1 \<and> mset q' = mset q1"
proof -
  define policy where "policy = (if length q > 128 \<and> sp_policy p = ''lpm'' then ''fcfs'' else sp_policy p)"
  have np: "policy \<noteq> ''dfs-weight''" using pol by (auto simp: policy_def)
  obtain q1 c1 wq po where m: "(if policy = ''lpm'' \<or> policy = ''dfs-weight''
      then match_requests clock ops q (c, radix_reset clock (sp_queue_tree p), [])
      else (q, c, sp_queue_tree p, [])) = (q1, c1, wq, po)" by (rule prod_cases4)
  have "list_all2 same_req q q1"
    using m match_requests_same [of clock ops q _ q1] by (auto simp: list_all2_same split: if_splits)
  moreover have "mset q' = mset q1"
    using run m np shuffle unfolding calc_priority_def policy_def [symmetric] Let_def by (auto split: if_splits)
  ultimately show ?thesis by blast
qed

lemma same_reqs_oid: "list_all2 same_req q q1 \<Longrightarrow> map oid q1 = map oid q"
  by (induction rule: list_all2_induct) (simp_all add: same_req_def)

lemma sort_waiting_perm:
  assumes "sort_waiting clock shuffle ops tree_root s = Ok (computed, s')" "named (sh_objs s)"
    "sp_policy (sh_pol s ! sh_cur s) \<noteq> ''dfs-weight''" "\<And>xs. mset (shuffle xs) = mset xs"
  shows "mset (sh_wait s') = mset (sh_wait s) \<and> stable (sh_objs s) (sh_objs s')
    \<and> sh_bats s' = sh_bats s \<and> sh_run s' = sh_run s \<and> sh_last s' = sh_last s \<and> sh_pending s' = sh_pending s
    \<and> sh_cur s' = sh_cur s \<and> sh_next s' = sh_next s \<and> sh_gq s' = sh_gq s \<and> sh_chunk s' = sh_chunk s"
proof -
  obtain q c p where q: "calc_priority clock shuffle ops tree_root (sh_pol s ! sh_cur s) (map (sh_objs s) (sh_wait s))
      (w_cache (sh_world s)) = Ok (computed, q, c, p)"
    and s': "s' = s\<lparr>sh_wait := map oid q, sh_objs := save_reqs q (sh_objs s),
       sh_world := (sh_world s)\<lparr>w_cache := c\<rparr>, sh_pol := (sh_pol s)[sh_cur s := p]\<rparr>"
    using assms(1) by (auto simp: sort_waiting_def elim!: rbind_OkE)
  obtain q1 where q1: "list_all2 same_req (map (sh_objs s) (sh_wait s)) q1" "mset q = mset q1"
    using calc_priority_perm [OF q assms(3,4)] by blast
  have "map oid q1 = sh_wait s"
    using same_reqs_oid [OF q1(1)] assms(2) by (simp add: named_def o_def)
  then have m: "mset (map oid q) = mset (sh_wait s)" using q1(2) by (metis mset_map)
  have "\<forall>r \<in> set q. same_req (sh_objs s (oid r)) r"
  proof
    fix r assume "r \<in> set q"
    then have "r \<in> set q1" using q1(2) mset_eq_setD by blast
    then obtain i where i: "i < length q1" "r = q1 ! i" by (auto simp: in_set_conv_nth)
    have "same_req (sh_objs s (sh_wait s ! i)) r"
      using list_all2_nthD2 [OF q1(1) i(1)] i(1) list_all2_lengthD [OF q1(1)] i(2) by simp
    then show "same_req (sh_objs s (oid r)) r" using assms(2) by (simp add: same_req_def named_def)
  qed
  then have "stable (sh_objs s) (save_reqs q (sh_objs s))" by (rule save_reqs_stable)
  then show ?thesis using m s' by auto
qed

section \<open>Forming the batch\<close>

lemma extend_req_same: "extend_req r i p = Ok (r', p') \<Longrightarrow> same_req r r'"
  by (auto simp: extend_req_def Let_def same_req_def finished_fields elim!: rbind_OkE)

lemma extend_reqs_same:
  "extend_reqs rs is p = Ok (rs', p') \<Longrightarrow> length is = length rs \<Longrightarrow> list_all2 same_req rs rs'"
  by (induction rs "is" p arbitrary: rs' p' rule: extend_reqs.induct)
     (auto elim!: rbind_OkE dest: extend_req_same)

lemma alloc_req_slots_length: "alloc_req_slots n w = Ok (is, w') \<Longrightarrow> length is = n"
  by (auto simp: alloc_req_slots_def rp_alloc_def split: if_splits)

lemma prepare_encoder_info_extend_reqs:
  "prepare_encoder_info_extend inputs lens b = Ok b' \<Longrightarrow> b_reqs b' = b_reqs b \<and> b_id b' = b_id b"
  by (auto simp: prepare_encoder_info_extend_def Let_def elim!: rbind_OkE)

lemma extend_step_same:
  "alloc_req_slots (length rs) w = Ok (idxs, w1) \<Longrightarrow> extend_reqs rs idxs p = Ok (rs', p') \<Longrightarrow> list_all2 same_req rs rs'"
  using alloc_req_slots_length extend_reqs_same by blast

lemma prepare_for_extend_same:
  assumes "prepare_for_extend ops cfg pen b w = Ok (b', w')"
  shows "list_all2 same_req (b_reqs b) (b_reqs b') \<and> b_id b' = b_id b"
  using assms unfolding prepare_for_extend_def Let_def
  by (elim rbind_OkE) (auto elim!: rbind_OkE split: if_splits dest!: prepare_encoder_info_extend_reqs, (erule (1) extend_step_same)+)

section \<open>Batches by identity\<close>

definition batch_ids :: "('g, 'm, 'c) scheduler \<Rightarrow> nat \<Rightarrow> nat list" where
  "batch_ids s i = map oid (b_reqs (sh_bats s i))"

text \<open>Objects know their place in the store.\<close>

definition store_ok :: "('g, 'm, 'c) scheduler \<Rightarrow> bool" where
  "store_ok s \<longleftrightarrow> named (sh_objs s) \<and> (\<forall>i. b_id (sh_bats s i) = i)"

lemma the_batch_reqs: "b_reqs (the_batch s i) = map (sh_objs s) (batch_ids s i)" "b_id (the_batch s i) = b_id (sh_bats s i)"
  "b_mode (the_batch s i) = b_mode (sh_bats s i)"
  by (simp_all add: the_batch_def obj_batch_def batch_ids_def)

lemma named_oids: "named h \<Longrightarrow> map oid (map h is) = is"
  by (simp add: named_def o_def)

lemma put_batch_ids: "batch_ids (put_batch b s) j = (if j = b_id b then map oid (b_reqs b) else batch_ids s j)"
  by (simp add: put_batch_def batch_ids_def)

lemma stable_all2:
  assumes "named h" "list_all2 same_req (map h is) rs"
  shows "\<forall>r \<in> set rs. same_req (h (oid r)) r"
proof
  fix r assume "r \<in> set rs"
  then obtain k where k: "k < length rs" "r = rs ! k" by (auto simp: in_set_conv_nth)
  have "same_req (h (is ! k)) r"
    using list_all2_nthD2 [OF assms(2) k(1)] k list_all2_lengthD [OF assms(2)] by simp
  then show "same_req (h (oid r)) r" using assms(1) by (simp add: same_req_def named_def)
qed

text \<open>A step that leaves the batches, the slots that name them and the other stages alone.\<close>

definition frame :: "('g, 'm, 'c) scheduler \<Rightarrow> ('g, 'm, 'c) scheduler \<Rightarrow> bool" where
  "frame s s' \<longleftrightarrow> sh_bats s' = sh_bats s \<and> sh_run s' = sh_run s \<and> sh_last s' = sh_last s \<and> sh_pending s' = sh_pending s
     \<and> sh_cur s' = sh_cur s \<and> sh_next s' = sh_next s \<and> stable (sh_objs s) (sh_objs s')"

lemma frame_refl [simp, intro]: "frame s s"
  by (simp add: frame_def)

lemma frame_trans: "frame s s' \<Longrightarrow> frame s' s'' \<Longrightarrow> frame s s''"
  by (auto simp: frame_def intro: stable_trans)

lemma frame_ok: "frame s s' \<Longrightarrow> store_ok s \<Longrightarrow> store_ok s'"
  by (auto simp: frame_def store_ok_def intro: stable_named)

lemma frame_ids: "frame s s' \<Longrightarrow> batch_ids s' = batch_ids s"
  by (auto simp: frame_def batch_ids_def)

lemma frame_same: "frame s s' \<Longrightarrow> running_batch s' = running_batch s \<and> running_bs s' = running_bs s"
  by (auto simp: frame_def running_batch_def running_bs_def split: option.splits)

section \<open>Caches keep requests\<close>

locale request_cache = finishing_cache +
  assumes unfinished_same: "op_cache_unfinished ops r ids c m = Ok (r', c', m') \<Longrightarrow> same_req r r'"
begin

lemma stash_chunk_frame:
  assumes "stash_chunk ops i s = Ok s'" "named (sh_objs s)"
  shows "frame s s' \<and> sh_wait s' = sh_wait s \<and> sh_gq s' = sh_gq s \<and> sh_chunk s' = sh_chunk s \<and> sh_pol s' = sh_pol s"
proof -
  obtain r c m m1 where r: "op_cache_unfinished ops (sh_objs s i) None (w_cache (sh_world s)) (w_mem (sh_world s)) = Ok (r, c, m)"
    and s': "s' = put_req r (put_world ((sh_world s)\<lparr>w_cache := c, w_mem := m1\<rparr>) s)"
    using assms(1) by (auto simp: stash_chunk_def elim!: rbind_OkE)
  have "same_req (sh_objs s i) r" by (rule unfinished_same [OF r])
  then have "same_req (sh_objs s (oid r)) r" using assms(2) by (simp add: same_req_def named_def)
  then show ?thesis by (auto simp: s' frame_def put_req_def put_world_def stable_def)
qed

lemma fetch_chunked_prefill_frame:
  assumes "fetch_chunked_prefill ops g s = Ok s'" "named (sh_objs s)"
  shows "frame s s' \<and> sh_wait s' = sh_wait s \<and> sh_gq s' = sh_gq s \<and> sh_pol s' = sh_pol s
    \<and> (sh_chunk s' = sh_chunk s
       \<or> (\<exists>i. sg_pp g \<noteq> 1 \<and> sh_chunk s ! ((sh_cur s + sg_pp g - 1) mod sg_pp g) = Some i
            \<and> sh_chunk s' = (sh_chunk s)[sh_cur s := Some i]))"
proof (cases "sg_pp g = 1 \<or> sh_chunk s ! ((sh_cur s + sg_pp g - 1) mod sg_pp g) = None")
  case True
  then show ?thesis using assms(1) by (auto simp: fetch_chunked_prefill_def simp del: One_nat_def split: if_splits)
next
  case False
  then obtain i where i: "sh_chunk s ! ((sh_cur s + sg_pp g - 1) mod sg_pp g) = Some i" by auto
  let ?s = "set_being_chunked_req (Some i) s"
  have "stash_chunk ops i ?s = Ok s'" using assms(1) False i by (simp add: fetch_chunked_prefill_def)
  moreover have "named (sh_objs ?s)" using assms(2) by (simp add: set_being_chunked_req_def)
  ultimately have "frame ?s s' \<and> sh_wait s' = sh_wait ?s \<and> sh_gq s' = sh_gq ?s \<and> sh_chunk s' = sh_chunk ?s \<and> sh_pol s' = sh_pol ?s"
    by (rule stash_chunk_frame)
  then show ?thesis using False i by (simp add: set_being_chunked_req_def frame_def)
qed

end

interpretation rq_chunk: request_cache chunk_ops
  by unfold_locales
    (auto simp: chunk_ops_def cc_cache_unfinished_req_def same_req_def finished_fields elim!: rbind_OkE split: option.splits)

interpretation rq_radix: request_cache "radix_ops clock" for clock
  by unfold_locales
    (auto simp: radix_ops_def radix_cache_unfinished_req_def Let_def same_req_def finished_fields elim!: rbind_OkE
      split: if_splits prod.splits)

section \<open>The stages of forming a batch\<close>

lemma move_ready_frame:
  "frame s (move_ready_grammar_requests n ready s)
   \<and> sh_wait (move_ready_grammar_requests n ready s) = sh_wait s @ take n (sh_gq s ! sh_cur s)
   \<and> sh_gq (move_ready_grammar_requests n ready s) = (sh_gq s)[sh_cur s := drop n (sh_gq s ! sh_cur s)]
   \<and> sh_chunk (move_ready_grammar_requests n ready s) = sh_chunk s"
proof -
  have "stable h (fold (\<lambda>i h. h(i := (h i)\<lparr>grammar := Some (ready i)\<rparr>)) xs h)" for h xs
    by (rule stable_fold) (simp add: stable_def same_req_def finished_fields)
  moreover have "(sh_gq s)[sh_cur s := []] = sh_gq s" if "sh_gq s ! sh_cur s = []"
    using list_update_id [of "sh_gq s" "sh_cur s"] that by simp
  ultimately show ?thesis
    by (simp add: move_ready_grammar_requests_def Let_def frame_def)
qed

lemma sort_waiting_frame:
  assumes "sort_waiting clock shuffle ops tree_root s = Ok (computed, s')" "named (sh_objs s)"
    "sp_policy (sh_pol s ! sh_cur s) \<noteq> ''dfs-weight''" "\<And>xs. mset (shuffle xs) = mset xs"
  shows "frame s s' \<and> mset (sh_wait s') = mset (sh_wait s) \<and> sh_gq s' = sh_gq s \<and> sh_chunk s' = sh_chunk s"
  using sort_waiting_perm [OF assms] by (simp add: frame_def)

lemma admit_chunked_outcome:
  assumes "admit_chunked s ad = Ok (ad', s')" "named (sh_objs s)"
  shows "case being_chunked_req s of
      None \<Rightarrow> ad' = ad \<and> s' = s
    | Some c \<Rightarrow> frame s s' \<and> sh_wait s' = sh_wait s \<and> sh_gq s' = sh_gq s
        \<and> (\<exists>r. can_run_list ad' = can_run_list ad @ [r] \<and> oid r = c)
        \<and> new_being_chunked_req ad' = new_being_chunked_req ad
        \<and> (\<exists>x. (x = None \<or> x = Some c) \<and> sh_chunk s' = (sh_chunk s)[sh_cur s := x])"
proof (cases "being_chunked_req s")
  case None
  then show ?thesis using assms(1) by (simp add: admit_chunked_def)
next
  case (Some c)
  obtain r ca where r: "init_next_round_input None (ad_cache ad) (sh_objs s c) = (r, ca)" by (rule prod.exhaust)
  have same: "same_req (sh_objs s c) r" using next_round_same [of "sh_objs s c" None "ad_cache ad"] r by simp
  obtain rest r1 where add: "add_being_chunked_req r (ad\<lparr>ad_cache := ca\<rparr>) = Ok (rest, r1, ad')"
    and s': "s' = set_being_chunked_req (map_option oid rest) (put_req r1 s)"
    using assms(1) Some r by (auto simp: admit_chunked_def elim!: rbind_OkE)
  have a: "same_req r r1" "can_run_list ad' = can_run_list ad @ [r1]" "rest = None \<or> rest = Some r1"
      "new_being_chunked_req ad' = new_being_chunked_req ad"
    using add by (auto simp: add_being_chunked_req_def Let_def elim!: rbind_OkE split: option.splits dest!: cut_req_same)
  have o: "oid r1 = c" using same a(1) assms(2) by (simp add: same_req_def named_def)
  have "same_req (sh_objs s c) r1" by (rule same_req_trans [OF same a(1)])
  then have "stable (sh_objs s) ((sh_objs s)(c := r1))" by (rule stable_upd)
  then have "frame s s'" using o by (simp add: s' frame_def set_being_chunked_req_def put_req_def)
  moreover have "\<exists>x. (x = None \<or> x = Some c) \<and> sh_chunk s' = (sh_chunk s)[sh_cur s := x]"
    using a(3) o by (intro exI [of _ "map_option oid rest"]) (auto simp: s' set_being_chunked_req_def put_req_def)
  ultimately show ?thesis using a o Some by (auto simp: s' set_being_chunked_req_def put_req_def)
qed

text \<open>What admission takes: the request being chunked, then a prefix of the queue.\<close>

definition chunk_list :: "('g, 'm, 'c) scheduler \<Rightarrow> nat list" where
  "chunk_list s = (case being_chunked_req s of None \<Rightarrow> [] | Some c \<Rightarrow> [c])"

lemma admit_batch_outcome:
  assumes "admit_batch ops g computed s = Ok (ad, s')" "named (sh_objs s)" "distinct (sh_wait s)"
  shows "frame s s' \<and> sh_wait s' = sh_wait s \<and> sh_gq s' = sh_gq s
    \<and> (\<exists>k \<le> length (sh_wait s). map oid (can_run_list ad) = chunk_list s @ take k (sh_wait s)
         \<and> (k = 0 \<or> running_bs s + length (can_run_list ad) \<le> sg_max_running g)
         \<and> (\<forall>r. new_being_chunked_req ad = Some r \<longrightarrow> oid r \<in> set (take k (sh_wait s))))
    \<and> (sh_chunk s' = sh_chunk s \<or> (\<exists>x. (x = None \<or> x = being_chunked_req s) \<and> sh_chunk s' = (sh_chunk s)[sh_cur s := x]))"
proof -
  obtain ad1 s1 h full loras where ch: "admit_chunked s (new_adder ops g s) = Ok (ad1, s1)"
    and w: "admit_waiting ops g computed (running_bs s1) loras (sh_wait s1) ad1 (sh_objs s1) (sh_full s1) = Ok (ad, h, full)"
    and s': "s' = s1\<lparr>sh_objs := h, sh_full := full, sh_world := (sh_world s1)\<lparr>w_cache := ad_cache ad\<rparr>\<rparr>"
    using assms(1) by (auto simp: admit_batch_def Let_def elim!: rbind_OkE)
  have new: "can_run_list (new_adder ops g s) = []" "new_being_chunked_req (new_adder ops g s) = None"
    by (simp_all add: new_adder_def adder_init_def)
  have c: "frame s s1 \<and> sh_wait s1 = sh_wait s \<and> sh_gq s1 = sh_gq s \<and> map oid (can_run_list ad1) = chunk_list s
      \<and> new_being_chunked_req ad1 = None
      \<and> (sh_chunk s1 = sh_chunk s \<or> (\<exists>x. (x = None \<or> x = being_chunked_req s) \<and> sh_chunk s1 = (sh_chunk s)[sh_cur s := x]))"
    using admit_chunked_outcome [OF ch assms(2)] new by (auto simp: chunk_list_def split: option.splits)
  have n1: "named (sh_objs s1)" using c assms(2) by (auto simp: frame_def intro: stable_named)
  have wq: "sh_wait s1 = sh_wait s" using c by blast
  obtain k where k: "k \<le> length (sh_wait s)" "can_run_list ad = can_run_list ad1 @ map h (take k (sh_wait s))"
    "stable (sh_objs s1) h" "k = 0 \<or> running_bs s1 + length (can_run_list ad) \<le> sg_max_running g"
    "new_being_chunked_req ad = new_being_chunked_req ad1 \<or> (\<exists>i \<in> set (take k (sh_wait s)). new_being_chunked_req ad = Some (h i))"
    using admit_waiting_prefix [OF w n1] assms(3) unfolding wq by blast
  have nh: "named h" by (rule stable_named [OF k(3) n1])
  have "frame s1 s'" using k(3) by (simp add: s' frame_def)
  then have "frame s s'" using c frame_trans by blast
  moreover have "map oid (can_run_list ad) = chunk_list s @ take k (sh_wait s)" using k(2) c named_oids [OF nh] by simp
  moreover have "\<forall>r. new_being_chunked_req ad = Some r \<longrightarrow> oid r \<in> set (take k (sh_wait s))"
    using k(5) c namedD [OF nh] by auto
  moreover have "running_bs s1 = running_bs s" using c frame_same by blast
  ultimately show ?thesis using c k(1,4) by (auto simp: s')
qed

lemma stamp_frame: "frame s (stamp now is s) \<and> sh_wait (stamp now is s) = sh_wait s
    \<and> sh_gq (stamp now is s) = sh_gq s \<and> sh_chunk (stamp now is s) = sh_chunk s"
proof -
  have "stable h (fold (\<lambda>i h. h(i := stamp_req now pp (h i))) is h)" for h pp
    by (rule stable_fold) (simp add: stable_def same_req_def stamp_req_def finished_fields)
  then show ?thesis by (simp add: stamp_def frame_def)
qed

lemma note_chunked_frame:
  assumes "note_chunked new s = Ok s'" "named (sh_objs s)"
  shows "frame s s' \<and> sh_wait s' = sh_wait s \<and> sh_gq s' = sh_gq s
    \<and> (new = None \<and> sh_chunk s' = sh_chunk s
       \<or> new \<noteq> None \<and> being_chunked_req s = None \<and> sh_chunk s' = (sh_chunk s)[sh_cur s := new])"
proof -
  obtain s1 where s1: "(case new of None \<Rightarrow> Ok s
      | Some i \<Rightarrow> rbind (assertR (being_chunked_req s = None)) (\<lambda>_. Ok (set_being_chunked_req (Some i) s))) = Ok s1"
    and s': "s' = (case being_chunked_req s1 of None \<Rightarrow> s1
           | Some i \<Rightarrow> put_req ((sh_objs s1 i)\<lparr>is_being_chunked := is_being_chunked (sh_objs s1 i) + 1\<rparr>) s1)"
    using assms by (auto simp: note_chunked_def elim!: rbind_OkE)
  have f: "frame s s1 \<and> sh_wait s1 = sh_wait s \<and> sh_gq s1 = sh_gq s
    \<and> (new = None \<and> sh_chunk s1 = sh_chunk s
       \<or> new \<noteq> None \<and> being_chunked_req s = None \<and> sh_chunk s1 = (sh_chunk s)[sh_cur s := new])"
    using s1 by (auto simp: set_being_chunked_req_def frame_def elim!: rbind_OkE split: option.splits)
  have n: "named (sh_objs s1)" using f assms(2) by (auto simp: frame_def intro: stable_named)
  have "frame s1 s'" using n
    by (auto simp: s' frame_def put_req_def stable_def same_req_def finished_fields named_def split: option.splits)
  then have "frame s s'" using f frame_trans by blast
  then show ?thesis using f by (auto simp: s' put_req_def split: option.splits)
qed

lemma make_extend_batch_outcome:
  assumes "make_extend_batch ops g can_run s = Ok (n, s')" "store_ok s"
  shows "n = sh_next s \<and> batch_ids s' n = can_run \<and> (\<forall>j. j \<noteq> n \<longrightarrow> sh_bats s' j = sh_bats s j) \<and> store_ok s'
    \<and> stable (sh_objs s) (sh_objs s') \<and> sh_next s' = sh_next s + 2 \<and> sh_run s' = sh_run s \<and> sh_last s' = sh_last s
    \<and> sh_pending s' = sh_pending s \<and> sh_cur s' = sh_cur s \<and> sh_wait s' = sh_wait s \<and> sh_gq s' = sh_gq s \<and> sh_chunk s' = sh_chunk s"
proof -
  let ?b = "init_new (sh_next s) (map (sh_objs s) can_run) (sg_overlap g) (int (sh_cur s))"
  obtain b w where p: "prepare_for_extend ops (sg_model g) (Suc (sh_next s)) ?b (sh_world s) = Ok (b, w)"
    and r: "n = sh_next s" "s' = put_batch b (put_world w (s\<lparr>sh_next := sh_next s + 2\<rparr>))"
    using assms(1) by (auto simp: make_extend_batch_def Let_def elim!: rbind_OkE)
  have b: "list_all2 same_req (map (sh_objs s) can_run) (b_reqs b)" "b_id b = sh_next s"
    using prepare_for_extend_same [OF p] by (simp_all add: init_new_def new_batch_def)
  have n: "named (sh_objs s)" using assms(2) by (simp add: store_ok_def)
  have "map oid (b_reqs b) = can_run" using same_reqs_oid [OF b(1)] named_oids [OF n] by simp
  moreover have st: "stable (sh_objs s) (save_reqs (b_reqs b) (sh_objs s))"
    by (rule save_reqs_stable) (rule stable_all2 [OF n b(1)])
  ultimately show ?thesis
    using b(2) assms(2) stable_named [OF st n]
    by (auto simp: r put_batch_def put_world_def batch_ids_def store_ok_def)
qed

section \<open>Steps that change batches\<close>

text \<open>The queues and slots that name requests and batches stay.\<close>

definition slots_kept :: "('g, 'm, 'c) scheduler \<Rightarrow> ('g, 'm, 'c) scheduler \<Rightarrow> bool" where
  "slots_kept s s' \<longleftrightarrow> sh_run s' = sh_run s \<and> sh_last s' = sh_last s \<and> sh_pending s' = sh_pending s \<and> sh_cur s' = sh_cur s
     \<and> sh_next s' = sh_next s \<and> sh_wait s' = sh_wait s \<and> sh_gq s' = sh_gq s \<and> sh_chunk s' = sh_chunk s"

lemma slots_kept_refl [simp, intro]: "slots_kept s s"
  by (simp add: slots_kept_def)

lemma slots_kept_trans: "slots_kept s s' \<Longrightarrow> slots_kept s' s'' \<Longrightarrow> slots_kept s s''"
  by (simp add: slots_kept_def)

text \<open>Writing one batch back, with requests that are the store's but for unimportant fields.\<close>

lemma put_batch_step:
  assumes "store_ok s" "\<forall>r \<in> set (b_reqs b). same_req (sh_objs s (oid r)) r"
  shows "store_ok (put_batch b s) \<and> stable (sh_objs s) (sh_objs (put_batch b s)) \<and> slots_kept s (put_batch b s)
    \<and> batch_ids (put_batch b s) = (batch_ids s)(b_id b := map oid (b_reqs b))"
proof -
  have st: "stable (sh_objs s) (save_reqs (b_reqs b) (sh_objs s))" by (rule save_reqs_stable [OF assms(2)])
  then show ?thesis using assms(1) stable_named [OF st]
    by (auto simp: put_batch_def store_ok_def slots_kept_def put_batch_ids [unfolded put_batch_def] fun_eq_iff)
qed

lemma same_world [simp]:
  "sh_objs (set_pens p s) = sh_objs s" "sh_objs (put_world w s) = sh_objs s"
  "sh_bats (set_pens p s) = sh_bats s" "sh_bats (put_world w s) = sh_bats s"
  "batch_ids (set_pens p s) = batch_ids s" "batch_ids (put_world w s) = batch_ids s"
  "store_ok (set_pens p s) = store_ok s" "store_ok (put_world w s) = store_ok s"
  "slots_kept s0 (set_pens p s) = slots_kept s0 s" "slots_kept s0 (put_world w s) = slots_kept s0 s"
  "slots_kept (set_pens p s) s0 = slots_kept s s0" "slots_kept (put_world w s) s0 = slots_kept s s0"
  by (auto simp: set_pens_def put_world_def batch_ids_def store_ok_def slots_kept_def)

definition stays :: "('g, 'm, 'c) scheduler \<Rightarrow> 'g req option \<Rightarrow> nat \<Rightarrow> bool" where
  "stays s being j \<longleftrightarrow> \<not> finished (sh_objs s j) \<and> (case being of None \<Rightarrow> True | Some r \<Rightarrow> j \<noteq> oid r)"

lemma filter_at_outcome:
  assumes "filter_at cfg being i s = Ok s'" "store_ok s"
  shows "store_ok s' \<and> stable (sh_objs s) (sh_objs s') \<and> slots_kept s s'
    \<and> batch_ids s' = (batch_ids s)(i := filter (stays s being) (batch_ids s i))"
proof -
  let ?b = "the_batch s i"
  obtain b p st where f: "filter_keep cfg (unfinished_indices being (b_reqs ?b)) ?b st = Ok (b, p)"
    and s': "s' = set_pens p (put_batch b s)"
    using assms(1) by (auto simp: filter_at_def filter_batch_def Let_def elim!: rbind_OkE)
  have n: "named (sh_objs s)" "b_id ?b = i" using assms(2) by (simp_all add: store_ok_def the_batch_reqs)
  let ?Q = "\<lambda>r. \<not> finished r \<and> (case being of None \<Rightarrow> True | Some q \<Rightarrow> oid r \<noteq> oid q)"
  have u: "unfinished_indices being (b_reqs ?b) = filter (\<lambda>j. ?Q (b_reqs ?b ! j)) [0..<length (b_reqs ?b)]"
    by (auto simp: unfinished_indices_def split: option.splits)
  have b: "b_reqs b = filter ?Q (b_reqs ?b)" "b_id b = i"
    using filter_keep_reqs [OF f, of "\<lambda>j. ?Q (b_reqs ?b ! j)"] u map_nth_filter [of "b_reqs ?b" ?Q] n(2) by simp_all
  have q: "?Q (sh_objs s j) = stays s being j" for j
    using namedD [OF n(1)] by (auto simp: stays_def split: option.splits)
  have r: "b_reqs b = map (sh_objs s) (filter (stays s being) (batch_ids s i))"
    unfolding b(1) the_batch_reqs(1) filter_map o_def q by simp
  then have "\<forall>r \<in> set (b_reqs b). same_req (sh_objs s (oid r)) r" using namedD [OF n(1)] by auto
  moreover have "map oid (b_reqs b) = filter (stays s being) (batch_ids s i)" unfolding r by (rule named_oids [OF n(1)])
  ultimately show ?thesis using put_batch_step [OF assms(2), of b] b(2) by (simp add: s')
qed

lemma merge_batch_reqs: "merge_batch cfg b other s = Ok (b', s') \<Longrightarrow> b_reqs b' = b_reqs b @ b_reqs other \<and> b_id b' = b_id b"
  by (auto simp: merge_batch_def Let_def elim!: rbind_OkE)

lemma prepare_for_decode_reqs: "prepare_for_decode ops cfg b w = Ok (b', w') \<Longrightarrow> b_reqs b' = b_reqs b \<and> b_id b' = b_id b"
  by (auto simp: prepare_for_decode_def prepare_encoder_info_decode_def Let_def elim!: rbind_OkE split: if_splits)

lemma mix_with_running_reqs:
  assumes "mix_with_running cfg b run s = Ok (b', s')"
  shows "(\<exists>rs. b_reqs b' = b_reqs b @ rs \<and> list_all2 same_req (b_reqs run) rs) \<and> b_id b' = b_id b"
proof -
  let ?run = "run\<lparr>b_reqs := map (\<lambda>r. r\<lparr>fill_ids := Some (origin_input_ids r @ output_ids r), extend_input_len := 1\<rparr>) (b_reqs run)\<rparr>"
  obtain b1 s0 s1 where m: "merge_batch cfg b ?run s0 = Ok (b1, s1)" and b': "b_reqs b' = b_reqs b1 \<and> b_id b' = b_id b1"
    using assms by (auto simp: mix_with_running_def Let_def elim!: rbind_OkE)
  have "list_all2 same_req (b_reqs run) (b_reqs ?run)" by (simp add: list_all2_map2 list_all2_same same_req_def finished_fields)
  then show ?thesis using merge_batch_reqs [OF m] b' by auto
qed

lemma merge_at_outcome:
  assumes "merge_at cfg r l s = Ok s'" "store_ok s"
  shows "store_ok s' \<and> stable (sh_objs s) (sh_objs s') \<and> slots_kept s s'
    \<and> batch_ids s' = (batch_ids s)(r := batch_ids s r @ batch_ids s l)"
proof -
  obtain b p st where m: "merge_batch cfg (the_batch s r) (the_batch s l) st = Ok (b, p)" and s': "s' = set_pens p (put_batch b s)"
    using assms(1) by (auto simp: merge_at_def Let_def elim!: rbind_OkE)
  have n: "named (sh_objs s)" using assms(2) by (simp add: store_ok_def)
  have b: "b_reqs b = map (sh_objs s) (batch_ids s r @ batch_ids s l)" "b_id b = r"
    using merge_batch_reqs [OF m] assms(2) by (simp_all add: the_batch_reqs store_ok_def)
  have "\<forall>q \<in> set (b_reqs b). same_req (sh_objs s (oid q)) q" unfolding b(1) using namedD [OF n] by auto
  moreover have "map oid (b_reqs b) = batch_ids s r @ batch_ids s l" unfolding b(1) by (rule named_oids [OF n])
  ultimately show ?thesis using put_batch_step [OF assms(2), of b] b(2) by (simp add: s')
qed

lemma mix_decoding_outcome:
  assumes "rbind (prepare_for_decode ops cfg (the_batch s r) (synced_world (the_batch s r) s)) (\<lambda>(run, w).
                    let s = put_batch run (put_world w s); b = the_batch s n
                    in rbind (mix_with_running cfg b run (w_pens (synced_world b s))) (\<lambda>(b, p).
                         Ok (set_pens p (put_batch (b\<lparr>decoding_reqs := Some (b_reqs run)\<rparr>) s)))) = Ok s'"
    and ok: "store_ok s" and ne: "n \<noteq> r"
  shows "store_ok s' \<and> stable (sh_objs s) (sh_objs s') \<and> slots_kept s s'
    \<and> batch_ids s' = (batch_ids s)(n := batch_ids s n @ batch_ids s r)"
proof -
  obtain run w where d: "prepare_for_decode ops cfg (the_batch s r) (synced_world (the_batch s r) s) = Ok (run, w)"
    and rest: "(let s = put_batch run (put_world w s); b = the_batch s n
                    in rbind (mix_with_running cfg b run (w_pens (synced_world b s))) (\<lambda>(b, p).
                         Ok (set_pens p (put_batch (b\<lparr>decoding_reqs := Some (b_reqs run)\<rparr>) s)))) = Ok s'"
    using assms(1) by (auto elim!: rbind_OkE)
  let ?s = "put_batch run (put_world w s)"
  obtain b p where m: "mix_with_running cfg (the_batch ?s n) run (w_pens (synced_world (the_batch ?s n) ?s)) = Ok (b, p)"
    and s': "s' = set_pens p (put_batch (b\<lparr>decoding_reqs := Some (b_reqs run)\<rparr>) ?s)"
    using rest by (auto simp: Let_def elim!: rbind_OkE)
  have n: "named (sh_objs s)" using ok by (simp add: store_ok_def)
  have run: "b_reqs run = map (sh_objs s) (batch_ids s r)" "b_id run = r"
    using prepare_for_decode_reqs [OF d] ok by (simp_all add: the_batch_reqs store_ok_def)
  have "\<forall>q \<in> set (b_reqs run). same_req (sh_objs (put_world w s) (oid q)) q" unfolding run(1) using namedD [OF n] by auto
  moreover have "store_ok (put_world w s)" using ok by simp
  ultimately have "store_ok ?s \<and> stable (sh_objs (put_world w s)) (sh_objs ?s) \<and> slots_kept (put_world w s) ?s
      \<and> batch_ids ?s = (batch_ids (put_world w s))(b_id run := map oid (b_reqs run))" by (intro put_batch_step)
  then have p: "store_ok ?s \<and> stable (sh_objs s) (sh_objs ?s) \<and> slots_kept s ?s \<and> batch_ids ?s = batch_ids s"
    unfolding run named_oids [OF n] by simp
  obtain rs where rs: "b_reqs b = b_reqs (the_batch ?s n) @ rs" "list_all2 same_req (b_reqs run) rs" "b_id b = n"
    using mix_with_running_reqs [OF m] p by (auto simp: the_batch_reqs store_ok_def)
  let ?b = "b\<lparr>decoding_reqs := Some (b_reqs run)\<rparr>"
  have n1: "named (sh_objs ?s)" using p by (simp add: store_ok_def)
  have "list_all2 same_req (map (sh_objs ?s) (batch_ids s r)) rs"
    using rs(2) p unfolding run(1) by (simp add: list_all2_conv_all_nth stable_def same_req_def)
  then have "\<forall>q \<in> set rs. same_req (sh_objs ?s (oid q)) q" by (rule stable_all2 [OF n1])
  then have "\<forall>q \<in> set (b_reqs ?b). same_req (sh_objs ?s (oid q)) q"
    using rs(1) namedD [OF n1] by (auto simp: the_batch_reqs)
  then have q: "store_ok (put_batch ?b ?s) \<and> stable (sh_objs ?s) (sh_objs (put_batch ?b ?s)) \<and> slots_kept ?s (put_batch ?b ?s)
    \<and> batch_ids (put_batch ?b ?s) = (batch_ids ?s)(b_id ?b := map oid (b_reqs ?b))"
    using p by (intro put_batch_step) blast
  have "map oid (b_reqs ?b) = batch_ids s n @ batch_ids s r"
    using rs(1) same_reqs_oid [OF rs(2)] named_oids [OF n1] named_oids [OF n] run(1) p by (simp add: the_batch_reqs)
  then show ?thesis using p q rs(3) by (auto simp: s' intro: stable_trans slots_kept_trans)
qed

text \<open>The decoding requests that join: none, or the unfinished ones of the running batch, which is then
  given up.\<close>

lemma mix_in_outcome:
  assumes "mix_in ops g n s = Ok s'" "store_ok s" "running_batch s \<noteq> Some n"
  shows "store_ok s' \<and> stable (sh_objs s) (sh_objs s') \<and> sh_wait s' = sh_wait s \<and> sh_chunk s' = sh_chunk s
    \<and> sh_gq s' = sh_gq s \<and> sh_last s' = sh_last s \<and> sh_pending s' = sh_pending s \<and> sh_cur s' = sh_cur s \<and> sh_next s' = sh_next s
    \<and> (sh_run s' = sh_run s \<and> batch_ids s' = batch_ids s
       \<or> (\<exists>r. running_batch s = Some r \<and> sh_run s' = (sh_run s)[sh_cur s := None]
            \<and> (\<forall>j. j \<noteq> n \<and> j \<noteq> r \<longrightarrow> batch_ids s' j = batch_ids s j)
            \<and> batch_ids s' n = batch_ids s n @ filter (\<lambda>j. \<not> finished (sh_objs s j)) (batch_ids s r)))"
proof (cases "\<exists>r. running_batch s = Some r \<and> sg_mixed g \<and> \<not> (b_return_logprob (sh_bats s n) \<or> b_return_logprob (sh_bats s r))")
  case False
  have d: "stable h (fold (\<lambda>q h. h(oid q := delay_req (h (oid q)))) rs h)" for h and rs :: "'a req list"
    by (rule stable_fold) (auto simp: stable_def same_req_def delay_req_def finished_def)
  define s1 where "s1 = (case running_batch s of None \<Rightarrow> s | Some r \<Rightarrow>
      if sg_overlap g \<and> sg_pp g > 1 \<and> sg_rank0 g
      then s\<lparr>sh_objs := fold (\<lambda>q h. h(oid q := delay_req (h (oid q)))) (b_reqs (sh_bats s r)) (sh_objs s)\<rparr> else s)"
  have s': "s' = s1\<lparr>sh_bats := (sh_bats s1)(n := (sh_bats s1 n)\<lparr>decoding_reqs := None\<rparr>)\<rparr>"
    using assms(1) False by (auto simp: mix_in_def s1_def Let_def split: option.splits)
  have "frame s s1 \<and> sh_wait s1 = sh_wait s \<and> sh_chunk s1 = sh_chunk s \<and> sh_gq s1 = sh_gq s"
    using d by (auto simp: s1_def frame_def split: option.splits)
  then show ?thesis using assms(2)
    by (auto simp: s' frame_def store_ok_def batch_ids_def fun_eq_iff intro: stable_named)
next
  case True
  then obtain r where r: "running_batch s = Some r" "sg_mixed g \<and> \<not> (b_return_logprob (sh_bats s n) \<or> b_return_logprob (sh_bats s r))"
    by blast
  have nr: "n \<noteq> r" using r(1) assms(3) by blast
  obtain s1 s2 where f: "filter_at (sg_model g) None r s = Ok s1"
    and m: "(if is_empty (the_batch s1 r) then Ok s1
                 else let run = the_batch s1 r
                 in rbind (prepare_for_decode ops (sg_model g) run (synced_world run s1)) (\<lambda>(run, w).
                    let s = put_batch run (put_world w s1); b = the_batch s n
                    in rbind (mix_with_running (sg_model g) b run (w_pens (synced_world b s))) (\<lambda>(b, p).
                         Ok (set_pens p (put_batch (b\<lparr>decoding_reqs := Some (b_reqs run)\<rparr>) s))))) = Ok s2"
    and s': "s' = set_running_batch None s2"
    using assms(1) r by (auto simp: mix_in_def elim!: rbind_OkE)
  note f = filter_at_outcome [OF f assms(2)]
  let ?u = "filter (stays s None) (batch_ids s r)"
  have m2: "store_ok s2 \<and> stable (sh_objs s1) (sh_objs s2) \<and> slots_kept s1 s2
      \<and> batch_ids s2 = (batch_ids s1)(n := batch_ids s1 n @ ?u)"
  proof (cases "is_empty (the_batch s1 r)")
    case True
    then have "s2 = s1" "?u = []" using m f by (simp_all add: is_empty_def the_batch_reqs)
    then show ?thesis using f nr by (auto simp: fun_eq_iff)
  next
    case False
    then have "rbind (prepare_for_decode ops (sg_model g) (the_batch s1 r) (synced_world (the_batch s1 r) s1)) (\<lambda>(run, w).
                    let s = put_batch run (put_world w s1); b = the_batch s n
                    in rbind (mix_with_running (sg_model g) b run (w_pens (synced_world b s))) (\<lambda>(b, p).
                         Ok (set_pens p (put_batch (b\<lparr>decoding_reqs := Some (b_reqs run)\<rparr>) s)))) = Ok s2"
      using m by (simp add: Let_def)
    from mix_decoding_outcome [OF this _ nr] show ?thesis using f by simp
  qed
  have u: "?u = filter (\<lambda>j. \<not> finished (sh_objs s j)) (batch_ids s r)" by (simp add: stays_def [abs_def])
  have "batch_ids s' = batch_ids s2" by (simp add: s' set_running_batch_def batch_ids_def fun_eq_iff)
  moreover have "store_ok s'" using m2 by (simp add: s' set_running_batch_def store_ok_def)
  moreover have "stable (sh_objs s) (sh_objs s')"
    using f m2 by (auto simp: s' set_running_batch_def intro: stable_trans)
  ultimately show ?thesis using f m2 r nr unfolding u
    by (auto simp: s' set_running_batch_def slots_kept_def)
qed

section \<open>Forming a prefill batch\<close>

lemma update_same: "xs ! i = x \<Longrightarrow> xs[i := x] = xs"
  by (metis list_update_id)

lemma filter_rest:
  assumes "distinct q" "set c \<inter> set q = {}"
  shows "filter (\<lambda>i. i \<notin> set (c @ take k q)) q = drop k q"
proof -
  let ?P = "\<lambda>i. i \<notin> set (c @ take k q)"
  have d: "set (take k q) \<inter> set (drop k q) = {}" using assms(1) by (simp add: set_take_disj_set_drop_if_distinct)
  have "filter ?P (drop k q) = drop k q"
    using d assms(2) by (auto simp: filter_id_conv dest: in_set_dropD)
  moreover have "filter ?P (take k q) = []" by (simp add: filter_empty_conv)
  moreover have "filter ?P q = filter ?P (take k q) @ filter ?P (drop k q)"
    by (metis append_take_drop_id filter_append)
  ultimately show ?thesis by simp
qed

text \<open>From the state after fetching, given the sorted queue: no batch and nothing changed, or a batch of
  the request being chunked, a prefix of the queue and the decoding requests that join.\<close>

definition no_batch :: "('g, 'm, 'c) scheduler \<Rightarrow> ('g, 'm, 'c) scheduler \<Rightarrow> bool" where
  "no_batch s s' \<longleftrightarrow> frame s s' \<and> mset (sh_wait s') = mset (sh_wait s) \<and> sh_gq s' = sh_gq s \<and> sh_chunk s' = sh_chunk s"

definition joins :: "nat \<Rightarrow> ('g, 'm, 'c) scheduler \<Rightarrow> ('g, 'm, 'c) scheduler \<Rightarrow> nat list \<Rightarrow> bool" where
  "joins n s s' dec \<longleftrightarrow>
     dec = [] \<and> sh_run s' = sh_run s \<and> (\<forall>j. j \<noteq> n \<longrightarrow> batch_ids s' j = batch_ids s j)
   \<or> (\<exists>r. running_batch s = Some r \<and> sh_run s' = (sh_run s)[sh_cur s := None]
        \<and> (\<forall>j. j \<noteq> n \<and> j \<noteq> r \<longrightarrow> batch_ids s' j = batch_ids s j)
        \<and> dec = filter (\<lambda>i. \<not> finished (sh_objs s i)) (batch_ids s r))"

definition new_batch_of ::
  "sched_cfg \<Rightarrow> nat \<Rightarrow> ('g, 'm, 'c) scheduler \<Rightarrow> ('g, 'm, 'c) scheduler \<Rightarrow> nat list \<Rightarrow> nat \<Rightarrow> nat list \<Rightarrow> bool" where
  "new_batch_of g n s s' q k dec \<longleftrightarrow>
     mset q = mset (sh_wait s) \<and> k \<le> length q \<and> sh_wait s' = drop k q
   \<and> batch_ids s' n = chunk_list s @ take k q @ dec \<and> chunk_list s @ take k q \<noteq> [] \<and> joins n s s' dec
   \<and> (k = 0 \<or> running_bs s + length (chunk_list s) + k \<le> sg_max_running g)
   \<and> (\<exists>x. sh_chunk s' = (sh_chunk s)[sh_cur s := x] \<and> (\<forall>c. x = Some c \<longrightarrow> c \<in> set (chunk_list s @ take k q)))
   \<and> n = sh_next s \<and> sh_next s' = sh_next s + 2 \<and> sh_gq s' = sh_gq s \<and> sh_last s' = sh_last s \<and> sh_pending s' = sh_pending s
   \<and> sh_cur s' = sh_cur s \<and> store_ok s' \<and> stable (sh_objs s) (sh_objs s')"

lemma stable_filter: "stable h h' \<Longrightarrow> filter (\<lambda>i. \<not> finished (h' i)) xs = filter (\<lambda>i. \<not> finished (h i)) xs"
  by (simp add: stable_finished cong: filter_cong)

text \<open>What the adder is offered: the request being chunked, and the queue with the requests whose grammars are
  ready, in the order of the policy.\<close>

definition policy_queue ::
  "('g, 'c) cache_ops \<Rightarrow> ('c \<Rightarrow> rnode) \<Rightarrow> sched_cfg \<Rightarrow> 'g sched_env \<Rightarrow> ('g, 'm, 'c) scheduler \<Rightarrow> (nat list \<times> nat list) res" where
  "policy_queue ops tree_root g env s =
     rbind (fetch_chunked_prefill ops g (move_ready_grammar_requests (en_ready env) (en_grammar env) s)) (\<lambda>s.
     rbind (sort_waiting (en_clock env) (en_shuffle env) ops tree_root s) (\<lambda>(_, sorted). Ok (chunk_list s, sh_wait sorted)))"

lemma form_batch_outcome:
  assumes nt: "note_chunked new s = Ok s1" and make: "make_extend_batch ops g can_run s1 = Ok (n, s2)"
    and mix: "mix_in ops g n s2 = Ok s3" and ok: "store_ok s" "\<forall>r. running_batch s = Some r \<longrightarrow> r < sh_next s"
  shows "n = sh_next s \<and> sh_next s3 = sh_next s + 2 \<and> sh_wait s3 = sh_wait s \<and> sh_gq s3 = sh_gq s \<and> sh_last s3 = sh_last s
    \<and> sh_pending s3 = sh_pending s \<and> sh_cur s3 = sh_cur s \<and> store_ok s3 \<and> stable (sh_objs s) (sh_objs s3)
    \<and> (\<exists>dec. joins n s s3 dec \<and> batch_ids s3 n = can_run @ dec)
    \<and> (new = None \<and> sh_chunk s3 = sh_chunk s
       \<or> new \<noteq> None \<and> being_chunked_req s = None \<and> sh_chunk s3 = (sh_chunk s)[sh_cur s := new])"
proof -
  have named: "named (sh_objs s)" using ok(1) by (simp add: store_ok_def)
  note A = note_chunked_frame [OF nt named]
  have ok1: "store_ok s1" using A ok(1) frame_ok by blast
  note B = make_extend_batch_outcome [OF make ok1]
  have run: "running_batch s1 = running_batch s" "running_batch s2 = running_batch s" "sh_next s1 = sh_next s"
    using A B by (auto simp: frame_def running_batch_def)
  have "running_batch s2 \<noteq> Some n" using run ok(2) B by auto
  note C = mix_in_outcome [OF mix _ this]
  have ids1: "batch_ids s1 = batch_ids s" using A frame_ids by blast
  have ids2: "batch_ids s2 j = batch_ids s j" if "j \<noteq> n" for j
    using B ids1 that by (simp add: batch_ids_def fun_eq_iff)
  have st2: "stable (sh_objs s) (sh_objs s2)" using A B by (auto simp: frame_def intro: stable_trans)
  have st3: "stable (sh_objs s) (sh_objs s3)" using st2 B C by (auto intro: stable_trans)
  have "\<exists>dec. joins n s s3 dec \<and> batch_ids s3 n = can_run @ dec"
  proof -
    from B C consider "sh_run s3 = sh_run s2" "batch_ids s3 = batch_ids s2"
      | r where "running_batch s2 = Some r" "sh_run s3 = (sh_run s2)[sh_cur s2 := None]"
            "\<forall>j. j \<noteq> n \<and> j \<noteq> r \<longrightarrow> batch_ids s3 j = batch_ids s2 j"
            "batch_ids s3 n = batch_ids s2 n @ filter (\<lambda>j. \<not> finished (sh_objs s2 j)) (batch_ids s2 r)"
      by blast
    then show ?thesis
    proof cases
      case 1
      then show ?thesis using ids2 A B by (intro exI [of _ "[]"]) (auto simp: joins_def frame_def)
    next
      case (2 r)
      have r: "r \<noteq> n" using 2(1) run ok(2) \<open>running_batch s2 \<noteq> Some n\<close> by auto
      have "filter (\<lambda>j. \<not> finished (sh_objs s2 j)) (batch_ids s2 r) = filter (\<lambda>i. \<not> finished (sh_objs s i)) (batch_ids s r)"
        using ids2 [OF r] stable_filter [OF st2] by simp
      then have "joins n s s3 (filter (\<lambda>i. \<not> finished (sh_objs s i)) (batch_ids s r)) \<and>
          batch_ids s3 n = can_run @ filter (\<lambda>i. \<not> finished (sh_objs s i)) (batch_ids s r)"
        using 2 run ids2 A B by (auto simp: joins_def frame_def)
      then show ?thesis by blast
    qed
  qed
  then show ?thesis using A B C st3 by (auto simp: frame_def)
qed

context request_cache
begin

lemma prefill_from_queue:
  assumes sorted: "sort_waiting clock shuffle ops tree_root s = Ok (computed, s1)"
    and admit: "admit_batch ops g computed s1 = Ok (ad, s2)"
    and rest: "(let can_run = map oid (can_run_list ad); s = stamp now can_run s2
              in if can_run = [] then Ok (None, s)
                 else let s = s\<lparr>sh_wait := filter (\<lambda>i. i \<notin> set can_run) (sh_wait s)\<rparr>
                 in rbind (note_chunked (map_option oid (new_being_chunked_req ad)) s) (\<lambda>s.
                    rbind (make_extend_batch ops g can_run s) (\<lambda>(n, s).
                    rbind (mix_in ops g n s) (\<lambda>s. Ok (Some n, s))))) = Ok (bo, s')"
    and ok: "store_ok s" "\<forall>r. running_batch s = Some r \<longrightarrow> r < sh_next s" "sh_cur s < length (sh_chunk s)"
    and pol: "sp_policy (sh_pol s ! sh_cur s) \<noteq> ''dfs-weight''" "\<And>xs. mset (shuffle xs) = mset xs"
    and queue: "distinct (sh_wait s)" "set (chunk_list s) \<inter> set (sh_wait s) = {}"
  shows "(bo = None \<and> no_batch s s') \<or> (\<exists>n k dec. bo = Some n \<and> new_batch_of g n s s' (sh_wait s1) k dec)"
proof -
  have named: "named (sh_objs s)" using ok(1) by (simp add: store_ok_def)
  note A = sort_waiting_frame [OF sorted named pol]
  have n1: "named (sh_objs s1)" using A named by (auto simp: frame_def intro: stable_named)
  have d1: "distinct (sh_wait s1)" using A queue(1) by (metis mset_eq_imp_distinct_iff)
  have c1: "chunk_list s1 = chunk_list s" "being_chunked_req s1 = being_chunked_req s"
    using A by (simp_all add: chunk_list_def being_chunked_req_def frame_def)
  obtain k where B: "frame s1 s2" "sh_wait s2 = sh_wait s1" "sh_gq s2 = sh_gq s1" "k \<le> length (sh_wait s1)"
    "map oid (can_run_list ad) = chunk_list s @ take k (sh_wait s1)"
    "k = 0 \<or> running_bs s1 + length (can_run_list ad) \<le> sg_max_running g"
    "\<forall>r. new_being_chunked_req ad = Some r \<longrightarrow> oid r \<in> set (take k (sh_wait s1))"
    "sh_chunk s2 = sh_chunk s1 \<or> (\<exists>x. (x = None \<or> x = being_chunked_req s) \<and> sh_chunk s2 = (sh_chunk s1)[sh_cur s1 := x])"
    using admit_batch_outcome [OF admit n1 d1] unfolding c1 by blast
  have cut: "\<exists>x. sh_chunk s2 = (sh_chunk s)[sh_cur s := x] \<and> (x = None \<or> x = being_chunked_req s)"
  proof (cases "sh_chunk s2 = sh_chunk s1")
    case True
    then show ?thesis using A update_same [of "sh_chunk s" "sh_cur s"]
      by (intro exI [of _ "being_chunked_req s"]) (simp add: being_chunked_req_def)
  next
    case False
    then show ?thesis using B(8) A by (auto simp: frame_def)
  qed
  let ?cr = "map oid (can_run_list ad)"
  let ?s3 = "stamp now ?cr s2"
  have C: "frame s ?s3 \<and> sh_wait ?s3 = sh_wait s1 \<and> sh_gq ?s3 = sh_gq s \<and> sh_chunk ?s3 = sh_chunk s2"
    using stamp_frame [of s2 now ?cr] A B(1-3) frame_trans by metis
  show ?thesis
  proof (cases "?cr = []")
    case True
    then have "bo = None \<and> s' = ?s3" using rest by (simp add: Let_def)
    moreover have "chunk_list s = []" using True B(5) by simp
    then have "being_chunked_req s = None" by (simp add: chunk_list_def split: option.splits)
    then have "sh_chunk s2 = sh_chunk s" using cut update_same [of "sh_chunk s" "sh_cur s"] by (auto simp: being_chunked_req_def)
    ultimately show ?thesis using C A by (simp add: no_batch_def)
  next
    case False
    let ?s4 = "?s3\<lparr>sh_wait := filter (\<lambda>i. i \<notin> set ?cr) (sh_wait ?s3)\<rparr>"
    obtain s5 s6 n where st: "note_chunked (map_option oid (new_being_chunked_req ad)) ?s4 = Ok s5"
      "make_extend_batch ops g ?cr s5 = Ok (n, s6)" "mix_in ops g n s6 = Ok s'" "bo = Some n"
      using rest False by (auto simp: Let_def elim!: rbind_OkE)
    have f4: "frame s ?s4" using C by (simp add: frame_def)
    have ok4: "store_ok ?s4" "\<forall>r. running_batch ?s4 = Some r \<longrightarrow> r < sh_next ?s4"
      using frame_ok [OF f4 ok(1)] frame_same [OF f4] f4 ok(2) by (auto simp: frame_def)
    note D = form_batch_outcome [OF st(1-3) ok4]
    obtain dec where dec: "joins n ?s4 s' dec" "batch_ids s' n = ?cr @ dec" using D by blast
    have j: "joins n s s' dec"
      using dec(1) frame_same [OF f4] frame_ids [OF f4] f4 stable_filter
      unfolding joins_def by (auto simp: frame_def)
    have w: "sh_wait s' = drop k (sh_wait s1)"
      using D C B(5) filter_rest [OF d1, of "chunk_list s" k] queue(2) A by (simp add: set_mset_mset [symmetric] del: set_mset_mset)
    have ch: "\<exists>x. sh_chunk s' = (sh_chunk s)[sh_cur s := x] \<and> (\<forall>c. x = Some c \<longrightarrow> c \<in> set (chunk_list s @ take k (sh_wait s1)))"
    proof (cases "new_being_chunked_req ad")
      case None
      obtain x where x: "sh_chunk s2 = (sh_chunk s)[sh_cur s := x]" "x = None \<or> x = being_chunked_req s" using cut by blast
      then show ?thesis using D C None by (intro exI [of _ x]) (auto simp: chunk_list_def)
    next
      case (Some r)
      then show ?thesis using D C B(7) cut f4
        by (intro exI [of _ "Some (oid r)"]) (auto simp: frame_def)
    qed
    have lim: "k = 0 \<or> running_bs s + length (chunk_list s) + k \<le> sg_max_running g"
      using B(4,6) arg_cong [OF B(5), of length] A frame_same by fastforce
    have "new_batch_of g n s s' (sh_wait s1) k dec"
      unfolding new_batch_of_def using A B(4) B(5) [symmetric] False w dec(2) j lim ch D f4 C by (auto simp: frame_def intro: stable_trans)
    then show ?thesis using st(4) by blast
  qed
qed

lemma prefill_outcome:
  assumes run: "get_new_batch_prefill ops tree_root g env s = Ok (bo, s')" and ok: "store_ok s"
    "\<forall>r. running_batch s = Some r \<longrightarrow> r < sh_next s" "sh_cur s < length (sh_chunk s)"
    and pol: "sp_policy (sh_pol s ! sh_cur s) \<noteq> ''dfs-weight''" "\<And>xs. mset (en_shuffle env xs) = mset xs"
    and queue: "distinct (sh_wait s @ sh_gq s ! sh_cur s)"
      "\<forall>c. Some c \<in> set (sh_chunk s) \<longrightarrow> c \<notin> set (sh_wait s @ sh_gq s ! sh_cur s)" "length (sh_chunk s) = sg_pp g"
  shows "\<exists>s1. frame s s1 \<and> sh_wait s1 = sh_wait s @ take (en_ready env) (sh_gq s ! sh_cur s)
      \<and> sh_gq s1 = (sh_gq s)[sh_cur s := drop (en_ready env) (sh_gq s ! sh_cur s)]
      \<and> (sh_chunk s1 = sh_chunk s
         \<or> (\<exists>i. sg_pp g \<noteq> 1 \<and> sh_chunk s ! ((sh_cur s + sg_pp g - 1) mod sg_pp g) = Some i
              \<and> sh_chunk s1 = (sh_chunk s)[sh_cur s := Some i]))
      \<and> ((bo = None \<and> no_batch s1 s')
         \<or> (\<exists>n q k dec. bo = Some n \<and> new_batch_of g n s1 s' q k dec \<and> policy_queue ops tree_root g env s = Ok (chunk_list s1, q)))"
proof -
  let ?s0 = "move_ready_grammar_requests (en_ready env) (en_grammar env) s"
  note A = move_ready_frame [of s "en_ready env" "en_grammar env"]
  have pol0: "sh_pol ?s0 = sh_pol s" by (simp add: move_ready_grammar_requests_def Let_def)
  obtain s1 where fetch: "fetch_chunked_prefill ops g ?s0 = Ok s1"
    and rest: "(if (sh_full s1 \<or> sh_wait s1 = []) \<and> being_chunked_req s1 = None then Ok (None, s1)
         else if running_bs s1 \<ge> sg_max_running g then Ok (None, s1\<lparr>sh_full := True\<rparr>)
         else rbind (sort_waiting (en_clock env) (en_shuffle env) ops tree_root s1) (\<lambda>(computed, s).
              rbind (admit_batch ops g computed s) (\<lambda>(ad, s).
              let can_run = map oid (can_run_list ad); s = stamp (en_now env) can_run s
              in if can_run = [] then Ok (None, s)
                 else let s = s\<lparr>sh_wait := filter (\<lambda>i. i \<notin> set can_run) (sh_wait s)\<rparr>
                 in rbind (note_chunked (map_option oid (new_being_chunked_req ad)) s) (\<lambda>s.
                    rbind (make_extend_batch ops g can_run s) (\<lambda>(n, s).
                    rbind (mix_in ops g n s) (\<lambda>s. Ok (Some n, s))))))) = Ok (bo, s')"
    using run by (auto simp: get_new_batch_prefill_def Let_def elim!: rbind_OkE)
  have "named (sh_objs ?s0)" using A ok(1) by (auto simp: frame_def store_ok_def intro: stable_named)
  note B = fetch_chunked_prefill_frame [OF fetch this]
  have f1: "frame s s1" using A B frame_trans by blast
  have w1: "sh_wait s1 = sh_wait s @ take (en_ready env) (sh_gq s ! sh_cur s)"
    "sh_gq s1 = (sh_gq s)[sh_cur s := drop (en_ready env) (sh_gq s ! sh_cur s)]" using A B by simp_all
  have c1: "sh_chunk s1 = sh_chunk s
         \<or> (\<exists>i. sg_pp g \<noteq> 1 \<and> sh_chunk s ! ((sh_cur s + sg_pp g - 1) mod sg_pp g) = Some i
              \<and> sh_chunk s1 = (sh_chunk s)[sh_cur s := Some i])" using A B by (auto simp: frame_def)
  have "(bo = None \<and> no_batch s1 s')
    \<or> (\<exists>n q k dec. bo = Some n \<and> new_batch_of g n s1 s' q k dec \<and> policy_queue ops tree_root g env s = Ok (chunk_list s1, q))"
  proof (cases "(sh_full s1 \<or> sh_wait s1 = []) \<and> being_chunked_req s1 = None \<or> running_bs s1 \<ge> sg_max_running g")
    case True
    then have "bo = None \<and> (s' = s1 \<or> s' = s1\<lparr>sh_full := True\<rparr>)" using rest by (auto split: if_splits)
    then show ?thesis by (auto simp: no_batch_def frame_def)
  next
    case False
    obtain computed s2 ad s3 where st: "sort_waiting (en_clock env) (en_shuffle env) ops tree_root s1 = Ok (computed, s2)"
      "admit_batch ops g computed s2 = Ok (ad, s3)"
      "(let can_run = map oid (can_run_list ad); s = stamp (en_now env) can_run s3
              in if can_run = [] then Ok (None, s)
                 else let s = s\<lparr>sh_wait := filter (\<lambda>i. i \<notin> set can_run) (sh_wait s)\<rparr>
                 in rbind (note_chunked (map_option oid (new_being_chunked_req ad)) s) (\<lambda>s.
                    rbind (make_extend_batch ops g can_run s) (\<lambda>(n, s).
                    rbind (mix_in ops g n s) (\<lambda>s. Ok (Some n, s))))) = Ok (bo, s')"
      using rest False by (auto elim!: rbind_OkE split: if_splits)
    have d: "distinct (sh_wait s1)" using queue(1) w1(1) by (auto dest: in_set_takeD)
    have "c \<notin> set (sh_wait s1)" if "being_chunked_req s1 = Some c" for c
    proof -
      have "Some c \<in> set (sh_chunk s)"
        using c1
      proof (elim disjE exE conjE)
        assume "sh_chunk s1 = sh_chunk s"
        then show ?thesis using that f1 ok(3) by (metis being_chunked_req_def frame_def nth_mem)
      next
        fix i assume i: "sh_chunk s ! ((sh_cur s + sg_pp g - 1) mod sg_pp g) = Some i" "sh_chunk s1 = (sh_chunk s)[sh_cur s := Some i]"
        then have "i = c" using that f1 ok(3) by (simp add: being_chunked_req_def frame_def)
        moreover have "(sh_cur s + sg_pp g - 1) mod sg_pp g < length (sh_chunk s)" using queue(3) ok(3) by simp
        ultimately show ?thesis using i(1) nth_mem by metis
      qed
      then show ?thesis using queue(2) w1(1) by (auto dest: in_set_takeD)
    qed
    then have "set (chunk_list s1) \<inter> set (sh_wait s1) = {}" by (auto simp: chunk_list_def split: option.splits)
    moreover have "store_ok s1" "\<forall>r. running_batch s1 = Some r \<longrightarrow> r < sh_next s1" "sh_cur s1 < length (sh_chunk s1)"
      using frame_ok [OF f1 ok(1)] frame_same [OF f1] f1 ok(2,3) c1 by (auto simp: frame_def)
    moreover have "sp_policy (sh_pol s1 ! sh_cur s1) \<noteq> ''dfs-weight''"
      using pol(1) pol0 B f1 by (simp add: frame_def)
    moreover have "policy_queue ops tree_root g env s = Ok (chunk_list s1, sh_wait s2)"
      using fetch st(1) by (simp add: policy_queue_def)
    ultimately show ?thesis using prefill_from_queue [OF st] pol(2) d by blast
  qed
  then show ?thesis using f1 w1 c1 by blast
qed

end

end
