(* ===== verification/Scheduler_Places.thy ===== *)
theory Scheduler_Places
imports Scheduler_Steps
begin

text \<open>
  Where the scheduler holds its requests, and how absorbing the last batch and rebalancing the running
  batch move them.
\<close>

section \<open>Rebalancing as sets of requests\<close>

definition reqs_of :: "('g, 'm) batch option \<Rightarrow> 'g req list" where
  "reqs_of x = (case x of None \<Rightarrow> [] | Some b \<Rightarrow> b_reqs b)"

definition ids_from :: "nat set \<Rightarrow> nat \<Rightarrow> ('g, 'm) batch option \<Rightarrow> bool" where
  "ids_from old n x \<longleftrightarrow> (\<forall>b. x = Some b \<longrightarrow> b_id b \<in> old \<or> n \<le> b_id b)"

lemma make_sub_batch_reqs:
  assumes "make_sub_batch nb b js s = Ok (x, s')"
  shows "reqs_of x = map ((!) (b_reqs b)) js \<and> (\<forall>b1. x = Some b1 \<longrightarrow> b_id b1 = nb) \<and> (\<forall>j \<in> set js. j < length (b_reqs b))"
proof (cases "js = []")
  case True
  then show ?thesis using assms by (simp add: make_sub_batch_def reqs_of_def)
next
  case False
  then obtain sub where "gather (b_reqs b) js = Ok sub" "reqs_of x = sub" "\<forall>b1. x = Some b1 \<longrightarrow> b_id b1 = nb"
    using assms by (auto simp: make_sub_batch_def Let_def reqs_of_def new_batch_def elim!: rbind_OkE)
  then show ?thesis by (auto simp: gather_eq_Ok)
qed

lemma split_batch_reqs:
  assumes "split_batch nb b js (Some ks) s = Ok ((x, y), s')"
  shows "reqs_of x = map ((!) (b_reqs b)) js \<and> reqs_of y = map ((!) (b_reqs b)) ks
    \<and> (\<forall>b1. x = Some b1 \<longrightarrow> b_id b1 = nb) \<and> (\<forall>b1. y = Some b1 \<longrightarrow> b_id b1 = Suc nb)
    \<and> (\<forall>j \<in> set (js @ ks). j < length (b_reqs b))"
  using assms make_sub_batch_reqs by (fastforce simp: split_batch_def elim!: rbind_OkE)

lemma split_indices_set:
  assumes "get_split_indices tf n k t = (js, ks)" "\<forall>j \<in> set (js @ ks). j < n"
  shows "set js \<union> set ks = {..<n}"
proof -
  have "{..<n} \<subseteq> set js \<union> set ks" using assms(1) by (auto simp: get_split_indices_def split: if_splits)
  then show ?thesis using assms(2) by auto
qed

lemma split_batch_set:
  assumes "split_batch nb b js (Some ks) s = Ok ((x, y), s')" "get_split_indices tf (length (b_reqs b)) k t = (js, ks)"
  shows "set (reqs_of x) \<union> set (reqs_of y) = set (b_reqs b)"
proof -
  have "set (reqs_of x) \<union> set (reqs_of y) = (!) (b_reqs b) ` (set js \<union> set ks)"
    using split_batch_reqs [OF assms(1)] by (simp add: image_Un)
  also have "\<dots> = (!) (b_reqs b) ` {..<length (b_reqs b)}"
    using split_indices_set [OF assms(2)] split_batch_reqs [OF assms(1)] by simp
  also have "\<dots> = set (b_reqs b)" by (auto simp: set_conv_nth)
  finally show ?thesis .
qed

lemma none_or_empty_reqs: "none_or_empty x \<longleftrightarrow> reqs_of x = []"
  by (auto simp: none_or_empty_def is_empty_def reqs_of_def split: option.splits)

text \<open>What a rebalancing step keeps: the requests of the two batches together, and fresh or old identities.\<close>

definition rb_kept :: "nat \<Rightarrow> ('g, 'm) rb_state \<Rightarrow> ('g, 'm) rb_state \<Rightarrow> bool" where
  "rb_kept n st st' \<longleftrightarrow> set (reqs_of (running st')) \<union> set (reqs_of (pending st')) = set (reqs_of (running st)) \<union> set (reqs_of (pending st))
     \<and> (\<forall>b. running st' = Some b \<longrightarrow> b_id b < next_id st' \<and> (n \<le> b_id b \<or> (\<exists>b0. running st = Some b0 \<and> b_id b = b_id b0)))
     \<and> (\<forall>b. pending st' = Some b \<longrightarrow> b_id b < next_id st' \<and> (n \<le> b_id b \<or> (\<exists>b0. pending st = Some b0 \<and> b_id b = b_id b0)))
     \<and> (\<forall>b c. running st' = Some b \<and> pending st' = Some c \<longrightarrow> b_id b \<noteq> b_id c) \<and> n \<le> next_id st'"

definition rb_apart :: "('g, 'm) rb_state \<Rightarrow> bool" where
  "rb_apart st \<longleftrightarrow> (\<forall>b. running st = Some b \<longrightarrow> b_id b < next_id st) \<and> (\<forall>b. pending st = Some b \<longrightarrow> b_id b < next_id st)
     \<and> (\<forall>b c. running st = Some b \<and> pending st = Some c \<longrightarrow> b_id b \<noteq> b_id c)"

lemma give_to_pending_kept:
  assumes "give_to_pending cfg tf k ne st = Ok st'" "rb_apart st"
  shows "rb_kept (next_id st) st st'"
proof -
  obtain run js ks keep give p where run: "running st = Some run"
    and idx: "get_split_indices tf (length (b_reqs run)) k False = (js, ks)"
    and sp: "split_batch (next_id st) run js (Some ks) (rb_pens st) = Ok ((keep, give), p)"
    and rest: "(let st = st\<lparr>next_id := next_id st + 2, rb_pens := p,
                    running := (if ne \<and> none_or_empty keep then None else keep)\<rparr>
        in if none_or_empty (pending st) then Ok (st\<lparr>pending := give\<rparr>)
           else rbind (the_obj give) (\<lambda>give. rbind (the_obj (pending st)) (\<lambda>pend.
                rbind (merge_batch cfg give pend (rb_pens st)) (\<lambda>(m, s).
                  Ok (st\<lparr>pending := Some m, rb_pens := s\<rparr>))))) = Ok st'"
    using assms(1) by (auto simp: give_to_pending_def the_obj_eq_Ok elim!: rbind_OkE split: prod.splits)
  have set: "set (reqs_of keep) \<union> set (reqs_of give) = set (b_reqs run)" by (rule split_batch_set [OF sp idx])
  have id: "\<forall>b1. keep = Some b1 \<longrightarrow> b_id b1 = next_id st" "\<forall>b1. give = Some b1 \<longrightarrow> b_id b1 = Suc (next_id st)"
    using split_batch_reqs [OF sp] by blast+
  let ?keep = "if ne \<and> none_or_empty keep then None else keep"
  have keep: "reqs_of ?keep = reqs_of keep" "\<forall>b1. ?keep = Some b1 \<longrightarrow> b_id b1 = next_id st"
    using id(1) by (auto simp: none_or_empty_reqs reqs_of_def split: option.splits)
  have r: "running st' = ?keep \<and> next_id st' = next_id st + 2"
    using rest by (auto simp: Let_def elim!: rbind_OkE split: if_splits)
  have p: "set (reqs_of (pending st')) = set (reqs_of give) \<union> set (reqs_of (pending st))
      \<and> (\<forall>b. pending st' = Some b \<longrightarrow> b_id b = Suc (next_id st))"
  proof (cases "none_or_empty (pending st)")
    case True
    then show ?thesis using rest id(2) by (auto simp: Let_def none_or_empty_reqs)
  next
    case False
    then obtain gv pd m s where "give = Some gv" "pending st = Some pd" "merge_batch cfg gv pd p = Ok (m, s)" "pending st' = Some m"
      using rest by (auto simp: Let_def the_obj_eq_Ok elim!: rbind_OkE)
    then show ?thesis using merge_batch_reqs [of cfg gv pd p m s] id(2) by (auto simp: reqs_of_def)
  qed
  show ?thesis using r p keep set run unfolding rb_kept_def by (auto simp: reqs_of_def [of "Some run"])
qed

lemma take_from_pending_kept:
  assumes "take_from_pending cfg tf k st = Ok st'" "rb_apart st"
  shows "rb_kept (next_id st) st st'"
proof -
  obtain pend js ks keep tkn p where pd: "pending st = Some pend"
    and idx: "get_split_indices tf (length (b_reqs pend)) k True = (js, ks)"
    and sp: "split_batch (next_id st) pend js (Some ks) (rb_pens st) = Ok ((keep, tkn), p)"
    and rest: "join_running cfg tf tkn (st\<lparr>next_id := next_id st + 2, rb_pens := p,
                pending := (if none_or_empty keep then None else keep)\<rparr>) = Ok st'"
    using assms(1) by (auto simp: take_from_pending_def the_obj_eq_Ok elim!: rbind_OkE split: prod.splits)
  have set: "set (reqs_of keep) \<union> set (reqs_of tkn) = set (b_reqs pend)" by (rule split_batch_set [OF sp idx])
  have id: "\<forall>b1. keep = Some b1 \<longrightarrow> b_id b1 = next_id st" "\<forall>b1. tkn = Some b1 \<longrightarrow> b_id b1 = Suc (next_id st)"
    using split_batch_reqs [OF sp] by blast+
  let ?keep = "if none_or_empty keep then None else keep"
  have keep: "reqs_of ?keep = reqs_of keep" "\<forall>b1. ?keep = Some b1 \<longrightarrow> b_id b1 = next_id st"
    using id(1) by (auto simp: none_or_empty_reqs reqs_of_def split: option.splits)
  have q: "pending st' = ?keep \<and> next_id st' = next_id st + 2"
    using rest by (auto simp: join_running_def Let_def elim!: rbind_OkE split: if_splits)
  have r: "set (reqs_of (running st')) = set (reqs_of (running st)) \<union> set (reqs_of tkn)
      \<and> (\<forall>b. running st' = Some b \<longrightarrow> b_id b = Suc (next_id st) \<or> (\<exists>b0. running st = Some b0 \<and> b_id b = b_id b0))"
  proof (cases "none_or_empty (running st)")
    case True
    then show ?thesis using rest id(2) by (auto simp: join_running_def none_or_empty_reqs)
  next
    case False
    then obtain run tk m s where m: "running st = Some run" "tkn = Some tk" "running st' = Some m"
      "(if tf then merge_batch cfg run tk p else merge_batch cfg tk run p) = Ok (m, s)"
      using rest by (auto simp: join_running_def the_obj_eq_Ok elim!: rbind_OkE split: if_splits)
    then have "set (b_reqs m) = set (b_reqs run) \<union> set (b_reqs tk) \<and> (b_id m = b_id run \<or> b_id m = b_id tk)"
      using merge_batch_reqs [of cfg run tk p m s] merge_batch_reqs [of cfg tk run p m s] by (auto split: if_splits)
    then show ?thesis using m id(2) by (auto simp: reqs_of_def)
  qed
  show ?thesis using r q keep set pd assms(2) unfolding rb_kept_def rb_apart_def by (auto simp: reqs_of_def [of "Some pend"])
qed

lemma rb_kept_refl: "rb_apart st \<Longrightarrow> rb_kept (next_id st) st st"
  by (auto simp: rb_kept_def rb_apart_def)

lemma drop_finished_kept:
  assumes "drop_finished cfg st = Ok st1"
  shows "reqs_of (running st1) = filter (\<lambda>r. \<not> finished r) (reqs_of (running st)) \<and> pending st1 = pending st
    \<and> map_option b_id (running st1) = map_option b_id (running st) \<and> next_id st1 = next_id st"
proof (cases "running st")
  case None
  then show ?thesis using assms by (simp add: drop_finished_def reqs_of_def)
next
  case (Some b)
  let ?Q = "\<lambda>i. \<not> finished (b_reqs b ! i)"
  obtain b' s where f: "filter_keep cfg (unfinished_indices None (b_reqs b)) b (rb_pens st) = Ok (b', s)"
    "running st1 = Some b'" "pending st1 = pending st" "next_id st1 = next_id st"
    using assms Some by (auto simp: drop_finished_def filter_batch_def elim!: rbind_OkE)
  have u: "unfinished_indices None (b_reqs b) = filter ?Q [0..<length (b_reqs b)]" by (simp add: unfinished_indices_def)
  have "b_reqs b' = filter (\<lambda>r. \<not> finished r) (b_reqs b) \<and> b_id b' = b_id b"
    using filter_keep_reqs [OF f(1) u] u map_nth_filter [of "b_reqs b" "\<lambda>r. \<not> finished r"] by simp
  then show ?thesis using f Some by (simp add: reqs_of_def)
qed

lemma rebalance_kept:
  assumes "rebalance cfg rc env st = Ok st'" "rb_apart st"
  shows "(\<forall>r \<in> set (reqs_of (running st)) \<union> set (reqs_of (pending st)). \<not> finished r \<longrightarrow>
            r \<in> set (reqs_of (running st')) \<union> set (reqs_of (pending st')))
    \<and> set (reqs_of (running st')) \<union> set (reqs_of (pending st')) \<subseteq> set (reqs_of (running st)) \<union> set (reqs_of (pending st))
    \<and> (\<forall>b. running st' = Some b \<longrightarrow> b_id b < next_id st' \<and> (next_id st \<le> b_id b \<or> map_option b_id (running st) = Some (b_id b)))
    \<and> (\<forall>b. pending st' = Some b \<longrightarrow> b_id b < next_id st' \<and> (next_id st \<le> b_id b \<or> map_option b_id (pending st) = Some (b_id b)))
    \<and> (\<forall>b c. running st' = Some b \<and> pending st' = Some c \<longrightarrow> b_id b \<noteq> b_id c) \<and> next_id st \<le> next_id st'"
proof (cases "none_or_empty (running st) \<and> none_or_empty (pending st)")
  case True
  then have "st' = st" using assms(1) by (simp add: rebalance_def)
  then show ?thesis using assms(2) by (auto simp: rb_apart_def)
next
  case False
  obtain st1 tpot waiting kv where d: "drop_finished cfg st = Ok st1" and sg: "rebalance_signals env = Ok (tpot, waiting, kv)"
    and rest: "(let n = total_reqs env st1; pp = int (e_pp_size env);
               headroom = (waiting > waiting_tok_threshold rc \<and> kv > kv_free_threshold rc);
               tf = use_tpot_first rc env tpot;
               base_th = base_unit rc * pp;
               margin = load_alpha rc * real_of_int base_th
           in if base_th = 0 then Err ZeroDivisionError
           else let th = (n div base_th) * base_th
           in if th > 0 \<and> real_of_int n < real_of_int th + margin \<and> \<not> headroom
              then rebalance_case1 cfg tf (th div pp) st1
              else rebalance_case2 cfg tf headroom (n div pp) (th div pp + base_unit rc) st1) = Ok st'"
    using assms(1) False unfolding rebalance_def by (auto elim!: rbind_OkE simp del: Let_def)
  note D = drop_finished_kept [OF d]
  have b0: "\<exists>b0. running st = Some b0 \<and> b_id b0 = b_id b" if "running st1 = Some b" for b
    using D that by (cases "running st") auto
  have ap: "rb_apart st1" using D assms(2) b0 unfolding rb_apart_def by force
  have "(\<exists>tf d. rebalance_case1 cfg tf d st1 = Ok st') \<or> (\<exists>tf hr d l. rebalance_case2 cfg tf hr d l st1 = Ok st')"
    using rest unfolding Let_def by (simp only: split: if_splits) blast+
  then have k: "rb_kept (next_id st1) st1 st'"
    using give_to_pending_kept [OF _ ap] take_from_pending_kept [OF _ ap] rb_kept_refl [OF ap]
    by (auto simp: rebalance_case1_def rebalance_case2_def Let_def split: if_splits)
  have i: "map_option b_id (running st) = Some (b_id b0)" if "running st1 = Some b0" for b0
    using D that by simp
  have sets: "set (reqs_of (running st')) \<union> set (reqs_of (pending st'))
      = {r \<in> set (reqs_of (running st)). \<not> finished r} \<union> set (reqs_of (pending st))"
    using k D unfolding rb_kept_def by simp
  have n: "next_id st1 = next_id st" using D by simp
  have r: "b_id b < next_id st' \<and> (next_id st \<le> b_id b \<or> map_option b_id (running st) = Some (b_id b))"
    if "running st' = Some b" for b
    using k that i unfolding rb_kept_def n by fastforce
  have p: "b_id b < next_id st' \<and> (next_id st \<le> b_id b \<or> map_option b_id (pending st) = Some (b_id b))"
    if "pending st' = Some b" for b
    using k that D unfolding rb_kept_def n by fastforce
  have "\<forall>b c. running st' = Some b \<and> pending st' = Some c \<longrightarrow> b_id b \<noteq> b_id c" "next_id st \<le> next_id st'"
    using k unfolding rb_kept_def n by blast+
  then show ?thesis using r p unfolding sets by (intro conjI) auto
qed

section \<open>Where requests are held\<close>

text \<open>The queues, the running and pending batches, the last batches of the other stages; and the request being
  chunked, in the slot of the current stage or of another.\<close>

definition slot_ids :: "('g, 'm, 'c) scheduler \<Rightarrow> nat option \<Rightarrow> nat set" where
  "slot_ids s x = (case x of None \<Rightarrow> {} | Some i \<Rightarrow> set (batch_ids s i))"

definition slots_of :: "('g, 'm, 'c) scheduler \<Rightarrow> nat option set" where
  "slots_of s = insert (sh_pending s) (set (sh_run s)) \<union> {sh_last s ! k |k. k < length (sh_last s) \<and> k \<noteq> sh_cur s}"

definition parked :: "('g, 'm, 'c) scheduler \<Rightarrow> nat set" where
  "parked s = set (sh_wait s) \<union> \<Union> (set ` set (sh_gq s))
     \<union> {c. \<exists>k < length (sh_chunk s). k \<noteq> sh_cur s \<and> sh_chunk s ! k = Some c}"

definition held :: "('g, 'm, 'c) scheduler \<Rightarrow> nat set" where
  "held s = parked s \<union> (\<Union>x \<in> slots_of s. slot_ids s x)"

text \<open>A step keeps the unfinished ones among \<open>X\<close> when it ends with them in \<open>Y\<close>.\<close>

definition loses_none :: "('g, 'm, 'c) scheduler \<Rightarrow> nat set \<Rightarrow> nat set \<Rightarrow> bool" where
  "loses_none s X Y \<longleftrightarrow> (\<forall>i \<in> X. \<not> finished (sh_objs s i) \<longrightarrow> i \<in> Y)"

text \<open>No batch has two places: other stages' batches are not this stage's, and the pending batch is
  nobody's.\<close>

definition refs_ok :: "('g, 'm, 'c) scheduler \<Rightarrow> bool" where
  "refs_ok s \<longleftrightarrow> sh_cur s < length (sh_run s) \<and> length (sh_last s) = length (sh_run s) \<and> length (sh_chunk s) = length (sh_run s)
     \<and> length (sh_gq s) = length (sh_run s)
     \<and> (\<forall>i. Some i \<in> insert (sh_pending s) (set (sh_run s) \<union> set (sh_last s)) \<longrightarrow> i < sh_next s)
     \<and> (\<forall>i. sh_pending s = Some i \<longrightarrow> Some i \<notin> set (sh_run s) \<union> set (sh_last s))
     \<and> (\<forall>i k. k < length (sh_run s) \<and> k \<noteq> sh_cur s \<and> (sh_run s ! k = Some i \<or> sh_last s ! k = Some i)
          \<longrightarrow> running_batch s \<noteq> Some i \<and> last_batch s \<noteq> Some i)"

lemma loses_noneD: "loses_none s X Y \<Longrightarrow> i \<in> X \<Longrightarrow> \<not> finished (sh_objs s i) \<Longrightarrow> i \<in> Y"
  by (simp add: loses_none_def)

lemma loses_none_trans:
  "loses_none s X Y \<Longrightarrow> loses_none s' Y Z \<Longrightarrow> stable (sh_objs s) (sh_objs s') \<Longrightarrow> loses_none s X Z"
  by (auto simp: loses_none_def stable_finished)

lemma loses_none_sub: "X \<subseteq> Y \<Longrightarrow> loses_none s X Y"
  by (auto simp: loses_none_def)

section \<open>Absorbing the last batch\<close>

text \<open>What is held apart from the current stage's last batch.\<close>

definition elsewhere :: "('g, 'm, 'c) scheduler \<Rightarrow> nat set" where
  "elsewhere s = parked s \<union> (\<Union>x \<in> slots_of s - {last_batch s}. slot_ids s x)"

lemma parked_cong:
  "sh_wait s' = sh_wait s \<Longrightarrow> sh_gq s' = sh_gq s \<Longrightarrow> sh_cur s' = sh_cur s \<Longrightarrow> length (sh_chunk s') = length (sh_chunk s)
     \<Longrightarrow> (\<forall>k. k \<noteq> sh_cur s \<longrightarrow> sh_chunk s' ! k = sh_chunk s ! k) \<Longrightarrow> parked s' = parked s"
  by (auto simp: parked_def)

lemma slots_of_cong:
  "sh_run s' = sh_run s \<Longrightarrow> sh_last s' = sh_last s \<Longrightarrow> sh_pending s' = sh_pending s \<Longrightarrow> sh_cur s' = sh_cur s \<Longrightarrow> slots_of s' = slots_of s"
  by (simp add: slots_of_def)

text \<open>The part of the state that names batches, and the parked requests, stay.\<close>

definition places_kept :: "('g, 'm, 'c) scheduler \<Rightarrow> ('g, 'm, 'c) scheduler \<Rightarrow> bool" where
  "places_kept s s' \<longleftrightarrow> sh_last s' = sh_last s \<and> sh_pending s' = sh_pending s \<and> sh_cur s' = sh_cur s \<and> sh_next s' = sh_next s
     \<and> sh_wait s' = sh_wait s \<and> sh_gq s' = sh_gq s \<and> (sh_chunk s' = sh_chunk s \<or> sh_chunk s' = (sh_chunk s)[sh_cur s := None])"

lemma places_parked: "places_kept s s' \<Longrightarrow> parked s' = parked s"
  by (rule parked_cong) (auto simp: places_kept_def)

lemma bump_lens_frame:
  "frame s (bump_lens l s) \<and> sh_wait (bump_lens l s) = sh_wait s \<and> sh_gq (bump_lens l s) = sh_gq s \<and> sh_chunk (bump_lens l s) = sh_chunk s"
proof -
  have "stable h (fold (\<lambda>r h. h(oid r := bump_output_len (h (oid r)))) rs h)" for h and rs :: "'a req list"
    by (rule stable_fold) (simp add: stable_def same_req_def bump_output_len_def finished_fields)
  then show ?thesis by (simp add: bump_lens_def frame_def)
qed

context request_cache
begin

lemma drop_chunked_kept:
  assumes "drop_chunked ops g l s = Ok s'" "store_ok s"
  shows "store_ok s' \<and> stable (sh_objs s) (sh_objs s') \<and> sh_run s' = sh_run s \<and> places_kept s s'
    \<and> (\<forall>j. j \<noteq> l \<longrightarrow> batch_ids s' j = batch_ids s j)
    \<and> (\<forall>i \<in> set (batch_ids s l). \<not> finished (sh_objs s i) \<and> i \<notin> set (chunk_list s) \<longrightarrow> i \<in> set (batch_ids s' l))
    \<and> (sh_chunk s' = sh_chunk s
       \<or> (\<exists>c. being_chunked_req s = Some c \<and> pp_idx (sh_objs s c) \<noteq> int (sh_cur s) \<and> sh_chunk s' = (sh_chunk s)[sh_cur s := None]))"
proof (cases "being_chunked_req s")
  case None
  then show ?thesis using assms by (simp add: drop_chunked_def places_kept_def)
next
  case (Some c)
  obtain s1 where f: "filter_at (sg_model g) (Some (sh_objs s c)) l s = Ok s1"
    and rest: "(if pp_idx (sh_objs s c) = int (sh_cur s)
        then rbind (stash_chunk ops c s1) (\<lambda>s. Ok (s\<lparr>sh_full := False\<rparr>)) else Ok (set_being_chunked_req None s1)) = Ok s'"
    using assms(1) Some by (auto simp: drop_chunked_def elim!: rbind_OkE split: if_splits)
  note F = filter_at_outcome [OF f assms(2)]
  have n: "named (sh_objs s)" "named (sh_objs s1)" using F assms(2) by (simp_all add: store_ok_def)
  have keep: "i \<in> set (batch_ids s1 l)" if "i \<in> set (batch_ids s l)" "\<not> finished (sh_objs s i)" "i \<notin> set (chunk_list s)" for i
    using F that Some namedD [OF n(1), of c] by (auto simp: stays_def chunk_list_def)
  show ?thesis
  proof (cases "pp_idx (sh_objs s c) = int (sh_cur s)")
    case True
    then obtain s2 where st: "stash_chunk ops c s1 = Ok s2" "s' = s2\<lparr>sh_full := False\<rparr>" using rest by (auto elim!: rbind_OkE)
    note S = stash_chunk_frame [OF st(1) n(2)]
    have fr: "frame s1 s'" using S st(2) by (simp add: frame_def)
    have "store_ok s'" "batch_ids s' = batch_ids s1" "stable (sh_objs s) (sh_objs s')"
      using F frame_ok [OF fr] frame_ids [OF fr] fr by (auto simp: frame_def intro: stable_trans)
    then show ?thesis using F S st(2) keep by (auto simp: frame_def places_kept_def slots_kept_def)
  next
    case False
    then have s': "s' = set_being_chunked_req None s1" using rest by simp
    then have "batch_ids s' = batch_ids s1" "store_ok s' = store_ok s1"
      by (simp_all add: set_being_chunked_req_def batch_ids_def store_ok_def fun_eq_iff)
    then show ?thesis using F keep Some False s'
      by (auto simp: set_being_chunked_req_def places_kept_def slots_kept_def)
  qed
qed

end

text \<open>What absorbing keeps: everything that was held and the requests of the last batch, apart from a request
  being chunked that another stage holds.\<close>

definition absorbed :: "('g, 'm, 'c) scheduler \<Rightarrow> ('g, 'm, 'c) scheduler \<Rightarrow> bool" where
  "absorbed s s' \<longleftrightarrow> store_ok s' \<and> refs_ok s' \<and> stable (sh_objs s) (sh_objs s') \<and> places_kept s s'
     \<and> loses_none s (elsewhere s) (held s')
     \<and> loses_none s (held s \<union> slot_ids s (last_batch s) \<union> set (chunk_list s)) (held s' \<union> set (chunk_list s'))"

text \<open>The conditions: a last batch that is not an extend batch is still held, and so is a request being
  chunked that another stage took on.\<close>

definition absorbable :: "('g, 'm, 'c) scheduler \<Rightarrow> bool" where
  "absorbable s \<longleftrightarrow>
     (\<forall>l. last_batch s = Some l \<and> (\<forall>m. b_mode (sh_bats s l) = Some m \<longrightarrow> \<not> is_extend m)
        \<longrightarrow> loses_none s (set (batch_ids s l)) (held s \<union> set (chunk_list s)))
   \<and> (\<forall>c. being_chunked_req s = Some c \<and> pp_idx (sh_objs s c) \<noteq> int (sh_cur s) \<and> \<not> finished (sh_objs s c) \<longrightarrow> c \<in> elsewhere s)"

lemma elsewhere_held: "elsewhere s \<subseteq> held s"
  by (auto simp: elsewhere_def held_def)

lemma frame_absorbed:
  assumes "frame s s'" "sh_wait s' = sh_wait s" "sh_gq s' = sh_gq s" "sh_chunk s' = sh_chunk s" "store_ok s" "refs_ok s"
    "loses_none s (slot_ids s (last_batch s)) (held s \<union> set (chunk_list s))"
  shows "absorbed s s'"
proof -
  have p: "places_kept s s'" "slots_of s' = slots_of s" "batch_ids s' = batch_ids s" "chunk_list s' = chunk_list s"
    using assms frame_ids by (auto simp: places_kept_def frame_def slots_of_def chunk_list_def being_chunked_req_def)
  have "slot_ids s' = slot_ids s" by (rule ext) (simp add: slot_ids_def p(3) split: option.split)
  then have h: "held s' = held s" using places_parked [OF p(1)] p(2) by (simp add: held_def)
  have "refs_ok s'" using assms by (simp add: refs_ok_def frame_def running_batch_def last_batch_def)
  then show ?thesis
    using assms p(1) h p(4) elsewhere_held frame_ok [OF assms(1,5)]
    by (auto simp: absorbed_def frame_def loses_none_def)
qed

lemma slots_of_upd:
  assumes "running_batch s = None" "sh_cur s < length (sh_run s)" "x \<in> slots_of s" "x \<noteq> None"
  shows "x \<in> slots_of (set_running_batch y s)"
proof -
  have "x \<in> set ((sh_run s)[sh_cur s := y])" if xs: "x \<in> set (sh_run s)"
  proof -
    obtain k where k: "k < length (sh_run s)" "sh_run s ! k = x" using xs by (auto simp: in_set_conv_nth)
    then have "k \<noteq> sh_cur s" using assms(1,4) by (auto simp: running_batch_def)
    then have "(sh_run s)[sh_cur s := y] ! k = x" using k by simp
    then show ?thesis using k(1) by (metis length_list_update nth_mem)
  qed
  then show ?thesis using assms(3) by (auto simp: slots_of_def set_running_batch_def)
qed

lemma running_slot: "sh_cur s < length (sh_run s) \<Longrightarrow> running_batch s \<in> slots_of s"
  by (simp add: running_batch_def slots_of_def)

lemma slot_held: "x \<in> slots_of s \<Longrightarrow> slot_ids s x \<subseteq> held s"
  by (auto simp: held_def)

text \<open>The last batch, filtered, becomes or joins the running batch, unless it is empty.\<close>

definition taken_in :: "nat \<Rightarrow> ('g, 'm, 'c) scheduler \<Rightarrow> ('g, 'm, 'c) scheduler \<Rightarrow> bool" where
  "taken_in l s s' \<longleftrightarrow> store_ok s' \<and> stable (sh_objs s) (sh_objs s') \<and> places_kept s s' \<and> sh_chunk s' = sh_chunk s
     \<and> (\<forall>x \<in> slots_of s. x \<noteq> None \<longrightarrow> x \<in> slots_of s' \<and> slot_ids s x \<subseteq> slot_ids s' x)
     \<and> set (batch_ids s l) \<subseteq> held s'
     \<and> (sh_run s' = sh_run s \<or> running_batch s = None \<and> sh_run s' = (sh_run s)[sh_cur s := Some l])"

lemma take_in_outcome:
  assumes run: "(if is_empty (the_batch s l) then Ok s
             else let s = bump_lens l s
                  in case running_batch s of None \<Rightarrow> Ok (set_running_batch (Some l) s)
                     | Some r \<Rightarrow> merge_at cfg r l s) = Ok s'"
    and ok: "store_ok s" "sh_cur s < length (sh_run s)"
  shows "taken_in l s s'"
proof (cases "is_empty (the_batch s l)")
  case True
  then have "s' = s" "batch_ids s l = []" using run by (auto simp: is_empty_def the_batch_reqs)
  then show ?thesis using ok by (simp add: taken_in_def places_kept_def)
next
  case False
  define s1 where "s1 = bump_lens l s"
  have b: "frame s s1" "sh_wait s1 = sh_wait s" "sh_gq s1 = sh_gq s" "sh_chunk s1 = sh_chunk s"
    using bump_lens_frame [of s l] by (simp_all add: s1_def)
  have ids: "batch_ids s1 = batch_ids s" "running_batch s1 = running_batch s" "slots_of s1 = slots_of s"
    using frame_ids [OF b(1)] frame_same [OF b(1)] b(1) by (auto simp: frame_def slots_of_def)
  have ok1: "store_ok s1" by (rule frame_ok [OF b(1) ok(1)])
  have pl: "places_kept s s1" using b by (simp add: places_kept_def frame_def)
  show ?thesis
  proof (cases "running_batch s")
    case None
    then have s': "s' = set_running_batch (Some l) s1" using run False ids(2) by (simp add: s1_def)
    have i: "batch_ids s' = batch_ids s" by (rule ext) (simp add: s' set_running_batch_def batch_ids_def ids(1) [unfolded batch_ids_def fun_eq_iff, rule_format])
    have l: "Some l \<in> slots_of s'" using ok(2) b(1)
      by (auto simp: s' set_running_batch_def slots_of_def frame_def intro: set_update_memI)
    have "set (batch_ids s l) \<subseteq> held s'" using slot_held [OF l] i by (simp add: slot_ids_def)
    moreover have "x \<in> slots_of s'" if "x \<in> slots_of s" "x \<noteq> None" for x
      unfolding s' by (rule slots_of_upd) (use that ids None ok(2) b(1) in \<open>auto simp: frame_def\<close>)
    ultimately show ?thesis using i None ok1 pl b
      by (auto simp: taken_in_def s' set_running_batch_def places_kept_def frame_def store_ok_def slot_ids_def)
  next
    case (Some r)
    then have m: "merge_at cfg r l s1 = Ok s'" using run False ids(2) by (simp add: s1_def)
    note M = merge_at_outcome [OF m ok1]
    have sl: "slots_of s' = slots_of s" using M ids(3) by (simp add: slots_kept_def slots_of_def)
    have "Some r \<in> slots_of s'" using running_slot [OF ok(2)] Some sl by simp
    from slot_held [OF this] have "set (batch_ids s l) \<subseteq> held s'" using M ids(1) by (simp add: slot_ids_def)
    moreover have "slot_ids s x \<subseteq> slot_ids s' x" for x using M ids(1) by (auto simp: slot_ids_def split: option.splits)
    ultimately show ?thesis using M pl b sl
      by (auto simp: taken_in_def places_kept_def slots_kept_def frame_def intro: stable_trans)
  qed
qed

lemma refs_set_running:
  assumes "refs_ok s" "sh_run s' = sh_run s \<or> sh_run s' = (sh_run s)[sh_cur s := x]" "places_kept s s'"
    "x = None \<or> x = last_batch s \<or> x = running_batch s"
  shows "refs_ok s'"
proof (cases "sh_run s' = sh_run s")
  case True
  then show ?thesis using assms(1,3)
    by (auto simp: refs_ok_def places_kept_def running_batch_def last_batch_def)
next
  case False
  then have r: "sh_run s' = (sh_run s)[sh_cur s := x]" using assms(2) by blast
  have cur: "sh_cur s < length (sh_run s)" "sh_cur s < length (sh_last s)" using assms(1) by (simp_all add: refs_ok_def)
  have sub: "Some i \<in> set (sh_run s) \<union> set (sh_last s)" if "Some i \<in> set (sh_run s') \<union> set (sh_last s')" for i
  proof -
    have "x \<in> {None} \<union> set (sh_run s) \<union> set (sh_last s)"
      using assms(4) cur by (auto simp: last_batch_def running_batch_def)
    then show ?thesis using that r assms(3) set_update_subset_insert [of "sh_run s" "sh_cur s" x]
      by (auto simp: places_kept_def)
  qed
  have rb: "running_batch s' = x" "last_batch s' = last_batch s"
    using r cur assms(3) by (simp_all add: running_batch_def last_batch_def places_kept_def)
  have sep: "running_batch s \<noteq> Some i \<and> last_batch s \<noteq> Some i"
    if "k < length (sh_run s)" "k \<noteq> sh_cur s" "sh_run s ! k = Some i \<or> sh_last s ! k = Some i" for i k
    using assms(1) that by (auto simp: refs_ok_def)
  have "x \<noteq> Some i \<and> last_batch s \<noteq> Some i"
    if "k < length (sh_run s)" "k \<noteq> sh_cur s" "sh_run s ! k = Some i \<or> sh_last s ! k = Some i" for i k
    using sep [OF that] assms(4) by auto
  then have "running_batch s' \<noteq> Some i \<and> last_batch s' \<noteq> Some i"
    if "k < length (sh_run s)" "k \<noteq> sh_cur s" "sh_run s' ! k = Some i \<or> sh_last s' ! k = Some i" for i k
    using that r assms(3) unfolding rb by (auto simp: places_kept_def)
  moreover have "length (sh_run s') = length (sh_run s)" "length (sh_chunk s') = length (sh_chunk s)"
    using r assms(3) by (auto simp: places_kept_def)
  moreover have "i < sh_next s" if "Some i \<in> insert (sh_pending s) (set (sh_run s') \<union> set (sh_last s'))" for i
    using assms(1) sub that by (auto simp: refs_ok_def)
  moreover have "Some i \<notin> set (sh_run s') \<union> set (sh_last s')" if "sh_pending s = Some i" for i
    using assms(1) sub that by (auto simp: refs_ok_def)
  ultimately show ?thesis
    using assms(1,3) unfolding refs_ok_def places_kept_def by (simp, blast)
qed

context request_cache
begin

lemma absorb_last_kept:
  assumes run: "absorb_last ops g s = Ok s'" and ok: "store_ok s" "refs_ok s" "absorbable s"
  shows "absorbed s s'"
proof (cases "last_batch s")
  case None
  then have "s' = s" using run by (simp add: absorb_last_def)
  then show ?thesis using ok None by (auto intro!: frame_absorbed simp: slot_ids_def loses_none_def)
next
  case (Some l)
  obtain mode where mode: "b_mode (sh_bats s l) = Some mode"
    and rest: "(if is_extend mode
        then rbind (drop_chunked ops g l s) (\<lambda>s.
             if is_empty (the_batch s l) then Ok s
             else let s = bump_lens l s
                  in case running_batch s of
                       None \<Rightarrow> Ok (set_running_batch (Some l) s)
                     | Some r \<Rightarrow> merge_at (sg_model g) r l s)
        else if is_decode mode then Ok (bump_lens l s) else Ok s) = Ok s'"
    using run Some by (auto simp: absorb_last_def the_obj_eq_Ok elim!: rbind_OkE)
  show ?thesis
  proof (cases "is_extend mode")
    case False
    then have lost: "loses_none s (slot_ids s (last_batch s)) (held s \<union> set (chunk_list s))"
      using ok(3) Some mode by (auto simp: absorbable_def slot_ids_def)
    have "s' = bump_lens l s \<or> s' = s" using rest False by (auto split: if_splits)
    then show ?thesis using frame_absorbed [OF _ _ _ _ ok(1,2) lost] bump_lens_frame [of s l] by auto
  next
    case True
    obtain s1 where d: "drop_chunked ops g l s = Ok s1"
      and t: "(if is_empty (the_batch s1 l) then Ok s1
             else let s = bump_lens l s1
                  in case running_batch s of None \<Rightarrow> Ok (set_running_batch (Some l) s)
                     | Some r \<Rightarrow> merge_at (sg_model g) r l s) = Ok s'"
      using rest True by (auto elim!: rbind_OkE)
    note D = drop_chunked_kept [OF d ok(1)]
    have cur: "sh_cur s1 < length (sh_run s1)" using D ok(2) by (auto simp: places_kept_def refs_ok_def)
    have T: "taken_in l s1 s'" using take_in_outcome [OF t] D cur by blast
    have pl: "places_kept s s'" using D T by (auto simp: taken_in_def places_kept_def)
    have sl: "slots_of s1 = slots_of s" using D by (simp add: places_kept_def slots_of_def)
    have park: "parked s' = parked s" by (rule places_parked [OF pl])
    have slot: "i \<in> held s'" if xs: "x \<in> slots_of s" "x \<noteq> Some l" "i \<in> slot_ids s x" for i x
    proof -
      obtain j where x: "x = Some j" "i \<in> set (batch_ids s j)" using xs(3) by (cases x) (auto simp: slot_ids_def)
      then have "i \<in> slot_ids s1 x" using D xs(2) by (simp add: slot_ids_def)
      then show ?thesis using T xs(1) sl x(1) slot_held by (fastforce simp: taken_in_def)
    qed
    have else': "loses_none s (elsewhere s) (held s')"
      using slot park Some by (auto simp: elsewhere_def loses_none_def held_def)
    have batch: "i \<in> held s' \<or> i \<in> set (chunk_list s)" if "i \<in> set (batch_ids s l)" "\<not> finished (sh_objs s i)" for i
      using D T that by (auto simp: taken_in_def)
    have chunk: "i \<in> held s' \<or> i \<in> set (chunk_list s')" if "i \<in> set (chunk_list s)" "\<not> finished (sh_objs s i)" for i
    proof (cases "sh_chunk s1 = sh_chunk s")
      case True
      then have "chunk_list s' = chunk_list s" using T D by (simp add: taken_in_def chunk_list_def being_chunked_req_def places_kept_def)
      then show ?thesis using that by simp
    next
      case False
      then obtain c where "being_chunked_req s = Some c" "pp_idx (sh_objs s c) \<noteq> int (sh_cur s)" using D by blast
      then have "i \<in> elsewhere s" using ok(3) that by (auto simp: absorbable_def chunk_list_def)
      then show ?thesis using else' that by (auto simp: loses_none_def)
    qed
    have "loses_none s (held s \<union> slot_ids s (last_batch s) \<union> set (chunk_list s)) (held s' \<union> set (chunk_list s'))"
      unfolding loses_none_def
    proof (intro ballI impI)
      fix i assume i: "i \<in> held s \<union> slot_ids s (last_batch s) \<union> set (chunk_list s)" and u: "\<not> finished (sh_objs s i)"
      have l: "slot_ids s (Some l) = set (batch_ids s l)" by (simp add: slot_ids_def)
      have "i \<in> held s' \<union> set (chunk_list s)"
      proof (cases "i \<in> set (batch_ids s l)")
        case True
        then show ?thesis using batch u by auto
      next
        case False
        have "i \<in> held s'" if "x \<in> slots_of s" "i \<in> slot_ids s x" for x
          using slot [OF that(1) _ that(2)] that(2) l False by auto
        moreover have "i \<in> held s'" if "i \<in> parked s" using that park by (simp add: held_def)
        ultimately show ?thesis using i Some l False unfolding held_def [of s] by auto
      qed
      then show "i \<in> held s' \<union> set (chunk_list s')" using chunk u by auto
    qed
    moreover have "refs_ok s'"
      using refs_set_running [OF ok(2) _ pl, of "Some l"] T D Some by (auto simp: taken_in_def places_kept_def running_batch_def)
    moreover have "stable (sh_objs s) (sh_objs s')" using D T by (auto simp: taken_in_def intro: stable_trans)
    ultimately show ?thesis using T pl else' by (simp add: absorbed_def taken_in_def)
  qed
qed

end

section \<open>The rebalancing step\<close>

definition put_opt :: "('g, 'm) batch option \<Rightarrow> ('g, 'm, 'c) scheduler \<Rightarrow> ('g, 'm, 'c) scheduler" where
  "put_opt x s = (case x of None \<Rightarrow> s | Some b \<Rightarrow> put_batch b s)"

lemma put_opt_step:
  assumes "store_ok s" "\<forall>r \<in> set (reqs_of x). same_req (sh_objs s (oid r)) r"
  shows "store_ok (put_opt x s) \<and> stable (sh_objs s) (sh_objs (put_opt x s)) \<and> slots_kept s (put_opt x s)
    \<and> (\<forall>j. batch_ids (put_opt x s) j = (if map_option b_id x = Some j then map oid (reqs_of x) else batch_ids s j))"
  using assms put_batch_step [OF assms(1)] by (cases x) (auto simp: put_opt_def reqs_of_def)

lemma stable_reqs:
  assumes "stable h h'" "\<forall>r \<in> R. same_req (h (oid r)) r"
  shows "\<forall>r \<in> R. same_req (h' (oid r)) r"
  using assms by (auto simp: stable_def same_req_def)

lemma other_slot:
  assumes "refs_ok s" "x \<in> slots_of s" "x \<noteq> running_batch s" "x \<noteq> sh_pending s" "x \<noteq> None"
  shows "(\<exists>k < length (sh_run s). k \<noteq> sh_cur s \<and> (sh_run s ! k = x \<or> sh_last s ! k = x)) \<and> (\<forall>i. x = Some i \<longrightarrow> i < sh_next s)"
proof -
  from assms(2,4) consider k where "k < length (sh_run s)" "sh_run s ! k = x"
    | k where "k < length (sh_last s)" "k \<noteq> sh_cur s" "sh_last s ! k = x"
    by (auto simp: slots_of_def in_set_conv_nth)
  then have "\<exists>k < length (sh_run s). k \<noteq> sh_cur s \<and> (sh_run s ! k = x \<or> sh_last s ! k = x)"
    using assms(1,3) by cases (auto simp: refs_ok_def running_batch_def)
  moreover have "x \<in> set (sh_run s) \<union> set (sh_last s)"
    using calculation assms(1) by (auto simp: refs_ok_def in_set_conv_nth)
  ultimately show ?thesis using assms(1) by (auto simp: refs_ok_def)
qed

lemma rebalance_step_kept:
  assumes run: "rebalance_step env g s = Ok s'" and ok: "store_ok s" "refs_ok s"
  shows "store_ok s' \<and> stable (sh_objs s) (sh_objs s') \<and> loses_none s (held s) (held s') \<and> parked s' = parked s
    \<and> sh_wait s' = sh_wait s \<and> sh_gq s' = sh_gq s \<and> sh_chunk s' = sh_chunk s \<and> sh_cur s' = sh_cur s \<and> sh_last s' = sh_last s
    \<and> (\<forall>x \<in> slots_of s'. \<forall>i. x = Some i \<longrightarrow> i < sh_next s') \<and> length (sh_run s') = length (sh_run s)
    \<and> sh_pol s' = sh_pol s"
proof -
  let ?run = "map_option (the_batch s) (running_batch s)" and ?pend = "map_option (the_batch s) (sh_pending s)"
  define st0 where "st0 = \<lparr>running = ?run, pending = ?pend, batch_is_full = sh_full s,
      rb_pens = fold (\<lambda>b p. store_set_reqs (b_id b) (b_reqs b) p)
            ((case ?run of None \<Rightarrow> [] | Some b \<Rightarrow> [b]) @ (case ?pend of None \<Rightarrow> [] | Some b \<Rightarrow> [b])) (w_pens (sh_world s)),
      next_id = sh_next s\<rparr>"
  have st0: "running st0 = ?run" "pending st0 = ?pend" "next_id st0 = sh_next s" by (simp_all add: st0_def)
  obtain st where r: "rebalance (sg_model g) (sg_rb g) env st0 = Ok st"
    and s': "s' = (set_running_batch (map_option b_id (running st)) (set_pens (rb_pens st) (put_opt (pending st) (put_opt (running st) s))))
                    \<lparr>sh_pending := map_option b_id (pending st), sh_full := batch_is_full st, sh_next := next_id st\<rparr>"
    using run unfolding rebalance_step_def put_opt_def Let_def st0_def [symmetric] by (elim rbind_OkE) simp
  have n: "named (sh_objs s)" using ok(1) by (simp add: store_ok_def)
  have cur: "sh_cur s < length (sh_run s)" using ok(2) by (simp add: refs_ok_def)
  then have runin: "running_batch s \<in> set (sh_run s)" by (simp add: running_batch_def)
  have ids: "b_id (the_batch s i) = i" for i using ok(1) by (simp add: the_batch_reqs store_ok_def)
  have ap: "rb_apart st0"
    using ok(2) runin ids by (auto simp: rb_apart_def st0 refs_ok_def)
  note K = rebalance_kept [OF r ap]
  have old: "\<forall>q \<in> set (reqs_of ?run) \<union> set (reqs_of ?pend). same_req (sh_objs s (oid q)) q"
    using namedD [OF n] by (auto simp: reqs_of_def the_batch_reqs split: option.splits)
  then have new: "\<forall>q \<in> set (reqs_of (running st)) \<union> set (reqs_of (pending st)). same_req (sh_objs s (oid q)) q"
    using K unfolding st0 by blast
  let ?s1 = "put_opt (running st) s"
  let ?s2 = "put_opt (pending st) ?s1"
  have P1: "store_ok ?s1 \<and> stable (sh_objs s) (sh_objs ?s1) \<and> slots_kept s ?s1
    \<and> (\<forall>j. batch_ids ?s1 j = (if map_option b_id (running st) = Some j then map oid (reqs_of (running st)) else batch_ids s j))"
    by (rule put_opt_step) (use ok(1) new in auto)
  have new1: "\<forall>q \<in> set (reqs_of (pending st)). same_req (sh_objs ?s1 (oid q)) q"
    by (rule stable_reqs [of "sh_objs s"]) (use P1 new in auto)
  have P2: "store_ok ?s2 \<and> stable (sh_objs ?s1) (sh_objs ?s2) \<and> slots_kept ?s1 ?s2
    \<and> (\<forall>j. batch_ids ?s2 j = (if map_option b_id (pending st) = Some j then map oid (reqs_of (pending st)) else batch_ids ?s1 j))"
    by (rule put_opt_step) (use P1 new1 in auto)
  have f: "sh_run s' = (sh_run s)[sh_cur s := map_option b_id (running st)]" "sh_pending s' = map_option b_id (pending st)"
    "sh_next s' = next_id st" "batch_ids s' = batch_ids ?s2" "sh_objs s' = sh_objs ?s2" "store_ok s' = store_ok ?s2"
    "sh_last s' = sh_last s" "sh_cur s' = sh_cur s" "sh_wait s' = sh_wait s" "sh_gq s' = sh_gq s" "sh_chunk s' = sh_chunk s"
    using P1 P2 by (auto simp: s' set_running_batch_def set_pens_def batch_ids_def store_ok_def slots_kept_def fun_eq_iff)
  have rids: "slot_ids s' (map_option b_id (running st)) = oid ` set (reqs_of (running st))"
    using P1 P2 K f(4) by (cases "running st"; cases "pending st") (auto simp: slot_ids_def reqs_of_def)
  have pids: "slot_ids s' (map_option b_id (pending st)) = oid ` set (reqs_of (pending st))"
    using P2 f(4) by (cases "pending st") (auto simp: slot_ids_def reqs_of_def)
  have rs: "map_option b_id (running st) \<in> slots_of s'" "map_option b_id (pending st) \<in> slots_of s'"
    using cur by (auto simp: slots_of_def f intro: set_update_memI)
  have park: "parked s' = parked s" by (rule parked_cong) (simp_all add: f)
  have moved: "i \<in> held s'" if i: "i \<in> slot_ids s (running_batch s) \<union> slot_ids s (sh_pending s)" "\<not> finished (sh_objs s i)" for i
  proof -
    have "sh_objs s i \<in> set (reqs_of ?run) \<union> set (reqs_of ?pend)"
      using i(1) by (auto simp: slot_ids_def reqs_of_def the_batch_reqs split: option.splits)
    then have "sh_objs s i \<in> set (reqs_of (running st)) \<union> set (reqs_of (pending st))" using K i(2) unfolding st0 by blast
    then have "i \<in> slot_ids s' (map_option b_id (running st)) \<union> slot_ids s' (map_option b_id (pending st))"
      unfolding rids pids using namedD [OF n, of i] by force
    then show ?thesis using rs slot_held by blast
  qed
  have other: "i \<in> held s'" if i: "x \<in> slots_of s" "x \<noteq> running_batch s" "x \<noteq> sh_pending s" "i \<in> slot_ids s x" for i x
  proof -
    obtain j where j: "x = Some j" using i(4) by (cases x) (auto simp: slot_ids_def)
    obtain k where k: "k < length (sh_run s)" "k \<noteq> sh_cur s" "sh_run s ! k = x \<or> sh_last s ! k = x" "j < sh_next s"
      using other_slot [OF ok(2) i(1-3)] j by auto
    have "map_option b_id (running st) \<noteq> Some j" "map_option b_id (pending st) \<noteq> Some j"
      using K k(4) i(2,3) j ids unfolding st0 by (auto simp: option.map_comp o_def)
    then have "slot_ids s' x = slot_ids s x" using P1 P2 f(4) j by (simp add: slot_ids_def) blast
    moreover have "x \<in> slots_of s'"
      using k ok(2) by (auto simp: slots_of_def f refs_ok_def in_set_conv_nth)
    ultimately show ?thesis using i(4) slot_held by blast
  qed
  have "loses_none s (held s) (held s')"
    using moved other park by (auto simp: loses_none_def held_def [of s]) (auto simp: held_def)
  moreover have "i < sh_next s'" if x: "Some i \<in> slots_of s'" for i
  proof -
    from x consider "Some i \<in> {map_option b_id (running st), map_option b_id (pending st)}" | "Some i \<in> set (sh_run s) \<union> set (sh_last s)"
      using set_update_subset_insert [of "sh_run s" "sh_cur s" "map_option b_id (running st)"] by (auto simp: slots_of_def f)
    then show ?thesis
    proof cases
      case 1
      then obtain b where "running st = Some b \<or> pending st = Some b" "b_id b = i"
        by (cases "running st"; cases "pending st") auto
      moreover have "\<forall>b. running st = Some b \<or> pending st = Some b \<longrightarrow> b_id b < next_id st" using K by blast
      ultimately show ?thesis using f(3) by auto
    next
      case 2
      then have "i < sh_next s" using ok(2) by (auto simp: refs_ok_def)
      then show ?thesis using K st0(3) f(3) by simp
    qed
  qed
  moreover have "sh_pol s' = sh_pol s" by (simp add: s' set_running_batch_def set_pens_def put_opt_def put_batch_def split: option.splits)
  ultimately show ?thesis using P1 P2 f park K st0(3) by (auto intro: stable_trans)
qed

end
