(* ===== verification/Scheduler_Keeps.thy ===== *)
theory Scheduler_Keeps
imports Scheduler_Places
begin

text \<open>
  No step of the scheduler loses a request: how forming a prefill batch and a decode step move them, and
  the whole of \<^verbatim>\<open>get_next_batch_to_run\<close>.
\<close>

section \<open>Forming a batch keeps requests\<close>

lemma frame_held:
  assumes "frame s s'" "set (sh_wait s) \<union> \<Union> (set ` set (sh_gq s)) \<subseteq> set (sh_wait s') \<union> \<Union> (set ` set (sh_gq s'))"
    "length (sh_chunk s') = length (sh_chunk s)" "\<forall>k. k \<noteq> sh_cur s \<longrightarrow> sh_chunk s' ! k = sh_chunk s ! k"
  shows "held s \<subseteq> held s'"
proof -
  have "slot_ids s' = slot_ids s" by (rule ext) (simp add: slot_ids_def frame_ids [OF assms(1)] split: option.split)
  moreover have "slots_of s' = slots_of s" using assms(1) by (simp add: slots_of_def frame_def)
  moreover have "parked s \<subseteq> parked s'" using assms by (auto simp: parked_def frame_def)
  ultimately show ?thesis by (auto simp: held_def)
qed

lemma new_batch_held:
  assumes nb: "new_batch_of g n s s' q k dec" and cur: "sh_cur s < length (sh_run s)"
    and fresh: "\<forall>x \<in> slots_of s. \<forall>i. x = Some i \<longrightarrow> i < sh_next s"
  shows "loses_none s (held s \<union> set (chunk_list s)) (held s' \<union> set (batch_ids s' n))"
proof -
  note N = nb [unfolded new_batch_of_def]
  have wait: "set (sh_wait s) \<subseteq> set (sh_wait s') \<union> set (batch_ids s' n)"
  proof -
    have "set (sh_wait s) = set q" using N by (metis mset_eq_setD)
    also have "\<dots> = set (take k q) \<union> set (drop k q)" by (metis append_take_drop_id set_append)
    finally show ?thesis using N by auto
  qed
  have park: "parked s \<subseteq> parked s' \<union> set (batch_ids s' n)"
    using wait N by (auto simp: parked_def)
  have slot: "i \<in> held s' \<union> set (batch_ids s' n)" if xs: "x \<in> slots_of s" "i \<in> slot_ids s x" "\<not> finished (sh_objs s i)" for i x
  proof -
    obtain j where j: "x = Some j" "i \<in> set (batch_ids s j)" using xs(2) by (cases x) (auto simp: slot_ids_def)
    have jn: "j \<noteq> n" using fresh xs(1) j(1) N by auto
    from N have "joins n s s' dec" by blast
    then consider "sh_run s' = sh_run s" "batch_ids s' j = batch_ids s j"
      | r where "running_batch s = Some r" "sh_run s' = (sh_run s)[sh_cur s := None]"
          "\<forall>j. j \<noteq> n \<and> j \<noteq> r \<longrightarrow> batch_ids s' j = batch_ids s j" "dec = filter (\<lambda>i. \<not> finished (sh_objs s i)) (batch_ids s r)"
      using jn unfolding joins_def by blast
    then show ?thesis
    proof cases
      case 1
      then have "x \<in> slots_of s'" using xs(1) N by (simp add: slots_of_def)
      moreover have "i \<in> slot_ids s' x" using 1 j by (simp add: slot_ids_def)
      ultimately show ?thesis using slot_held by blast
    next
      case (2 r)
      show ?thesis
      proof (cases "j = r")
        case True
        then have "i \<in> set dec" using 2(4) j(2) xs(3) by simp
        then show ?thesis using N by auto
      next
        case False
        then have "i \<in> slot_ids s' x" using 2(3) jn j by (simp add: slot_ids_def)
        moreover have "x \<in> slots_of s'"
        proof -
          have "x \<noteq> running_batch s" using False 2(1) j(1) by simp
          then have "x \<in> set ((sh_run s)[sh_cur s := None])" if "x \<in> set (sh_run s)"
            using that by (auto simp: in_set_conv_nth running_batch_def) (metis nth_list_update_neq)
          then show ?thesis using xs(1) N 2(2) by (auto simp: slots_of_def)
        qed
        ultimately show ?thesis using slot_held by blast
      qed
    qed
  qed
  have "set (chunk_list s) \<subseteq> set (batch_ids s' n)" using N by auto
  moreover have "parked s' \<subseteq> held s'" by (auto simp: held_def)
  ultimately show ?thesis using park slot unfolding loses_none_def held_def [of s] by blast
qed

section \<open>The decode step keeps requests\<close>

lemma filter_keep_cases:
  assumes "filter_keep cfg keep b s = Ok (b', s')"
  shows "b_id b' = b_id b \<and> (keep = [] \<and> b_reqs b' = [] \<or> length keep = length (b_reqs b) \<and> b_reqs b' = b_reqs b
      \<or> b_reqs b' = map ((!) (b_reqs b)) keep)"
  using assms by (auto simp: filter_keep_def Let_def gather_eq_Ok elim!: rbind_OkE split: if_splits)

lemma retract_loop_partition:
  "retract_loop ops reqs lens first avail todo w = Ok ((keep, out), w') \<Longrightarrow> out @ rev keep = todo"
proof (induction todo arbitrary: first avail w keep out w')
  case Nil
  then show ?case by (simp add: retract_loop.simps split: if_splits)
next
  case (Cons idx rest)
  show ?case
  proof (cases "\<not> (avail < int (length (idx # rest)) * retract_decode_steps \<or> first) \<or> rest = []")
    case True
    then show ?thesis using Cons.prems by (auto simp: retract_loop.simps [of _ _ _ _ _ "idx # rest"] elim!: rbind_OkE split: if_splits)
  next
    case False
    then obtain a w1 out1 where "retract_loop ops reqs lens False a rest w1 = Ok ((keep, out1), w')" "out = idx # out1"
      using Cons.prems by (auto simp: retract_loop.simps [of _ _ _ _ _ "idx # rest"] elim!: rbind_OkE split: if_splits)
    then show ?thesis using Cons.IH by simp
  qed
qed

lemma reset_same: "same_req r (reset_for_retract r)"
  by (simp add: reset_for_retract_def Let_def same_req_def finished_def)

lemma reset_at_all2: "list_all2 same_req reqs (reset_at js reqs)"
proof (induction js arbitrary: reqs)
  case Nil
  then show ?case by (simp add: reset_at_def list_all2_same)
next
  case (Cons j js)
  have "list_all2 same_req reqs (reqs[j := reset_for_retract (reqs ! j)])"
    by (cases "j < length reqs") (auto simp: list_all2_conv_all_nth nth_list_update reset_same)
  then show ?case using Cons.IH [of "reqs[j := reset_for_retract (reqs ! j)]"] list_all2_trans [of same_req same_req same_req]
    unfolding reset_at_Cons by (metis same_req_trans)
qed

text \<open>Requests that come from a batch: each is one of its requests, with unimportant changes.\<close>

definition drawn :: "'g req list \<Rightarrow> 'g req list \<Rightarrow> bool" where
  "drawn old new \<longleftrightarrow> (\<forall>r \<in> set new. \<exists>q \<in> set old. same_req q r)"

lemma drawn_store:
  assumes "drawn old new" "\<forall>q \<in> set old. same_req (h (oid q)) q"
  shows "\<forall>r \<in> set new. same_req (h (oid r)) r"
  using assms by (force simp: drawn_def same_req_def)

lemma retract_decode_drawn:
  assumes "retract_decode ops cfg avail b w = Ok ((out, ratio), b', w')"
  shows "b_id b' = b_id b \<and> drawn (b_reqs b) (out @ b_reqs b') \<and> oid ` set (b_reqs b) \<subseteq> oid ` set out \<union> oid ` set (b_reqs b')"
proof -
  let ?reqs = "b_reqs b"
  obtain lens keep js w1 s where l: "retract_loop ops ?reqs lens True avail (rev (retract_order ?reqs)) w = Ok ((keep, js), w1)"
    and f: "filter_keep cfg keep (b\<lparr>b_reqs := reset_at js ?reqs\<rparr>) (store_set_reqs (b_id b) (reset_at js ?reqs) (w_pens w1)) = Ok (b', s)"
    and out: "out = map ((!) (reset_at js ?reqs)) js"
    using assms unfolding retract_decode_def Let_def filter_batch_def
    by (elim rbind_OkE) (auto simp: rbind_eq_Ok split: if_splits)
  let ?new = "reset_at js ?reqs"
  have all: "list_all2 same_req ?reqs ?new" by (rule reset_at_all2)
  have "mset (js @ rev keep) = mset [0..<length ?reqs]"
    using retract_loop_partition [OF l] by (simp add: retract_order_def)
  then have idx: "set js \<union> set keep = {..<length ?reqs}" "length js + length keep = length ?reqs"
    by (metis atLeast_upt mset_eq_setD set_append set_rev) (metis \<open>mset (js @ rev keep) = mset [0..<length ?reqs]\<close> diff_zero length_append length_rev length_upt mset_eq_length)
  have cover: "oid ` set ?reqs = oid ` set ?new"
    using same_reqs_oid [OF all] by (metis set_map)
  have covered: "set ?new \<subseteq> set out \<union> set (b_reqs b') \<and> set out \<union> set (b_reqs b') \<subseteq> set ?new"
  proof -
    have n: "set ?new = (!) ?new ` {..<length ?reqs}" by (auto simp: set_conv_nth)
    then have un: "set ?new = set out \<union> set (map ((!) ?new) keep)" unfolding out idx(1) [symmetric] by auto
    from filter_keep_cases [OF f] consider "keep = []" "b_reqs b' = []" | "length keep = length ?reqs" "b_reqs b' = ?new"
      | "b_reqs b' = map ((!) ?new) keep" by auto
    then show ?thesis using un by cases auto
  qed
  have "drawn ?reqs ?new"
    using all by (fastforce simp: drawn_def list_all2_conv_all_nth in_set_conv_nth)
  then have "drawn ?reqs (out @ b_reqs b')" using covered by (auto simp: drawn_def)
  then show ?thesis using filter_keep_cases [OF f] covered cover by auto
qed

context request_cache
begin

lemma jump_drawn:
  assumes "check_for_jump_forward ops cfg gr pad b w = Ok (out, b', w')"
  shows "b_id b' = b_id b \<and> drawn (b_reqs b) (out @ b_reqs b') \<and> oid ` set (b_reqs b) \<subseteq> oid ` set out \<union> oid ` set (b_reqs b')"
proof -
  obtain js where js: "list_all2 (\<lambda>r (j, r'). if j then jumped r r' else attempted r r') (b_reqs b) js"
    and o: "out = map snd (filter fst js)" "b_reqs b' = map snd (filter (\<lambda>x. \<not> fst x) js)" "b_id b' = b_id b"
    using jump_forward_splits [OF assms] by blast
  have js': "list_all2 (\<lambda>r x. same_req r (snd x)) (b_reqs b) js"
    using js by (rule list_all2_mono) (auto simp: jumped_def attempted_def same_req_def dest: core_ids split: if_splits)
  have all: "set out \<union> set (b_reqs b') = snd ` set js" unfolding o by force
  have "map oid (map snd js) = map oid (b_reqs b)"
    using js' by (induction rule: list_all2_induct) (simp_all add: same_req_def)
  then have "oid ` snd ` set js = oid ` set (b_reqs b)" by (metis set_map)
  moreover have "\<exists>q \<in> set (b_reqs b). same_req q r" if r: "r \<in> snd ` set js" for r
  proof -
    obtain k where k: "k < length js" "r = snd (js ! k)" using r by (auto simp: in_set_conv_nth)
    then show ?thesis using js' by (intro bexI [of _ "b_reqs b ! k"]) (auto simp: list_all2_conv_all_nth)
  qed
  ultimately show ?thesis using all o(3) unfolding drawn_def by (metis image_Un set_append subset_refl)
qed

end

text \<open>A batch value that stands for a stored batch.\<close>

definition stored :: "('g, 'm, 'c) scheduler \<Rightarrow> nat \<Rightarrow> ('g, 'm) batch \<Rightarrow> bool" where
  "stored s i b \<longleftrightarrow> b_id b = i \<and> map oid (b_reqs b) = batch_ids s i \<and> (\<forall>q \<in> set (b_reqs b). same_req (sh_objs s (oid q)) q)"

text \<open>What a decode step may do: move requests of batch \<open>i\<close> to the queue.\<close>

definition decode_kept :: "nat \<Rightarrow> ('g, 'm, 'c) scheduler \<Rightarrow> ('g, 'm, 'c) scheduler \<Rightarrow> bool" where
  "decode_kept i s s' \<longleftrightarrow> store_ok s' \<and> stable (sh_objs s) (sh_objs s') \<and> sh_run s' = sh_run s \<and> sh_gq s' = sh_gq s
     \<and> sh_chunk s' = sh_chunk s \<and> sh_last s' = sh_last s \<and> sh_pending s' = sh_pending s \<and> sh_cur s' = sh_cur s
     \<and> set (sh_wait s) \<subseteq> set (sh_wait s') \<and> (\<forall>j. j \<noteq> i \<longrightarrow> batch_ids s' j = batch_ids s j)
     \<and> loses_none s (set (batch_ids s i)) (set (sh_wait s') \<union> set (batch_ids s' i))"

lemma decode_kept_trans: "decode_kept i s s' \<Longrightarrow> decode_kept i s' s'' \<Longrightarrow> decode_kept i s s''"
  unfolding decode_kept_def by (auto simp: loses_none_def stable_finished intro: stable_trans) blast

lemma send_back_kept:
  assumes ok: "store_ok s" "stored s i b0" and dr: "b_id b = b_id b0" "drawn (b_reqs b0) (out @ b_reqs b)"
    "oid ` set (b_reqs b0) \<subseteq> oid ` set out \<union> oid ` set (b_reqs b)"
  shows "decode_kept i s (send_back out b w s) \<and> stored (send_back out b w s) i b"
proof -
  let ?s = "s\<lparr>sh_objs := save_reqs out (sh_objs s), sh_wait := sh_wait s @ map oid out\<rparr>"
  have st: "\<forall>q \<in> set (b_reqs b0). same_req (sh_objs s (oid q)) q" using ok(2) by (simp add: stored_def)
  have same: "\<forall>r \<in> set (out @ b_reqs b). same_req (sh_objs s (oid r)) r" by (rule drawn_store [OF dr(2) st])
  have a: "stable (sh_objs s) (save_reqs out (sh_objs s))" by (rule save_reqs_stable) (use same in auto)
  have ok1: "store_ok (put_world w ?s)" using ok(1) stable_named [OF a] by (simp add: store_ok_def)
  have "\<forall>r \<in> set (b_reqs b). same_req (sh_objs (put_world w ?s) (oid r)) r"
    using stable_reqs [OF a, of "set (b_reqs b)"] same by simp
  from put_batch_step [OF ok1 this]
  have p: "store_ok (send_back out b w s)" "stable (save_reqs out (sh_objs s)) (sh_objs (send_back out b w s))"
    "slots_kept ?s (send_back out b w s)" "batch_ids (send_back out b w s) = (batch_ids ?s)(b_id b := map oid (b_reqs b))"
    by (simp_all add: send_back_def)
  have i: "b_id b = i" "batch_ids ?s = batch_ids s" using ok(2) dr(1) by (simp_all add: stored_def batch_ids_def fun_eq_iff)
  have stb: "stable (sh_objs s) (sh_objs (send_back out b w s))" by (rule stable_trans [OF a p(2)])
  have "set (batch_ids s i) \<subseteq> oid ` set out \<union> set (map oid (b_reqs b))"
    using dr(3) ok(2) by (auto simp: stored_def) (metis image_eqI list.set_map UnE subsetD)
  then have "loses_none s (set (batch_ids s i)) (set (sh_wait (send_back out b w s)) \<union> set (batch_ids (send_back out b w s) i))"
    using p(3,4) i by (auto simp: loses_none_def slots_kept_def)
  moreover have "stored (send_back out b w s) i b"
    unfolding stored_def using i p(4) stable_reqs [OF stb, of "set (b_reqs b)"] same by simp
  ultimately show ?thesis using p stb i by (auto simp: decode_kept_def slots_kept_def)
qed

lemma decode_kept_refl: "store_ok s \<Longrightarrow> decode_kept i s s"
  by (auto simp: decode_kept_def loses_none_def)

lemma plain_update:
  assumes "store_ok s" "stored s i b" "s' = put_world w s\<lparr>sh_ratio := x\<rparr> \<or> s' = s\<lparr>sh_full := f\<rparr>"
  shows "decode_kept i s s' \<and> stored s' i b"
  using assms by (auto simp: decode_kept_def stored_def loses_none_def store_ok_def batch_ids_def put_world_def)

lemma make_room_kept:
  assumes "make_room ops g b s = Ok (b', s')" "store_ok s" "stored s i b"
  shows "decode_kept i s s' \<and> stored s' i b'"
proof -
  obtain enough w where c: "check_decode_mem ops (sh_avail s) b (synced_world b s) = (enough, w)" by (rule prod.exhaust)
  show ?thesis
  proof (cases "\<not> enough \<or> (sg_test_retract g \<and> 10 < length (b_reqs b))")
    case False
    then have "b' = b" "s' = put_world w s\<lparr>sh_ratio := max (sh_ratio s - sg_decay g) (sg_min_ratio g)\<rparr>"
      using assms(1) c unfolding make_room_def by (simp_all split: if_splits)
    then show ?thesis using plain_update [OF assms(2,3)] by blast
  next
    case True
    then obtain out ratio w1 where r: "retract_decode ops (sg_model g) (sh_avail s) b w = Ok ((out, ratio), b', w1)"
      and s': "s' = send_back out b' w1 (s\<lparr>sh_ratio := ratio\<rparr>)"
      using assms(1) c by (auto simp: make_room_def elim!: rbind_OkE)
    let ?s = "s\<lparr>sh_ratio := ratio\<rparr>"
    have same: "sh_objs ?s = sh_objs s" "batch_ids ?s = batch_ids s" "store_ok ?s" "stored ?s i b"
      using assms(2,3) by (auto simp: store_ok_def stored_def batch_ids_def)
    note D = retract_decode_drawn [OF r]
    have "decode_kept i ?s s' \<and> stored s' i b'"
      unfolding s' by (rule send_back_kept [OF same(3,4)]) (use D in auto)
    then show ?thesis by (simp add: decode_kept_def same loses_none_def)
  qed
qed

context request_cache
begin

lemma jump_out_kept:
  assumes "jump_out ops g gr pad b s = Ok (b', s')" "store_ok s" "stored s i b"
  shows "decode_kept i s s' \<and> stored s' i b'"
proof (cases "sg_jump g")
  case True
  then obtain out w where j: "check_for_jump_forward ops (sg_model g) gr pad b (synced_world b s) = Ok (out, b', w)"
    and s': "s' = send_back out b' w s"
    using assms(1) by (auto simp: jump_out_def elim!: rbind_OkE)
  note D = jump_drawn [OF j]
  show ?thesis unfolding s' by (rule send_back_kept [OF assms(2,3)]) (use D in auto)
next
  case False
  then show ?thesis using assms decode_kept_refl by (simp add: jump_out_def)
qed

lemma update_running_kept:
  assumes run: "update_running_batch ops g gr pad i s = Ok (bo, s')" and ok: "store_ok s"
  shows "decode_kept i s s' \<and> (bo = Some i \<or> bo = None \<and> batch_ids s' i = [])"
proof -
  obtain s1 where f: "filter_at (sg_model g) None i s = Ok s1"
    and rest: "(if is_empty (the_batch s1 i) then Ok (None, s1\<lparr>sh_full := False\<rparr>)
         else rbind (make_room ops g (the_batch s1 i) s1) (\<lambda>(b, s2).
              rbind (jump_out ops g gr pad b s2) (\<lambda>(b, s3).
              if sg_jump g \<and> is_empty b then Ok (None, s3\<lparr>sh_full := False\<rparr>)
              else let s4 = (if length (b_reqs b) < length (b_reqs (sh_bats s i)) then s3\<lparr>sh_full := False\<rparr> else s3)
                   in rbind (prepare_for_decode ops (sg_model g) b (synced_world b s4)) (\<lambda>(b, w).
                        Ok (Some i, put_batch b (put_world w s4)))))) = Ok (bo, s')"
    using run by (auto simp: update_running_batch_def elim!: rbind_OkE)
  note F = filter_at_outcome [OF f ok]
  have k1: "decode_kept i s s1" using F by (auto simp: decode_kept_def slots_kept_def loses_none_def stays_def)
  have ok1: "store_ok s1" using F by blast
  then have n1: "named (sh_objs s1)" by (simp add: store_ok_def)
  have b1: "stored s1 i (the_batch s1 i)"
    using ok1 namedD [OF n1] named_oids [OF n1] by (auto simp: stored_def the_batch_reqs store_ok_def)
  show ?thesis
  proof (cases "is_empty (the_batch s1 i)")
    case True
    then have s': "s' = s1\<lparr>sh_full := False\<rparr>" "bo = None" using rest by auto
    have "decode_kept i s1 s' \<and> stored s' i (the_batch s1 i)" by (rule plain_update [OF ok1 b1]) (use s' in blast)
    then show ?thesis using decode_kept_trans [OF k1] True s'(2) by (auto simp: stored_def is_empty_def)
  next
    case False
    obtain b2 s2 b3 s3 where m: "make_room ops g (the_batch s1 i) s1 = Ok (b2, s2)" and j: "jump_out ops g gr pad b2 s2 = Ok (b3, s3)"
      and fin: "(if sg_jump g \<and> is_empty b3 then Ok (None, s3\<lparr>sh_full := False\<rparr>)
              else let s4 = (if length (b_reqs b3) < length (b_reqs (sh_bats s i)) then s3\<lparr>sh_full := False\<rparr> else s3)
                   in rbind (prepare_for_decode ops (sg_model g) b3 (synced_world b3 s4)) (\<lambda>(b, w).
                        Ok (Some i, put_batch b (put_world w s4)))) = Ok (bo, s')"
      using rest False by (auto elim!: rbind_OkE)
    note M = make_room_kept [OF m ok1 b1]
    have ok2: "store_ok s2" using M by (simp add: decode_kept_def)
    have J: "decode_kept i s2 s3 \<and> stored s3 i b3" by (rule jump_out_kept [OF j ok2]) (use M in blast)
    have ok3: "store_ok s3" using J by (simp add: decode_kept_def)
    have k3: "decode_kept i s s3" using decode_kept_trans k1 M J by blast
    show ?thesis
    proof (cases "sg_jump g \<and> is_empty b3")
      case True
      then have s': "s' = s3\<lparr>sh_full := False\<rparr>" "bo = None" using fin by auto
      have "decode_kept i s3 s' \<and> stored s' i b3" by (rule plain_update [OF ok3]) (use s' J in auto)
      then show ?thesis using decode_kept_trans [OF k3] True s'(2) by (auto simp: stored_def is_empty_def)
    next
      case False
      define s4 where "s4 = (if length (b_reqs b3) < length (b_reqs (sh_bats s i)) then s3\<lparr>sh_full := False\<rparr> else s3)"
      have "decode_kept i s3 (s3\<lparr>sh_full := False\<rparr>) \<and> stored (s3\<lparr>sh_full := False\<rparr>) i b3"
        by (rule plain_update [OF ok3]) (use J in auto)
      then have k4: "decode_kept i s3 s4 \<and> stored s4 i b3" using J decode_kept_refl [OF ok3] by (simp add: s4_def)
      then have ok4: "store_ok s4" by (simp add: decode_kept_def)
      obtain b w where p: "prepare_for_decode ops (sg_model g) b3 (synced_world b3 s4) = Ok (b, w)"
        and s': "s' = put_batch b (put_world w s4)" "bo = Some i"
        using fin False unfolding s4_def [symmetric] by (auto simp: Let_def elim!: rbind_OkE)
      have same: "sh_objs (put_world w s4) = sh_objs s4" "store_ok (put_world w s4)" "batch_ids (put_world w s4) = batch_ids s4"
        using ok4 by simp_all
      have b: "b_reqs b = b_reqs b3" "b_id b = i" using prepare_for_decode_reqs [OF p] k4 by (simp_all add: stored_def)
      have "store_ok s' \<and> stable (sh_objs (put_world w s4)) (sh_objs s') \<and> slots_kept (put_world w s4) s'
          \<and> batch_ids s' = (batch_ids (put_world w s4))(b_id b := map oid (b_reqs b))"
        unfolding s'(1) by (rule put_batch_step [OF same(2)]) (use k4 b same in \<open>simp add: stored_def\<close>)
      then have "decode_kept i s4 s'"
        using k4 b same(3) by (simp add: decode_kept_def stored_def slots_kept_def loses_none_def put_world_def)
      then show ?thesis using decode_kept_trans k3 k4 s'(2) by blast
    qed
  qed
qed

end

section \<open>The scheduling step\<close>

text \<open>Which states of the slots of the request being chunked a step may start in: the slot of the current
  stage holds a request it cut itself, and the stage before holds the same one or none; or another stage
  took the request on.\<close>

definition chunk_ok :: "sched_cfg \<Rightarrow> ('g, 'm, 'c) scheduler \<Rightarrow> bool" where
  "chunk_ok g s \<longleftrightarrow> length (sh_chunk s) = sg_pp g \<and> (\<forall>c. being_chunked_req s = Some c \<and> c \<notin> elsewhere s \<and> \<not> finished (sh_objs s c) \<longrightarrow>
     sg_pp g = 1 \<or> (\<forall>i. sh_chunk s ! ((sh_cur s + sg_pp g - 1) mod sg_pp g) = Some i \<longrightarrow> i = c))"

definition queue_ok :: "('g, 'm, 'c) scheduler \<Rightarrow> bool" where
  "queue_ok s \<longleftrightarrow> distinct (sh_wait s @ sh_gq s ! sh_cur s)
     \<and> (\<forall>c. Some c \<in> set (sh_chunk s) \<longrightarrow> c \<notin> set (sh_wait s @ sh_gq s ! sh_cur s))
     \<and> sp_policy (sh_pol s ! sh_cur s) \<noteq> ''dfs-weight''"

lemma filter_at_pol: "filter_at cfg being i s = Ok s' \<Longrightarrow> sh_pol s' = sh_pol s"
  by (auto simp: filter_at_def Let_def set_pens_def put_batch_def elim!: rbind_OkE)

lemma stash_chunk_pol: "stash_chunk ops i s = Ok s' \<Longrightarrow> sh_pol s' = sh_pol s"
  by (auto simp: stash_chunk_def put_req_def put_world_def elim!: rbind_OkE)

lemma drop_chunked_pol: "drop_chunked ops g l s = Ok s' \<Longrightarrow> sh_pol s' = sh_pol s"
  by (auto simp: drop_chunked_def set_being_chunked_req_def elim!: rbind_OkE split: option.splits if_splits
      dest!: filter_at_pol stash_chunk_pol)

lemma absorb_last_pol: "absorb_last ops g s = Ok s' \<Longrightarrow> sh_pol s' = sh_pol s"
  by (auto simp: absorb_last_def merge_at_def Let_def bump_lens_def set_running_batch_def set_pens_def put_batch_def
      elim!: rbind_OkE split: option.splits if_splits dest!: drop_chunked_pol)

lemma decode_kept_held:
  assumes "decode_kept i s s'" "running_batch s = Some i" "sh_cur s < length (sh_run s)"
    and "bo = Some i \<or> bo = None \<and> batch_ids s' i = []"
  shows "loses_none s (held s) (held (set_running_batch bo s'))"
proof -
  note K = assms(1) [unfolded decode_kept_def]
  let ?t = "set_running_batch bo s'"
  have t: "batch_ids ?t = batch_ids s'" "sh_run ?t = (sh_run s)[sh_cur s := bo]" "sh_last ?t = sh_last s"
    "sh_pending ?t = sh_pending s" "sh_cur ?t = sh_cur s" "sh_wait ?t = sh_wait s'" "sh_gq ?t = sh_gq s" "sh_chunk ?t = sh_chunk s"
    using K by (simp_all add: set_running_batch_def batch_ids_def fun_eq_iff)
  have park: "parked s \<subseteq> parked ?t" using K t by (auto simp: parked_def)
  have slots: "x \<in> slots_of ?t" if x: "x \<in> slots_of s" "x \<noteq> Some i" for x
  proof -
    have "x \<in> set ((sh_run s)[sh_cur s := bo])" if "x \<in> set (sh_run s)"
      using that x(2) assms(2) by (auto simp: in_set_conv_nth running_batch_def) (metis nth_list_update_neq)
    then show ?thesis using x(1) t by (auto simp: slots_of_def)
  qed
  have run: "u \<in> held ?t" if "u \<in> set (batch_ids s i)" "\<not> finished (sh_objs s u)" for u
  proof -
    have "u \<in> set (sh_wait s') \<union> set (batch_ids s' i)" using K that by (auto simp: loses_none_def)
    moreover have "set (sh_wait s') \<subseteq> held ?t" using t by (auto simp: held_def parked_def)
    moreover have "set (batch_ids s' i) \<subseteq> held ?t"
    proof (cases bo)
      case None
      then show ?thesis using assms(4) by simp
    next
      case (Some j)
      have "Some i \<in> slots_of ?t" using assms(3,4) Some t by (auto simp: slots_of_def intro: set_update_memI)
      from slot_held [OF this] show ?thesis using t by (simp add: slot_ids_def)
    qed
    ultimately show ?thesis by blast
  qed
  have other: "u \<in> held ?t" if x: "x \<in> slots_of s" "x \<noteq> Some i" "u \<in> slot_ids s x" for x u
  proof -
    have "u \<in> slot_ids ?t x" using x(2,3) K t by (cases x) (auto simp: slot_ids_def)
    then show ?thesis using slots [OF x(1,2)] slot_held by blast
  qed
  have "loses_none s (slot_ids s x) (held ?t)" if "x \<in> slots_of s" for x
    using run other [OF that] by (cases "x = Some i") (auto simp: loses_none_def slot_ids_def)
  then show ?thesis using park unfolding loses_none_def held_def [of s] by (auto simp: held_def)
qed

lemma refs_slots:
  assumes "refs_ok s"
  shows "\<forall>x \<in> slots_of s. \<forall>i. x = Some i \<longrightarrow> i < sh_next s"
  using assms by (auto simp: refs_ok_def slots_of_def)

context request_cache
begin

lemma prefill_held:
  assumes run: "get_new_batch_prefill ops tree_root g env s = Ok (bo, s')" and ok: "store_ok s"
    "\<forall>x \<in> slots_of s. \<forall>i. x = Some i \<longrightarrow> i < sh_next s" "sh_cur s < length (sh_run s)" "length (sh_chunk s) = length (sh_run s)"
    "length (sh_gq s) = length (sh_run s)"
    and q: "queue_ok s" "\<And>xs. mset (en_shuffle env xs) = mset xs" "length (sh_chunk s) = sg_pp g"
    and ch: "\<forall>c \<in> set (chunk_list s). c \<in> held s \<or> finished (sh_objs s c) \<or> sg_pp g = 1
      \<or> (\<forall>i. sh_chunk s ! ((sh_cur s + sg_pp g - 1) mod sg_pp g) = Some i \<longrightarrow> i = c)"
  shows "store_ok s' \<and> stable (sh_objs s) (sh_objs s') \<and> sh_cur s' = sh_cur s \<and> length (sh_run s') = length (sh_run s)
    \<and> loses_none s (held s \<union> set (chunk_list s)) (held s' \<union> set (chunk_list s') \<union> slot_ids s' bo)
    \<and> sh_last s' = sh_last s \<and> (bo \<noteq> None \<longrightarrow> slot_ids s' bo \<noteq> {})"
proof -
  have rn: "running_batch s \<in> slots_of s" by (rule running_slot [OF ok(3)])
  have rr: "\<forall>r. running_batch s = Some r \<longrightarrow> r < sh_next s" using rn ok(2) by auto
  have cc: "sh_cur s < length (sh_chunk s)" using ok(3,4) by simp
  note qq = q(1) [unfolded queue_ok_def]
  obtain s1 where f: "frame s s1" and w: "sh_wait s1 = sh_wait s @ take (en_ready env) (sh_gq s ! sh_cur s)"
    "sh_gq s1 = (sh_gq s)[sh_cur s := drop (en_ready env) (sh_gq s ! sh_cur s)]"
    and c1: "sh_chunk s1 = sh_chunk s
         \<or> (\<exists>i. sg_pp g \<noteq> 1 \<and> sh_chunk s ! ((sh_cur s + sg_pp g - 1) mod sg_pp g) = Some i
              \<and> sh_chunk s1 = (sh_chunk s)[sh_cur s := Some i])"
    and out: "(bo = None \<and> no_batch s1 s') \<or> (\<exists>n q k dec. bo = Some n \<and> new_batch_of g n s1 s' q k dec)"
    using prefill_outcome [OF run ok(1) rr cc _ q(2) _ _ q(3)] qq by blast
  have wq: "set (sh_wait s) \<union> \<Union> (set ` set (sh_gq s)) \<subseteq> set (sh_wait s1) \<union> \<Union> (set ` set (sh_gq s1))"
  proof
    fix i assume "i \<in> set (sh_wait s) \<union> \<Union> (set ` set (sh_gq s))"
    then consider "i \<in> set (sh_wait s)" | k where "k < length (sh_gq s)" "i \<in> set (sh_gq s ! k)"
      by (auto simp: in_set_conv_nth) (metis in_set_conv_nth)
    then show "i \<in> set (sh_wait s1) \<union> \<Union> (set ` set (sh_gq s1))"
    proof cases
      case 1
      then show ?thesis using w by simp
    next
      case (2 k)
      show ?thesis
      proof (cases "k = sh_cur s")
        case True
        have "set (sh_gq s ! k) = set (take (en_ready env) (sh_gq s ! k)) \<union> set (drop (en_ready env) (sh_gq s ! k))"
          by (metis append_take_drop_id set_append)
        moreover have "drop (en_ready env) (sh_gq s ! k) \<in> set (sh_gq s1)"
          using True 2(1) w(2) by (auto intro: set_update_memI)
        ultimately show ?thesis using 2(2) w(1) True by auto
      next
        case False
        then have "sh_gq s1 ! k = sh_gq s ! k" using w(2) by simp
        moreover have "sh_gq s1 ! k \<in> set (sh_gq s1)" using 2(1) w(2) by simp
        ultimately show ?thesis using 2(2) by (metis UN_I UnI2)
      qed
    qed
  qed
  have ck: "length (sh_chunk s1) = length (sh_chunk s)" "\<forall>k. k \<noteq> sh_cur s \<longrightarrow> sh_chunk s1 ! k = sh_chunk s ! k"
    using c1 by auto
  have h1: "held s \<subseteq> held s1" by (rule frame_held [OF f wq ck])
  have l1: "loses_none s (held s \<union> set (chunk_list s)) (held s1 \<union> set (chunk_list s1))"
    unfolding loses_none_def
  proof (intro ballI impI)
    fix i assume i: "i \<in> held s \<union> set (chunk_list s)" "\<not> finished (sh_objs s i)"
    show "i \<in> held s1 \<union> set (chunk_list s1)"
    proof (cases "i \<in> held s")
      case True
      then show ?thesis using h1 by blast
    next
      case False
      then have c: "i \<in> set (chunk_list s)" using i by blast
      then have "being_chunked_req s = Some i" by (auto simp: chunk_list_def split: option.splits)
      then show ?thesis using c1
      proof (elim disjE exE conjE)
        assume "sh_chunk s1 = sh_chunk s"
        then have "chunk_list s1 = chunk_list s" using f by (simp add: chunk_list_def being_chunked_req_def frame_def)
        then show ?thesis using c by simp
      next
        fix j assume j: "sg_pp g \<noteq> 1" "sh_chunk s ! ((sh_cur s + sg_pp g - 1) mod sg_pp g) = Some j"
          "sh_chunk s1 = (sh_chunk s)[sh_cur s := Some j]"
        then have "j = i" using ch c False i(2) by blast
        then show ?thesis using j(3) f cc by (simp add: chunk_list_def being_chunked_req_def frame_def)
      qed
    qed
  qed
  have cur1: "sh_cur s1 < length (sh_run s1)" using ok(3) f by (simp add: frame_def)
  have st1: "stable (sh_objs s) (sh_objs s1)" using f by (simp add: frame_def)
  from out show ?thesis
  proof (elim disjE exE conjE)
    assume n: "bo = None" "no_batch s1 s'"
    have f2: "frame s1 s'" "set (sh_wait s') = set (sh_wait s1)" "sh_gq s' = sh_gq s1" "sh_chunk s' = sh_chunk s1"
      using n(2) by (auto simp: no_batch_def dest: mset_eq_setD)
    have "held s1 \<subseteq> held s'" by (rule frame_held [OF f2(1)]) (use f2 in auto)
    moreover have "chunk_list s' = chunk_list s1" using f2 by (simp add: chunk_list_def being_chunked_req_def frame_def)
    ultimately have "loses_none s (held s \<union> set (chunk_list s)) (held s' \<union> set (chunk_list s') \<union> slot_ids s' bo)"
      using l1 by (auto simp: loses_none_def)
    moreover have "store_ok s'" using frame_ok [OF frame_trans [OF f f2(1)] ok(1)] .
    ultimately show ?thesis using f f2(1) n(1) by (auto simp: frame_def intro: stable_trans)
  next
    fix n qu k dec assume n: "bo = Some n" "new_batch_of g n s1 s' qu k dec"
    have "slots_of s1 = slots_of s" using f by (simp add: slots_of_def frame_def)
    then have "\<forall>x \<in> slots_of s1. \<forall>i. x = Some i \<longrightarrow> i < sh_next s1" using ok(2) f by (simp add: frame_def)
    from new_batch_held [OF n(2) cur1 this]
    have "loses_none s1 (held s1 \<union> set (chunk_list s1)) (held s' \<union> set (batch_ids s' n))" .
    from loses_none_trans [OF l1 this st1]
    have "loses_none s (held s \<union> set (chunk_list s)) (held s' \<union> set (chunk_list s') \<union> slot_ids s' bo)"
      using n(1) by (auto simp: loses_none_def slot_ids_def)
    moreover have "length (sh_run s') = length (sh_run s1)"
      using n(2) by (auto simp: new_batch_of_def joins_def)
    moreover have "slot_ids s' bo \<noteq> {}" using n by (auto simp: new_batch_of_def slot_ids_def)
    ultimately show ?thesis using n(2) f by (auto simp: new_batch_of_def frame_def intro: stable_trans)
  qed
qed

end

context request_cache
begin

lemma scheduling_step_kept:
  assumes run: "get_next_batch_to_run ops tree_root g gr pad mn env s = Ok (bo, s')"
    and ok: "store_ok s" "refs_ok s" "absorbable s" "chunk_ok g s" "queue_ok s" "\<And>xs. mset (en_shuffle env xs) = mset xs"
  shows "stable (sh_objs s) (sh_objs s')
    \<and> loses_none s (held s \<union> slot_ids s (last_batch s) \<union> set (chunk_list s)) (held s' \<union> set (chunk_list s') \<union> slot_ids s' bo)
    \<and> store_ok s' \<and> sh_cur s' = sh_cur s \<and> sh_last s' = sh_last s \<and> length (sh_run s') = length (sh_run s)
    \<and> (bo = None \<or> bo = running_batch s' \<or> slot_ids s' bo \<noteq> {})"
proof -
  let ?X = "held s \<union> slot_ids s (last_batch s) \<union> set (chunk_list s)"
  obtain s1 s2 new s3 where a: "absorb_last ops g s = Ok s1"
    and r: "(if sg_rebalance g then rebalance_step (rb_env_of ops mn g s1) g s1 else Ok s1) = Ok s2"
    and p: "get_new_batch_prefill ops tree_root g env s2 = Ok (new, s3)"
    and fin: "(case new of Some n \<Rightarrow> Ok (Some n, s3)
       | None \<Rightarrow> (case running_batch s3 of None \<Rightarrow> Ok (None, s3)
         | Some i \<Rightarrow> rbind (update_running_batch ops g gr pad i s3) (\<lambda>(i, s). Ok (i, set_running_batch i s)))) = Ok (bo, s')"
    using run by (auto simp: get_next_batch_to_run_def elim!: rbind_OkE)
  have A: "absorbed s s1" by (rule absorb_last_kept [OF a ok(1-3)])
  note A' = A [unfolded absorbed_def places_kept_def]
  have ok1: "store_ok s1" "refs_ok s1" using A' by blast+
  have R: "store_ok s2 \<and> stable (sh_objs s1) (sh_objs s2) \<and> loses_none s1 (held s1) (held s2)
    \<and> sh_wait s2 = sh_wait s1 \<and> sh_gq s2 = sh_gq s1 \<and> sh_chunk s2 = sh_chunk s1 \<and> sh_cur s2 = sh_cur s1 \<and> sh_last s2 = sh_last s1
    \<and> (\<forall>x \<in> slots_of s2. \<forall>i. x = Some i \<longrightarrow> i < sh_next s2) \<and> length (sh_run s2) = length (sh_run s1) \<and> sh_pol s2 = sh_pol s1"
  proof (cases "sg_rebalance g")
    case True
    then have "rebalance_step (rb_env_of ops mn g s1) g s1 = Ok s2" using r by simp
    from rebalance_step_kept [OF this ok1] show ?thesis by blast
  next
    case False
    then have "s2 = s1" using r by simp
    then show ?thesis using ok1 refs_slots [OF ok1(2)] by (simp add: loses_none_def)
  qed
  have st: "stable (sh_objs s) (sh_objs s1)" "stable (sh_objs s) (sh_objs s2)" using A' R by (auto intro: stable_trans)
  have chunk2: "chunk_list s2 = chunk_list s1" using R by (simp add: chunk_list_def being_chunked_req_def)
  have l2: "loses_none s ?X (held s2 \<union> set (chunk_list s2))"
    using A' R st unfolding chunk2 by (auto simp: loses_none_def stable_finished)
  have q2: "queue_ok s2"
  proof -
    have "set (sh_chunk s2) \<subseteq> insert None (set (sh_chunk s))"
      using A' R set_update_subset_insert [of "sh_chunk s" "sh_cur s" None] by auto
    then show ?thesis using ok(5) A' R absorb_last_pol [OF a] by (auto simp: queue_ok_def)
  qed
  have len: "sh_cur s2 < length (sh_run s2)" "length (sh_chunk s2) = length (sh_run s2)" "length (sh_gq s2) = length (sh_run s2)"
    using R ok1(2) by (simp_all add: refs_ok_def)
  have pp: "length (sh_chunk s2) = sg_pp g" using ok(4) A' R by (auto simp: chunk_ok_def)
  have ch: "c \<in> held s2 \<or> finished (sh_objs s2 c) \<or> sg_pp g = 1
      \<or> (\<forall>i. sh_chunk s2 ! ((sh_cur s2 + sg_pp g - 1) mod sg_pp g) = Some i \<longrightarrow> i = c)" if "c \<in> set (chunk_list s2)" for c
  proof -
    have b: "being_chunked_req s1 = Some c" using that unfolding chunk2 by (auto simp: chunk_list_def split: option.splits)
    have lc: "sh_cur s < length (sh_chunk s)" using ok(2) by (simp add: refs_ok_def)
    have same: "sh_chunk s1 = sh_chunk s"
    proof (rule ccontr)
      assume "sh_chunk s1 \<noteq> sh_chunk s"
      then have "sh_chunk s1 = (sh_chunk s)[sh_cur s := None]" using A' by blast
      then show False using b lc A' by (simp add: being_chunked_req_def)
    qed
    have bs: "being_chunked_req s = Some c" using b same A' by (simp add: being_chunked_req_def)
    show ?thesis
    proof (cases "c \<in> elsewhere s \<and> \<not> finished (sh_objs s c)")
      case True
      then have "c \<in> held s1" using A' by (auto simp: loses_none_def)
      then show ?thesis using R True st(1) by (auto simp: loses_none_def stable_finished)
    next
      case False
      then show ?thesis using ok(4) bs same R A' st(2) by (auto simp: chunk_ok_def stable_finished)
    qed
  qed
  note P = prefill_held [OF p _ _ len q2 ok(6) pp]
  have P: "store_ok s3 \<and> stable (sh_objs s2) (sh_objs s3) \<and> sh_cur s3 = sh_cur s2 \<and> length (sh_run s3) = length (sh_run s2)
    \<and> loses_none s2 (held s2 \<union> set (chunk_list s2)) (held s3 \<union> set (chunk_list s3) \<union> slot_ids s3 new)
    \<and> sh_last s3 = sh_last s2 \<and> (new \<noteq> None \<longrightarrow> slot_ids s3 new \<noteq> {})"
    by (rule P) (use R ch in blast)+
  have "length (sh_run s1) = length (sh_run s)" using ok1(2) ok(2) A' by (simp add: refs_ok_def)
  then have at3: "sh_cur s3 = sh_cur s" "sh_last s3 = sh_last s" "length (sh_run s3) = length (sh_run s)"
    using P R A' by simp_all
  have l3: "loses_none s ?X (held s3 \<union> set (chunk_list s3) \<union> slot_ids s3 new)"
    using loses_none_trans [OF l2 _ st(2)] P by blast
  have st3: "stable (sh_objs s) (sh_objs s3)" using st(2) P by (auto intro: stable_trans)
  show ?thesis
  proof (cases "new = None \<and> running_batch s3 \<noteq> None")
    case False
    then have "bo = new \<and> s' = s3" using fin by (auto split: option.splits)
    then show ?thesis using l3 st3 P at3 by auto
  next
    case True
    then obtain i s4 where u: "update_running_batch ops g gr pad i s3 = Ok (bo, s4)" "s' = set_running_batch bo s4"
      "running_batch s3 = Some i" using fin by (auto elim!: rbind_OkE)
    have "store_ok s3" using P by blast
    note U = update_running_kept [OF u(1) this]
    have cur: "sh_cur s3 < length (sh_run s3)" using P len by simp
    have "loses_none s3 (held s3) (held s')" unfolding u(2) by (rule decode_kept_held [OF _ u(3) cur]) (use U in auto)
    moreover have "chunk_list s' = chunk_list s3" "sh_objs s' = sh_objs s4"
      using U by (simp_all add: u(2) set_running_batch_def chunk_list_def being_chunked_req_def decode_kept_def)
    moreover have "sh_cur s' = sh_cur s" "sh_last s' = sh_last s" "length (sh_run s') = length (sh_run s)" "store_ok s'"
      "bo = running_batch s'"
      using at3 U cur by (auto simp: u(2) set_running_batch_def decode_kept_def store_ok_def running_batch_def)
    ultimately show ?thesis using l3 True st3 U
      by (auto simp: loses_none_def slot_ids_def stable_finished decode_kept_def intro: stable_trans)
  qed
qed

end

text \<open>C1: A scheduling step loses no request.  Every unfinished request that the scheduler holds (waiting,
  in a grammar queue, in the running batch of any stage, in the pending batch, in the last batch of any
  stage, or being chunked) is held after the step or runs in the batch the step returns; and the step
  finishes no request.  The step absorbs the last batch, rebalances, and forms a prefill batch or
  decodes; requests that memory pressure or jump-forward decoding throws out go back to the queue.\<close>

theorem scheduling_step_keeps_requests:
  assumes cache: "request_cache ops"
    and run: "get_next_batch_to_run ops tree_root g gr pad mn env s = Ok (bo, s')"
    and ok: "store_ok s" "refs_ok s" "absorbable s" "chunk_ok g s" "queue_ok s" "\<And>xs. mset (en_shuffle env xs) = mset xs"
  shows "(\<forall>i \<in> held s \<union> slot_ids s (last_batch s) \<union> set (chunk_list s). \<not> finished (sh_objs s i) \<longrightarrow>
            i \<in> held s' \<union> set (chunk_list s') \<union> slot_ids s' bo)
       \<and> (\<forall>i. finished (sh_objs s' i) = finished (sh_objs s i) \<and> oid (sh_objs s' i) = i)"
proof -
  note K = request_cache.scheduling_step_kept [OF cache run ok]
  have "named (sh_objs s)" using ok(1) by (simp add: store_ok_def)
  then show ?thesis using K namedD by (auto simp: loses_none_def stable_finished dest: stable_named)
qed

text \<open>C21: First come, first served in the policy's order.  The queue, extended by the requests whose grammars are
  ready, is put into the order of the policy; a prefill batch consists of the request being chunked, if there is
  one, a prefix of that ordered queue without a gap, and the unfinished decoding requests if mixing is on;
  exactly the prefix leaves the queue and the rest keeps its order, the batch is not empty, it and the running
  batch stay within the maximum number of running requests, and what is left being chunked is in the batch.\<close>

theorem prefill_takes_queue_prefix:
  assumes cache: "request_cache ops" and run: "get_new_batch_prefill ops tree_root g env s = Ok (Some n, s')"
    and ok: "store_ok s" "\<forall>r. running_batch s = Some r \<longrightarrow> r < sh_next s" "sh_cur s < length (sh_chunk s)"
      "length (sh_chunk s) = sg_pp g" "queue_ok s" "\<And>xs. mset (en_shuffle env xs) = mset xs" "length (sh_run s) = sg_pp g"
  shows "\<exists>q chunk k dec. policy_queue ops tree_root g env s = Ok (chunk, q)
      \<and> mset q = mset (sh_wait s @ take (en_ready env) (sh_gq s ! sh_cur s)) \<and> k \<le> length q
      \<and> sh_wait s' = drop k q \<and> batch_ids s' n = chunk @ take k q @ dec \<and> chunk @ take k q \<noteq> []
      \<and> (chunk = [] \<or> (\<exists>c. chunk = [c] \<and> Some c \<in> set (sh_chunk s)))
      \<and> (k = 0 \<or> running_bs s + length chunk + k \<le> sg_max_running g)
      \<and> (\<forall>c. being_chunked_req s' = Some c \<longrightarrow> c \<in> set (chunk @ take k q))
      \<and> (dec = [] \<or> (\<exists>r. running_batch s = Some r \<and> dec = filter (\<lambda>i. \<not> finished (sh_objs s i)) (batch_ids s r)
           \<and> running_batch s' = None))"
proof -
  note Q = ok(5) [unfolded queue_ok_def]
  obtain s1 q k dec where f: "frame s s1" and w: "sh_wait s1 = sh_wait s @ take (en_ready env) (sh_gq s ! sh_cur s)"
    and c: "sh_chunk s1 = sh_chunk s
         \<or> (\<exists>i. sg_pp g \<noteq> 1 \<and> sh_chunk s ! ((sh_cur s + sg_pp g - 1) mod sg_pp g) = Some i
              \<and> sh_chunk s1 = (sh_chunk s)[sh_cur s := Some i])"
    and nb: "new_batch_of g n s1 s' q k dec" and pq: "policy_queue ops tree_root g env s = Ok (chunk_list s1, q)"
    using request_cache.prefill_outcome [OF cache run ok(1-3) _ ok(6) _ _ ok(4)] Q by blast
  note N = nb [unfolded new_batch_of_def]
  have pp: "(sh_cur s + sg_pp g - 1) mod sg_pp g < length (sh_chunk s)" using ok(3,4) by simp
  have "being_chunked_req s1 \<in> set (sh_chunk s)"
    using c
  proof (elim disjE exE conjE)
    assume "sh_chunk s1 = sh_chunk s"
    then show ?thesis using ok(3) f by (simp add: being_chunked_req_def frame_def)
  next
    fix i assume i: "sh_chunk s ! ((sh_cur s + sg_pp g - 1) mod sg_pp g) = Some i" "sh_chunk s1 = (sh_chunk s)[sh_cur s := Some i]"
    then show ?thesis using ok(3) f nth_mem [OF pp] by (simp only: i(1)) (simp add: being_chunked_req_def frame_def)
  qed
  then have chunk: "chunk_list s1 = [] \<or> (\<exists>c. chunk_list s1 = [c] \<and> Some c \<in> set (sh_chunk s))"
    by (auto simp: chunk_list_def split: option.splits)
  have cut: "\<forall>c. being_chunked_req s' = Some c \<longrightarrow> c \<in> set (chunk_list s1 @ take k q)"
    using N f c ok(3) by (auto simp: being_chunked_req_def frame_def)
  have run1: "running_bs s1 = running_bs s" "running_batch s1 = running_batch s" using frame_same [OF f] by blast+
  have dec: "dec = [] \<or> (\<exists>r. running_batch s = Some r \<and> dec = filter (\<lambda>i. \<not> finished (sh_objs s i)) (batch_ids s r)
           \<and> running_batch s' = None)"
  proof -
    have st: "stable (sh_objs s) (sh_objs s1)" and "sh_cur s < length (sh_run s)" using f ok(3,4,7) by (simp_all add: frame_def)
    then show ?thesis using N f run1 frame_ids [OF f] stable_filter [OF st]
      by (auto simp: joins_def frame_def running_batch_def)
  qed
  show ?thesis using N w chunk cut dec run1 pq by (rule_tac x = q in exI, rule_tac x = "chunk_list s1" in exI, rule_tac x = k in exI, rule_tac x = dec in exI) simp
qed

end
