(* ===== verification/Scheduler_Demo.thy ===== *)
theory Scheduler_Demo
imports Scheduler_Keeps
begin

text \<open>
  The properties of the scheduling step on a concrete scheduler: one stage, the chunk cache, and one
  request that waits.
\<close>

definition step_cfg :: sched_cfg where
  "step_cfg = \<lparr>sg_pp = 1, sg_rank0 = True, sg_max_running = 4, sg_mixed = False, sg_lora = False, sg_max_loras = 0,
     sg_overlap = False, sg_rebalance = False, sg_jump = False, sg_test_retract = False, sg_min_ratio = 0, sg_decay = 0, sg_model = demo_cfg,
     sg_rb = demo_rc\<rparr>"

definition step_env :: "unit sched_env" where
  "step_env = \<lparr>en_clock = (\<lambda>_. 0), en_shuffle = id, en_now = 0, en_ready = 0, en_grammar = (\<lambda>_. ())\<rparr>"

definition step_state :: "(unit, unit, chunk_cache) scheduler" where
  "step_state = \<lparr>sh_objs = (\<lambda>i. demo_req\<lparr>oid := i\<rparr>), sh_bats = (\<lambda>i. new_batch i []), sh_run = [None], sh_last = [None],
     sh_chunk = [None], sh_pending = None, sh_wait = [1], sh_gq = [[]], sh_full = False, sh_ratio = 0, sh_avail = 500,
     sh_world = demo_world, sh_next = 0, sh_pol = [\<lparr>sp_policy = ''fcfs'', sp_queue_tree = radix_init (\<lambda>_. 0) False\<rparr>],
     sh_cur = 0, sh_chunk_size = None, sh_max_prefill = 100\<rparr>"

lemma step_sort:
  "sort_waiting (en_clock step_env) (en_shuffle step_env) chunk_ops tr step_state = Ok (False, step_state)"
  by (simp add: sort_waiting_def calc_priority_def step_state_def step_env_def save_reqs_def Let_def fun_eq_iff)

lemmas step_defs = step_state_def step_cfg_def step_env_def demo_world_def demo_pool_def demo_cfg_def demo_defs

lemma step_admit:
  "\<exists>ad s. admit_batch chunk_ops step_cfg False step_state = Ok (ad, s) \<and> can_run_list ad = [sh_objs s 1]
     \<and> new_being_chunked_req ad = None
     \<and> s = step_state\<lparr>sh_objs := (sh_objs step_state)(1 := demo_req\<lparr>fill_ids := Some [10, 11], extend_input_len := 2\<rparr>)\<rparr>"
  by (simp add: admit_batch_def admit_chunked_def being_chunked_req_def running_batch_def running_bs_def new_adder_def
      adder_init_def Let_def init_next_round_input_def adjust_max_prefix_ids_def chunk_ops_def
      cc_match_prefix_def cc_evictable_size_def add_one_req_def req_max_new_def prefix_len_def clipped_new_def
      with_lock_delta_def cc_inc_lock_ref_def cc_dec_lock_ref_def admit_locked_def lock_and_charge_def prefill_one_req_def
      budget_state_def step_defs CLIP_MAX_NEW_TOKENS_ESTIMATION_def)

definition after_admit :: "(unit, unit, chunk_cache) scheduler" where
  "after_admit = step_state\<lparr>sh_objs := (sh_objs step_state)
     (1 := stamp_req 0 0 (demo_req\<lparr>fill_ids := Some [10, 11], extend_input_len := 2\<rparr>)), sh_wait := []\<rparr>"

lemma step_make: "\<exists>x. make_extend_batch chunk_ops step_cfg [1] after_admit = Ok x"
  by (simp add: make_extend_batch_def prepare_for_extend_def after_admit_def stamp_req_def step_defs init_new_def
      new_batch_def Let_def req_input_ids_def alloc_req_slots_def rp_alloc_def alloc_token_slots_def kv_alloc_def
      extend_req_def rp_write_def write_without_records_def bcast_def from_schedule_batch_def orchestrator_init_def
      penalizer_kinds_def prepare_if_required_def is_required_def assertR_def)

lemma after_ok: "store_ok after_admit" "running_batch after_admit = None" "being_chunked_req after_admit = None"
  by (simp_all add: store_ok_def named_def after_admit_def stamp_req_def step_defs new_batch_def running_batch_def being_chunked_req_def)

lemma step_prefill:
  "\<exists>s'. get_new_batch_prefill chunk_ops tr step_cfg step_env step_state = Ok (Some 0, s') \<and> batch_ids s' 0 = [1]
     \<and> sh_wait s' = [] \<and> running_batch s' = None"
proof -
  obtain ad s where a: "admit_batch chunk_ops step_cfg False step_state = Ok (ad, s)" "can_run_list ad = [sh_objs s 1]"
    "new_being_chunked_req ad = None"
    "s = step_state\<lparr>sh_objs := (sh_objs step_state)(1 := demo_req\<lparr>fill_ids := Some [10, 11], extend_input_len := 2\<rparr>)\<rparr>"
    using step_admit by blast
  have m: "move_ready_grammar_requests (en_ready step_env) (en_grammar step_env) step_state = step_state"
    by (simp add: move_ready_grammar_requests_def step_state_def)
  have f: "fetch_chunked_prefill chunk_ops step_cfg step_state = Ok step_state"
    by (simp add: fetch_chunked_prefill_def step_cfg_def)
  have g: "\<not> ((sh_full step_state \<or> sh_wait step_state = []) \<and> being_chunked_req step_state = None)"
    "\<not> sg_max_running step_cfg \<le> running_bs step_state"
    by (simp_all add: step_state_def step_cfg_def running_bs_def running_batch_def)
  have can: "map oid (can_run_list ad) = [1]" by (simp add: a(2,4) demo_defs)
  have after: "stamp (en_now step_env) [1] s\<lparr>sh_wait := filter (\<lambda>i. i \<noteq> 1) (sh_wait (stamp (en_now step_env) [1] s))\<rparr> = after_admit"
    by (simp add: stamp_def a(4) after_admit_def step_state_def step_env_def)
  have nt: "note_chunked None after_admit = Ok after_admit" using after_ok(3) by (simp add: note_chunked_def)
  obtain n s1 where e: "make_extend_batch chunk_ops step_cfg [1] after_admit = Ok (n, s1)" using step_make by fastforce
  note E = make_extend_batch_outcome [OF e after_ok(1)]
  have n: "n = 0" "running_batch s1 = None" "sh_wait s1 = []"
    using E after_ok(2) by (simp_all add: running_batch_def) (simp_all add: after_admit_def step_state_def)
  let ?s = "s1\<lparr>sh_bats := (sh_bats s1)(n := (sh_bats s1 n)\<lparr>decoding_reqs := None\<rparr>)\<rparr>"
  have mix: "mix_in chunk_ops step_cfg n s1 = Ok ?s" using n(2) by (simp add: mix_in_def)
  have "get_new_batch_prefill chunk_ops tr step_cfg step_env step_state = Ok (Some n, ?s)"
    unfolding get_new_batch_prefill_def m f Let_def rbind_Ok prod.case if_not_P [OF g(1)] if_not_P [OF g(2)] step_sort a(1) can a(3)
    by (simp add: after nt e mix del: One_nat_def)
  then show ?thesis using n E by (auto simp: batch_ids_def running_batch_def)
qed

lemma step_ok:
  "store_ok step_state" "refs_ok step_state" "absorbable step_state" "chunk_ok step_cfg step_state" "queue_ok step_state"
  by (simp_all add: store_ok_def named_def refs_ok_def absorbable_def chunk_ok_def queue_ok_def step_defs new_batch_def
      running_batch_def last_batch_def being_chunked_req_def)

theorem scheduling_step_keeps_requests_witness:
  "\<forall>tr gr pad mn. \<exists>s'. get_next_batch_to_run chunk_ops tr step_cfg gr pad mn step_env step_state = Ok (Some 0, s')
     \<and> 1 \<in> held step_state \<and> \<not> finished (sh_objs step_state 1) \<and> 1 \<in> held s' \<union> set (chunk_list s') \<union> slot_ids s' (Some 0)
     \<and> \<not> finished (sh_objs s' 1)"
proof (intro allI)
  fix tr gr pad mn
  obtain s' where p: "get_new_batch_prefill chunk_ops tr step_cfg step_env step_state = Ok (Some 0, s')"
    using step_prefill by blast
  have "absorb_last chunk_ops step_cfg step_state = Ok step_state"
    by (simp add: absorb_last_def last_batch_def step_state_def)
  moreover have "\<not> sg_rebalance step_cfg" by (simp add: step_cfg_def)
  ultimately have r: "get_next_batch_to_run chunk_ops tr step_cfg gr pad mn step_env step_state = Ok (Some 0, s')"
    using p by (simp add: get_next_batch_to_run_def)
  have u: "1 \<in> held step_state" "\<not> finished (sh_objs step_state 1)"
    by (simp_all add: held_def parked_def step_defs finished_def)
  have "mset (en_shuffle step_env xs) = mset xs" for xs by (simp add: step_env_def)
  note T = scheduling_step_keeps_requests [OF rq_chunk.request_cache_axioms r step_ok this]
  show "\<exists>s'. get_next_batch_to_run chunk_ops tr step_cfg gr pad mn step_env step_state = Ok (Some 0, s')
     \<and> 1 \<in> held step_state \<and> \<not> finished (sh_objs step_state 1) \<and> 1 \<in> held s' \<union> set (chunk_list s') \<union> slot_ids s' (Some 0)
     \<and> \<not> finished (sh_objs s' 1)"
    using T u r by blast
qed

theorem prefill_takes_queue_prefix_witness:
  "\<forall>tr. \<exists>s' q k. get_new_batch_prefill chunk_ops tr step_cfg step_env step_state = Ok (Some 0, s')
     \<and> policy_queue chunk_ops tr step_cfg step_env step_state = Ok ([], q) \<and> mset q = {#1#} \<and> sh_wait s' = drop k q \<and> batch_ids s' 0 = take k q \<and> k = 1"
proof
  fix tr
  obtain s' where p: "get_new_batch_prefill chunk_ops tr step_cfg step_env step_state = Ok (Some 0, s')"
    and b: "batch_ids s' 0 = [1]" "sh_wait s' = []"
    using step_prefill by blast
  have "mset (en_shuffle step_env xs) = mset xs" for xs by (simp add: step_env_def)
  note T = prefill_takes_queue_prefix [OF rq_chunk.request_cache_axioms p step_ok(1) _ _ _ step_ok(5) this]
  have "\<exists>q chunk k dec. policy_queue chunk_ops tr step_cfg step_env step_state = Ok (chunk, q) \<and> mset q = {#1#} \<and> k \<le> length q \<and> sh_wait s' = drop k q \<and> batch_ids s' 0 = chunk @ take k q @ dec
      \<and> (chunk = [] \<or> (\<exists>c. chunk = [c] \<and> Some c \<in> set (sh_chunk step_state)))
      \<and> (dec = [] \<or> (\<exists>r. running_batch step_state = Some r))"
    using T by (auto simp: step_state_def running_batch_def step_cfg_def step_env_def)
  then obtain q chunk k dec where pq: "policy_queue chunk_ops tr step_cfg step_env step_state = Ok (chunk, q)" and q: "mset q = {#1#}" "k \<le> length q" "sh_wait s' = drop k q" "batch_ids s' 0 = chunk @ take k q @ dec"
    "chunk = []" "dec = []" by (auto simp: step_state_def running_batch_def)
  have "length q = 1" using q(1) by (metis size_mset size_single)
  then have "k = 1" using q(2,3) b(2) by simp
  then show "\<exists>s' q k. get_new_batch_prefill chunk_ops tr step_cfg step_env step_state = Ok (Some 0, s')
     \<and> policy_queue chunk_ops tr step_cfg step_env step_state = Ok ([], q) \<and> mset q = {#1#}
     \<and> sh_wait s' = drop k q \<and> batch_ids s' 0 = take k q \<and> k = 1"
    using p pq q by auto
qed

end
