(* ===== verification/Batch_Results.thy ===== *)
theory Batch_Results
imports Scheduler
begin

text \<open>
  Processing the result of a forward pass (\<^verbatim>\<open>process_batch_result_prefill\<close>,
  \<^verbatim>\<open>process_batch_result_decode\<close>, \<^verbatim>\<open>add_logprob_return_values\<close> and \<^verbatim>\<open>stream_output\<close> in
  \<^verbatim>\<open>python/sglang/srt/managers/scheduler.py\<close>), for a generation model.  The result is taken after it was
  moved to the CPU: the sampled tokens and the log-probabilities, one entry per row of the batch.
\<close>

section \<open>Log-probabilities\<close>

record logits_out =
  lo_next :: "real list"
  lo_input :: "real list"
  lo_normalized :: "real list"
  lo_in_top_val :: "real list list list"
  lo_in_top_idx :: "int list list list"
  lo_out_top_val :: "real list list"
  lo_out_top_idx :: "int list list"

definition append_opt :: "'a list option \<Rightarrow> 'a list \<Rightarrow> 'a list option res" where
  "append_opt x ys = rbind (the_obj x) (\<lambda>xs. Ok (Some (xs @ ys)))"

text \<open>Row \<open>i\<close> of a result list.\<close>

definition row_at :: "'a list \<Rightarrow> nat \<Rightarrow> 'a res" where
  "row_at xs i = py_index xs (int i)"

definition attach_token :: "nat \<Rightarrow> int \<Rightarrow> logits_out \<Rightarrow> 'g req \<Rightarrow> 'g req res" where
  "attach_token i tok out r =
     rbind (row_at (lo_next out) i) (\<lambda>lp.
     rbind (append_opt (output_token_logprobs_val r) [lp]) (\<lambda>v.
     rbind (append_opt (output_token_logprobs_idx r) [tok]) (\<lambda>j.
       Ok (r\<lparr>output_token_logprobs_val := v, output_token_logprobs_idx := j\<rparr>))))"

definition attach_top :: "nat \<Rightarrow> logits_out \<Rightarrow> 'g req \<Rightarrow> 'g req res" where
  "attach_top i out r =
     rbind (row_at (lo_out_top_val out) i) (\<lambda>tv. rbind (append_opt (output_top_logprobs_val r) [tv]) (\<lambda>v.
     rbind (row_at (lo_out_top_idx out) i) (\<lambda>ti. rbind (append_opt (output_top_logprobs_idx r) [ti]) (\<lambda>j.
       Ok (r\<lparr>output_top_logprobs_val := v, output_top_logprobs_idx := j\<rparr>)))))"

definition input_logprobs :: "nat \<Rightarrow> int \<Rightarrow> int \<Rightarrow> logits_out \<Rightarrow> int list \<Rightarrow> 'g req \<Rightarrow> 'g req res" where
  "input_logprobs vocab pt num out fill r =
     (if input_token_logprobs_val r \<noteq> None then Ok r
      else let d = last_update_decode_tokens r; n = int (length fill);
               v = map Some (py_slice (lo_input out) pt (pt + num - 1 - d));
               j = map (\<lambda>x. if x < int vocab - 1 then x else 0) (py_slice fill (n - num + 1) (n - d))
           in if logprob_start_len r = 0
              then rbind (py_index fill 0) (\<lambda>x.
                     Ok (r\<lparr>input_token_logprobs_val := Some (None # v), input_token_logprobs_idx := Some (x # j)\<rparr>))
              else Ok (r\<lparr>input_token_logprobs_val := Some v, input_token_logprobs_idx := Some j\<rparr>))"

text \<open>Decode tokens that a jump-forward or a retraction made part of an extend step.\<close>

definition recomputed_logprobs :: "int \<Rightarrow> int \<Rightarrow> logits_out \<Rightarrow> int list \<Rightarrow> 'g req \<Rightarrow> 'g req res" where
  "recomputed_logprobs pt num out fill r =
     (let d = last_update_decode_tokens r; n = int (length fill)
      in if d = 0 then Ok r
         else rbind (append_opt (output_token_logprobs_val r) (py_slice (lo_input out) (pt + num - 1 - d) (pt + num - 1))) (\<lambda>v.
              rbind (append_opt (output_token_logprobs_idx r) (py_slice fill (n - d) n)) (\<lambda>j.
                Ok (r\<lparr>output_token_logprobs_val := v, output_token_logprobs_idx := j\<rparr>))))"

definition top_logprobs :: "nat \<Rightarrow> logits_out \<Rightarrow> 'g req \<Rightarrow> 'g req res" where
  "top_logprobs i out r =
     (if top_logprobs_num r = 0 then Ok r
      else rbind (if input_top_logprobs_val r \<noteq> None then Ok r
             else rbind (row_at (lo_in_top_val out) i) (\<lambda>v. rbind (row_at (lo_in_top_idx out) i) (\<lambda>j.
                  let pad = (if logprob_start_len r = 0 then [None] else [])
                  in Ok (r\<lparr>input_top_logprobs_val := Some (pad @ map Some v),
                           input_top_logprobs_idx := Some ((if logprob_start_len r = 0 then [None] else []) @ map Some j)\<rparr>)))) (\<lambda>r.
           rbind (if last_update_decode_tokens r = 0 then Ok r
             else rbind (row_at (lo_in_top_val out) i) (\<lambda>v. rbind (row_at (lo_in_top_idx out) i) (\<lambda>j.
                  rbind (append_opt (output_top_logprobs_val r) (py_drop v (- last_update_decode_tokens r))) (\<lambda>v.
                  rbind (append_opt (output_top_logprobs_idx r) (py_drop j (- last_update_decode_tokens r))) (\<lambda>j.
                    Ok (r\<lparr>output_top_logprobs_val := v, output_top_logprobs_idx := j\<rparr>)))))) (\<lambda>r.
           attach_top i out r)))"

definition add_logprob_return_values ::
  "nat \<Rightarrow> nat \<Rightarrow> int \<Rightarrow> int \<Rightarrow> logits_out \<Rightarrow> 'g req \<Rightarrow> ('g req \<times> int) res" where
  "add_logprob_return_values vocab i pt tok out r =
     rbind (attach_token i tok out r) (\<lambda>r.
     let num = extend_input_len r - extend_logprob_start_len r
     in rbind (if normalized_prompt_logprob r \<noteq> None then Ok r
               else rbind (row_at (lo_normalized out) i) (\<lambda>x. Ok (r\<lparr>normalized_prompt_logprob := Some x\<rparr>))) (\<lambda>r.
        rbind (the_tensor (fill_ids r)) (\<lambda>fill.
        rbind (input_logprobs vocab pt num out fill r) (\<lambda>r.
        rbind (recomputed_logprobs pt num out fill r) (\<lambda>r.
        rbind (top_logprobs i out r) (\<lambda>r. Ok (r, num)))))))"

section \<open>One request of a batch\<close>

text \<open>\<^verbatim>\<open>out_cache_loc[i : i + 1]\<close> is freed.\<close>

definition free_slot_at :: "nat list option \<Rightarrow> int \<Rightarrow> ('g, 'c) world \<Rightarrow> ('g, 'c) world res" where
  "free_slot_at loc i w = rbind (the_tensor loc) (\<lambda>xs. Ok (w\<lparr>w_mem := free_kv (py_slice xs i (i + 1)) (w_mem w)\<rparr>))"

definition accept_token :: "('g, 'h) grammar_ops \<Rightarrow> int \<Rightarrow> 'g req \<Rightarrow> 'g req" where
  "accept_token gr tok r =
     r\<lparr>grammar := map_option (\<lambda>g. gr_set_finished gr (gr_accept gr g tok) (finished r)) (grammar r)\<rparr>"

definition finish_into_cache :: "('g, 'c) cache_ops \<Rightarrow> 'g req \<Rightarrow> ('g, 'c) world \<Rightarrow> ('g req \<times> ('g, 'c) world) res" where
  "finish_into_cache ops r w =
     rbind (op_cache_finished ops r None (w_cache w) (w_mem w)) (\<lambda>(r, c, m). Ok (r, w\<lparr>w_cache := c, w_mem := m\<rparr>))"

text \<open>In the first stage of an overlapping pipeline the slot of the token in flight is given back at once.\<close>

definition decode_finish ::
  "('g, 'c) cache_ops \<Rightarrow> sched_cfg \<Rightarrow> nat list option \<Rightarrow> nat \<Rightarrow> 'g req \<Rightarrow> ('g, 'c) world \<Rightarrow> ('g req \<times> ('g, 'c) world) res" where
  "decode_finish ops g loc i r w =
     (if finished r
      then rbind (finish_into_cache ops r w) (\<lambda>(r, w).
           if sg_overlap g \<and> sg_pp g > 1 \<and> sg_rank0 g
           then rbind (free_slot_at loc (int i) w) (\<lambda>w. Ok (r\<lparr>is_already_freed_overlap := True\<rparr>, w))
           else Ok (r, w))
      else Ok (r, w))"

definition decode_logprobs :: "nat \<Rightarrow> int \<Rightarrow> logits_out \<Rightarrow> 'g req \<Rightarrow> 'g req res" where
  "decode_logprobs i tok out r =
     (if return_logprob r
      then rbind (attach_token i tok out r) (\<lambda>r. if top_logprobs_num r = 0 then Ok r else attach_top i out r)
      else Ok r)"

definition decode_req ::
  "('g, 'c) cache_ops \<Rightarrow> sched_cfg \<Rightarrow> ('g, 'h) grammar_ops \<Rightarrow> real option \<Rightarrow> nat list option \<Rightarrow> logits_out
     \<Rightarrow> nat \<Rightarrow> int \<Rightarrow> 'g req \<Rightarrow> ('g, 'c) world \<Rightarrow> ('g req \<times> ('g, 'c) world) res" where
  "decode_req ops g gr dt loc out i tok r w =
     (if is_retracted r \<or> is_already_freed_overlap r then Ok (r, w)
      else if sg_overlap g \<and> finished r then rbind (free_slot_at loc (int i) w) (\<lambda>w. Ok (r, w))
      else let r = (case dt of None \<Rightarrow> r | Some t \<Rightarrow> r\<lparr>tpot := tpot r @ [t]\<rparr>)
           in rbind (check_finished (r\<lparr>output_ids := output_ids r @ [tok]\<rparr>)) (\<lambda>r.
              rbind (decode_finish ops g loc i r w) (\<lambda>(r, w).
              rbind (decode_logprobs i tok out r) (\<lambda>r. Ok (accept_token gr tok r, w)))))"

text \<open>The loop over the requests and their tokens; the shorter list ends it, and the requests left
  over stay as they are.\<close>

fun each_result ::
  "(nat \<Rightarrow> int \<Rightarrow> 'g req \<Rightarrow> 's \<Rightarrow> ('g req \<times> 's) res) \<Rightarrow> nat \<Rightarrow> 'g req list \<Rightarrow> int list \<Rightarrow> 's \<Rightarrow> ('g req list \<times> 's) res" where
  "each_result f i (r # rs) (t # ts) s =
     rbind (f i t r s) (\<lambda>(r, s). rbind (each_result f (Suc i) rs ts s) (\<lambda>(rs, s). Ok (r # rs, s)))"
| "each_result f i rs ts s = Ok (rs, s)"

section \<open>The prefill result of one request\<close>

text \<open>What the loop threads: the world, the offset of the request's log-probabilities, the times to the
  first token and the request that is not streamed.\<close>

record ('g, 'c) prefill_acc =
  pa_world :: "('g, 'c) world"
  pa_pt :: int
  pa_ttft :: "real list"
  pa_skip :: "nat option"

definition note_token :: "real \<Rightarrow> real option \<Rightarrow> int \<Rightarrow> 'g req \<Rightarrow> 'g req \<times> real list" where
  "note_token now dt tok r =
     (let (r, ts) = (if output_ids r = [] then (r\<lparr>ttft := Some (now - arrival_time r)\<rparr>, [now - arrival_time r])
                     else case dt of None \<Rightarrow> (r, []) | Some t \<Rightarrow> (r\<lparr>tpot := tpot r @ [t]\<rparr>, []))
      in (r\<lparr>output_ids := output_ids r @ [tok]\<rparr>, ts))"

definition cache_after_prefill ::
  "('g, 'c) cache_ops \<Rightarrow> nat list \<Rightarrow> 'g req \<Rightarrow> ('g, 'c) world \<Rightarrow> ('g req \<times> ('g, 'c) world) res" where
  "cache_after_prefill ops dec r w =
     (if finished r then finish_into_cache ops r w
      else if oid r \<notin> set dec
      then rbind (op_cache_unfinished ops r None (w_cache w) (w_mem w)) (\<lambda>(r, c, m). Ok (r, w\<lparr>w_cache := c, w_mem := m\<rparr>))
      else Ok (r, w))"

definition prefill_req ::
  "('g, 'c) cache_ops \<Rightarrow> sched_cfg \<Rightarrow> ('g, 'h) grammar_ops \<Rightarrow> nat \<Rightarrow> real \<Rightarrow> real option \<Rightarrow> ('g, 'm) batch \<Rightarrow> logits_out
     \<Rightarrow> nat \<Rightarrow> int \<Rightarrow> 'g req \<Rightarrow> ('g, 'c) prefill_acc \<Rightarrow> ('g req \<times> ('g, 'c) prefill_acc) res" where
  "prefill_req ops g gr vocab now dt b out i tok r a =
     (if is_retracted r then Ok (r, a)
      else if sg_mixed g \<and> sg_overlap g \<and> finished r
      then rbind (the_tensor (out_cache_loc b)) (\<lambda>loc.
           rbind (free_slot_at (Some loc) (int (length loc) - int (length (b_reqs b)) + int i) (pa_world a)) (\<lambda>w.
             Ok (r, a\<lparr>pa_world := w\<rparr>)))
      else if is_being_chunked r \<le> 0
      then let (r, ts) = note_token now dt tok r
           in rbind (check_finished r) (\<lambda>r.
              rbind (cache_after_prefill ops (map oid (opt_list (decoding_reqs b))) r (pa_world a)) (\<lambda>(r, w).
              rbind (if return_logprob r then add_logprob_return_values vocab i (pa_pt a) tok out r else Ok (r, 0)) (\<lambda>(r, n).
                Ok (accept_token gr tok r, a\<lparr>pa_world := w, pa_pt := pa_pt a + n, pa_ttft := pa_ttft a @ ts\<rparr>))))
      else Ok (r\<lparr>is_being_chunked := is_being_chunked r - 1\<rparr>, a\<lparr>pa_skip := Some (oid r)\<rparr>))"

section \<open>Streaming\<close>

text \<open>One entry per streamed request; the message holds the columns of this table.  The log-probability
  columns are present when the batch returns log-probabilities, the output ids when there is no tokenizer.\<close>

record stream_logprobs =
  sl_normalized :: "real option"
  sl_in :: "real option list option \<times> int list option"
  sl_out :: "real list option \<times> int list option"
  sl_in_top :: "real list option list option \<times> int list option list option"
  sl_out_top :: "real list list option \<times> int list list option"

record stream_entry =
  se_rid :: string
  se_reason :: "finish_reason option"
  se_vid :: int
  se_text :: pystr
  se_ids :: "int list"
  se_offset :: int
  se_output :: "int list option"
  se_skip_special :: bool
  se_spaces :: bool
  se_no_trim :: bool
  se_prompt :: nat
  se_completion :: nat
  se_cached :: int
  se_logprobs :: "stream_logprobs option"

definition logprob_columns :: "'g req \<Rightarrow> stream_logprobs" where
  "logprob_columns r =
     \<lparr>sl_normalized = normalized_prompt_logprob r,
      sl_in = (input_token_logprobs_val r, input_token_logprobs_idx r),
      sl_out = (output_token_logprobs_val r, output_token_logprobs_idx r),
      sl_in_top = (input_top_logprobs_val r, input_top_logprobs_idx r),
      sl_out_top = (output_top_logprobs_val r, output_top_logprobs_idx r)\<rparr>"

definition stream_row :: "bool \<Rightarrow> bool \<Rightarrow> 'g req \<Rightarrow> stream_entry \<times> 'g req" where
  "stream_row skip_tok logprob r0 =
     (let ((ids, off), r) = init_incremental_detokenize r0
      in (\<lparr>se_rid = rid r, se_reason = finished_reason r, se_vid = vid r, se_text = decoded_text r, se_ids = ids,
           se_offset = off, se_output = (if skip_tok then Some (output_ids r) else None),
           se_skip_special = skip_special_tokens (params r), se_spaces = spaces_between_special_tokens (params r),
           se_no_trim = no_stop_trim (params r), se_prompt = length (origin_input_ids r),
           se_completion = length (output_ids r), se_cached = cached_tokens r,
           se_logprobs = (if logprob then Some (logprob_columns r) else None)\<rparr>, r))"

text \<open>A remainder by an interval of zero raises.\<close>

definition stream_due :: "nat \<Rightarrow> 'g req \<Rightarrow> bool res" where
  "stream_due interval r =
     (if finished r then Ok True
      else if stream r
      then (if interval = 0 then Err ZeroDivisionError else Ok (length (output_ids r) mod interval = 0))
      else Ok (length (output_ids r) mod 50 = 0))"

record stream_cfg =
  st_interval :: nat
  st_skip_tok :: bool

fun stream_rows ::
  "stream_cfg \<Rightarrow> bool \<Rightarrow> nat option \<Rightarrow> 'g req list \<Rightarrow> (stream_entry list \<times> 'g req list) res" where
  "stream_rows c logprob skip [] = Ok ([], [])"
| "stream_rows c logprob skip (r # rs) =
     rbind (if skip = Some (oid r) then Ok False else stream_due (st_interval c) r) (\<lambda>due.
     let (es, r) = (if due then let (e, r) = stream_row (st_skip_tok c) logprob r in ([e], r) else ([], r))
     in rbind (stream_rows c logprob skip rs) (\<lambda>(es', rs). Ok (es @ es', r # rs)))"

text \<open>Nothing is sent when no request is due.\<close>

definition stream_output ::
  "stream_cfg \<Rightarrow> bool \<Rightarrow> nat option \<Rightarrow> 'g req list \<Rightarrow> (stream_entry list option \<times> 'g req list) res" where
  "stream_output c logprob skip reqs =
     rbind (stream_rows c logprob skip reqs) (\<lambda>(es, reqs). Ok (if es = [] then None else Some es, reqs))"

section \<open>The result of a batch\<close>

text \<open>The time since the previous token of the batch.  A recorded time of zero counts as none.\<close>

definition token_time :: "real \<Rightarrow> ('g, 'm) batch \<Rightarrow> real option \<times> ('g, 'm) batch" where
  "token_time now b =
     (case b_cur_time b of
        None \<Rightarrow> (None, b\<lparr>b_cur_time := Some now\<rparr>)
      | Some t \<Rightarrow> if t = 0 then (None, b\<lparr>b_cur_time := Some now\<rparr>)
                 else (Some (now - t), b\<lparr>b_tpot := b_tpot b @ [now - t], b_cur_time := Some now\<rparr>))"

definition in_group :: "(kv_pool \<Rightarrow> kv_pool) \<Rightarrow> ('g, 'c) world \<Rightarrow> ('g, 'c) world" where
  "in_group f w = w\<lparr>w_mem := (w_mem w)\<lparr>m_kv := f (m_kv (w_mem w))\<rparr>\<rparr>"

text \<open>Without overlap the log-probabilities are read only when the batch returns some.\<close>

definition read_logprobs :: "sched_cfg \<Rightarrow> ('g, 'm) batch \<Rightarrow> logits_out \<Rightarrow> logits_out" where
  "read_logprobs g b out = (if sg_overlap g \<or> b_return_logprob b then out else out\<lparr>lo_next := []\<rparr>)"

definition process_batch_result_decode ::
  "('g, 'c) cache_ops \<Rightarrow> sched_cfg \<Rightarrow> stream_cfg \<Rightarrow> ('g, 'h) grammar_ops \<Rightarrow> real \<Rightarrow> logits_out \<Rightarrow> int list \<Rightarrow> nat
     \<Rightarrow> ('g, 'm, 'c) scheduler \<Rightarrow> (stream_entry list option \<times> ('g, 'm, 'c) scheduler) res" where
  "process_batch_result_decode ops g sc gr now out toks i s =
     (let w = in_group free_group_begin (sh_world s); (dt, b) = token_time now (the_batch s i);
          out = read_logprobs g b out
      in rbind (each_result (decode_req ops g gr dt (out_cache_loc b) out) 0 (b_reqs b) toks w) (\<lambda>(reqs, w).
         rbind (stream_output sc (b_return_logprob b) None reqs) (\<lambda>(msg, reqs).
              Ok (msg, put_batch (b\<lparr>b_reqs := reqs\<rparr>) (put_world (in_group free_group_end w) s)))))"

text \<open>The delayed requests of the running batch in the first stage of an overlapping pipeline.  The slots
  freed are read from the batch that was prefilled.\<close>

fun settle_delayed ::
  "('g, 'c) cache_ops \<Rightarrow> nat list option \<Rightarrow> nat \<Rightarrow> 'g req list \<Rightarrow> ('g, 'c) world \<Rightarrow> ('g req list \<times> ('g, 'c) world) res" where
  "settle_delayed ops loc i [] w = Ok ([], w)"
| "settle_delayed ops loc i (r # rs) w =
     rbind (if delayed r > 0
            then let r = r\<lparr>delayed := delayed r - 1\<rparr>
                 in if finished r
                    then rbind (finish_into_cache ops r w) (\<lambda>(r, w).
                         rbind (free_slot_at loc (int i) w) (\<lambda>w. Ok (r\<lparr>is_already_freed_overlap := True\<rparr>, w)))
                    else Ok (r, w)
            else Ok (r, w)) (\<lambda>(r, w).
     rbind (settle_delayed ops loc (Suc i) rs w) (\<lambda>(rs, w). Ok (r # rs, w)))"

definition settle_running ::
  "('g, 'c) cache_ops \<Rightarrow> sched_cfg \<Rightarrow> nat list option \<Rightarrow> ('g, 'm, 'c) scheduler \<Rightarrow> ('g, 'm, 'c) scheduler res" where
  "settle_running ops g loc s =
     (case (if sg_overlap g \<and> sg_pp g > 1 \<and> sg_rank0 g then running_batch s else None) of
        None \<Rightarrow> Ok s
      | Some k \<Rightarrow>
          rbind (settle_delayed ops loc 0 (b_reqs (the_batch s k)) (in_group free_group_begin (sh_world s))) (\<lambda>(rs, w).
            Ok (put_world (in_group free_group_end w) (s\<lparr>sh_objs := save_reqs rs (sh_objs s)\<rparr>))))"

definition process_batch_result_prefill ::
  "('g, 'c) cache_ops \<Rightarrow> sched_cfg \<Rightarrow> stream_cfg \<Rightarrow> ('g, 'h) grammar_ops \<Rightarrow> nat \<Rightarrow> real \<Rightarrow> logits_out \<Rightarrow> int list \<Rightarrow> nat
     \<Rightarrow> ('g, 'm, 'c) scheduler \<Rightarrow> (stream_entry list option \<times> ('g, 'm, 'c) scheduler) res" where
  "process_batch_result_prefill ops g sc gr vocab now out toks i s =
     (let (dt, b) = token_time now (the_batch s i)
      in rbind (each_result (prefill_req ops g gr vocab now dt b out) 0 (b_reqs b) toks
                  \<lparr>pa_world = sh_world s, pa_pt = 0, pa_ttft = b_ttft b, pa_skip = None\<rparr>) (\<lambda>(reqs, a).
         let b = b\<lparr>b_reqs := reqs, b_ttft := pa_ttft a\<rparr>
         in rbind (settle_running ops g (out_cache_loc b) (put_batch b (put_world (pa_world a) s))) (\<lambda>s.
            rbind (stream_output sc (b_return_logprob b) (pa_skip a) (b_reqs (the_batch s i))) (\<lambda>(msg, reqs).
              Ok (msg, put_batch ((the_batch s i)\<lparr>b_reqs := reqs\<rparr>) s)))))"

text \<open>A batch in the dummy-first mode carries no result.\<close>

definition process_batch_result ::
  "('g, 'c) cache_ops \<Rightarrow> sched_cfg \<Rightarrow> stream_cfg \<Rightarrow> ('g, 'h) grammar_ops \<Rightarrow> nat \<Rightarrow> real \<Rightarrow> logits_out \<Rightarrow> int list \<Rightarrow> nat
     \<Rightarrow> ('g, 'm, 'c) scheduler \<Rightarrow> (stream_entry list option \<times> ('g, 'm, 'c) scheduler) res" where
  "process_batch_result ops g sc gr vocab now out toks i s =
     rbind (the_obj (b_mode (sh_bats s i))) (\<lambda>mode.
     if is_decode mode
     then rbind (process_batch_result_decode ops g sc gr now out toks i s) (\<lambda>(msg, s).
            Ok (msg, if is_empty (the_batch s i) then set_running_batch None s else s))
     else if is_extend mode then process_batch_result_prefill ops g sc gr vocab now out toks i s
     else Ok (None, s))"

end
