(* ===== verification/Result_Facts.thy ===== *)
theory Result_Facts
imports Batch_Results Scheduler_Steps
begin

text \<open>
  What processing a result does, for workers without overlap: every live request gets exactly its token,
  the finished ones give back what they hold, and the message holds the requests that are due.
\<close>

section \<open>What handling a result may change in a request\<close>

text \<open>Everything but times, log-probabilities, the grammar, the detokenisation window and the place in the
  cache.\<close>

definition visible :: "'g req \<Rightarrow> nat \<times> string \<times> int list \<times> finish_reason option \<times> int list \<times> nat option \<times> bool \<times> bool \<times> int \<times> int" where
  "visible r = (oid r, rid r, output_ids r, finished_reason r, origin_input_ids r, req_pool_idx r, is_retracted r,
     stream r, is_being_chunked r, delayed r)"

lemma visible_finished: "visible r' = visible r \<Longrightarrow> finished r' = finished r"
  by (simp add: visible_def finished_def)

lemma visible_oid: "visible r' = visible r \<Longrightarrow> oid r' = oid r"
  by (simp add: visible_def)

lemma attach_token_visible: "attach_token i t out r = Ok r' \<Longrightarrow> visible r' = visible r"
  by (auto simp: attach_token_def visible_def elim!: rbind_OkE)

lemma attach_top_visible: "attach_top i out r = Ok r' \<Longrightarrow> visible r' = visible r"
  by (auto simp: attach_top_def visible_def elim!: rbind_OkE)

lemma input_logprobs_visible: "input_logprobs v pt num out fill r = Ok r' \<Longrightarrow> visible r' = visible r"
  by (auto simp: input_logprobs_def Let_def visible_def elim!: rbind_OkE split: if_splits)

lemma recomputed_logprobs_visible: "recomputed_logprobs pt num out fill r = Ok r' \<Longrightarrow> visible r' = visible r"
  by (auto simp: recomputed_logprobs_def Let_def visible_def elim!: rbind_OkE split: if_splits)

lemma top_logprobs_visible: "top_logprobs i out r = Ok r' \<Longrightarrow> visible r' = visible r"
  by (auto simp: top_logprobs_def Let_def visible_def elim!: rbind_OkE split: if_splits dest!: attach_top_visible)

lemma add_logprob_visible: "add_logprob_return_values v i pt t out r = Ok (r', n) \<Longrightarrow> visible r' = visible r"
proof -
  assume "add_logprob_return_values v i pt t out r = Ok (r', n)"
  then obtain r1 r2 fill r3 r4 num where
    "attach_token i t out r = Ok r1" "visible r2 = visible r1" "input_logprobs v pt num out fill r2 = Ok r3"
    "recomputed_logprobs pt num out fill r3 = Ok r4" "top_logprobs i out r4 = Ok r'"
    unfolding add_logprob_return_values_def Let_def
    by (fastforce elim!: rbind_OkE split: if_splits simp: visible_def)
  then show ?thesis
    by (auto dest!: attach_token_visible input_logprobs_visible recomputed_logprobs_visible top_logprobs_visible)
qed

lemma accept_token_visible [simp]: "visible (accept_token gr t r) = visible r"
  by (simp add: accept_token_def visible_def)

lemma init_incremental_visible: "visible (snd (init_incremental_detokenize r)) = visible r"
  by (simp add: init_incremental_detokenize_def Let_def visible_def)

lemma check_finished_keeps:
  "check_finished r = Ok r' \<Longrightarrow> \<exists>f d. r' = r\<lparr>finished_reason := f, delayed := d\<rparr>"
proof -
  assume "check_finished r = Ok r'"
  then have "r' = r\<lparr>finished_reason := finished_reason r', delayed := delayed r'\<rparr>"
    unfolding check_finished_def Let_def
    by (auto elim!: rbind_OkE split: if_splits option.splits)
  then show ?thesis by blast
qed

section \<open>One request\<close>

text \<open>The token was appended and the finish test ran, after the time of the token was recorded.\<close>

definition took_token :: "int \<Rightarrow> 'g req \<Rightarrow> 'g req \<Rightarrow> bool" where
  "took_token tok r r' \<longleftrightarrow>
     (\<exists>x y q. check_finished (r\<lparr>ttft := x, tpot := y, output_ids := output_ids r @ [tok]\<rparr>) = Ok q \<and> visible r' = visible q)"

lemma took_token_cong: "visible r'' = visible r' \<Longrightarrow> took_token tok r r' \<Longrightarrow> took_token tok r r''"
  unfolding took_token_def by metis

lemma took_token_visible:
  assumes "took_token tok r r'"
  shows "oid r' = oid r \<and> rid r' = rid r \<and> output_ids r' = output_ids r @ [tok] \<and> stream r' = stream r
    \<and> origin_input_ids r' = origin_input_ids r \<and> req_pool_idx r' = req_pool_idx r \<and> is_being_chunked r' = is_being_chunked r"
  using assms unfolding took_token_def visible_def by (auto dest!: check_finished_keeps)

definition idle :: "'g req \<Rightarrow> bool" where
  "idle r \<longleftrightarrow> is_retracted r \<or> is_already_freed_overlap r"

context finishing_cache
begin

lemma finish_into_cache_Ok:
  "finish_into_cache ops r w = Ok (r', w') \<Longrightarrow>
     r' = r \<and> (\<exists>c m. op_cache_finished ops r None (w_cache w) (w_mem w) = Ok (r, c, m) \<and> w' = w\<lparr>w_cache := c, w_mem := m\<rparr>)"
  by (auto simp: finish_into_cache_def elim!: rbind_OkE dest: finished_same)

lemma decode_req_outcome:
  assumes run: "decode_req ops g gr dt loc out i tok r w = Ok (r', w')" and sync: "\<not> sg_overlap g"
  shows "if idle r then r' = r \<and> w' = w
    else took_token tok r r'
       \<and> (if finished r'
          then \<exists>q c m. visible q = visible r' \<and> op_cache_finished ops q None (w_cache w) (w_mem w) = Ok (q, c, m)
                 \<and> w' = w\<lparr>w_cache := c, w_mem := m\<rparr>
          else w' = w)"
proof (cases "idle r")
  case True
  then show ?thesis using run by (auto simp: decode_req_def idle_def)
next
  case False
  define r0 where "r0 = (case dt of None \<Rightarrow> r | Some t \<Rightarrow> r\<lparr>tpot := tpot r @ [t]\<rparr>)"
  have "rbind (check_finished (r0\<lparr>output_ids := output_ids r0 @ [tok]\<rparr>)) (\<lambda>r.
      rbind (decode_finish ops g loc i r w) (\<lambda>(r, w).
      rbind (decode_logprobs i tok out r) (\<lambda>r. Ok (accept_token gr tok r, w)))) = Ok (r', w')"
    using run False sync unfolding decode_req_def idle_def r0_def [symmetric] Let_def by simp
  then obtain q r1 w1 r2 where q: "check_finished (r0\<lparr>output_ids := output_ids r0 @ [tok]\<rparr>) = Ok q"
    and fin: "decode_finish ops g loc i q w = Ok (r1, w1)"
    and lp: "decode_logprobs i tok out r1 = Ok r2"
    and r': "r' = accept_token gr tok r2" "w' = w1"
    by (fastforce elim!: rbind_OkE)
  have v: "visible r2 = visible r1" using lp unfolding decode_logprobs_def
    by (auto elim!: rbind_OkE split: if_splits dest!: attach_token_visible attach_top_visible)
  have q': "took_token tok r q"
  proof -
    have "\<exists>y. r0 = r\<lparr>ttft := ttft r, tpot := y\<rparr>" by (cases dt) (auto simp: r0_def intro: exI [of _ "tpot r"])
    then obtain y where y: "r0 = r\<lparr>ttft := ttft r, tpot := y\<rparr>" by blast
    show ?thesis unfolding took_token_def
      by (rule exI [of _ "ttft r"], rule exI [of _ y], rule exI [of _ q]) (use q in \<open>simp add: y\<close>)
  qed
  show ?thesis
  proof (cases "finished q")
    case True
    then have "finish_into_cache ops q w = Ok (r1, w1)"
      using fin sync by (auto simp: decode_finish_def elim!: rbind_OkE)
    from finish_into_cache_Ok [OF this] obtain c m where c: "r1 = q"
      "op_cache_finished ops q None (w_cache w) (w_mem w) = Ok (q, c, m)" "w1 = w\<lparr>w_cache := c, w_mem := m\<rparr>" by auto
    have vq: "visible r' = visible q" using v r' c(1) by simp
    have f: "finished r'" "took_token tok r r'"
      using visible_finished [OF vq] True took_token_cong [OF vq q'] by blast+
    show ?thesis
      unfolding if_not_P [OF False] if_P [OF f(1)] r'(2) using f(2) vq c by metis
  next
    case n: False
    then have "r1 = q" "w1 = w" using fin by (auto simp: decode_finish_def)
    then have vq: "visible r' = visible q" using v r' by simp
    have "\<not> finished r'" "took_token tok r r'"
      using visible_finished [OF vq] n took_token_cong [OF vq q'] by blast+
    then show ?thesis using r' \<open>w1 = w\<close> False by simp
  qed
qed

end

section \<open>The loop and the message\<close>

lemma each_result_nth:
  assumes "each_result f k rs ts s = Ok (rs', s')"
    and "\<And>i t r s r' s'. f i t r s = Ok (r', s') \<Longrightarrow> P t r r'"
  shows "length rs' = length rs \<and> (\<forall>j < min (length rs) (length ts). P (ts ! j) (rs ! j) (rs' ! j))"
  using assms
proof (induction f k rs ts s arbitrary: rs' s' rule: each_result.induct)
  case (1 f i r rs t ts s)
  from 1(2) obtain r1 s1 rs1 where a: "f i t r s = Ok (r1, s1)" "each_result f (Suc i) rs ts s1 = Ok (rs1, s')" "rs' = r1 # rs1"
    by (auto elim!: rbind_OkE)
  have "P t r r1" by (rule 1(3) [OF a(1)])
  then show ?case using 1(1) [OF a(2) 1(3)] by (auto simp: a(3) nth_Cons split: nat.split)
qed auto

text \<open>The requests that a message reports.\<close>

definition due_now :: "nat \<Rightarrow> 'g req \<Rightarrow> bool" where
  "due_now interval r \<longleftrightarrow> finished r \<or> (if stream r then interval else 50) dvd length (output_ids r)"

lemma stream_due_now: "stream_due interval r = Ok d \<Longrightarrow> d = due_now interval r"
  by (auto simp: stream_due_def due_now_def dvd_eq_mod_eq_0 split: if_splits)

definition reported :: "stream_cfg \<Rightarrow> nat option \<Rightarrow> 'g req \<Rightarrow> bool" where
  "reported c skip r \<longleftrightarrow> skip \<noteq> Some (oid r) \<and> due_now (st_interval c) r"

lemma stream_row_visible: "visible (snd (stream_row b lp r)) = visible r"
  using init_incremental_visible [of r] by (simp add: stream_row_def Let_def case_prod_beta)

lemma stream_rows_spec:
  "stream_rows c lp skip rs = Ok (es, rs') \<Longrightarrow>
     es = map (\<lambda>r. fst (stream_row (st_skip_tok c) lp r)) (filter (reported c skip) rs)
   \<and> list_all2 (\<lambda>r r'. visible r' = visible r) rs rs'"
proof (induction rs arbitrary: es rs')
  case (Cons r rs)
  obtain due es1 rs1 where a: "(if skip = Some (oid r) then Ok False else stream_due (st_interval c) r) = Ok due"
    "stream_rows c lp skip rs = Ok (es1, rs1)"
    "es = (if due then [fst (stream_row (st_skip_tok c) lp r)] else []) @ es1"
    "rs' = (if due then snd (stream_row (st_skip_tok c) lp r) else r) # rs1"
    using Cons.prems by (auto simp: Let_def case_prod_beta elim!: rbind_OkE split: if_splits)
  have "due = reported c skip r"
    using a(1) by (auto simp: reported_def dest: stream_due_now split: if_splits)
  then show ?case using Cons.IH [OF a(2)] stream_row_visible by (auto simp: a(3,4))
qed simp

definition sent :: "stream_entry list option \<Rightarrow> stream_entry list" where
  "sent msg = (case msg of None \<Rightarrow> [] | Some es \<Rightarrow> es)"

lemma stream_output_spec:
  assumes "stream_output c lp skip rs = Ok (msg, rs')"
  shows "sent msg = map (\<lambda>r. fst (stream_row (st_skip_tok c) lp r)) (filter (reported c skip) rs)
    \<and> list_all2 (\<lambda>r r'. visible r' = visible r) rs rs' \<and> msg \<noteq> Some []"
proof -
  obtain es where "stream_rows c lp skip rs = Ok (es, rs')" "msg = (if es = [] then None else Some es)"
    using assms by (auto simp: stream_output_def elim!: rbind_OkE)
  then show ?thesis using stream_rows_spec [of c lp skip rs es rs'] by (simp add: sent_def)
qed

lemma stream_row_shows:
  "se_rid (fst (stream_row b lp r)) = rid r \<and> se_reason (fst (stream_row b lp r)) = finished_reason r
   \<and> se_completion (fst (stream_row b lp r)) = length (output_ids r)"
  using init_incremental_visible [of r] by (simp add: stream_row_def Let_def case_prod_beta visible_def)

section \<open>Writing the requests back\<close>

lemma save_reqs_out: "i \<notin> set (map oid rs) \<Longrightarrow> save_reqs rs h i = h i"
  by (induction rs arbitrary: h) (auto simp: save_reqs_Cons save_reqs_def)

lemma save_reqs_in: "distinct (map oid rs) \<Longrightarrow> r \<in> set rs \<Longrightarrow> save_reqs rs h (oid r) = r"
proof (induction rs arbitrary: h)
  case (Cons q rs)
  then show ?case
    by (cases "r = q") (auto simp: save_reqs_Cons save_reqs_out)
qed simp

lemma save_reqs_nth:
  "distinct is \<Longrightarrow> map oid rs = is \<Longrightarrow> j < length is \<Longrightarrow> save_reqs rs h (is ! j) = rs ! j"
  using save_reqs_in [of rs "rs ! j" h] by (metis length_map nth_map nth_mem)

lemma oids_kept:
  "length rs' = length rs \<Longrightarrow> (\<forall>j < length rs. oid (rs' ! j) = oid (rs ! j)) \<Longrightarrow> map oid rs' = map oid rs"
  by (simp add: list_eq_iff_nth_eq)

lemma token_time_same [simp]:
  "b_reqs (snd (token_time now b)) = b_reqs b" "b_id (snd (token_time now b)) = b_id b"
  "out_cache_loc (snd (token_time now b)) = out_cache_loc b" "b_return_logprob (snd (token_time now b)) = b_return_logprob b"
  "decoding_reqs (snd (token_time now b)) = decoding_reqs b"
  by (simp_all add: token_time_def split: option.split)

section \<open>A decode result\<close>

text \<open>What the result loop and the message did, before the requests are looked up by identity.\<close>

lemma decode_result_rows:
  assumes run: "process_batch_result_decode ops g sc gr now out toks i s = Ok (msg, s')"
    and bid: "b_id (sh_bats s i) = i"
  obtains dt out' b mid told w where
    "each_result (decode_req ops g gr dt (out_cache_loc (the_batch s i)) out') 0 (b_reqs (the_batch s i)) toks
       (in_group free_group_begin (sh_world s)) = Ok (mid, w)"
    "stream_output sc (b_return_logprob (the_batch s i)) None mid = Ok (msg, told)"
    "s' = put_batch (b\<lparr>b_reqs := told\<rparr>) (put_world (in_group free_group_end w) s)" "b_id b = i"
proof -
  obtain dt b where t: "token_time now (the_batch s i) = (dt, b)" by fastforce
  have b: "b_reqs b = b_reqs (the_batch s i)" "b_id b = i" "out_cache_loc b = out_cache_loc (the_batch s i)"
    "b_return_logprob b = b_return_logprob (the_batch s i)"
    using token_time_same [of now "the_batch s i"] bid by (simp_all add: t the_batch_reqs)
  show thesis
    using run b unfolding process_batch_result_decode_def t Let_def prod.case
    by (elim rbind_OkE) (auto elim!: rbind_OkE intro: that)
qed

lemma visible_due: "visible r' = visible r \<Longrightarrow> due_now n r' = due_now n r"
  by (auto simp: due_now_def finished_def visible_def)

lemma message_by_id:
  assumes "stream_output c lp skip mid = Ok (msg, told)" "map oid mid = ids"
    and told: "\<And>j. j < length ids \<Longrightarrow> h (ids ! j) = told ! j"
  shows "map (\<lambda>e. (se_rid e, se_reason e, se_completion e)) (sent msg)
    = map (\<lambda>k. (rid (h k), finished_reason (h k), length (output_ids (h k))))
        (filter (\<lambda>k. skip \<noteq> Some k \<and> due_now (st_interval c) (h k)) ids)"
proof -
  note S = stream_output_spec [OF assms(1)]
  have len: "length told = length mid" "length ids = length mid" using S assms(2) by (auto dest: list_all2_lengthD)
  have vis: "visible (h (oid r)) = visible r" if r: "r \<in> set mid" for r
  proof -
    obtain j where j: "j < length mid" "r = mid ! j" using r by (auto simp: in_set_conv_nth)
    have "h (oid r) = told ! j" using told [of j] j len assms(2) by auto
    then show ?thesis using S j by (auto simp: list_all2_conv_all_nth)
  qed
  have due: "due_now n (h (oid r)) = due_now n r" if "r \<in> set mid" for r n
    by (rule visible_due [OF vis [OF that]])
  have "filter (\<lambda>k. skip \<noteq> Some k \<and> due_now (st_interval c) (h k)) (map oid mid) = map oid (filter (reported c skip) mid)"
    using due by (auto simp: filter_map o_def reported_def intro!: arg_cong [where f = "map oid"] filter_cong)
  then show ?thesis
    using vis S by (auto simp: assms(2) [symmetric] stream_row_shows visible_def)
qed

lemma decode_result_parts:
  assumes cache: "finishing_cache ops"
    and run: "process_batch_result_decode ops g sc gr now out toks i s = Ok (msg, s')"
    and sync: "\<not> sg_overlap g" and ok: "store_ok s"
    and ids: "distinct (batch_ids s i)" "length toks = length (batch_ids s i)"
  obtains dt out' mid told w where
    "each_result (decode_req ops g gr dt (out_cache_loc (the_batch s i)) out') 0 (map (sh_objs s) (batch_ids s i)) toks
       (in_group free_group_begin (sh_world s)) = Ok (mid, w)"
    "stream_output sc (b_return_logprob (the_batch s i)) None mid = Ok (msg, told)"
    "sh_world s' = in_group free_group_end w" "batch_ids s' i = batch_ids s i" "map oid mid = batch_ids s i"
    "\<And>k. k \<notin> set (batch_ids s i) \<Longrightarrow> sh_objs s' k = sh_objs s k"
    "\<And>j. j < length (batch_ids s i) \<Longrightarrow> sh_objs s' (batch_ids s i ! j) = told ! j \<and> visible (told ! j) = visible (mid ! j)
       \<and> (if idle (sh_objs s (batch_ids s i ! j)) then mid ! j = sh_objs s (batch_ids s i ! j)
          else took_token (toks ! j) (sh_objs s (batch_ids s i ! j)) (mid ! j))"
proof -
  let ?ids = "batch_ids s i" and ?rs = "b_reqs (the_batch s i)"
  have bid: "b_id (sh_bats s i) = i" and named: "named (sh_objs s)" using ok by (auto simp: store_ok_def)
  obtain dt out' b mid told w where
    loop: "each_result (decode_req ops g gr dt (out_cache_loc (the_batch s i)) out') 0 ?rs toks
       (in_group free_group_begin (sh_world s)) = Ok (mid, w)"
    and str: "stream_output sc (b_return_logprob (the_batch s i)) None mid = Ok (msg, told)"
    and s': "s' = put_batch (b\<lparr>b_reqs := told\<rparr>) (put_world (in_group free_group_end w) s)" "b_id b = i"
    by (rule decode_result_rows [OF run bid])
  have rs: "?rs = map (sh_objs s) ?ids" by (simp add: the_batch_reqs)
  have "length mid = length ?rs \<and> (\<forall>j < min (length ?rs) (length toks).
      if idle (?rs ! j) then mid ! j = ?rs ! j else took_token (toks ! j) (?rs ! j) (mid ! j))"
    by (rule each_result_nth [OF loop]) (auto dest!: finishing_cache.decode_req_outcome [OF cache _ sync] split: if_splits)
  then have mid: "length mid = length ?ids"
    "j < length ?ids \<Longrightarrow> if idle (sh_objs s (?ids ! j)) then mid ! j = sh_objs s (?ids ! j)
       else took_token (toks ! j) (sh_objs s (?ids ! j)) (mid ! j)" for j
    using ids(2) unfolding rs by (auto split: if_splits)
  have oid_mid: "oid (mid ! j) = ?ids ! j" if "j < length ?ids" for j
    using mid(2) [OF that] took_token_visible namedD [OF named] by (metis (no_types))
  have midids: "map oid mid = ?ids" using mid(1) oid_mid by (simp add: list_eq_iff_nth_eq)
  have told: "length told = length ?ids" "j < length ?ids \<Longrightarrow> visible (told ! j) = visible (mid ! j)" for j
    using stream_output_spec [OF str] mid(1) by (auto simp: list_all2_conv_all_nth)
  have rowids: "map oid told = ?ids"
    using told(1) visible_oid [OF told(2)] oid_mid by (simp add: list_eq_iff_nth_eq)
  have obj: "sh_objs s' = save_reqs told (sh_objs s)" by (simp add: s'(1) put_batch_def put_world_def)
  have "sh_objs s' (?ids ! j) = told ! j" if "j < length ?ids" for j
    unfolding obj by (rule save_reqs_nth [OF ids(1) rowids that])
  moreover have "batch_ids s' i = ?ids" "sh_world s' = in_group free_group_end w"
    using rowids s'(2) by (simp_all add: s'(1) put_batch_def put_world_def batch_ids_def)
  moreover have "sh_objs s' k = sh_objs s k" if "k \<notin> set ?ids" for k
    unfolding obj by (rule save_reqs_out) (simp add: rowids that)
  ultimately show thesis
    using that [OF loop [unfolded rs] str] midids mid(2) told(2) by blast
qed

text \<open>C18: A decode result without overlap.  Every live request of the batch receives exactly its own token
  and then runs its finish test; a request that was retracted keeps its state; no other request changes; the
  batch keeps its requests; and the message reports, in the order of the batch, exactly the requests that
  finished or whose streaming interval is reached, each with its final reason and token count.\<close>

theorem decode_result_applied:
  assumes cache: "finishing_cache ops"
    and run: "process_batch_result_decode ops g sc gr now out toks i s = Ok (msg, s')"
    and sync: "\<not> sg_overlap g" and ok: "store_ok s"
    and ids: "distinct (batch_ids s i)" "length toks = length (batch_ids s i)"
  shows "batch_ids s' i = batch_ids s i
    \<and> (\<forall>j < length toks. let r = sh_objs s (batch_ids s i ! j); r' = sh_objs s' (batch_ids s i ! j)
         in if is_retracted r \<or> is_already_freed_overlap r then visible r' = visible r else took_token (toks ! j) r r')
    \<and> (\<forall>k. k \<notin> set (batch_ids s i) \<longrightarrow> sh_objs s' k = sh_objs s k)
    \<and> map (\<lambda>e. (se_rid e, se_reason e, se_completion e)) (sent msg)
      = map (\<lambda>k. (rid (sh_objs s' k), finished_reason (sh_objs s' k), length (output_ids (sh_objs s' k))))
          (filter (\<lambda>k. due_now (st_interval sc) (sh_objs s' k)) (batch_ids s i))"
proof -
  let ?ids = "batch_ids s i"
  obtain mid told where p: "stream_output sc (b_return_logprob (the_batch s i)) None mid = Ok (msg, told)"
    "batch_ids s' i = ?ids" "map oid mid = ?ids"
    "\<And>k. k \<notin> set ?ids \<Longrightarrow> sh_objs s' k = sh_objs s k"
    "\<And>j. j < length ?ids \<Longrightarrow> sh_objs s' (?ids ! j) = told ! j \<and> visible (told ! j) = visible (mid ! j)
       \<and> (if idle (sh_objs s (?ids ! j)) then mid ! j = sh_objs s (?ids ! j) else took_token (toks ! j) (sh_objs s (?ids ! j)) (mid ! j))"
    by (rule decode_result_parts [OF assms]) blast
  have at: "sh_objs s' (?ids ! j) = told ! j" if "j < length ?ids" for j using p(5) [OF that] by blast
  have "if idle (sh_objs s (?ids ! j)) then visible (sh_objs s' (?ids ! j)) = visible (sh_objs s (?ids ! j))
      else took_token (toks ! j) (sh_objs s (?ids ! j)) (sh_objs s' (?ids ! j))" if "j < length ?ids" for j
    using p(5) [OF that] took_token_cong by (auto split: if_splits)
  then show ?thesis
    using p(2,4) message_by_id [OF p(1,3) at] ids(2) by (simp add: Let_def idle_def)
qed

section \<open>What the finished requests give back\<close>

definition slots_held :: "nat list list \<Rightarrow> 'g req \<Rightarrow> nat list" where
  "slots_held tbl r =
     py_take (tbl ! the (req_pool_idx r)) (int (length (origin_input_ids r)) + int (length (output_ids r)) - 1)"

definition closing :: "'g req \<times> 'g req \<Rightarrow> bool" where
  "closing p \<longleftrightarrow> \<not> idle (fst p) \<and> finished (snd p)"

text \<open>Inside a free group: slots are set aside, request slots are returned, the table stays.\<close>

definition gave_back :: "nat list \<Rightarrow> nat list \<Rightarrow> mem \<Rightarrow> mem \<Rightarrow> bool" where
  "gave_back slots reqs m m' \<longleftrightarrow> kv_free (m_kv m') = kv_free (m_kv m) \<and> is_not_in_free_group (m_kv m') = is_not_in_free_group (m_kv m)
     \<and> concat (free_group (m_kv m')) = concat (free_group (m_kv m)) @ slots
     \<and> rp_free (m_rpool m') = rp_free (m_rpool m) @ reqs \<and> req_to_token (m_rpool m') = req_to_token (m_rpool m)"

lemma gave_back_trans: "gave_back a b m m' \<Longrightarrow> gave_back a' b' m' m'' \<Longrightarrow> gave_back (a @ a') (b @ b') m m''"
  by (simp add: gave_back_def)

lemma cc_finished_gives_back:
  assumes "op_cache_finished chunk_ops q None c m = Ok (q', c', m')" "\<not> is_not_in_free_group (m_kv m)" "visible q = visible r"
  shows "gave_back (slots_held (req_to_token (m_rpool m)) r) [the (req_pool_idx r)] m m'"
  using assms
  by (auto simp: visible_def chunk_ops_def cc_cache_finished_req_def gave_back_def slots_held_def req_row_def free_req_slot_def
      free_kv_def kv_release_def elim!: rbind_OkE split: option.splits if_splits)

lemma slots_held_visible: "visible r' = visible r \<Longrightarrow> slots_held tbl r' = slots_held tbl r \<and> req_pool_idx r' = req_pool_idx r"
  by (simp add: slots_held_def visible_def)

lemma decode_loop_gives_back:
  assumes "each_result (decode_req chunk_ops g gr dt loc out) k rs ts w = Ok (mid, w')" "\<not> sg_overlap g"
    "length ts = length rs" "\<not> is_not_in_free_group (m_kv (w_mem w))"
  shows "gave_back (concat (map (slots_held (req_to_token (m_rpool (w_mem w))) \<circ> snd) (filter closing (zip rs mid))))
      (map (the \<circ> req_pool_idx \<circ> snd) (filter closing (zip rs mid))) (w_mem w) (w_mem w')"
  using assms(1,3,4)
proof (induction rs arbitrary: k ts w mid)
  case Nil
  then show ?case by (auto simp: gave_back_def)
next
  case (Cons r rs)
  obtain t ts1 where ts: "ts = t # ts1" using Cons.prems(2) by (cases ts) auto
  obtain r1 w1 mid1 where a: "decode_req chunk_ops g gr dt loc out k t r w = Ok (r1, w1)"
    "each_result (decode_req chunk_ops g gr dt loc out) (Suc k) rs ts1 w1 = Ok (mid1, w')" "mid = r1 # mid1"
    using Cons.prems(1) by (auto simp: ts elim!: rbind_OkE)
  have one: "if closing (r, r1)
      then gave_back (slots_held (req_to_token (m_rpool (w_mem w))) r1) [the (req_pool_idx r1)] (w_mem w) (w_mem w1)
      else w_mem w1 = w_mem w"
    using fin_chunk.decode_req_outcome [OF a(1) assms(2)] cc_finished_gives_back [OF _ Cons.prems(3)]
    by (auto simp: closing_def split: if_splits)
  then have m1: "\<not> is_not_in_free_group (m_kv (w_mem w1))" "req_to_token (m_rpool (w_mem w1)) = req_to_token (m_rpool (w_mem w))"
    using Cons.prems(3) by (auto simp: gave_back_def split: if_splits)
  have "length ts1 = length rs" using Cons.prems(2) by (simp add: ts)
  note IH = Cons.IH [OF a(2) this m1(1)]
  show ?case
  proof (cases "closing (r, r1)")
    case True
    then have "gave_back (slots_held (req_to_token (m_rpool (w_mem w))) r1) [the (req_pool_idx r1)] (w_mem w) (w_mem w1)"
      using one by simp
    from gave_back_trans [OF this IH] show ?thesis using True by (simp add: a(3) m1(2))
  next
    case False
    then show ?thesis using IH one by (simp add: a(3))
  qed
qed

lemma group_end_frees:
  assumes "gave_back slots reqs (w_mem (in_group free_group_begin w)) m"
  shows "kv_free (free_group_end (m_kv m)) = kv_free (m_kv (w_mem w)) @ slots
    \<and> is_not_in_free_group (free_group_end (m_kv m)) \<and> rp_free (m_rpool m) = rp_free (m_rpool (w_mem w)) @ reqs"
  using assms by (auto simp: gave_back_def in_group_def free_group_begin_def free_group_end_def kv_release_def Let_def)

lemma closing_by_id:
  assumes len: "length mid = length ids"
    and vis: "\<And>j. j < length ids \<Longrightarrow> visible (h' (ids ! j)) = visible (mid ! j)"
    and same: "\<And>r r'. visible r' = visible r \<Longrightarrow> f r' = f r"
  shows "map (f \<circ> snd) (filter closing (zip (map h ids) mid)) = map (\<lambda>k. f (h' k)) (filter (\<lambda>k. \<not> idle (h k) \<and> finished (h' k)) ids)"
proof -
  have z: "zip (map h ids) mid = map (\<lambda>j. (h (ids ! j), mid ! j)) [0..<length ids]"
    by (rule nth_equalityI) (simp_all add: len)
  have "filter (\<lambda>k. \<not> idle (h k) \<and> finished (h' k)) ids
      = filter (\<lambda>k. \<not> idle (h k) \<and> finished (h' k)) (map (\<lambda>j. ids ! j) [0..<length ids])"
    by (simp only: map_nth)
  also have "\<dots> = map (\<lambda>j. ids ! j) (filter (\<lambda>j. \<not> idle (h (ids ! j)) \<and> finished (h' (ids ! j))) [0..<length ids])"
    by (simp only: filter_map o_def)
  also have "filter (\<lambda>j. \<not> idle (h (ids ! j)) \<and> finished (h' (ids ! j))) [0..<length ids]
      = filter (\<lambda>j. closing (h (ids ! j), mid ! j)) [0..<length ids]"
    by (rule filter_cong) (simp_all add: closing_def visible_finished [OF vis])
  finally have g: "filter (\<lambda>k. \<not> idle (h k) \<and> finished (h' k)) ids
      = map (\<lambda>j. ids ! j) (filter (\<lambda>j. closing (h (ids ! j), mid ! j)) [0..<length ids])" .
  show ?thesis
    unfolding z g filter_map map_map o_def snd_conv by (rule map_cong [OF refl]) (simp add: same [OF vis])
qed

text \<open>C19: With the chunk cache and without overlap a decode result returns memory exactly once: the free KV
  slots grow by the slots of all computed tokens of every live request that is finished now, the free request
  slots by the slot of each of them, both in the order of the batch; nobody else's slots are freed, and the
  group of frees the loop opened is closed again.\<close>

theorem decode_result_releases:
  assumes run: "process_batch_result_decode chunk_ops g sc gr now out toks i s = Ok (msg, s')"
    and sync: "\<not> sg_overlap g" and ok: "store_ok s"
    and ids: "distinct (batch_ids s i)" "length toks = length (batch_ids s i)"
  shows "let m = w_mem (sh_world s); m' = w_mem (sh_world s');
             gone = filter (\<lambda>k. \<not> is_retracted (sh_objs s k) \<and> \<not> is_already_freed_overlap (sh_objs s k) \<and> finished (sh_objs s' k))
                      (batch_ids s i)
         in kv_free (m_kv m') = kv_free (m_kv m) @ concat (map (\<lambda>k. slots_held (req_to_token (m_rpool m)) (sh_objs s' k)) gone)
          \<and> rp_free (m_rpool m') = rp_free (m_rpool m) @ map (\<lambda>k. the (req_pool_idx (sh_objs s' k))) gone
          \<and> is_not_in_free_group (m_kv m')"
proof -
  let ?ids = "batch_ids s i"
  obtain dt out' mid told w where
    loop: "each_result (decode_req chunk_ops g gr dt (out_cache_loc (the_batch s i)) out') 0 (map (sh_objs s) ?ids) toks
       (in_group free_group_begin (sh_world s)) = Ok (mid, w)"
    and p: "sh_world s' = in_group free_group_end w" "map oid mid = ?ids"
    "\<And>j. j < length ?ids \<Longrightarrow> sh_objs s' (?ids ! j) = told ! j \<and> visible (told ! j) = visible (mid ! j)
       \<and> (if idle (sh_objs s (?ids ! j)) then mid ! j = sh_objs s (?ids ! j) else took_token (toks ! j) (sh_objs s (?ids ! j)) (mid ! j))"
    by (rule decode_result_parts [OF fin_chunk.finishing_cache_axioms assms]) blast
  define tbl where "tbl = req_to_token (m_rpool (w_mem (sh_world s)))"
  have "\<not> is_not_in_free_group (m_kv (w_mem (in_group free_group_begin (sh_world s))))"
    by (simp add: in_group_def free_group_begin_def)
  note G = group_end_frees [OF decode_loop_gives_back [OF loop sync _ this]]
  define gone where "gone = filter (\<lambda>k. \<not> idle (sh_objs s k) \<and> finished (sh_objs s' k)) ?ids"
  have len: "length mid = length ?ids" using p(2) by (metis length_map)
  have vis: "visible (sh_objs s' (?ids ! j)) = visible (mid ! j)" if "j < length ?ids" for j using p(3) [OF that] by simp
  have "map (slots_held tbl \<circ> snd) (filter closing (zip (map (sh_objs s) ?ids) mid)) = map (\<lambda>k. slots_held tbl (sh_objs s' k)) gone"
    unfolding gone_def by (rule closing_by_id [OF len vis]) (assumption, blast dest: slots_held_visible)
  moreover have "map ((the \<circ> req_pool_idx) \<circ> snd) (filter closing (zip (map (sh_objs s) ?ids) mid))
      = map (\<lambda>k. (the \<circ> req_pool_idx) (sh_objs s' k)) gone"
    unfolding gone_def by (rule closing_by_id [OF len vis]) (simp_all add: visible_def)
  ultimately show ?thesis
    using G ids(2) by (simp add: p(1) tbl_def gone_def idle_def in_group_def free_group_begin_def Let_def o_def)
qed

section \<open>A prefill result\<close>

locale result_cache = finishing_cache +
  assumes unfinished_visible: "op_cache_unfinished ops r ids c m = Ok (r', c', m') \<Longrightarrow> visible r' = visible r"
begin

lemma cache_after_prefill_visible:
  "cache_after_prefill ops dec r w = Ok (r', w') \<Longrightarrow> visible r' = visible r"
  by (auto simp: cache_after_prefill_def elim!: rbind_OkE split: if_splits dest!: finish_into_cache_Ok unfinished_visible)

lemma prefill_req_outcome:
  assumes run: "prefill_req ops g gr vocab now dt b out i tok r a = Ok (r', a')" and sync: "\<not> sg_overlap g"
  shows "if is_retracted r then r' = r \<and> pa_skip a' = pa_skip a
    else if is_being_chunked r \<le> 0 then took_token tok r r' \<and> pa_skip a' = pa_skip a
    else r' = r\<lparr>is_being_chunked := is_being_chunked r - 1\<rparr> \<and> pa_skip a' = Some (oid r)"
proof (cases "is_retracted r \<or> \<not> is_being_chunked r \<le> 0")
  case True
  then show ?thesis using run sync by (auto simp: prefill_req_def)
next
  case False
  obtain r0 ts where n: "note_token now dt tok r = (r0, ts)" by fastforce
  have "rbind (check_finished r0) (\<lambda>r.
      rbind (cache_after_prefill ops (map oid (opt_list (decoding_reqs b))) r (pa_world a)) (\<lambda>(r, w).
      rbind (if return_logprob r then add_logprob_return_values vocab i (pa_pt a) tok out r else Ok (r, 0)) (\<lambda>(r, n).
        Ok (accept_token gr tok r, a\<lparr>pa_world := w, pa_pt := pa_pt a + n, pa_ttft := pa_ttft a @ ts\<rparr>)))) = Ok (r', a')"
    using run False sync unfolding prefill_req_def n by simp
  then obtain q r1 w r2 k where q: "check_finished r0 = Ok q"
    "cache_after_prefill ops (map oid (opt_list (decoding_reqs b))) q (pa_world a) = Ok (r1, w)"
    "(if return_logprob r1 then add_logprob_return_values vocab i (pa_pt a) tok out r1 else Ok (r1, 0)) = Ok (r2, k)"
    "r' = accept_token gr tok r2" "pa_skip a' = pa_skip a"
    by (fastforce elim!: rbind_OkE)
  have "visible r2 = visible r1" using q(3) by (auto split: if_splits dest: add_logprob_visible)
  then have v: "visible r' = visible q" using cache_after_prefill_visible [OF q(2)] q(4) by simp
  have r0: "r0 = r\<lparr>ttft := ttft r0, tpot := tpot r0, output_ids := output_ids r @ [tok]\<rparr>"
    using n by (cases dt) (auto simp: note_token_def split: if_splits)
  have "took_token tok r r'" unfolding took_token_def
    by (rule exI [of _ "ttft r0"], rule exI [of _ "tpot r0"], rule exI [of _ q]) (use q(1) v r0 in simp)
  then show ?thesis using False q(5) by simp
qed

end

interpretation rs_chunk: result_cache chunk_ops
  by unfold_locales
    (auto simp: chunk_ops_def cc_cache_unfinished_req_def visible_def elim!: rbind_OkE split: option.splits)

interpretation rs_radix: result_cache "radix_ops clock" for clock
  by unfold_locales
    (auto simp: radix_ops_def radix_cache_unfinished_req_def Let_def visible_def elim!: rbind_OkE
      split: if_splits prod.splits)

definition chunking :: "'g req \<Rightarrow> bool" where
  "chunking r \<longleftrightarrow> \<not> is_retracted r \<and> is_being_chunked r > 0"

lemma prefill_loop_skip:
  assumes cache: "result_cache ops" and sync: "\<not> sg_overlap g"
  shows "each_result (prefill_req ops g gr vocab now dt b out) k rs ts a = Ok (mid, a') \<Longrightarrow> length ts = length rs \<Longrightarrow>
    pa_skip a' = fold (\<lambda>r x. if chunking r then Some (oid r) else x) rs (pa_skip a)"
proof (induction rs arbitrary: k ts a mid)
  case Nil
  then show ?case by auto
next
  case (Cons r rs)
  obtain t ts1 where ts: "ts = t # ts1" using Cons.prems(2) by (cases ts) auto
  obtain r1 a1 mid1 where l: "prefill_req ops g gr vocab now dt b out k t r a = Ok (r1, a1)"
    "each_result (prefill_req ops g gr vocab now dt b out) (Suc k) rs ts1 a1 = Ok (mid1, a')"
    using Cons.prems(1) by (auto simp: ts elim!: rbind_OkE)
  have "pa_skip a1 = (if chunking r then Some (oid r) else pa_skip a)"
    using result_cache.prefill_req_outcome [OF cache l(1) sync] by (auto simp: chunking_def split: if_splits)
  moreover have "length ts1 = length rs" using Cons.prems(2) by (simp add: ts)
  ultimately show ?case using Cons.IH [OF l(2)] by simp
qed

lemma fold_one_chunk:
  "\<forall>r \<in> set rs. chunking r \<longrightarrow> oid r = c \<Longrightarrow>
   fold (\<lambda>r x. if chunking r then Some (oid r) else x) rs x = (if \<exists>r \<in> set rs. chunking r then Some c else x)"
  by (induction rs arbitrary: x) auto

lemma prefill_result_rows:
  assumes run: "process_batch_result_prefill ops g sc gr vocab now out toks i s = Ok (msg, s')"
    and sync: "\<not> sg_overlap g" and bid: "b_id (sh_bats s i) = i"
  obtains dt b mid a q told where "b_id b = i"
    "each_result (prefill_req ops g gr vocab now dt b out) 0 (map (sh_objs s) (batch_ids s i)) toks
       \<lparr>pa_world = sh_world s, pa_pt = 0, pa_ttft = b_ttft b, pa_skip = None\<rparr> = Ok (mid, a)"
    "q = put_batch (b\<lparr>b_reqs := mid, b_ttft := pa_ttft a\<rparr>) (put_world (pa_world a) s)"
    "stream_output sc (b_return_logprob b) (pa_skip a) (b_reqs (the_batch q i)) = Ok (msg, told)"
    "s' = put_batch ((the_batch q i)\<lparr>b_reqs := told\<rparr>) q"
proof -
  obtain dt b where t: "token_time now (the_batch s i) = (dt, b)" by fastforce
  have b: "b_reqs b = map (sh_objs s) (batch_ids s i)" "b_id b = i"
    using token_time_same [of now "the_batch s i"] bid by (simp_all add: t the_batch_reqs)
  show thesis
    using run sync unfolding process_batch_result_prefill_def t Let_def prod.case settle_running_def
    by (auto simp: b intro: that [OF b(2)] elim!: rbind_OkE)
qed

text \<open>C20: A prefill result without overlap.  A request that is still being chunked gets no token, counts one
  chunk less and is not streamed; every other live request of the batch receives exactly its own token and runs
  its finish test; retracted requests and requests outside the batch do not change; and the message reports, in
  order, exactly the other requests that finished or are due.\<close>

theorem prefill_result_applied:
  assumes cache: "result_cache ops"
    and run: "process_batch_result_prefill ops g sc gr vocab now out toks i s = Ok (msg, s')"
    and sync: "\<not> sg_overlap g" and ok: "store_ok s"
    and ids: "distinct (batch_ids s i)" "length toks = length (batch_ids s i)"
    and one: "\<forall>k \<in> set (batch_ids s i). chunking (sh_objs s k) \<longrightarrow> k = c"
  shows "batch_ids s' i = batch_ids s i
    \<and> (\<forall>j < length toks. let r = sh_objs s (batch_ids s i ! j); r' = sh_objs s' (batch_ids s i ! j)
         in if is_retracted r then visible r' = visible r
            else if is_being_chunked r > 0 then visible r' = visible (r\<lparr>is_being_chunked := is_being_chunked r - 1\<rparr>)
            else took_token (toks ! j) r r')
    \<and> (\<forall>k. k \<notin> set (batch_ids s i) \<longrightarrow> sh_objs s' k = sh_objs s k)
    \<and> map (\<lambda>e. (se_rid e, se_reason e, se_completion e)) (sent msg)
      = map (\<lambda>k. (rid (sh_objs s' k), finished_reason (sh_objs s' k), length (output_ids (sh_objs s' k))))
          (filter (\<lambda>k. \<not> chunking (sh_objs s k) \<and> due_now (st_interval sc) (sh_objs s' k)) (batch_ids s i))"
proof -
  let ?ids = "batch_ids s i"
  have bid: "b_id (sh_bats s i) = i" and named: "named (sh_objs s)" using ok by (auto simp: store_ok_def)
  obtain dt b mid a q told where b: "b_id b = i"
    and loop: "each_result (prefill_req ops g gr vocab now dt b out) 0 (map (sh_objs s) ?ids) toks
       \<lparr>pa_world = sh_world s, pa_pt = 0, pa_ttft = b_ttft b, pa_skip = None\<rparr> = Ok (mid, a)"
    and q: "q = put_batch (b\<lparr>b_reqs := mid, b_ttft := pa_ttft a\<rparr>) (put_world (pa_world a) s)"
    and str: "stream_output sc (b_return_logprob b) (pa_skip a) (b_reqs (the_batch q i)) = Ok (msg, told)"
    and s': "s' = put_batch ((the_batch q i)\<lparr>b_reqs := told\<rparr>) q"
    by (rule prefill_result_rows [OF run sync bid])
  have "length mid = length (map (sh_objs s) ?ids) \<and> (\<forall>j < min (length (map (sh_objs s) ?ids)) (length toks).
      if is_retracted (map (sh_objs s) ?ids ! j) then mid ! j = map (sh_objs s) ?ids ! j
      else if is_being_chunked (map (sh_objs s) ?ids ! j) \<le> 0 then took_token (toks ! j) (map (sh_objs s) ?ids ! j) (mid ! j)
      else mid ! j = (map (sh_objs s) ?ids ! j)\<lparr>is_being_chunked := is_being_chunked (map (sh_objs s) ?ids ! j) - 1\<rparr>)"
    by (rule each_result_nth [OF loop]) (auto dest!: result_cache.prefill_req_outcome [OF cache _ sync] split: if_splits)
  then have mid: "length mid = length ?ids"
    "j < length ?ids \<Longrightarrow> if is_retracted (sh_objs s (?ids ! j)) then mid ! j = sh_objs s (?ids ! j)
       else if is_being_chunked (sh_objs s (?ids ! j)) \<le> 0 then took_token (toks ! j) (sh_objs s (?ids ! j)) (mid ! j)
       else mid ! j = (sh_objs s (?ids ! j))\<lparr>is_being_chunked := is_being_chunked (sh_objs s (?ids ! j)) - 1\<rparr>" for j
    using ids(2) by (auto split: if_splits)
  have oid_mid: "oid (mid ! j) = ?ids ! j" if "j < length ?ids" for j
    using mid(2) [OF that] took_token_visible [of "toks ! j" "sh_objs s (?ids ! j)" "mid ! j"] namedD [OF named]
    by (auto split: if_splits)
  have midids: "map oid mid = ?ids" using mid(1) oid_mid by (simp add: list_eq_iff_nth_eq)
  have qi: "b_reqs (the_batch q i) = mid" "b_id (the_batch q i) = i" "batch_ids q i = ?ids"
    "sh_objs q = save_reqs mid (sh_objs s)"
  proof -
    show o: "sh_objs q = save_reqs mid (sh_objs s)" by (simp add: q put_batch_def put_world_def)
    show i: "batch_ids q i = ?ids" by (simp add: q put_batch_ids b midids)
    show "b_id (the_batch q i) = i" by (simp add: q the_batch_def obj_batch_def put_batch_def b)
    show "b_reqs (the_batch q i) = mid"
      unfolding the_batch_reqs(1) i o
      by (rule nth_equalityI) (simp_all add: mid(1) save_reqs_nth [OF ids(1) midids])
  qed
  note S = stream_output_spec [OF str [unfolded qi(1)]]
  have told: "length told = length ?ids" "j < length ?ids \<Longrightarrow> visible (told ! j) = visible (mid ! j)" for j
    using S mid(1) by (auto simp: list_all2_conv_all_nth)
  have toldids: "map oid told = ?ids"
    using told(1) visible_oid [OF told(2)] oid_mid by (simp add: list_eq_iff_nth_eq)
  have obj: "sh_objs s' = save_reqs told (save_reqs mid (sh_objs s))" by (simp add: s' put_batch_def qi(4))
  have at: "sh_objs s' (?ids ! j) = told ! j" if "j < length ?ids" for j
    unfolding obj by (rule save_reqs_nth [OF ids(1) toldids that])
  have skip: "pa_skip a = (if \<exists>k \<in> set ?ids. chunking (sh_objs s k) then Some c else None)"
    using prefill_loop_skip [OF cache sync loop] ids(2) fold_one_chunk [of "map (sh_objs s) ?ids" c None] one namedD [OF named]
    by simp
  have "batch_ids s' i = ?ids" using toldids by (simp add: s' put_batch_ids qi(2))
  moreover have "sh_objs s' k = sh_objs s k" if "k \<notin> set ?ids" for k
    using that save_reqs_out [of k told] save_reqs_out [of k mid] by (simp add: obj toldids midids)
  moreover have "let r = sh_objs s (?ids ! j); r' = sh_objs s' (?ids ! j)
      in if is_retracted r then visible r' = visible r
         else if is_being_chunked r > 0 then visible r' = visible (r\<lparr>is_being_chunked := is_being_chunked r - 1\<rparr>)
         else took_token (toks ! j) r r'" if "j < length ?ids" for j
    using mid(2) [OF that] told(2) [OF that] at [OF that] took_token_cong by (auto simp: Let_def split: if_splits)
  moreover have "filter (\<lambda>k. pa_skip a \<noteq> Some k \<and> due_now (st_interval sc) (sh_objs s' k)) ?ids
      = filter (\<lambda>k. \<not> chunking (sh_objs s k) \<and> due_now (st_interval sc) (sh_objs s' k)) ?ids"
    using one by (auto simp: skip intro!: filter_cong)
  ultimately show ?thesis
    using message_by_id [OF str [unfolded qi(1)] midids at] ids(2) by simp
qed

end
