(* ===== verification/Result_Demo.thy ===== *)
theory Result_Demo
imports Result_Facts Scheduler_Demo
begin

text \<open>
  The properties of results on a concrete scheduler: a decode batch of two requests, of which the first is
  aborted and so finishes, and a prefill batch whose second request is still being chunked.
\<close>

definition res_req :: "nat \<Rightarrow> unit req" where
  "res_req i = demo_req\<lparr>oid := i, output_ids := [5], fill_ids := Some [10, 11], req_pool_idx := Some (i - 1), stream := True,
     to_abort := i = 1, is_being_chunked := 0\<rparr>"

definition res_state :: "forward_mode \<Rightarrow> int \<Rightarrow> (unit, unit, chunk_cache) scheduler" where
  "res_state mode n = step_state\<lparr>sh_objs := (\<lambda>i. if i = 2 then (res_req 2)\<lparr>is_being_chunked := n\<rparr> else res_req i),
     sh_bats := (\<lambda>i. if i = 0 then (new_batch 0 [res_req 1, res_req 2])\<lparr>b_mode := Some mode\<rparr> else new_batch i []),
     sh_world := \<lparr>w_mem = \<lparr>m_rpool = \<lparr>rp_size = 2, max_context_len = 6, req_to_token = [[1, 2, 3, 0], [4, 5, 6, 0]],
         rp_free = [], write_records = [], use_records = False\<rparr>,
       m_kv = \<lparr>kv_size = 8, kv_free = [7, 8], is_not_in_free_group = True, is_in_free_group = False, free_group = []\<rparr>\<rparr>,
     w_cache = Map.empty, w_pens = Map.empty\<rparr>\<rparr>"

definition no_logits :: logits_out where
  "no_logits = \<lparr>lo_next = [], lo_input = [], lo_normalized = [], lo_in_top_val = [], lo_in_top_idx = [],
     lo_out_top_val = [], lo_out_top_idx = []\<rparr>"

definition res_stream :: stream_cfg where
  "res_stream = \<lparr>st_interval = 1, st_skip_tok = False\<rparr>"

lemmas res_defs = res_state_def res_req_def step_state_def step_cfg_def no_logits_def res_stream_def demo_defs new_batch_def

lemma res_ok: "store_ok (res_state m n)" "batch_ids (res_state m n) 0 = [1, 2]" "\<not> sg_overlap step_cfg"
  by (simp_all add: store_ok_def named_def batch_ids_def res_defs)

lemma decode_runs:
  "\<exists>x. process_batch_result_decode chunk_ops step_cfg res_stream gr 0 no_logits [7, 8] 0 (res_state DECODE 0) = Ok x"
  by (simp add: process_batch_result_decode_def the_batch_def obj_batch_def token_time_def decode_req_def read_logprobs_def
      check_finished_def finished_def decode_finish_def finish_into_cache_def chunk_ops_def cc_cache_finished_req_def req_row_def
      free_req_slot_def in_group_def free_group_begin_def decode_logprobs_def stream_output_def stream_due_def stream_row_def
      accept_token_def req_max_new_def py_index_def Let_def stop_strs_def case_prod_beta res_defs)

theorem decode_result_applied_witness:
  "\<forall>gr. \<exists>msg s'. process_batch_result_decode chunk_ops step_cfg res_stream gr 0 no_logits [7, 8] 0 (res_state DECODE 0) = Ok (msg, s')
     \<and> took_token 7 (res_req 1) (sh_objs s' 1) \<and> took_token 8 (res_req 2) (sh_objs s' 2) \<and> sh_objs s' 3 = res_req 3"
proof
  fix gr
  obtain msg s' where r: "process_batch_result_decode chunk_ops step_cfg res_stream gr 0 no_logits [7, 8] 0 (res_state DECODE 0)
      = Ok (msg, s')" using decode_runs by fastforce
  have "length [7, 8 :: int] = length (batch_ids (res_state DECODE 0) 0)" "distinct (batch_ids (res_state DECODE 0) 0)"
    by (simp_all add: res_ok)
  note T = decode_result_applied [OF fin_chunk.finishing_cache_axioms r res_ok(3,1) this(2,1)]
  have "took_token 7 (res_req 1) (sh_objs s' 1)" "took_token 8 (res_req 2) (sh_objs s' 2)" "sh_objs s' 3 = res_req 3"
    using T [THEN conjunct2, THEN conjunct1, rule_format, of 0] T [THEN conjunct2, THEN conjunct1, rule_format, of 1]
      T [THEN conjunct2, THEN conjunct2, THEN conjunct1, rule_format, of 3]
    by (simp_all add: res_ok(2)) (simp_all add: res_defs)
  then show "\<exists>msg s'. process_batch_result_decode chunk_ops step_cfg res_stream gr 0 no_logits [7, 8] 0 (res_state DECODE 0) = Ok (msg, s')
     \<and> took_token 7 (res_req 1) (sh_objs s' 1) \<and> took_token 8 (res_req 2) (sh_objs s' 2) \<and> sh_objs s' 3 = res_req 3"
    using r by blast
qed

theorem decode_result_releases_witness:
  "\<forall>gr. \<exists>msg s'. process_batch_result_decode chunk_ops step_cfg res_stream gr 0 no_logits [7, 8] 0 (res_state DECODE 0) = Ok (msg, s')
     \<and> kv_free (m_kv (w_mem (sh_world s'))) = [7, 8, 1, 2, 3] \<and> rp_free (m_rpool (w_mem (sh_world s'))) = [0]"
proof
  fix gr
  obtain msg s' where r: "process_batch_result_decode chunk_ops step_cfg res_stream gr 0 no_logits [7, 8] 0 (res_state DECODE 0)
      = Ok (msg, s')" using decode_runs by fastforce
  have l: "length [7, 8 :: int] = length (batch_ids (res_state DECODE 0) 0)" "distinct (batch_ids (res_state DECODE 0) 0)"
    by (simp_all add: res_ok)
  note T = decode_result_releases [OF r res_ok(3,1) l(2,1)]
  have fin: "finished (sh_objs s' 1)" "\<not> finished (sh_objs s' 2)" "req_pool_idx (sh_objs s' 1) = Some 0"
    "output_ids (sh_objs s' 1) = [5, 7]" "origin_input_ids (sh_objs s' 1) = [10, 11]"
    using r by (auto simp: process_batch_result_decode_def the_batch_def obj_batch_def token_time_def decode_req_def read_logprobs_def
      check_finished_def finished_def decode_finish_def finish_into_cache_def chunk_ops_def cc_cache_finished_req_def req_row_def
      free_req_slot_def in_group_def free_group_begin_def decode_logprobs_def stream_output_def stream_due_def stream_row_def
      accept_token_def req_max_new_def py_index_def Let_def stop_strs_def case_prod_beta put_batch_def put_world_def save_reqs_def
      init_incremental_detokenize_def res_defs)
  have w: "m_rpool (w_mem (sh_world (res_state DECODE 0))) = \<lparr>rp_size = 2, max_context_len = 6,
      req_to_token = [[1, 2, 3, 0], [4, 5, 6, 0]], rp_free = [], write_records = [], use_records = False\<rparr>"
    "kv_free (m_kv (w_mem (sh_world (res_state DECODE 0)))) = [7, 8]"
    "\<not> is_retracted (sh_objs (res_state DECODE 0) i)" "\<not> is_already_freed_overlap (sh_objs (res_state DECODE 0) i)" for i
    by (simp_all add: res_defs)
  have "slots_held [[1, 2, 3, 0], [4, 5, 6, 0]] (sh_objs s' 1) = [1, 2, 3]"
    by (simp add: slots_held_def fin py_take_def py_bound_def del: One_nat_def)
  then show "\<exists>msg s'. process_batch_result_decode chunk_ops step_cfg res_stream gr 0 no_logits [7, 8] 0 (res_state DECODE 0) = Ok (msg, s')
     \<and> kv_free (m_kv (w_mem (sh_world s'))) = [7, 8, 1, 2, 3] \<and> rp_free (m_rpool (w_mem (sh_world s'))) = [0]"
    using T r by (auto simp: Let_def res_ok(2) w fin simp del: One_nat_def)
qed

lemma prefill_runs:
  "\<exists>x. process_batch_result_prefill chunk_ops step_cfg res_stream gr 9 0 no_logits [7, 8] 0 (res_state EXTEND 1) = Ok x"
  by (simp add: process_batch_result_prefill_def the_batch_def obj_batch_def token_time_def prefill_req_def note_token_def
      check_finished_def finished_def cache_after_prefill_def finish_into_cache_def chunk_ops_def cc_cache_finished_req_def req_row_def
      free_req_slot_def stream_output_def stream_due_def stream_row_def settle_running_def put_batch_def put_world_def save_reqs_def
      accept_token_def req_max_new_def py_index_def Let_def stop_strs_def case_prod_beta res_defs)

theorem prefill_result_applied_witness:
  "\<forall>gr. \<exists>msg s'. process_batch_result_prefill chunk_ops step_cfg res_stream gr 9 0 no_logits [7, 8] 0 (res_state EXTEND 1) = Ok (msg, s')
     \<and> took_token 7 (res_req 1) (sh_objs s' 1) \<and> output_ids (sh_objs s' 2) = [5] \<and> is_being_chunked (sh_objs s' 2) = 0"
proof
  fix gr
  obtain msg s' where r: "process_batch_result_prefill chunk_ops step_cfg res_stream gr 9 0 no_logits [7, 8] 0 (res_state EXTEND 1)
      = Ok (msg, s')" using prefill_runs by fastforce
  have l: "length [7, 8 :: int] = length (batch_ids (res_state EXTEND 1) 0)" "distinct (batch_ids (res_state EXTEND 1) 0)"
    "\<forall>k \<in> set (batch_ids (res_state EXTEND 1) 0). chunking (sh_objs (res_state EXTEND 1) k) \<longrightarrow> k = 2"
    by (simp_all add: res_ok) (simp_all add: chunking_def res_defs)
  note T = prefill_result_applied [OF rs_chunk.result_cache_axioms r res_ok(3,1) l(2,1,3)]
  have "took_token 7 (res_req 1) (sh_objs s' 1)"
    "visible (sh_objs s' 2) = visible ((res_req 2)\<lparr>is_being_chunked := 0\<rparr>)"
    using T [THEN conjunct2, THEN conjunct1, rule_format, of 0] T [THEN conjunct2, THEN conjunct1, rule_format, of 1]
    by (simp_all add: res_ok(2)) (simp_all add: res_defs Let_def)
  then show "\<exists>msg s'. process_batch_result_prefill chunk_ops step_cfg res_stream gr 9 0 no_logits [7, 8] 0 (res_state EXTEND 1) = Ok (msg, s')
     \<and> took_token 7 (res_req 1) (sh_objs s' 1) \<and> output_ids (sh_objs s' 2) = [5] \<and> is_being_chunked (sh_objs s' 2) = 0"
    using r by (auto simp: visible_def) (simp_all add: res_defs)
qed

end
