(* ===== verification/Embedding_Results.thy ===== *)
theory Embedding_Results
imports Result_Facts
begin

text \<open>
  The result of a batch of an embedding model (the branches for embedding models of
  \<^verbatim>\<open>process_batch_result_prefill\<close> and \<^verbatim>\<open>stream_output\<close> in \<^verbatim>\<open>python/sglang/srt/managers/scheduler.py\<close>).
  The embeddings stored on the requests are a map from identities.
\<close>

section \<open>Processing\<close>

definition embed_req ::
  "('g, 'c) cache_ops \<Rightarrow> 'e list \<Rightarrow> nat \<Rightarrow> 'g req \<Rightarrow> (nat \<rightharpoonup> 'e) \<times> ('g, 'c) world \<Rightarrow> ('g req \<times> (nat \<rightharpoonup> 'e) \<times> ('g, 'c) world) res" where
  "embed_req ops embs i r s = (case s of (m, w) \<Rightarrow>
     if is_retracted r then Ok (r, m, w)
     else rbind (py_index embs (int i)) (\<lambda>e.
       if is_being_chunked r \<le> 0
       then rbind (check_finished (r\<lparr>output_ids := output_ids r @ [0]\<rparr>)) (\<lambda>r.
            rbind (if finished r then finish_into_cache ops r w
                   else rbind (op_cache_unfinished ops r None (w_cache w) (w_mem w)) (\<lambda>(r, c, m). Ok (r, w\<lparr>w_cache := c, w_mem := m\<rparr>))) (\<lambda>(r, w).
              Ok (r, m(oid r \<mapsto> e), w)))
       else Ok (r\<lparr>is_being_chunked := is_being_chunked r - 1\<rparr>, m(oid r \<mapsto> e), w)))"

fun embed_reqs ::
  "('g, 'c) cache_ops \<Rightarrow> 'e list \<Rightarrow> nat \<Rightarrow> 'g req list \<Rightarrow> (nat \<rightharpoonup> 'e) \<times> ('g, 'c) world
     \<Rightarrow> ('g req list \<times> (nat \<rightharpoonup> 'e) \<times> ('g, 'c) world) res" where
  "embed_reqs ops embs i [] s = Ok ([], s)"
| "embed_reqs ops embs i (r # rs) s =
     rbind (embed_req ops embs i r s) (\<lambda>(r, s). rbind (embed_reqs ops embs (Suc i) rs s) (\<lambda>(rs, s). Ok (r # rs, s)))"

text \<open>All requests of the batch go into the message.\<close>

definition stream_embeddings ::
  "(nat \<rightharpoonup> 'e) \<Rightarrow> 'g req list \<Rightarrow> (string \<times> finish_reason option \<times> 'e option \<times> nat) list res" where
  "stream_embeddings m = mapR (\<lambda>r.
     rbind (assertR (finished r)) (\<lambda>_. Ok (rid r, finished_reason r, m (oid r), length (origin_input_ids r))))"

definition process_embedding_result ::
  "('g, 'c) cache_ops \<Rightarrow> 'e list \<Rightarrow> nat \<Rightarrow> (nat \<rightharpoonup> 'e) \<Rightarrow> ('g, 'm, 'c) scheduler
     \<Rightarrow> ((string \<times> finish_reason option \<times> 'e option \<times> nat) list \<times> (nat \<rightharpoonup> 'e) \<times> ('g, 'm, 'c) scheduler) res" where
  "process_embedding_result ops embs i m s =
     (let b = the_batch s i
      in rbind (embed_reqs ops embs 0 (b_reqs b) (m, sh_world s)) (\<lambda>(reqs, m, w).
         rbind (stream_embeddings m reqs) (\<lambda>msg. Ok (msg, m, put_batch (b\<lparr>b_reqs := reqs\<rparr>) (put_world w s)))))"

section \<open>What it does\<close>

context result_cache
begin

lemma embed_req_outcome:
  assumes "embed_req ops embs i r (m, w) = Ok (r', m', w')"
  shows "oid r' = oid r \<and> rid r' = rid r \<and> origin_input_ids r' = origin_input_ids r
    \<and> (\<forall>j. j \<noteq> oid r \<longrightarrow> m' j = m j)
    \<and> (if is_retracted r then r' = r \<and> m' = m
       else i < length embs \<and> m' (oid r) = Some (embs ! i)
         \<and> (if is_being_chunked r \<le> 0 then output_ids r' = output_ids r @ [0]
            else r' = r\<lparr>is_being_chunked := is_being_chunked r - 1\<rparr>))"
proof (cases "is_retracted r")
  case True
  then show ?thesis using assms by (simp add: embed_req_def)
next
  case False
  then obtain e where e: "py_index embs (int i) = Ok e" using assms by (auto simp: embed_req_def elim: rbind_OkE)
  then have i: "i < length embs" "e = embs ! i" by (auto simp: py_index_def Let_def split: if_splits)
  show ?thesis
  proof (cases "is_being_chunked r \<le> 0")
    case False
    then show ?thesis using assms e i \<open>\<not> is_retracted r\<close> by (auto simp: embed_req_def)
  next
    case True
    obtain q r1 w1 where q: "check_finished (r\<lparr>output_ids := output_ids r @ [0]\<rparr>) = Ok q"
      "(if finished q then finish_into_cache ops q w
                   else rbind (op_cache_unfinished ops q None (w_cache w) (w_mem w)) (\<lambda>(r, c, m). Ok (r, w\<lparr>w_cache := c, w_mem := m\<rparr>))) = Ok (r1, w1)"
      "r' = r1" "m' = m(oid r1 \<mapsto> e)"
      using assms e True \<open>\<not> is_retracted r\<close> by (fastforce simp: embed_req_def elim!: rbind_OkE)
    have "visible r1 = visible q"
      using q(2) by (auto split: if_splits elim!: rbind_OkE dest!: finish_into_cache_Ok unfinished_visible)
    moreover obtain f d where "q = r\<lparr>output_ids := output_ids r @ [0], finished_reason := f, delayed := d\<rparr>"
      using check_finished_keeps [OF q(1)] by auto
    ultimately show ?thesis using q(3,4) i True \<open>\<not> is_retracted r\<close> by (simp add: visible_def)
  qed
qed

lemma embed_reqs_outcome:
  "embed_reqs ops embs k rs (m, w) = Ok (rs', m', w') \<Longrightarrow> distinct (map oid rs) \<Longrightarrow>
     map oid rs' = map oid rs \<and> (\<forall>j. j \<notin> set (map oid rs) \<longrightarrow> m' j = m j)
     \<and> (\<forall>n < length rs. rid (rs' ! n) = rid (rs ! n) \<and> origin_input_ids (rs' ! n) = origin_input_ids (rs ! n)
         \<and> (if is_retracted (rs ! n) then rs' ! n = rs ! n
            else k + n < length embs \<and> m' (oid (rs ! n)) = Some (embs ! (k + n))
              \<and> (if is_being_chunked (rs ! n) \<le> 0 then output_ids (rs' ! n) = output_ids (rs ! n) @ [0]
                 else rs' ! n = (rs ! n)\<lparr>is_being_chunked := is_being_chunked (rs ! n) - 1\<rparr>)))"
proof (induction rs arbitrary: k m w rs')
  case (Cons r rs)
  obtain r1 m1 w1 rs1 where s: "embed_req ops embs k r (m, w) = Ok (r1, m1, w1)"
    "embed_reqs ops embs (Suc k) rs (m1, w1) = Ok (rs1, m', w')" "rs' = r1 # rs1"
    using Cons.prems(1) by (auto elim!: rbind_OkE)
  note h = embed_req_outcome [OF s(1)]
  have d: "distinct (map oid rs)" "oid r \<notin> set (map oid rs)" using Cons.prems(2) by auto
  note t = Cons.IH [OF s(2) d(1)]
  have self: "m' (oid r) = m1 (oid r)" using t d(2) by blast
  show ?case
  proof (intro conjI allI impI)
    show "map oid rs' = map oid (r # rs)" using h t s(3) by simp
    fix j assume "j \<notin> set (map oid (r # rs))"
    then show "m' j = m j" using h t by simp
  next
    fix n assume n: "n < length (r # rs)"
    show "rid (rs' ! n) = rid ((r # rs) ! n)" "origin_input_ids (rs' ! n) = origin_input_ids ((r # rs) ! n)"
      using h t n s(3) by (cases n; simp)+
    show "if is_retracted ((r # rs) ! n) then rs' ! n = (r # rs) ! n
            else k + n < length embs \<and> m' (oid ((r # rs) ! n)) = Some (embs ! (k + n))
              \<and> (if is_being_chunked ((r # rs) ! n) \<le> 0 then output_ids (rs' ! n) = output_ids ((r # rs) ! n) @ [0]
                 else rs' ! n = ((r # rs) ! n)\<lparr>is_being_chunked := is_being_chunked ((r # rs) ! n) - 1\<rparr>)"
      using h t n s(3) self by (cases n) (auto split: if_splits)
  qed
qed simp

end

lemma embedding_result:
  assumes cache: "result_cache ops" and run: "process_embedding_result ops embs i m s = Ok (msg, m', s')"
    and ok: "store_ok s" "distinct (batch_ids s i)"
    and live: "\<forall>j \<in> set (batch_ids s i). \<not> is_retracted (sh_objs s j) \<and> \<not> finished (sh_objs s j)"
  shows "length msg = length (batch_ids s i)
    \<and> (\<forall>k < length (batch_ids s i). let j = batch_ids s i ! k in
         is_being_chunked (sh_objs s j) \<le> 0 \<and> finished (sh_objs s' j) \<and> output_ids (sh_objs s' j) = output_ids (sh_objs s j) @ [0]
       \<and> k < length embs \<and> m' j = Some (embs ! k)
       \<and> msg ! k = (rid (sh_objs s j), finished_reason (sh_objs s' j), Some (embs ! k), length (origin_input_ids (sh_objs s j))))"
proof -
  let ?ids = "batch_ids s i"
  obtain reqs w where e: "embed_reqs ops embs 0 (map (sh_objs s) ?ids) (m, sh_world s) = Ok (reqs, m', w)"
    and st: "stream_embeddings m' reqs = Ok msg"
    and s': "s' = put_batch ((the_batch s i)\<lparr>b_reqs := reqs\<rparr>) (put_world w s)"
    using run by (auto simp: process_embedding_result_def the_batch_reqs Let_def elim!: rbind_OkE)
  have oids: "map oid (map (sh_objs s) ?ids) = ?ids" using ok(1) named_oids [of "sh_objs s" ?ids] unfolding store_ok_def by blast
  then have "distinct (map oid (map (sh_objs s) ?ids))" using ok(2) by (simp only:)
  note E = result_cache.embed_reqs_outcome [OF cache e this]
  have reqs: "map oid reqs = ?ids" "length reqs = length ?ids" using E oids by (metis, metis length_map)
  have rows: "list_all2 (\<lambda>r y. rbind (assertR (finished r)) (\<lambda>_.
      Ok (rid r, finished_reason r, m' (oid r), length (origin_input_ids r))) = Ok y) reqs msg"
    using st by (simp add: stream_embeddings_def mapR_Ok_iff)
  have len: "length msg = length ?ids" using rows reqs(2) by (simp add: list_all2_lengthD [symmetric])
  have each: "let j = ?ids ! k in is_being_chunked (sh_objs s j) \<le> 0 \<and> finished (sh_objs s' j)
       \<and> output_ids (sh_objs s' j) = output_ids (sh_objs s j) @ [0] \<and> k < length embs \<and> m' j = Some (embs ! k)
       \<and> msg ! k = (rid (sh_objs s j), finished_reason (sh_objs s' j), Some (embs ! k), length (origin_input_ids (sh_objs s j)))"
    if k: "k < length ?ids" for k
  proof -
    let ?j = "?ids ! k" and ?r = "sh_objs s (?ids ! k)"
    have at: "sh_objs s' ?j = reqs ! k"
      using save_reqs_nth [OF ok(2) reqs(1) k] by (simp add: s' put_batch_def put_world_def)
    have r: "\<not> is_retracted ?r" "\<not> finished ?r" using live k by simp_all
    have o: "oid ?r = ?j" using oids k by (metis length_map nth_map)
    have oj: "oid (reqs ! k) = ?j" using reqs k by (metis length_map nth_map)
    have E': "rid (reqs ! k) = rid ?r" "origin_input_ids (reqs ! k) = origin_input_ids ?r" "k < length embs" "m' ?j = Some (embs ! k)"
      "if is_being_chunked ?r \<le> 0 then output_ids (reqs ! k) = output_ids ?r @ [0]
       else reqs ! k = ?r\<lparr>is_being_chunked := is_being_chunked ?r - 1\<rparr>"
      using E k r(1) o by auto
    have row: "finished (reqs ! k)" "msg ! k = (rid (reqs ! k), finished_reason (reqs ! k), Some (embs ! k), length (origin_input_ids (reqs ! k)))"
      using list_all2_nthD [OF rows, of k] k reqs(2) oj E'(4) by (auto elim!: rbind_OkE)
    have "is_being_chunked ?r \<le> 0"
    proof (rule ccontr)
      assume "\<not> is_being_chunked ?r \<le> 0"
      then have "finished (reqs ! k) = finished ?r" using E'(5) by (simp add: finished_def)
      then show False using row(1) r(2) by simp
    qed
    then show ?thesis using E' row at by (simp add: Let_def)
  qed
  show ?thesis using len each by blast
qed

text \<open>When the result of an embedding batch is processed, every request of the batch gets its own embedding
  and its dummy token and ends, and the message has one entry for each in their order; no request of the batch
  was still being chunked.\<close>

theorem embedding_result_applied:
  assumes cache: "result_cache ops" and run: "process_embedding_result ops embs i m s = Ok (msg, m', s')"
    and ok: "store_ok s" "distinct (batch_ids s i)"
    and live: "\<forall>j \<in> set (batch_ids s i). \<not> is_retracted (sh_objs s j) \<and> \<not> finished (sh_objs s j)"
  shows "length msg = length (batch_ids s i)
    \<and> (\<forall>k < length (batch_ids s i). let j = batch_ids s i ! k in
         is_being_chunked (sh_objs s j) \<le> 0 \<and> finished (sh_objs s' j) \<and> output_ids (sh_objs s' j) = output_ids (sh_objs s j) @ [0]
       \<and> k < length embs \<and> m' j = Some (embs ! k)
       \<and> msg ! k = (rid (sh_objs s j), finished_reason (sh_objs s' j), Some (embs ! k), length (origin_input_ids (sh_objs s j))))"
  by (rule embedding_result [OF assms])

text \<open>A batch of an embedding model in which a prompt was cut into chunks makes the worker fail: the message must
  not hold a request that has not finished.\<close>

theorem chunked_embedding_fails:
  assumes cache: "result_cache ops" and ok: "store_ok s" "distinct (batch_ids s i)"
    and live: "\<forall>j \<in> set (batch_ids s i). \<not> is_retracted (sh_objs s j) \<and> \<not> finished (sh_objs s j)"
    and cut: "c \<in> set (batch_ids s i)" "is_being_chunked (sh_objs s c) > 0"
  shows "\<exists>e. process_embedding_result ops embs i m s = Err e"
proof (cases "process_embedding_result ops embs i m s")
  case (Inr x)
  obtain msg m' s' where "process_embedding_result ops embs i m s = Ok (msg, m', s')" using Inr by (cases x) auto
  from embedding_result [OF cache this ok live] have "is_being_chunked (sh_objs s c) \<le> 0"
    using cut(1) by (auto simp: in_set_conv_nth Let_def)
  then show ?thesis using cut(2) by simp
qed simp

end
