(* ===== verification/Embedding_Demo.thy ===== *)
theory Embedding_Demo
imports Embedding_Results Result_Demo
begin

text \<open>The properties of embedding results on a concrete batch of two requests, of which the second may have been cut.\<close>

definition emb_state :: "int \<Rightarrow> (unit, unit, chunk_cache) scheduler" where
  "emb_state n = (res_state EXTEND n)\<lparr>sh_objs := (\<lambda>i. if i = 2 then (res_req 2)\<lparr>to_abort := True, is_being_chunked := n\<rparr>
       else (res_req i)\<lparr>to_abort := True\<rparr>)\<rparr>"

lemma emb_ok: "store_ok (emb_state n)" "batch_ids (emb_state n) 0 = [1, 2]"
  by (simp_all add: emb_state_def store_ok_def named_def batch_ids_def res_defs)

lemma emb_live: "\<forall>j \<in> set (batch_ids (emb_state n) 0). \<not> is_retracted (sh_objs (emb_state n) j) \<and> \<not> finished (sh_objs (emb_state n) j)"
  by (simp add: emb_ok) (simp add: emb_state_def finished_def res_defs)

lemma emb_runs: "\<exists>x. process_embedding_result chunk_ops [True, False] 0 Map.empty (emb_state 0) = Ok x"
  by (simp add: process_embedding_result_def the_batch_def obj_batch_def embed_req_def check_finished_def finished_def
      finish_into_cache_def chunk_ops_def cc_cache_finished_req_def req_row_def free_req_slot_def stream_embeddings_def
      py_index_def free_kv_def kv_release_def py_take_def py_bound_def Let_def emb_state_def res_defs del: One_nat_def)

theorem embedding_result_applied_witness:
  "\<exists>msg m' s'. process_embedding_result chunk_ops [True, False] 0 Map.empty (emb_state 0) = Ok (msg, m', s')
     \<and> length msg = 2 \<and> m' 2 = Some False \<and> finished (sh_objs s' 2)"
proof -
  obtain msg m' s' where r: "process_embedding_result chunk_ops [True, False] 0 Map.empty (emb_state 0) = Ok (msg, m', s')"
    using emb_runs by (metis prod_cases3)
  have d: "distinct (batch_ids (emb_state 0) 0)" by (simp add: emb_ok)
  note T = embedding_result_applied [OF rs_chunk.result_cache_axioms r emb_ok(1) d emb_live]
  have "length msg = 2" using T by (simp add: emb_ok)
  moreover have "m' 2 = Some False \<and> finished (sh_objs s' 2)"
    using T [THEN conjunct2, rule_format, of 1] by (simp add: emb_ok Let_def)
  ultimately show ?thesis using r by blast
qed

theorem chunked_embedding_fails_witness:
  "\<exists>e. process_embedding_result chunk_ops [True, False] 0 Map.empty (emb_state 1) = Err e"
proof -
  have d: "distinct (batch_ids (emb_state 1) 0)" "2 \<in> set (batch_ids (emb_state 1) 0)" by (simp_all add: emb_ok)
  have c: "0 < is_being_chunked (sh_objs (emb_state 1) 2)" by (simp add: emb_state_def res_defs)
  show ?thesis by (rule chunked_embedding_fails [OF rs_chunk.result_cache_axioms emb_ok(1) d(1) emb_live d(2) c])
qed

end
