(* ===== verification/RW_Lock.thy ===== *)
theory RW_Lock
imports Prelude
begin

text \<open>
  The reader-writer lock \<^verbatim>\<open>RWLock\<close> of \<^verbatim>\<open>python/sglang/srt/aio_rwlock.py\<close> as a state machine.  The lock
  \<^verbatim>\<open>_lock\<close> is only ever released inside \<^verbatim>\<open>_cond.wait()\<close>, so no task is suspended while it holds it: in the
  event loop the body of a method runs as one step, from its start, or from the return of \<^verbatim>\<open>wait\<close>, to the next
  \<^verbatim>\<open>wait\<close> or to its end.  A step relation over the tasks' places gives every interleaving, including
  the cancellation of a task that waits.
\<close>

section \<open>State and methods\<close>

text \<open>A waiting task has not been notified, a woken one has and will run again.\<close>

datatype task = Idle | WaitR | WokenR | Reading | WaitW | WokenW | Writing

record rw =
  rw_readers :: int
  rw_writer :: bool
  rw_waiting :: int
  rw_tasks :: "task list"

definition rw_init :: "nat \<Rightarrow> rw" where
  "rw_init n = \<lparr>rw_readers = 0, rw_writer = False, rw_waiting = 0, rw_tasks = replicate n Idle\<rparr>"

definition place :: "nat \<Rightarrow> task \<Rightarrow> rw \<Rightarrow> rw" where
  "place t p s = s\<lparr>rw_tasks := (rw_tasks s)[t := p]\<rparr>"

fun woken :: "task \<Rightarrow> task" where
  "woken WaitR = WokenR"
| "woken WaitW = WokenW"
| "woken p = p"

definition notify_all :: "rw \<Rightarrow> rw" where
  "notify_all s = s\<lparr>rw_tasks := map woken (rw_tasks s)\<rparr>"

text \<open>The loop tests of the two acquiring methods, from the top or after \<^verbatim>\<open>wait\<close> returned.\<close>

definition try_reader :: "nat \<Rightarrow> rw \<Rightarrow> rw" where
  "try_reader t s =
     (if rw_writer s \<or> rw_waiting s > 0 then place t WaitR s
      else place t Reading (s\<lparr>rw_readers := rw_readers s + 1\<rparr>))"

definition try_writer :: "nat \<Rightarrow> rw \<Rightarrow> rw" where
  "try_writer t s =
     (if rw_writer s \<or> rw_readers s > 0 then place t WaitW s
      else place t Writing (s\<lparr>rw_writer := True, rw_waiting := rw_waiting s - 1\<rparr>))"

definition acquire_writer :: "nat \<Rightarrow> rw \<Rightarrow> rw" where
  "acquire_writer t s = try_writer t (s\<lparr>rw_waiting := rw_waiting s + 1\<rparr>)"

definition release_reader :: "nat \<Rightarrow> rw \<Rightarrow> rw" where
  "release_reader t s =
     (let s = place t Idle (s\<lparr>rw_readers := rw_readers s - 1\<rparr>) in if rw_readers s = 0 then notify_all s else s)"

definition release_writer :: "nat \<Rightarrow> rw \<Rightarrow> rw" where
  "release_writer t s = notify_all (place t Idle (s\<lparr>rw_writer := False\<rparr>))"

text \<open>An exception out of \<^verbatim>\<open>wait\<close>: the \<^verbatim>\<open>finally\<close> clause counts a writer down, nobody is notified.\<close>

definition cancel_writer :: "nat \<Rightarrow> rw \<Rightarrow> rw" where
  "cancel_writer t s = place t Idle (s\<lparr>rw_waiting := rw_waiting s - 1\<rparr>)"

section \<open>Steps\<close>

datatype rw_event = AcquireR nat | AcquireW nat | ResumeR nat | ResumeW nat | ReleaseR nat | ReleaseW nat | CancelR nat | CancelW nat

inductive rw_step :: "rw \<Rightarrow> rw_event \<Rightarrow> rw \<Rightarrow> bool" where
  acqR: "t < length (rw_tasks s) \<Longrightarrow> rw_tasks s ! t = Idle \<Longrightarrow> rw_step s (AcquireR t) (try_reader t s)"
| acqW: "t < length (rw_tasks s) \<Longrightarrow> rw_tasks s ! t = Idle \<Longrightarrow> rw_step s (AcquireW t) (acquire_writer t s)"
| resR: "t < length (rw_tasks s) \<Longrightarrow> rw_tasks s ! t = WokenR \<Longrightarrow> rw_step s (ResumeR t) (try_reader t s)"
| resW: "t < length (rw_tasks s) \<Longrightarrow> rw_tasks s ! t = WokenW \<Longrightarrow> rw_step s (ResumeW t) (try_writer t s)"
| relR: "t < length (rw_tasks s) \<Longrightarrow> rw_tasks s ! t = Reading \<Longrightarrow> rw_step s (ReleaseR t) (release_reader t s)"
| relW: "t < length (rw_tasks s) \<Longrightarrow> rw_tasks s ! t = Writing \<Longrightarrow> rw_step s (ReleaseW t) (release_writer t s)"
| canR: "t < length (rw_tasks s) \<Longrightarrow> rw_tasks s ! t \<in> {WaitR, WokenR} \<Longrightarrow> rw_step s (CancelR t) (place t Idle s)"
| canW: "t < length (rw_tasks s) \<Longrightarrow> rw_tasks s ! t \<in> {WaitW, WokenW} \<Longrightarrow> rw_step s (CancelW t) (cancel_writer t s)"

inductive_cases rw_stepE: "rw_step s e s'"

fun is_cancel :: "rw_event \<Rightarrow> bool" where
  "is_cancel (CancelR t) = True"
| "is_cancel (CancelW t) = True"
| "is_cancel e = False"

text \<open>Reachable by steps of which none is a cancellation, or by any steps.\<close>

inductive rw_reach :: "bool \<Rightarrow> nat \<Rightarrow> rw \<Rightarrow> bool" for cancels :: bool and n :: nat where
  reach_init: "rw_reach cancels n (rw_init n)"
| reach_step: "rw_reach cancels n s \<Longrightarrow> rw_step s e s' \<Longrightarrow> is_cancel e \<longrightarrow> cancels \<Longrightarrow> rw_reach cancels n s'"

section \<open>Counting tasks\<close>

definition cnt :: "task \<Rightarrow> rw \<Rightarrow> int" where
  "cnt p s = int (count_list (rw_tasks s) p)"

lemma count_update:
  "t < length xs \<Longrightarrow> int (count_list (xs[t := p]) q) = int (count_list xs q) - of_bool (xs ! t = q) + of_bool (p = q)"
proof (induction xs arbitrary: t)
  case (Cons x xs)
  then show ?case by (cases t) auto
qed simp

lemma cnt_place: "t < length (rw_tasks s) \<Longrightarrow> cnt q (place t p s) = cnt q s - of_bool (rw_tasks s ! t = q) + of_bool (p = q)"
  by (simp add: cnt_def place_def count_update)

lemma cnt_nonneg: "0 \<le> cnt p s"
  by (simp add: cnt_def)

lemma cnt_pos: "t < length (rw_tasks s) \<Longrightarrow> rw_tasks s ! t = p \<Longrightarrow> 0 < cnt p s"
  by (auto simp: cnt_def count_list_0_iff neq0_conv [symmetric] simp del: neq0_conv)

lemma cnt_fields [simp]:
  "cnt p (s\<lparr>rw_readers := i\<rparr>) = cnt p s" "cnt p (s\<lparr>rw_writer := b\<rparr>) = cnt p s" "cnt p (s\<lparr>rw_waiting := j\<rparr>) = cnt p s"
  by (simp_all add: cnt_def)

lemma cnt_notify:
  "cnt Reading (notify_all s) = cnt Reading s" "cnt Writing (notify_all s) = cnt Writing s"
  "cnt WaitR (notify_all s) = 0" "cnt WaitW (notify_all s) = 0" "cnt Idle (notify_all s) = cnt Idle s"
  "cnt WokenW (notify_all s) = cnt WokenW s + cnt WaitW s" "cnt WokenR (notify_all s) = cnt WokenR s + cnt WaitR s"
proof -
  have "count_list (map woken xs) Reading = count_list xs Reading \<and> count_list (map woken xs) Writing = count_list xs Writing
    \<and> count_list (map woken xs) WaitR = 0 \<and> count_list (map woken xs) WaitW = 0 \<and> count_list (map woken xs) Idle = count_list xs Idle
    \<and> count_list (map woken xs) WokenW = count_list xs WokenW + count_list xs WaitW
    \<and> count_list (map woken xs) WokenR = count_list xs WokenR + count_list xs WaitR" for xs
  proof (induction xs)
    case (Cons x xs)
    then show ?case by (cases x) auto
  qed simp
  then show "cnt Reading (notify_all s) = cnt Reading s" "cnt Writing (notify_all s) = cnt Writing s"
    "cnt WaitR (notify_all s) = 0" "cnt WaitW (notify_all s) = 0" "cnt Idle (notify_all s) = cnt Idle s"
    "cnt WokenW (notify_all s) = cnt WokenW s + cnt WaitW s" "cnt WokenR (notify_all s) = cnt WokenR s + cnt WaitR s"
    by (simp_all add: cnt_def notify_all_def)
qed

lemma place_fields [simp]:
  "rw_readers (place t p s) = rw_readers s" "rw_writer (place t p s) = rw_writer s" "rw_waiting (place t p s) = rw_waiting s"
  "length (rw_tasks (place t p s)) = length (rw_tasks s)"
  "rw_readers (notify_all s) = rw_readers s" "rw_writer (notify_all s) = rw_writer s" "rw_waiting (notify_all s) = rw_waiting s"
  "length (rw_tasks (notify_all s)) = length (rw_tasks s)"
  by (simp_all add: place_def notify_all_def)

section \<open>The invariant\<close>

text \<open>The counters are what the tasks' places say, and the lock excludes.\<close>

definition rw_inv :: "rw \<Rightarrow> bool" where
  "rw_inv s \<longleftrightarrow> rw_readers s = cnt Reading s \<and> rw_waiting s = cnt WaitW s + cnt WokenW s
     \<and> cnt Writing s = of_bool (rw_writer s) \<and> (rw_writer s \<longrightarrow> rw_readers s = 0)"

lemmas rw_method_defs = try_reader_def try_writer_def acquire_writer_def release_reader_def release_writer_def cancel_writer_def

lemma rw_inv_step:
  assumes "rw_step s e s'" "rw_inv s"
  shows "rw_inv s'"
  using assms
proof (induction rule: rw_step.induct)
  case (relR t s)
  have "0 < cnt Reading s" by (rule cnt_pos [OF relR(1,2)])
  then show ?case using relR by (auto simp: rw_inv_def rw_method_defs Let_def cnt_place cnt_notify)
next
  case (relW t s)
  have "0 < cnt Writing s" by (rule cnt_pos [OF relW(1,2)])
  then show ?case using relW by (auto simp: rw_inv_def rw_method_defs cnt_place cnt_notify)
next
  case (acqW t s)
  then show ?case using cnt_nonneg [of Reading s] by (auto simp: rw_inv_def rw_method_defs cnt_place)
next
  case (resW t s)
  have "0 < cnt WokenW s" by (rule cnt_pos [OF resW(1,2)])
  then show ?case using resW cnt_nonneg [of Reading s]
    by (auto simp: rw_inv_def rw_method_defs cnt_place)
qed (auto simp: rw_inv_def rw_method_defs cnt_place)

lemma rw_inv_reach: "rw_reach cancels n s \<Longrightarrow> rw_inv s \<and> length (rw_tasks s) = n"
proof (induction rule: rw_reach.induct)
  case reach_init
  show ?case by (simp add: rw_inv_def rw_init_def cnt_def)
next
  case (reach_step s e s')
  then show ?case using rw_inv_step
    by (auto elim!: rw_stepE simp: rw_method_defs Let_def)
qed

text \<open>Whoever waits un-notified is waiting for a holder or for a writer that was woken.\<close>

definition rw_awake :: "rw \<Rightarrow> bool" where
  "rw_awake s \<longleftrightarrow> (cnt WaitR s + cnt WaitW s > 0 \<longrightarrow> rw_writer s \<or> rw_readers s > 0 \<or> cnt WokenW s > 0)"

lemma rw_awake_step:
  assumes "rw_step s e s'" "rw_inv s" "rw_awake s" "\<not> is_cancel e"
  shows "rw_awake s'"
  using assms
proof (induction rule: rw_step.induct)
  case (acqR t s)
  then show ?case using cnt_nonneg [of WaitW s] cnt_nonneg [of WaitR s] cnt_nonneg [of Reading s]
    by (auto simp: rw_awake_def rw_inv_def rw_method_defs cnt_place)
next
  case (resR t s)
  then show ?case using cnt_nonneg [of WaitW s] cnt_nonneg [of WaitR s] cnt_nonneg [of Reading s]
    by (auto simp: rw_awake_def rw_inv_def rw_method_defs cnt_place)
next
  case (relR t s)
  have "0 < cnt Reading s" by (rule cnt_pos [OF relR(1,2)])
  then show ?case using relR by (auto simp: rw_awake_def rw_inv_def rw_method_defs Let_def cnt_place cnt_notify)
qed (auto simp: rw_awake_def rw_inv_def rw_method_defs cnt_place cnt_notify)

lemma rw_awake_reach: "rw_reach cancels n s \<Longrightarrow> \<not> cancels \<Longrightarrow> rw_awake s"
proof (induction rule: rw_reach.induct)
  case reach_init
  show ?case by (simp add: rw_awake_def rw_init_def cnt_def)
next
  case (reach_step s e s')
  then show ?case using rw_awake_step [OF reach_step(2)] rw_inv_reach [OF reach_step(1)] by simp
qed

text \<open>The lock excludes: in every reachable state, whatever was cancelled, at most one task writes, no task
  reads while one writes, and the counters are the numbers of reading tasks and of writers that wait.\<close>

theorem rw_lock_excludes:
  assumes "rw_reach cancels n s"
  shows "count_list (rw_tasks s) Writing \<le> 1
    \<and> (count_list (rw_tasks s) Writing = 1 \<longrightarrow> count_list (rw_tasks s) Reading = 0)
    \<and> rw_readers s = int (count_list (rw_tasks s) Reading)
    \<and> rw_waiting s = int (count_list (rw_tasks s) WaitW + count_list (rw_tasks s) WokenW)"
proof -
  have "rw_inv s" using rw_inv_reach [OF assms] by blast
  then show ?thesis by (cases "rw_writer s") (auto simp: rw_inv_def cnt_def)
qed

section \<open>Everyone is served\<close>

text \<open>Without new acquisitions and cancellations a task resumes or releases.\<close>

fun is_drain :: "rw_event \<Rightarrow> bool" where
  "is_drain (ResumeR t) = True"
| "is_drain (ResumeW t) = True"
| "is_drain (ReleaseR t) = True"
| "is_drain (ReleaseW t) = True"
| "is_drain e = False"

definition drains :: "rw \<Rightarrow> rw \<Rightarrow> bool" where
  "drains s s' \<longleftrightarrow> (\<exists>e. is_drain e \<and> rw_step s e s')"

definition busy :: "rw \<Rightarrow> nat" where
  "busy s = nat (int (length (rw_tasks s)) - cnt Idle s)"

definition to_run :: "rw \<Rightarrow> nat" where
  "to_run s = nat (cnt WokenR s + cnt WokenW s)"

lemma cnt_le: "cnt p s \<le> int (length (rw_tasks s))"
  by (simp add: cnt_def count_le_length)

lemma busy_place_idle:
  assumes "t < length (rw_tasks s)" "rw_tasks s ! t \<noteq> Idle"
  shows "busy (place t Idle s) < busy s"
proof -
  have "cnt Idle (place t Idle s) = cnt Idle s + 1" using assms by (simp add: cnt_place)
  moreover have "cnt Idle (place t Idle s) \<le> int (length (rw_tasks s))" using cnt_le [of Idle "place t Idle s"] by simp
  ultimately show ?thesis by (simp add: busy_def)
qed

lemma busy_same: "t < length (rw_tasks s) \<Longrightarrow> rw_tasks s ! t \<noteq> Idle \<Longrightarrow> p \<noteq> Idle \<Longrightarrow> busy (place t p s) = busy s"
  by (simp add: busy_def cnt_place)

lemma busy_fields [simp]:
  "busy (s\<lparr>rw_readers := i\<rparr>) = busy s" "busy (s\<lparr>rw_writer := b\<rparr>) = busy s" "busy (s\<lparr>rw_waiting := j\<rparr>) = busy s"
  "busy (notify_all s) = busy s"
  by (simp_all add: busy_def cnt_notify)

lemma to_run_less:
  assumes "t < length (rw_tasks s)" "rw_tasks s ! t = WokenR \<or> rw_tasks s ! t = WokenW" "p \<noteq> WokenR" "p \<noteq> WokenW"
  shows "to_run (place t p s) < to_run s"
proof -
  have "0 < cnt WokenR s + cnt WokenW s"
    using cnt_pos [OF assms(1)] assms(2) cnt_nonneg [of WokenR s] cnt_nonneg [of WokenW s] by fastforce
  then show ?thesis using assms by (auto simp: to_run_def cnt_place)
qed

lemma to_run_fields [simp]:
  "to_run (s\<lparr>rw_readers := i\<rparr>) = to_run s" "to_run (s\<lparr>rw_writer := b\<rparr>) = to_run s" "to_run (s\<lparr>rw_waiting := j\<rparr>) = to_run s"
  by (simp_all add: to_run_def)

lemma drains_measure:
  assumes "drains s s'"
  shows "busy s' < busy s \<or> (busy s' = busy s \<and> to_run s' < to_run s)"
proof -
  obtain e where e: "is_drain e" "rw_step s e s'" using assms by (auto simp: drains_def)
  from e(2,1) show ?thesis
  proof cases
    case (resR t)
    then show ?thesis using to_run_less [of t s WaitR] busy_same [of t s WaitR]
        to_run_less [of t "s\<lparr>rw_readers := rw_readers s + 1\<rparr>" Reading] busy_same [of t "s\<lparr>rw_readers := rw_readers s + 1\<rparr>" Reading]
      by (simp add: try_reader_def)
  next
    case (resW t)
    then show ?thesis using to_run_less [of t s WaitW] busy_same [of t s WaitW]
        to_run_less [of t "s\<lparr>rw_writer := True, rw_waiting := rw_waiting s - 1\<rparr>" Writing]
        busy_same [of t "s\<lparr>rw_writer := True, rw_waiting := rw_waiting s - 1\<rparr>" Writing]
      by (simp add: try_writer_def)
  next
    case (relR t)
    then show ?thesis using busy_place_idle [of t "s\<lparr>rw_readers := rw_readers s - 1\<rparr>"]
      by (cases "rw_readers s = 1") (simp_all add: release_reader_def Let_def)
  next
    case (relW t)
    then show ?thesis using busy_place_idle [of t "s\<lparr>rw_writer := False\<rparr>"] by (simp add: release_writer_def)
  qed simp_all
qed

lemma drains_wf: "wf {(s', s). drains s s'}"
  by (rule wf_subset [OF wf_inv_image [of "less_than <*lex*> less_than" "\<lambda>s. (busy s, to_run s)"]])
    (auto simp: inv_image_def dest: drains_measure)

lemma cnt_zero: "cnt p s \<le> 0 \<Longrightarrow> p \<notin> set (rw_tasks s)"
  by (simp add: cnt_def count_list_0_iff)

lemma drained_idle:
  assumes r: "rw_reach False n s" and stuck: "\<forall>s'. \<not> drains s s'"
  shows "rw_tasks s = replicate n Idle"
proof -
  have no: "rw_tasks s ! t \<notin> {WokenR, WokenW, Reading, Writing}" if "t < length (rw_tasks s)" for t
    using stuck that rw_step.intros(3-6) [of t s] unfolding drains_def
    by (metis insertE is_drain.simps(1-4) singletonD)
  have z: "p \<in> {WokenR, WokenW, Reading, Writing} \<Longrightarrow> cnt p s = 0" for p
    using no by (auto simp: cnt_def count_list_0_iff in_set_conv_nth)
  have i: "rw_inv s" "length (rw_tasks s) = n" "rw_awake s" using rw_inv_reach [OF r] rw_awake_reach [OF r] by auto
  have "\<not> 0 < cnt WaitR s + cnt WaitW s" using i(1,3) z by (auto simp: rw_awake_def rw_inv_def split: if_splits)
  then have w: "cnt WaitR s \<le> 0" "cnt WaitW s \<le> 0" using cnt_nonneg [of WaitR s] cnt_nonneg [of WaitW s] by linarith+
  have "p \<notin> set (rw_tasks s)" if "p \<noteq> Idle" for p
    using that w z [of p] by (intro cnt_zero) (cases p; simp)
  then have "x = Idle" if "x \<in> set (rw_tasks s)" for x using that by blast
  then show ?thesis using i(2) by (metis replicate_length_same)
qed

text \<open>C33: Every task is served.  From a state reached without cancellations, if only waiting tasks that were
  notified resume and holders release, the system cannot run forever, and when it cannot go on every task
  has been served and left: no reader or writer is left waiting.\<close>

theorem rw_lock_drains:
  assumes "rw_reach False n s"
  shows "wf {(s', s). drains s s'} \<and> (\<forall>s'. drains\<^sup>*\<^sup>* s s' \<and> (\<forall>s''. \<not> drains s' s'') \<longrightarrow> rw_tasks s' = replicate n Idle)"
proof (intro conjI allI impI)
  show "wf {(s', s). drains s s'}" by (rule drains_wf)
  fix s' assume a: "drains\<^sup>*\<^sup>* s s' \<and> (\<forall>s''. \<not> drains s' s'')"
  have cancel: "\<not> is_cancel e" if "is_drain e" for e using that by (cases e) auto
  from a have "drains\<^sup>*\<^sup>* s s'" by blast
  then have "rw_reach False n s'"
    using assms by (induction rule: rtranclp_induct) (auto simp: drains_def intro: rw_reach.reach_step dest: cancel)
  then show "rw_tasks s' = replicate n Idle" using a drained_idle by blast
qed

definition lost_state :: rw where
  "lost_state = \<lparr>rw_readers = 0, rw_writer = False, rw_waiting = 0, rw_tasks = [Idle, WaitR, Idle]\<rparr>"

lemma lost_reach: "rw_reach True 3 lost_state"
proof -
  let ?m = "\<lambda>ts w k. \<lparr>rw_readers = 0, rw_writer = w, rw_waiting = k, rw_tasks = ts\<rparr>"
  note defs = rw_method_defs place_def notify_all_def rw_init_def numeral_3_eq_3
  have "rw_step (rw_init 3) (AcquireW 0) (?m [Writing, Idle, Idle] True 0)"
    using acqW [of 0 "rw_init 3"] by (simp add: defs)
  then have 1: "rw_reach True 3 (?m [Writing, Idle, Idle] True 0)" by (rule reach_step [OF reach_init]) simp
  have "rw_step (?m [Writing, Idle, Idle] True 0) (AcquireR 1) (?m [Writing, WaitR, Idle] True 0)"
    using acqR [of 1 "?m [Writing, Idle, Idle] True 0"] by (simp add: defs)
  then have 2: "rw_reach True 3 (?m [Writing, WaitR, Idle] True 0)" by (rule reach_step [OF 1]) simp
  have "rw_step (?m [Writing, WaitR, Idle] True 0) (AcquireW 2) (?m [Writing, WaitR, WaitW] True 1)"
    using acqW [of 2 "?m [Writing, WaitR, Idle] True 0"] by (simp add: defs)
  then have 3: "rw_reach True 3 (?m [Writing, WaitR, WaitW] True 1)" by (rule reach_step [OF 2]) simp
  have "rw_step (?m [Writing, WaitR, WaitW] True 1) (ReleaseW 0) (?m [Idle, WokenR, WokenW] False 1)"
    using relW [of 0 "?m [Writing, WaitR, WaitW] True 1"] by (simp add: defs)
  then have 4: "rw_reach True 3 (?m [Idle, WokenR, WokenW] False 1)" by (rule reach_step [OF 3]) simp
  have "rw_step (?m [Idle, WokenR, WokenW] False 1) (ResumeR 1) (?m [Idle, WaitR, WokenW] False 1)"
    using resR [of 1 "?m [Idle, WokenR, WokenW] False 1"] by (simp add: defs)
  then have 5: "rw_reach True 3 (?m [Idle, WaitR, WokenW] False 1)" by (rule reach_step [OF 4]) simp
  have "rw_step (?m [Idle, WaitR, WokenW] False 1) (CancelW 2) lost_state"
    using canW [of 2 "?m [Idle, WaitR, WokenW] False 1"] by (simp add: defs lost_state_def)
  then show ?thesis by (rule reach_step [OF 5]) simp
qed

text \<open>A cancellation can lose a wake-up: a writer that was notified and is cancelled before it resumes notifies
  nobody, so a reader that had let it pass waits although the lock is free and no writer waits.\<close>

theorem rw_cancel_loses_wakeup:
  "\<exists>s. rw_reach True 3 s \<and> rw_tasks s = [Idle, WaitR, Idle] \<and> rw_readers s = 0 \<and> \<not> rw_writer s \<and> rw_waiting s = 0
     \<and> (\<forall>s'. \<not> drains s s')"
proof (intro exI [of _ lost_state] conjI)
  show "rw_reach True 3 lost_state" by (rule lost_reach)
  show "\<forall>s'. \<not> drains lost_state s'"
    by (auto simp: drains_def lost_state_def less_Suc_eq numeral_2_eq_2 elim!: rw_stepE)
qed (simp_all add: lost_state_def)

section \<open>The properties on a short run\<close>

lemma short_run:
  "rw_reach False 2 \<lparr>rw_readers = 1, rw_writer = False, rw_waiting = 1, rw_tasks = [Reading, WaitW]\<rparr>"
proof -
  let ?s = "\<lparr>rw_readers = 1, rw_writer = False, rw_waiting = 0, rw_tasks = [Reading, Idle]\<rparr>"
  note defs = rw_method_defs place_def rw_init_def numeral_2_eq_2
  have "rw_step (rw_init 2) (AcquireR 0) ?s" using acqR [of 0 "rw_init 2"] by (simp add: defs)
  then have 1: "rw_reach False 2 ?s" by (rule reach_step [OF reach_init]) simp
  have "rw_step ?s (AcquireW 1) \<lparr>rw_readers = 1, rw_writer = False, rw_waiting = 1, rw_tasks = [Reading, WaitW]\<rparr>"
    using acqW [of 1 ?s] by (simp add: defs)
  then show ?thesis by (rule reach_step [OF 1]) simp
qed

theorem rw_lock_excludes_witness: "count_list [Reading, WaitW] Writing \<le> 1 \<and> (1 :: int) = int (count_list [Reading, WaitW] Reading)"
  using rw_lock_excludes [OF short_run] by simp

theorem rw_lock_drains_witness:
  "{s'. drains\<^sup>*\<^sup>* \<lparr>rw_readers = 1, rw_writer = False, rw_waiting = 1, rw_tasks = [Reading, WaitW]\<rparr> s' \<and> (\<forall>s''. \<not> drains s' s'')}
     \<subseteq> {s'. rw_tasks s' = [Idle, Idle]}"
  using rw_lock_drains [OF short_run] by (simp add: numeral_2_eq_2 subset_iff)

end
