(* ===== verification/Jump_Map.thy ===== *)
theory Jump_Map
imports Prelude "HOL-Library.Sublist"
begin

text \<open>
  The jump-forward map of regex-constrained decoding (\<^verbatim>\<open>python/sglang/srt/constrained/outlines_jump_forward.py\<close>).
  Parsing the regex and building its byte-level automaton is library code: the automaton is an argument, with
  its dictionaries as association lists in their order.  A symbol is a string, here a list of code points.
\<close>

type_synonym pysym = "nat list"

record fsm_info =
  fi_alphabet :: "(pysym \<times> nat) list"
  fi_transitions :: "((nat \<times> nat) \<times> nat) list"
  fi_finals :: "nat list"
  fi_anything :: nat

record jump_edge =
  je_symbol :: "pysym option"
  je_symbol_next :: "nat option"
  je_byte :: "nat option"
  je_byte_next :: "nat option"

definition no_edge :: jump_edge where
  "no_edge = \<lparr>je_symbol = None, je_symbol_next = None, je_byte = None, je_byte_next = None\<rparr>"

type_synonym jump_state = "(nat \<Rightarrow> nat) \<times> (nat \<rightharpoonup> jump_edge)"

section \<open>Building the map\<close>

definition id_to_symbol :: "fsm_info \<Rightarrow> nat \<Rightarrow> pysym list" where
  "id_to_symbol f i = map fst (filter (\<lambda>(s, j). j = i) (fi_alphabet f))"

definition final_counts :: "fsm_info \<Rightarrow> nat \<Rightarrow> nat" where
  "final_counts f q = (if q \<in> set (fi_finals f) then 1 else 0)"

text \<open>The inner loop over the symbols of a transition; a second way out of a state deletes its edge and ends it.\<close>

fun symbol_loop :: "nat \<Rightarrow> nat \<Rightarrow> pysym list \<Rightarrow> jump_state \<Rightarrow> jump_state" where
  "symbol_loop q n [] st = st"
| "symbol_loop q n (c # cs) (ct, m) =
     (if length c > 1 then symbol_loop q n cs (ct, m)
      else let ct = ct(q := ct q + 1)
           in if ct q > 1 then (ct, m(q := None))
              else symbol_loop q n cs (ct, m(q \<mapsto> no_edge\<lparr>je_symbol := Some c, je_symbol_next := Some n\<rparr>)))"

text \<open>Hexadecimal digits, as \<^verbatim>\<open>int(_, 16)\<close> reads them.\<close>

definition hex_digit :: "nat \<Rightarrow> nat option" where
  "hex_digit c = (if 48 \<le> c \<and> c \<le> 57 then Some (c - 48) else if 65 \<le> c \<and> c \<le> 70 then Some (c - 55)
     else if 97 \<le> c \<and> c \<le> 102 then Some (c - 87) else None)"

definition parse_hex :: "pysym \<Rightarrow> nat res" where
  "parse_hex ds = (if ds = [] \<or> list_ex (\<lambda>d. hex_digit d = None) ds then Err ValueError
     else Ok (foldl (\<lambda>x d. 16 * x + the (hex_digit d)) 0 ds))"

definition byte_of :: "pysym list \<Rightarrow> pysym \<Rightarrow> nat option res" where
  "byte_of symbols c =
     (if length c = 1 \<and> hd c < 128 then Ok (Some (hd c))
      else if length c > 1
      then rbind (parse_hex (drop 1 (hd symbols))) (\<lambda>b. Ok (Some b))
      else Ok None)"

fun byte_loop :: "nat \<Rightarrow> nat \<Rightarrow> pysym list \<Rightarrow> pysym list \<Rightarrow> jump_state \<Rightarrow> jump_state res" where
  "byte_loop q n symbols [] st = Ok st"
| "byte_loop q n symbols (c # cs) (ct, m) =
     rbind (byte_of symbols c) (\<lambda>b. case b of
        None \<Rightarrow> byte_loop q n symbols cs (ct, m)
      | Some byte \<Rightarrow>
          let ct = ct(q := ct q + 1)
          in if ct q > 1 then Ok (ct, m(q := None))
             else let e = (case m q of None \<Rightarrow> no_edge | Some e \<Rightarrow> e)
                  in byte_loop q n symbols cs (ct, m(q \<mapsto> e\<lparr>je_byte := Some byte, je_byte_next := Some n\<rparr>)))"

fun transition_loop ::
  "fsm_info \<Rightarrow> (nat \<Rightarrow> nat \<Rightarrow> pysym list \<Rightarrow> jump_state \<Rightarrow> jump_state res) \<Rightarrow> ((nat \<times> nat) \<times> nat) list \<Rightarrow> jump_state \<Rightarrow> jump_state res" where
  "transition_loop f body [] st = Ok st"
| "transition_loop f body (((q, i), n) # ts) st =
     (if i = fi_anything f then transition_loop f body ts st
      else if id_to_symbol f i = [] then Err KeyError
      else rbind (body q n (id_to_symbol f i) st) (transition_loop f body ts))"

definition init_state_to_jump_forward :: "fsm_info \<Rightarrow> (nat \<rightharpoonup> jump_edge) res" where
  "init_state_to_jump_forward f =
     rbind (transition_loop f (\<lambda>q n cs st. Ok (symbol_loop q n cs st)) (fi_transitions f) (final_counts f, Map.empty)) (\<lambda>(_, m).
     rbind (transition_loop f (\<lambda>q n cs. byte_loop q n cs cs) (fi_transitions f) (final_counts f, m)) (\<lambda>(_, m). Ok m))"

section \<open>Jumping\<close>

text \<open>The loops may run forever; not returning is \<open>None\<close>.  A symbol and its next state are set together, so the
  case of a symbol without a next state does not arise.\<close>

partial_function (option) jump_forward_symbol :: "(nat \<rightharpoonup> jump_edge) \<Rightarrow> nat \<Rightarrow> (pysym \<times> nat) res option" where
  "jump_forward_symbol m q =
     (case m q of
        None \<Rightarrow> Some (Ok ([], q))
      | Some e \<Rightarrow> (case je_symbol e of
            None \<Rightarrow> Some (Ok ([], q))
          | Some c \<Rightarrow> (case je_symbol_next e of
                None \<Rightarrow> Some (Err TypeError)
              | Some n \<Rightarrow> Option.bind (jump_forward_symbol m n) (\<lambda>r. Some (rbind r (\<lambda>(s, q'). Ok (c @ s, q')))))))"

partial_function (option) byte_steps :: "(nat \<rightharpoonup> jump_edge) \<Rightarrow> nat \<Rightarrow> (nat \<times> nat) list res option" where
  "byte_steps m q =
     (case m q of
        None \<Rightarrow> Some (Ok [])
      | Some e \<Rightarrow> (case (je_byte e, je_byte_next e) of
            (Some b, Some n) \<Rightarrow> Option.bind (byte_steps m n) (\<lambda>r. Some (rbind r (\<lambda>s. Ok ((b, n) # s))))
          | _ \<Rightarrow> Some (Err AssertionError)))"

definition jump_forward_byte :: "(nat \<rightharpoonup> jump_edge) \<Rightarrow> nat \<Rightarrow> (nat \<times> nat) list option res option" where
  "jump_forward_byte m q =
     (if m q = None then Some (Ok None) else Option.bind (byte_steps m q) (\<lambda>r. Some (rbind r (\<lambda>s. Ok (Some s)))))"

definition is_jump_forward_symbol_state :: "(nat \<rightharpoonup> jump_edge) \<Rightarrow> nat \<Rightarrow> bool" where
  "is_jump_forward_symbol_state m q = (case m q of None \<Rightarrow> False | Some e \<Rightarrow> je_symbol e \<noteq> None)"

section \<open>The automaton\<close>

definition delta :: "fsm_info \<Rightarrow> nat \<Rightarrow> pysym \<Rightarrow> nat \<Rightarrow> bool" where
  "delta f q c n \<longleftrightarrow> (\<exists>i. ((q, i), n) \<in> set (fi_transitions f) \<and> c \<in> set (id_to_symbol f i))"

fun accepts :: "fsm_info \<Rightarrow> nat \<Rightarrow> pysym \<Rightarrow> bool" where
  "accepts f q [] = (q \<in> set (fi_finals f))"
| "accepts f q (x # w) = list_ex (\<lambda>((p, i), n). p = q \<and> [x] \<in> set (id_to_symbol f i) \<and> accepts f n w) (fi_transitions f)"

lemma accepts_Cons: "accepts f q (x # w) \<longleftrightarrow> (\<exists>n. delta f q [x] n \<and> accepts f n w)"
  by (force simp: list_ex_iff delta_def)

text \<open>Every transition is on characters: none is on bytes or on arbitrary symbols.\<close>

definition plain :: "fsm_info \<Rightarrow> bool" where
  "plain f \<longleftrightarrow> (\<forall>((q, i), n) \<in> set (fi_transitions f). i \<noteq> fi_anything f \<and> (\<forall>c \<in> set (id_to_symbol f i). length c = 1))"

text \<open>The alphabet and the transitions are dictionaries: a key occurs once.\<close>

definition dicts_ok :: "fsm_info \<Rightarrow> bool" where
  "dicts_ok f \<longleftrightarrow> distinct (map fst (fi_alphabet f)) \<and> distinct (map fst (fi_transitions f))"

text \<open>Every way leads on to acceptance, as in a reduced automaton without its dead state.\<close>

definition live :: "fsm_info \<Rightarrow> bool" where
  "live f \<longleftrightarrow> (\<forall>q c n. delta f q c n \<longrightarrow> (\<exists>v. accepts f n v))"

section \<open>What the first loop computes\<close>

text \<open>The ways out of the states, one for each symbol of each transition, in the order of the loops.\<close>

type_synonym way = "nat \<times> pysym \<times> nat"

definition ways :: "fsm_info \<Rightarrow> ((nat \<times> nat) \<times> nat) list \<Rightarrow> way list" where
  "ways f ts = concat (map (\<lambda>((q, i), n). map (\<lambda>c. (q, c, n)) (id_to_symbol f i)) ts)"

definition ways_at :: "nat \<Rightarrow> way list \<Rightarrow> way list" where
  "ways_at q ws = filter (\<lambda>(p, c, n). p = q) ws"

lemma ways_at_simps [simp]:
  "ways_at q [] = []" "ways_at q (ws @ ws') = ways_at q ws @ ways_at q ws'"
  "ways_at q ((p, c, n) # ws) = (if p = q then (p, c, n) # ways_at q ws else ways_at q ws)"
  "ways_at q (map (\<lambda>c. (p, c, n)) cs) = (if p = q then map (\<lambda>c. (p, c, n)) cs else [])"
  by (auto simp: ways_at_def filter_map comp_def filter_empty_conv)

definition out_count :: "fsm_info \<Rightarrow> way list \<Rightarrow> nat \<Rightarrow> nat" where
  "out_count f ws q = final_counts f q + length (ways_at q ws)"

definition edge_to :: "way \<Rightarrow> jump_edge" where
  "edge_to = (\<lambda>(q, c, n). no_edge\<lparr>je_symbol := Some c, je_symbol_next := Some n\<rparr>)"

text \<open>After the ways \<open>ws\<close>: an edge exactly where there is one way out, being final counting as a way.\<close>

definition exact :: "fsm_info \<Rightarrow> way list \<Rightarrow> jump_state \<Rightarrow> bool" where
  "exact f ws st \<longleftrightarrow> (\<forall>q. (fst st q = out_count f ws q \<or> (1 < out_count f ws q \<and> 1 < fst st q))
     \<and> snd st q = (if out_count f ws q = 1 \<and> ways_at q ws \<noteq> [] then Some (edge_to (hd (ways_at q ws))) else None))"

lemma symbol_loop_exact:
  assumes "exact f ws st" "\<forall>c \<in> set cs. length c = 1"
  shows "exact f (ws @ map (\<lambda>c. (q, c, n)) cs) (symbol_loop q n cs st)"
  using assms
proof (induction cs arbitrary: ws st)
  case (Cons c cs)
  obtain ct m where st: "st = (ct, m)" by fastforce
  have len: "\<not> 1 < length c" using Cons.prems(2) by simp
  have old: "(ct p = out_count f ws p \<or> 1 < out_count f ws p \<and> 1 < ct p)
      \<and> m p = (if out_count f ws p = 1 \<and> ways_at p ws \<noteq> [] then Some (edge_to (hd (ways_at p ws))) else None)" for p
    using Cons.prems(1) by (simp add: exact_def st)
  show ?case
  proof (cases "ct q = 0")
    case True
    let ?st = "(ct(q := 1), m(q \<mapsto> edge_to (q, c, n)))"
    have "exact f (ws @ [(q, c, n)]) ?st"
      unfolding exact_def
    proof (intro allI)
      fix p
      show "(fst ?st p = out_count f (ws @ [(q, c, n)]) p
              \<or> 1 < out_count f (ws @ [(q, c, n)]) p \<and> 1 < fst ?st p)
          \<and> snd ?st p = (if out_count f (ws @ [(q, c, n)]) p = 1 \<and> ways_at p (ws @ [(q, c, n)]) \<noteq> []
                then Some (edge_to (hd (ways_at p (ws @ [(q, c, n)])))) else None)"
        using old [of p] True by (cases "p = q") (auto simp: out_count_def)
    qed
    from Cons.IH [OF this] Cons.prems(2)
    have "exact f (ws @ map (\<lambda>c. (q, c, n)) (c # cs)) (symbol_loop q n cs ?st)" by simp
    moreover have "symbol_loop q n (c # cs) st = symbol_loop q n cs ?st"
      using True len by (simp add: st edge_to_def)
    ultimately show ?thesis by simp
  next
    case False
    let ?ws = "ws @ map (\<lambda>c. (q, c, n)) (c # cs)" and ?st = "(ct(q := ct q + 1), m(q := None))"
    have "exact f ?ws ?st"
      unfolding exact_def
    proof (intro allI)
      fix p
      show "(fst ?st p = out_count f ?ws p \<or> 1 < out_count f ?ws p \<and> 1 < fst ?st p)
          \<and> snd ?st p = (if out_count f ?ws p = 1 \<and> ways_at p ?ws \<noteq> [] then Some (edge_to (hd (ways_at p ?ws))) else None)"
        using old [of p] False by (cases "p = q") (auto simp: out_count_def)
    qed
    moreover have "symbol_loop q n (c # cs) st = (ct(q := ct q + 1), m(q := None))" using False len by (simp add: st)
    ultimately show ?thesis by simp
  qed
qed simp

lemma symbol_transitions_exact:
  "transition_loop f (\<lambda>q n cs st. Ok (symbol_loop q n cs st)) ts st = Ok st' \<Longrightarrow> exact f ws st
     \<Longrightarrow> \<forall>((q, i), n) \<in> set ts. i \<noteq> fi_anything f \<and> (\<forall>c \<in> set (id_to_symbol f i). length c = 1)
     \<Longrightarrow> exact f (ws @ ways f ts) st'"
proof (induction ts arbitrary: ws st)
  case Nil
  then show ?case by (simp add: ways_def)
next
  case (Cons x ts)
  obtain q i n where x: "x = ((q, i), n)" by (metis prod.exhaust)
  have i: "i \<noteq> fi_anything f" "\<forall>c \<in> set (id_to_symbol f i). length c = 1" using Cons.prems(3) by (auto simp: x)
  have "transition_loop f (\<lambda>q n cs st. Ok (symbol_loop q n cs st)) ts (symbol_loop q n (id_to_symbol f i) st) = Ok st'"
    using Cons.prems(1) i(1) by (auto simp: x split: if_splits)
  from Cons.IH [OF this symbol_loop_exact [OF Cons.prems(2) i(2)]] Cons.prems(3)
  show ?case by (simp add: ways_def x)
qed

section \<open>The second loop keeps the symbols\<close>

definition jump_of :: "(nat \<rightharpoonup> jump_edge) \<Rightarrow> nat \<Rightarrow> (pysym \<times> nat option) option" where
  "jump_of m q = (case m q of None \<Rightarrow> None | Some e \<Rightarrow> map_option (\<lambda>c. (c, je_symbol_next e)) (je_symbol e))"

text \<open>\<open>k\<close> bounds the ways out of a state, those to come included; a jump state has one.\<close>

definition jumps_kept :: "(nat \<Rightarrow> nat) \<Rightarrow> (nat \<rightharpoonup> jump_edge) \<Rightarrow> way list \<Rightarrow> jump_state \<Rightarrow> bool" where
  "jumps_kept k m0 ws st \<longleftrightarrow> (\<forall>q. fst st q + length (ways_at q ws) \<le> k q \<and> jump_of (snd st) q = jump_of m0 q)"

lemma jumps_kept_update:
  assumes "jumps_kept k m0 ws (ct, m)" "ct q + 1 + length (ways_at q ws) \<le> k q" "jump_of (m(q := x)) q = jump_of m0 q"
  shows "jumps_kept k m0 ws (ct(q := ct q + 1), m(q := x))"
  using assms by (auto simp: jumps_kept_def jump_of_def)

lemma jumps_kept_drop: "jumps_kept k m0 (ws @ ws') st \<Longrightarrow> jumps_kept k m0 ws' st"
  unfolding jumps_kept_def by (auto intro: add_leD2 le_trans [rotated])

lemma byte_loop_kept:
  "byte_loop q n symbols cs st = Ok st' \<Longrightarrow> jumps_kept k m0 (map (\<lambda>c. (q, c, n)) cs @ ws) st
     \<Longrightarrow> \<forall>p. jump_of m0 p \<noteq> None \<longrightarrow> k p = 1 \<Longrightarrow> jumps_kept k m0 ws st'"
proof (induction q n symbols cs st arbitrary: st' rule: byte_loop.induct)
  case (1 q n symbols st)
  then show ?case by simp
next
  case (2 q n symbols c cs ct m)
  obtain b where b: "byte_of symbols c = Ok b" using 2(3) by (auto elim: rbind_OkE)
  have rest: "jumps_kept k m0 (map (\<lambda>c. (q, c, n)) cs @ ws) (ct, m)"
    unfolding jumps_kept_def
  proof (intro allI)
    fix p
    have "fst (ct, m) p + length (ways_at p (map (\<lambda>c. (q, c, n)) (c # cs) @ ws)) \<le> k p \<and> jump_of m p = jump_of m0 p"
      using 2(4) by (simp add: jumps_kept_def)
    then show "fst (ct, m) p + length (ways_at p (map (\<lambda>c. (q, c, n)) cs @ ws)) \<le> k p
        \<and> jump_of (snd (ct, m)) p = jump_of m0 p"
      by (cases "p = q") auto
  qed
  show ?case
  proof (cases b)
    case None
    then show ?thesis using 2 b rest by simp
  next
    case (Some byte)
    let ?e = "(case m q of None \<Rightarrow> no_edge | Some e \<Rightarrow> e)\<lparr>je_byte := Some byte, je_byte_next := Some n\<rparr>"
    have more: "ct q + 1 + length (ways_at q (map (\<lambda>c. (q, c, n)) cs @ ws)) \<le> k q"
      using 2(4) by (auto simp: jumps_kept_def dest: spec [of _ q])
    show ?thesis
    proof (cases "ct q + 1 > 1")
      case True
      then have "jump_of m0 q = None" using more 2(5) by fastforce
      then have "jump_of (m(q := None)) q = jump_of m0 q" by (simp add: jump_of_def)
      from jumps_kept_update [OF rest more this]
      have "jumps_kept k m0 (map (\<lambda>c. (q, c, n)) cs @ ws) (ct(q := ct q + 1), m(q := None))" .
      then show ?thesis using 2(3) b Some True by (auto simp: fun_upd_def dest: jumps_kept_drop)
    next
      case False
      then have l: "byte_loop q n symbols cs (ct(q := ct q + 1), m(q \<mapsto> ?e)) = Ok st'"
        using 2(3) b Some by (simp add: Let_def)
      have "jump_of (m(q \<mapsto> ?e)) q = jump_of m q" by (auto simp: jump_of_def no_edge_def split: option.splits)
      also have "\<dots> = jump_of m0 q" using rest by (simp add: jumps_kept_def)
      finally have "jumps_kept k m0 (map (\<lambda>c. (q, c, n)) cs @ ws) (ct(q := ct q + 1), m(q \<mapsto> ?e))"
        by (rule jumps_kept_update [OF rest more])
      then show ?thesis
        by (intro 2(2) [OF refl _ refl])
           (use l b Some False 2(5) in \<open>simp_all del: fun_upd_apply ways_at_simps add: fun_upd_same\<close>)
    qed
  qed
qed

lemma byte_transitions_kept:
  "transition_loop f (\<lambda>q n cs. byte_loop q n cs cs) ts st = Ok st' \<Longrightarrow> jumps_kept k m0 (ways f ts @ ws) st
     \<Longrightarrow> \<forall>p. jump_of m0 p \<noteq> None \<longrightarrow> k p = 1 \<Longrightarrow> jumps_kept k m0 ws st'"
proof (induction ts arbitrary: st)
  case Nil
  then show ?case by (simp add: ways_def)
next
  case (Cons x ts)
  obtain q i n where x: "x = ((q, i), n)" by (metis prod.exhaust)
  have k: "jumps_kept k m0 (map (\<lambda>c. (q, c, n)) (id_to_symbol f i) @ (ways f ts @ ws)) st"
    using Cons.prems(2) by (simp add: x ways_def del: ways_at_simps)
  show ?case
  proof (cases "i = fi_anything f")
    case True
    then show ?thesis using Cons.IH [OF _ jumps_kept_drop [OF k] Cons.prems(3)] Cons.prems(1) x by simp
  next
    case False
    then obtain st1 where a: "byte_loop q n (id_to_symbol f i) (id_to_symbol f i) st = Ok st1"
      "transition_loop f (\<lambda>q n cs. byte_loop q n cs cs) ts st1 = Ok st'"
      using Cons.prems(1) by (auto simp: x elim!: rbind_OkE split: if_splits)
    show ?thesis by (rule Cons.IH [OF a(2) byte_loop_kept [OF a(1) k Cons.prems(3)] Cons.prems(3)])
  qed
qed

section \<open>The map is exact\<close>

abbreviation all_ways :: "fsm_info \<Rightarrow> way list" where
  "all_ways f \<equiv> ways f (fi_transitions f)"

lemma map_exact:
  assumes "init_state_to_jump_forward f = Ok m" "plain f"
  shows "jump_of m q = (if out_count f (all_ways f) q = 1 \<and> ways_at q (all_ways f) \<noteq> []
           then Some (case hd (ways_at q (all_ways f)) of (p, c, n) \<Rightarrow> (c, Some n)) else None)"
proof -
  obtain ct m1 ct2 where a:
    "transition_loop f (\<lambda>q n cs st. Ok (symbol_loop q n cs st)) (fi_transitions f) (final_counts f, Map.empty) = Ok (ct, m1)"
    "transition_loop f (\<lambda>q n cs. byte_loop q n cs cs) (fi_transitions f) (final_counts f, m1) = Ok (ct2, m)"
    using assms(1) by (auto simp: init_state_to_jump_forward_def elim!: rbind_OkE)
  have "exact f [] (final_counts f, Map.empty)" by (simp add: exact_def out_count_def)
  from symbol_transitions_exact [OF a(1) this] assms(2) have e: "exact f (all_ways f) (ct, m1)"
    by (simp add: plain_def)
  then have j1: "jump_of m1 q = (if out_count f (all_ways f) q = 1 \<and> ways_at q (all_ways f) \<noteq> []
           then Some (case hd (ways_at q (all_ways f)) of (p, c, n) \<Rightarrow> (c, Some n)) else None)" for q
    by (auto simp: exact_def jump_of_def edge_to_def no_edge_def split: prod.splits)
  have "jumps_kept (out_count f (all_ways f)) m1 (all_ways f @ []) (final_counts f, m1)"
    by (simp add: jumps_kept_def out_count_def)
  from byte_transitions_kept [OF a(2) this] j1 have "jumps_kept (out_count f (all_ways f)) m1 [] (ct2, m)"
    by (simp split: if_splits)
  then show ?thesis using j1 [of q] by (simp add: jumps_kept_def)
qed

text \<open>With dictionaries the ways are the transition relation, each way once, and it is deterministic.\<close>

lemma in_ways: "(q, c, n) \<in> set (ways f ts) \<longleftrightarrow> (\<exists>i. ((q, i), n) \<in> set ts \<and> c \<in> set (id_to_symbol f i))"
  by (induction ts) (auto simp: ways_def)

lemma set_at_ways: "(p, c, n) \<in> set (ways_at q (all_ways f)) \<longleftrightarrow> p = q \<and> delta f q c n"
  by (auto simp: ways_at_def in_ways delta_def)

lemma in_id_to_symbol: "c \<in> set (id_to_symbol f i) \<longleftrightarrow> (c, i) \<in> set (fi_alphabet f)"
  by (force simp: id_to_symbol_def)

lemma symbol_id_unique:
  "dicts_ok f \<Longrightarrow> c \<in> set (id_to_symbol f i) \<Longrightarrow> c \<in> set (id_to_symbol f j) \<Longrightarrow> i = j"
  unfolding dicts_ok_def in_id_to_symbol by (blast intro: eq_key_imp_eq_value)

lemma delta_deterministic:
  assumes "dicts_ok f" "delta f q c n" "delta f q c n'"
  shows "n = n'"
proof -
  obtain i j where i: "((q, i), n) \<in> set (fi_transitions f)" "c \<in> set (id_to_symbol f i)"
      "((q, j), n') \<in> set (fi_transitions f)" "c \<in> set (id_to_symbol f j)"
    using assms(2,3) by (auto simp: delta_def)
  then have "i = j" using symbol_id_unique [OF assms(1)] by blast
  then show ?thesis using i assms(1) eq_key_imp_eq_value unfolding dicts_ok_def by fast
qed

lemma distinct_ways:
  assumes "dicts_ok f" "distinct (map fst ts)"
  shows "distinct (ways f ts)"
  using assms(2)
proof (induction ts)
  case (Cons x ts)
  obtain q i n where x: "x = ((q, i), n)" by (metis prod.exhaust)
  have "distinct (id_to_symbol f i)"
    using assms(1) unfolding dicts_ok_def id_to_symbol_def by (simp add: distinct_map_filter)
  then have d: "distinct (map (\<lambda>c. (q, c, n)) (id_to_symbol f i))" by (simp add: distinct_map inj_on_def)
  have "(q, c, n) \<notin> set (ways f ts)" if c: "c \<in> set (id_to_symbol f i)" for c
  proof
    assume "(q, c, n) \<in> set (ways f ts)"
    then obtain j where j: "((q, j), n) \<in> set ts" "c \<in> set (id_to_symbol f j)" by (auto simp: in_ways)
    then have "j = i" using symbol_id_unique [OF assms(1)] c by blast
    then have "(q, i) \<in> set (map fst ts)" using j(1) by force
    then show False using Cons.prems by (simp add: x)
  qed
  moreover have "distinct (ways f ts)" using Cons by simp
  moreover have "ways f (x # ts) = map (\<lambda>c. (q, c, n)) (id_to_symbol f i) @ ways f ts" by (simp add: ways_def x)
  ultimately show ?case using d by auto
qed (simp add: ways_def)

lemma distinct_single: "distinct xs \<Longrightarrow> set xs = {x} \<longleftrightarrow> xs = [x]"
  by (cases xs; cases "tl xs") auto

definition forced :: "fsm_info \<Rightarrow> nat \<Rightarrow> pysym \<Rightarrow> nat \<Rightarrow> bool" where
  "forced f q c n \<longleftrightarrow> q \<notin> set (fi_finals f) \<and> (\<forall>c' n'. delta f q c' n' \<longleftrightarrow> c' = c \<and> n' = n)"

lemma jump_iff_forced:
  assumes "init_state_to_jump_forward f = Ok m" "plain f" "dicts_ok f"
  shows "jump_of m q = Some (c, x) \<longleftrightarrow> (\<exists>n. x = Some n \<and> forced f q c n)"
proof -
  let ?a = "ways_at q (all_ways f)"
  have d: "distinct ?a" using distinct_ways [OF assms(3)] assms(3) by (simp add: ways_at_def dicts_ok_def)
  have one: "forced f q c n \<longleftrightarrow> q \<notin> set (fi_finals f) \<and> ?a = [(q, c, n)]" for n
  proof -
    have "(\<forall>c' n'. delta f q c' n' \<longleftrightarrow> c' = c \<and> n' = n)
        \<longleftrightarrow> (\<forall>p c' n'. (p, c', n') \<in> set ?a \<longleftrightarrow> p = q \<and> c' = c \<and> n' = n)"
      unfolding set_at_ways by blast
    also have "\<dots> \<longleftrightarrow> set ?a = {(q, c, n)}" unfolding set_eq_iff split_paired_All by simp
    also have "\<dots> \<longleftrightarrow> ?a = [(q, c, n)]" by (rule distinct_single [OF d])
    finally show ?thesis by (simp add: forced_def)
  qed
  have mine: "p = q" if "(p, c', n') \<in> set ?a" for p c' n' using that set_at_ways by simp
  show ?thesis
  proof (cases ?a)
    case Nil
    then show ?thesis using map_exact [OF assms(1,2), of q] one by simp
  next
    case (Cons e ws)
    obtain c' n' where e: "e = (q, c', n')" using mine Cons by (metis list.set_intros(1) prod.exhaust)
    have "out_count f (all_ways f) q = 1 \<longleftrightarrow> q \<notin> set (fi_finals f) \<and> ws = []"
      using Cons by (auto simp: out_count_def final_counts_def)
    then have "jump_of m q = (if q \<notin> set (fi_finals f) \<and> ws = [] then Some (c', Some n') else None)"
      using map_exact [OF assms(1,2), of q] Cons e by simp
    moreover have "forced f q c n \<longleftrightarrow> q \<notin> set (fi_finals f) \<and> ws = [] \<and> c = c' \<and> n = n'" for n
      unfolding one Cons e by blast
    ultimately show ?thesis by auto
  qed
qed

section \<open>Jumping is forced\<close>

text \<open>A state that is not forced ends the common beginning of what is accepted.\<close>

lemma longest:
  assumes f: "plain f" "dicts_ok f" and l: "live f" and stop: "q \<in> set (fi_finals f) \<or> \<not> (\<exists>!e. delta f q (fst e) (snd e))"
    and u: "\<exists>u. accepts f q u" and t: "\<forall>u. accepts f q u \<longrightarrow> prefix t (s @ u)"
  shows "prefix t s"
proof (cases "q \<in> set (fi_finals f)")
  case True
  then have "accepts f q []" by simp
  then show ?thesis using t by (metis append_Nil2)
next
  case False
  obtain x w n where "accepts f q (x # w)" "delta f q [x] n"
    using u False by (metis accepts.simps(1) accepts_Cons neq_Nil_conv)
  moreover from this stop False obtain c n' where c: "delta f q c n'" "(c, n') \<noteq> ([x], n)"
    by (metis fst_conv snd_conv surj_pair)
  moreover have "length c = 1" using f(1) c(1) by (fastforce simp: plain_def delta_def)
  then obtain y where y: "c = [y]" by (cases c) auto
  moreover have "x \<noteq> y" using delta_deterministic [OF f(2)] c y calculation(2) by blast
  moreover obtain w' where "accepts f q (y # w')" using l c(1) y unfolding live_def accepts_Cons by blast
  ultimately have "prefix t (s @ x # w)" "prefix t (s @ y # w')" "x \<noteq> y" using t by blast+
  then show ?thesis by (auto simp: prefix_append prefix_Cons)
qed

text \<open>C34: Jump-forward decoding emits exactly what the grammar forces, and it stops.  For an automaton all of
  whose transitions are on characters (\<open>plain\<close>; theorem \<open>skipped_transition_never_returns\<close> refutes the claim without it), from
  every state that can still reach acceptance the symbol loop returns a string and a state; the accepted
  continuations are exactly the string followed by what is accepted from the returned state; the returned
  state is not forced any more, being final or without exactly one way out; and if every transition leads on
  to acceptance, the string is the longest with which all accepted continuations start.\<close>

theorem jump_forward_forced:
  assumes m: "init_state_to_jump_forward f = Ok m" and f: "plain f" "dicts_ok f" and w: "accepts f q w"
  shows "\<exists>s q'. jump_forward_symbol m q = Some (Ok (s, q'))
    \<and> (\<forall>v. accepts f q v \<longleftrightarrow> (\<exists>u. v = s @ u \<and> accepts f q' u))
    \<and> (q' \<in> set (fi_finals f) \<or> \<not> (\<exists>!e. delta f q' (fst e) (snd e)))
    \<and> (live f \<longrightarrow> (\<forall>t. (\<forall>v. accepts f q v \<longrightarrow> prefix t v) \<longrightarrow> prefix t s))"
proof -
  have sym: "jump_forward_symbol m q = (case jump_of m q of
        None \<Rightarrow> Some (Ok ([], q))
      | Some (c, None) \<Rightarrow> Some (Err TypeError)
      | Some (c, Some n) \<Rightarrow> Option.bind (jump_forward_symbol m n) (\<lambda>r. Some (rbind r (\<lambda>(s, q'). Ok (c @ s, q')))))" for q
    by (subst jump_forward_symbol.simps) (auto simp: jump_of_def split: option.splits)
  have run: "\<exists>s q'. jump_forward_symbol m q = Some (Ok (s, q')) \<and> (\<forall>v. accepts f q v \<longleftrightarrow> (\<exists>u. v = s @ u \<and> accepts f q' u))
      \<and> (q' \<in> set (fi_finals f) \<or> \<not> (\<exists>!e. delta f q' (fst e) (snd e)))"
    using w
  proof (induction w arbitrary: q)
    case Nil
    then have "jump_of m q = None"
      using jump_iff_forced [OF m f, of q] by (cases "jump_of m q") (auto simp: forced_def)
    then show ?case using Nil by (simp add: sym)
  next
    case (Cons x w)
    show ?case
    proof (cases "jump_of m q")
      case None
      have "\<not> (\<exists>!e. delta f q (fst e) (snd e))" if "q \<notin> set (fi_finals f)"
      proof
        assume "\<exists>!e. delta f q (fst e) (snd e)"
        then obtain c n where "\<forall>c' n'. delta f q c' n' \<longleftrightarrow> c' = c \<and> n' = n" by (metis fst_conv snd_conv surj_pair)
        then have "forced f q c n" using that by (simp add: forced_def)
        then show False using jump_iff_forced [OF m f, of q c "Some n"] None by simp
      qed
      then show ?thesis using None by (auto simp: sym)
    next
      case (Some r)
      then obtain c n where r: "r = (c, Some n)" and fo: "forced f q c n"
        using jump_iff_forced [OF m f, of q "fst r" "snd r"] by (cases r) auto
      then have only: "delta f q c' n' \<longleftrightarrow> c' = c \<and> n' = n" and nf: "q \<notin> set (fi_finals f)" for c' n'
        by (simp_all add: forced_def)
      obtain n' where "delta f q [x] n'" "accepts f n' w" using Cons.prems accepts_Cons by blast
      then have c: "c = [x]" and "accepts f n w" using only by auto
      from Cons.IH [OF this(2)] obtain s q' where
        j: "jump_forward_symbol m n = Some (Ok (s, q'))" "\<And>v. accepts f n v \<longleftrightarrow> (\<exists>u. v = s @ u \<and> accepts f q' u)"
           "q' \<in> set (fi_finals f) \<or> \<not> (\<exists>!e. delta f q' (fst e) (snd e))" by blast
      have "jump_forward_symbol m q = Some (Ok (x # s, q'))"
        unfolding sym [of q] using Some r j(1) c by simp
      moreover have "accepts f q v \<longleftrightarrow> (\<exists>u. v = (x # s) @ u \<and> accepts f q' u)" for v
        using nf only c j(2) by (cases v) (auto simp: accepts_Cons simp del: accepts.simps(2))
      ultimately show ?thesis using j(3) by blast
    qed
  qed
  then obtain s q' where r: "jump_forward_symbol m q = Some (Ok (s, q'))"
      "\<And>v. accepts f q v \<longleftrightarrow> (\<exists>u. v = s @ u \<and> accepts f q' u)"
      "q' \<in> set (fi_finals f) \<or> \<not> (\<exists>!e. delta f q' (fst e) (snd e))" by blast
  have u: "\<exists>u. accepts f q' u" using w r(2) by blast
  have "prefix t s" if l: "live f" and t: "\<forall>v. accepts f q v \<longrightarrow> prefix t v" for t
  proof -
    have "\<forall>u. accepts f q' u \<longrightarrow> prefix t (s @ u)" using t r(2) by metis
    then show ?thesis by (rule longest [OF f l r(3) u])
  qed
  then show ?thesis using r by metis
qed

definition star_fsm :: fsm_info where
  "star_fsm = \<lparr>fi_alphabet = [([97], 0), ([], 1)], fi_transitions = [((0, 0), 0), ((0, 1), 1)], fi_finals = [1], fi_anything = 1\<rparr>"

lemma self_jump_never_returns:
  assumes "m q = Some e" "je_symbol e = Some c" "je_symbol_next e = Some q"
  shows "jump_forward_symbol m q = None"
proof (rule ccontr)
  assume "jump_forward_symbol m q \<noteq> None"
  then obtain r where r: "jump_forward_symbol m q = Some r" by auto
  have "\<not> (\<exists>e c. m q = Some e \<and> je_symbol e = Some c \<and> je_symbol_next e = Some q)"
    by (rule jump_forward_symbol.raw_induct [OF _ r]) (force split: option.splits bind_splits)
  then show False using assms by blast
qed

text \<open>A transition on arbitrary symbols is skipped when ways out are counted, so in the automaton of \<^verbatim>\<open>a*[^a]\<close>
  the start state, which loops on \<^verbatim>\<open>a\<close>, counts as forced, and the symbol loop never returns.\<close>

theorem skipped_transition_never_returns:
  "\<exists>m. init_state_to_jump_forward star_fsm = Ok m \<and> jump_forward_symbol m 0 = None"
proof -
  let ?e = "\<lparr>je_symbol = Some [97], je_symbol_next = Some 0, je_byte = Some 97, je_byte_next = Some 0\<rparr>"
  have "init_state_to_jump_forward star_fsm = Ok [0 \<mapsto> ?e]"
    by (simp add: init_state_to_jump_forward_def star_fsm_def id_to_symbol_def final_counts_def byte_of_def no_edge_def Let_def
        fun_eq_iff)
  then show ?thesis using self_jump_never_returns [of "[0 \<mapsto> ?e]" 0 ?e] by auto
qed

section \<open>The property on a small automaton\<close>

text \<open>The automaton of \<open>abc|abd\<close>.\<close>

definition demo_fsm :: fsm_info where
  "demo_fsm = \<lparr>fi_alphabet = [([97], 0), ([98], 1), ([99], 2), ([100], 2)],
     fi_transitions = [((0, 0), 1), ((1, 1), 2), ((2, 2), 3)], fi_finals = [3], fi_anything = 9\<rparr>"

theorem jump_forward_forced_witness:
  "\<exists>m. init_state_to_jump_forward demo_fsm = Ok m \<and> jump_forward_symbol m 0 = Some (Ok ([97, 98], 2))
     \<and> (\<forall>v. accepts demo_fsm 0 v \<longleftrightarrow> (\<exists>u. v = [97, 98] @ u \<and> accepts demo_fsm 2 u))
     \<and> \<not> (\<exists>!e. delta demo_fsm 2 (fst e) (snd e))"
proof -
  have "\<exists>m. init_state_to_jump_forward demo_fsm = Ok m"
    by (simp add: init_state_to_jump_forward_def demo_fsm_def id_to_symbol_def final_counts_def byte_of_def Let_def)
  then obtain m where m: "init_state_to_jump_forward demo_fsm = Ok m" by blast
  have p: "plain demo_fsm" "dicts_ok demo_fsm" "accepts demo_fsm 0 [97, 98, 99]" "accepts demo_fsm 0 [97, 98, 100]"
    by (simp_all add: plain_def dicts_ok_def demo_fsm_def id_to_symbol_def)
  have tr: "delta demo_fsm q c n \<longleftrightarrow> (q, c, n) \<in> {(0, [97], 1), (1, [98], 2), (2, [99], 3), (2, [100], 3)}" for q c n
    by (auto simp: delta_def demo_fsm_def id_to_symbol_def)
  have l: "live demo_fsm"
    unfolding live_def tr
    by (auto simp: demo_fsm_def id_to_symbol_def intro: exI [of _ "[98, 99]"] exI [of _ "[99]"] exI [of _ "[]"])
  obtain s q' where r: "jump_forward_symbol m 0 = Some (Ok (s, q'))"
      "\<And>v. accepts demo_fsm 0 v \<longleftrightarrow> (\<exists>u. v = s @ u \<and> accepts demo_fsm q' u)"
      "q' \<in> set (fi_finals demo_fsm) \<or> \<not> (\<exists>!e. delta demo_fsm q' (fst e) (snd e))"
      "\<And>t. (\<And>v. accepts demo_fsm 0 v \<Longrightarrow> prefix t v) \<Longrightarrow> prefix t s"
    using jump_forward_forced [OF m p(1,2,3)] l by blast
  have no: "\<not> accepts demo_fsm 0 []" "\<not> accepts demo_fsm 1 []" by (simp_all add: demo_fsm_def)
  have "prefix [97, 98] v" if "accepts demo_fsm 0 v" for v
    using that no by (cases v; cases "tl v") (auto simp: accepts_Cons tr simp del: accepts.simps)
  then have "prefix [97, 98] s" using r(4) by blast
  then obtain z where z: "s = [97, 98] @ z" by (auto simp: prefix_def)
  obtain u u' where u: "[97, 98, 99] = s @ u" "accepts demo_fsm q' u" "[97, 98, 100] = s @ u'" "accepts demo_fsm q' u'"
    using r(2) p(3,4) by blast
  then have "[99] = z @ u" "[100] = z @ u'" by (simp_all add: z)
  then have "z = []" by (cases z) auto
  then have s: "s = [97, 98]" "u = [99]" using u by (simp_all add: z)
  then have "q' = 2" using u(2) by (auto simp: accepts_Cons tr simp del: accepts.simps)
  then show ?thesis using m r s by (auto simp: demo_fsm_def)
qed

end
