(* ===== verification/Vocab_Parallel.thy ===== *)
theory Vocab_Parallel
imports Prelude "HOL-Library.Multiset"
begin

text \<open>
  The vocabulary-parallel embedding (\<^verbatim>\<open>python/sglang/srt/layers/vocab_parallel_embedding.py\<close>): the rows of
  the embedding table are dealt out to the tensor-parallel workers in equal parts, padded to a multiple of the
  padding size, the rows that adapters add being dealt out separately.  Sizes are natural numbers, tokens
  integers, a row is a list of reals; the kernels of \<^verbatim>\<open>torch\<close> used are elementwise.
\<close>

section \<open>Shards\<close>

text \<open>\<^verbatim>\<open>divide\<close>: the layer imports it from \<^verbatim>\<open>vllm.distributed\<close>; \<^verbatim>\<open>distributed/utils.py\<close> is the
  repository's own copy of that function, which is what is translated.\<close>

definition divide :: "nat \<Rightarrow> nat \<Rightarrow> nat res" where
  "divide n d = (if d = 0 then Err ZeroDivisionError else if n mod d = 0 then Ok (n div d) else Err AssertionError)"

definition pad_vocab_size :: "nat \<Rightarrow> nat \<Rightarrow> nat" where
  "pad_vocab_size vocab_size pad_to = ((vocab_size + pad_to - 1) div pad_to) * pad_to"

definition vocab_range_from_per_partition_vocab_size :: "nat \<Rightarrow> nat \<Rightarrow> nat \<Rightarrow> nat \<times> nat" where
  "vocab_range_from_per_partition_vocab_size per rank offset =
     (let index_f = rank * per; index_l = index_f + per in (index_f + offset, index_l + offset))"

definition vocab_range_from_global_vocab_size :: "nat \<Rightarrow> nat \<Rightarrow> nat \<Rightarrow> nat \<Rightarrow> (nat \<times> nat) res" where
  "vocab_range_from_global_vocab_size n rank world offset =
     rbind (divide n world) (\<lambda>per. Ok (vocab_range_from_per_partition_vocab_size per rank offset))"

record shard =
  padded_org_start :: nat
  padded_org_end :: nat
  padded_added_start :: nat
  padded_added_end :: nat
  org_start :: nat
  org_end :: nat
  added_start :: nat
  added_end :: nat

text \<open>The properties of the class are differences; after its checks none is negative.\<close>

definition num_org_elements :: "shard \<Rightarrow> nat" where "num_org_elements s = org_end s - org_start s"
definition num_added_elements :: "shard \<Rightarrow> nat" where "num_added_elements s = added_end s - added_start s"
definition num_org_elements_padded :: "shard \<Rightarrow> nat" where "num_org_elements_padded s = padded_org_end s - padded_org_start s"
definition num_added_elements_padded :: "shard \<Rightarrow> nat" where "num_added_elements_padded s = padded_added_end s - padded_added_start s"
definition num_org_vocab_padding :: "shard \<Rightarrow> nat" where "num_org_vocab_padding s = num_org_elements_padded s - num_org_elements s"
definition num_elements_padded :: "shard \<Rightarrow> nat" where "num_elements_padded s = num_org_elements_padded s + num_added_elements_padded s"

definition shard_checks :: "shard \<Rightarrow> bool" where
  "shard_checks s \<longleftrightarrow> padded_org_start s \<le> padded_org_end s \<and> padded_added_start s \<le> padded_added_end s
     \<and> org_start s \<le> org_end s \<and> added_start s \<le> added_end s
     \<and> org_start s \<le> padded_org_start s \<and> added_start s \<le> padded_added_start s
     \<and> org_end s \<le> padded_org_end s \<and> added_end s \<le> padded_added_end s
     \<and> num_org_elements s \<le> num_org_elements_padded s \<and> num_added_elements s \<le> num_added_elements_padded s"

record vocab_cfg =
  vc_padded :: nat
  vc_org_padded :: nat
  vc_size :: nat
  vc_org :: nat
  vc_tp :: nat

definition get_indices :: "vocab_cfg \<Rightarrow> nat \<Rightarrow> shard res" where
  "get_indices c rank =
     rbind (vocab_range_from_global_vocab_size (vc_org_padded c) rank (vc_tp c) 0) (\<lambda>(ps, pe).
     rbind (vocab_range_from_global_vocab_size (vc_padded c - vc_org_padded c) rank (vc_tp c) (vc_org c)) (\<lambda>(as, ae).
     let s = \<lparr>padded_org_start = ps, padded_org_end = pe, padded_added_start = as, padded_added_end = ae,
              org_start = min ps (vc_org c), org_end = min pe (vc_org c),
              added_start = min as (vc_size c), added_end = min ae (vc_size c)\<rparr>
     in rbind (assertR (shard_checks s)) (\<lambda>_. Ok s)))"

text \<open>The constructor: a missing original size is the whole size, and a given one is at most the whole.\<close>

definition vocab_cfg_init :: "nat \<Rightarrow> nat option \<Rightarrow> nat \<Rightarrow> nat \<Rightarrow> vocab_cfg res" where
  "vocab_cfg_init num_embeddings org_num pad tp =
     (let org = (case org_num of None \<Rightarrow> num_embeddings | Some n \<Rightarrow> if n = 0 then num_embeddings else n);
          org_padded = pad_vocab_size org pad;
          padded = pad_vocab_size (org_padded + (num_embeddings - org)) pad
      in rbind (assertR (org_padded \<le> padded)) (\<lambda>_.
           Ok \<lparr>vc_padded = padded, vc_org_padded = org_padded, vc_size = num_embeddings, vc_org = org, vc_tp = tp\<rparr>))"

section \<open>Looking up\<close>

definition of_mask :: "bool \<Rightarrow> int" where "of_mask b = (if b then 1 else 0)"

definition get_masked_input_and_mask :: "shard \<Rightarrow> int \<Rightarrow> int \<times> bool" where
  "get_masked_input_and_mask s x =
     (let org_mask = (int (org_start s) \<le> x \<and> x < int (org_end s));
          added_mask = (int (added_start s) \<le> x \<and> x < int (added_end s));
          added_offset = int (added_start s) - (int (org_end s) - int (org_start s)) - int (num_org_vocab_padding s);
          valid_offset = int (org_start s) * of_mask org_mask + added_offset * of_mask added_mask;
          vocab_mask = org_mask \<or> added_mask
      in (of_mask vocab_mask * (x - valid_offset), \<not> vocab_mask))"

text \<open>Loading an unpacked weight: the shard's rows of the original vocabulary, then zeros.\<close>

definition weight_loader :: "vocab_cfg \<Rightarrow> nat \<Rightarrow> shard \<Rightarrow> real list list \<Rightarrow> real list list res" where
  "weight_loader c width s loaded =
     rbind (assertR (length loaded = vc_org c)) (\<lambda>_.
     let n = org_end s - org_start s; rows = take n (drop (org_start s) loaded)
     in Ok (rows @ replicate (num_elements_padded s - length rows) (replicate width 0)))"

definition embed_row :: "real list list \<Rightarrow> int \<Rightarrow> real list res" where
  "embed_row param x = (if 0 \<le> x \<and> nat x < length param then Ok (param ! nat x) else Err IndexError)"

definition shard_forward :: "nat \<Rightarrow> nat \<Rightarrow> shard \<Rightarrow> real list list \<Rightarrow> int list \<Rightarrow> real list list res" where
  "shard_forward tp width s param xs =
     mapR (\<lambda>x. if tp > 1
               then let (y, mask) = get_masked_input_and_mask s x
                    in rbind (embed_row param y) (\<lambda>row. Ok (if mask then replicate width 0 else row))
               else embed_row param x) xs"

text \<open>The sum over the workers, elementwise.\<close>

definition all_reduce :: "nat \<Rightarrow> nat \<Rightarrow> real list list list \<Rightarrow> real list list" where
  "all_reduce n width outs = foldr (map2 (map2 (+))) outs (replicate n (replicate width 0))"

definition embedding_forward :: "vocab_cfg \<Rightarrow> nat \<Rightarrow> real list list \<Rightarrow> int list \<Rightarrow> real list list res" where
  "embedding_forward c width loaded xs =
     rbind (mapR (\<lambda>rank. rbind (get_indices c rank) (\<lambda>s.
              rbind (weight_loader c width s loaded) (\<lambda>param. shard_forward (vc_tp c) width s param xs)))
            [0..<vc_tp c]) (\<lambda>outs.
       Ok (if vc_tp c > 1 then all_reduce (length xs) width outs else hd outs))"

section \<open>Gathered logits\<close>

definition shard_parts :: "vocab_cfg \<Rightarrow> nat \<Rightarrow> nat \<Rightarrow> (nat list \<times> nat list \<times> nat list) res" where
  "shard_parts c per rank =
     rbind (get_indices c rank) (\<lambda>s.
     let a = per * rank; n = num_org_elements s; np = num_org_elements_padded s;
         m = num_added_elements s; mp = num_added_elements_padded s
     in rbind (assertR (a + np + mp = per * (rank + 1))) (\<lambda>_.
          Ok ([a..<a + n], [a + np..<a + np + m], [a + n..<a + np] @ [a + np + m..<a + np + mp])))"

definition get_sharded_to_full_mapping :: "vocab_cfg \<Rightarrow> nat list option res" where
  "get_sharded_to_full_mapping c =
     (if vc_tp c < 2 then Ok None
      else rbind (divide (vc_padded c) (vc_tp c)) (\<lambda>per.
           rbind (mapR (shard_parts c per) [0..<vc_tp c]) (\<lambda>ps.
           let ret = concat (map fst ps) @ concat (map (fst \<circ> snd) ps) @ concat (map (snd \<circ> snd) ps)
           in rbind (assertR (length ret = vc_padded c)) (\<lambda>_. Ok (Some ret)))))"

section \<open>Which worker holds a token\<close>

text \<open>Sizes that can be dealt out: the original rows fill their part, the added ones theirs.\<close>

definition vocab_ok :: "vocab_cfg \<Rightarrow> bool" where
  "vocab_ok c \<longleftrightarrow> vc_tp c > 0 \<and> vc_tp c dvd vc_org_padded c \<and> vc_tp c dvd vc_padded c \<and> vc_org_padded c \<le> vc_padded c
     \<and> vc_org c \<le> vc_size c \<and> vc_org c \<le> vc_org_padded c \<and> vc_size c - vc_org c \<le> vc_padded c - vc_org_padded c"

definition org_part :: "vocab_cfg \<Rightarrow> nat" where "org_part c = vc_org_padded c div vc_tp c"
definition added_part :: "vocab_cfg \<Rightarrow> nat" where "added_part c = (vc_padded c - vc_org_padded c) div vc_tp c"

definition the_shard :: "vocab_cfg \<Rightarrow> nat \<Rightarrow> shard" where
  "the_shard c r =
     (let p = org_part c; q = added_part c
      in \<lparr>padded_org_start = r * p, padded_org_end = r * p + p, padded_added_start = r * q + vc_org c,
          padded_added_end = r * q + q + vc_org c, org_start = min (r * p) (vc_org c), org_end = min (r * p + p) (vc_org c),
          added_start = min (r * q + vc_org c) (vc_size c), added_end = min (r * q + q + vc_org c) (vc_size c)\<rparr>)"

lemma min_gap: "min (a + b) c - min a c \<le> (b :: nat)"
  by linarith

lemma shard_checks_the_shard: "shard_checks (the_shard c r)"
proof -
  let ?a = "r * org_part c" and ?b = "r * added_part c"
  have "min (?a + org_part c) (vc_org c) - min ?a (vc_org c) \<le> org_part c" by (rule min_gap)
  moreover have "min (?b + added_part c + vc_org c) (vc_size c) - min (?b + vc_org c) (vc_size c) \<le> added_part c"
    using min_gap [of "?b + vc_org c" "added_part c" "vc_size c"] by (simp only: add.assoc add.commute add.left_commute)
  ultimately show ?thesis
    by (simp add: shard_checks_def the_shard_def Let_def num_org_elements_def num_org_elements_padded_def
        num_added_elements_def num_added_elements_padded_def min.coboundedI1)
qed

lemma get_indices_the_shard:
  assumes "vocab_ok c"
  shows "get_indices c r = Ok (the_shard c r)"
proof -
  have "divide (vc_org_padded c) (vc_tp c) = Ok (org_part c)"
    "divide (vc_padded c - vc_org_padded c) (vc_tp c) = Ok (added_part c)"
    using assms by (simp_all add: divide_def vocab_ok_def org_part_def added_part_def dvd_diff_nat flip: dvd_eq_mod_eq_0)
  moreover have "the_shard c r = \<lparr>padded_org_start = r * org_part c, padded_org_end = r * org_part c + org_part c,
      padded_added_start = r * added_part c + vc_org c, padded_added_end = r * added_part c + added_part c + vc_org c,
      org_start = min (r * org_part c) (vc_org c), org_end = min (r * org_part c + org_part c) (vc_org c),
      added_start = min (r * added_part c + vc_org c) (vc_size c),
      added_end = min (r * added_part c + added_part c + vc_org c) (vc_size c)\<rparr>"
    by (simp add: the_shard_def Let_def)
  ultimately show ?thesis
    using shard_checks_the_shard [of c r]
    by (simp add: get_indices_def vocab_range_from_global_vocab_size_def vocab_range_from_per_partition_vocab_size_def Let_def)
qed

lemma pad_vocab_size_multiple: "pad dvd pad_vocab_size n pad"
  by (simp add: pad_vocab_size_def)

lemma pad_vocab_size_ge: "0 < pad \<Longrightarrow> n \<le> pad_vocab_size n pad"
  using div_mult_mod_eq [of "n + pad - 1" pad] mod_less_divisor [of pad "n + pad - 1"]
  unfolding pad_vocab_size_def by linarith

text \<open>The constructor deals out well when the number of workers divides the padding size.\<close>

lemma vocab_cfg_init_ok:
  assumes "0 < pad" "0 < tp" "tp dvd pad" "case org of None \<Rightarrow> True | Some n \<Rightarrow> n \<le> num"
  shows "\<exists>c. vocab_cfg_init num org pad tp = Ok c \<and> vocab_ok c \<and> vc_tp c = tp \<and> vc_size c = num"
proof -
  define o' where "o' = (case org of None \<Rightarrow> num | Some n \<Rightarrow> if n = 0 then num else n)"
  have le: "o' \<le> num" using assms(4) by (auto simp: o'_def split: option.splits)
  let ?op = "pad_vocab_size o' pad" and ?p = "pad_vocab_size (pad_vocab_size o' pad + (num - o')) pad"
  have "?op + (num - o') \<le> ?p" "o' \<le> ?op" by (rule pad_vocab_size_ge [OF assms(1)])+
  moreover have "tp dvd ?op" "tp dvd ?p" using pad_vocab_size_multiple assms(3) dvd_trans by blast+
  moreover have "?op \<le> ?p" using calculation(1) by linarith
  ultimately show ?thesis
    using assms(2) le by (auto simp: vocab_cfg_init_def o'_def [symmetric] vocab_ok_def Let_def simp del: Nat.add_diff_assoc)
qed

text \<open>The rank that holds a token and the row it is at.\<close>

definition owner :: "vocab_cfg \<Rightarrow> nat \<Rightarrow> nat" where
  "owner c x = (if x < vc_org c then x div org_part c else (x - vc_org c) div added_part c)"

definition local_row :: "vocab_cfg \<Rightarrow> nat \<Rightarrow> nat" where
  "local_row c x = (if x < vc_org c then x mod org_part c else org_part c + (x - vc_org c) mod added_part c)"

lemma parts:
  assumes "vocab_ok c"
  shows "vc_org_padded c = org_part c * vc_tp c" "vc_padded c = (org_part c + added_part c) * vc_tp c"
    "vc_org c \<le> org_part c * vc_tp c" "vc_size c \<le> vc_org c + added_part c * vc_tp c"
proof -
  show a: "vc_org_padded c = org_part c * vc_tp c" using assms by (simp add: vocab_ok_def org_part_def)
  have "vc_padded c - vc_org_padded c = added_part c * vc_tp c"
    using assms by (simp add: vocab_ok_def added_part_def dvd_diff_nat)
  then show "vc_padded c = (org_part c + added_part c) * vc_tp c" "vc_org c \<le> org_part c * vc_tp c"
    "vc_size c \<le> vc_org c + added_part c * vc_tp c"
    using assms a by (auto simp: vocab_ok_def algebra_simps)
qed

lemma shard_sizes:
  assumes "vocab_ok c"
  shows "num_org_elements_padded (the_shard c r) = org_part c" "num_added_elements_padded (the_shard c r) = added_part c"
    "num_elements_padded (the_shard c r) = org_part c + added_part c"
  by (simp_all add: the_shard_def num_org_elements_padded_def num_added_elements_padded_def num_elements_padded_def Let_def)

lemma in_block_iff:
  assumes "0 < p"
  shows "r * p \<le> x \<and> x < r * p + p \<longleftrightarrow> r = x div (p :: nat)"
proof
  assume "r * p \<le> x \<and> x < r * p + p"
  then show "r = x div p" using div_nat_eqI [of p r x] by (simp add: mult.commute)
next
  assume r: "r = x div p"
  have "x = r * p + x mod p" unfolding r by simp
  then show "r * p \<le> x \<and> x < r * p + p" using mod_less_divisor [OF assms, of x] by linarith
qed

lemma owner_less:
  assumes "vocab_ok c" "x < vc_size c"
  shows "owner c x < vc_tp c"
proof (cases "x < vc_org c")
  case True
  then have "x < vc_tp c * org_part c" using parts(3) [OF assms(1)] by (simp add: mult.commute)
  then show ?thesis using True by (simp add: owner_def less_mult_imp_div_less)
next
  case False
  then have "x - vc_org c < vc_tp c * added_part c" using parts(4) [OF assms(1)] assms(2) by (simp add: mult.commute)
  then show ?thesis using False by (simp add: owner_def less_mult_imp_div_less)
qed

text \<open>Exactly the owner's mask is off, and there the masked token is the local row.\<close>

lemma mask_spec:
  assumes c: "vocab_ok c" and x: "x < vc_size c"
  shows "get_masked_input_and_mask (the_shard c r) (int x) =
    (if r = owner c x then (int (local_row c x), False) else (0, True))"
proof -
  let ?s = "the_shard c r"
  have org: "int (org_start ?s) \<le> int x \<and> int x < int (org_end ?s) \<longleftrightarrow> x < vc_org c \<and> r = owner c x"
  proof (cases "x < vc_org c")
    case True
    then have "0 < org_part c" using parts(3) [OF c] by (cases "org_part c = 0") auto
    then show ?thesis using True in_block_iff [of "org_part c" r x]
      by (auto simp: the_shard_def Let_def owner_def min_le_iff_disj)
  qed (auto simp: the_shard_def Let_def)
  have added: "int (added_start ?s) \<le> int x \<and> int x < int (added_end ?s) \<longleftrightarrow> vc_org c \<le> x \<and> r = owner c x"
  proof (cases "x < vc_org c")
    case True
    then show ?thesis using x by (auto simp: the_shard_def Let_def)
  next
    case False
    then have "0 < added_part c" using parts(4) [OF c] x by (cases "added_part c = 0") auto
    then have "r * added_part c \<le> x - vc_org c \<and> x - vc_org c < r * added_part c + added_part c \<longleftrightarrow> r = owner c x"
      using in_block_iff [of "added_part c" r "x - vc_org c"] False by (simp add: owner_def)
    then show ?thesis using False x by (auto simp: the_shard_def Let_def min_le_iff_disj)
  qed
  show ?thesis
  proof (cases "r = owner c x")
    case False
    then show ?thesis unfolding get_masked_input_and_mask_def org added Let_def by (simp add: of_mask_def)
  next
    case True
    show ?thesis
    proof (cases "x < vc_org c")
      case lt: True
      have "x = r * org_part c + x mod org_part c" using True lt by (simp add: owner_def)
      moreover have "org_start ?s = r * org_part c"
        using calculation lt by (simp add: the_shard_def Let_def)
      ultimately have "x = org_start ?s + x mod org_part c" by simp
      then have "int x = int (org_start ?s) + int (x mod org_part c)" by (simp only: flip: of_nat_add)
      then have "int x - int (org_start ?s) = int (local_row c x)" using lt by (simp only: local_row_def if_True)
      then show ?thesis unfolding get_masked_input_and_mask_def org added Let_def using True lt by (simp add: of_mask_def)
    next
      case ge: False
      have y: "x - vc_org c = r * added_part c + (x - vc_org c) mod added_part c" using True ge by (simp add: owner_def)
      then have st: "added_start ?s = r * added_part c + vc_org c" using ge x by (simp add: the_shard_def Let_def)
      have "x = added_start ?s + (x - vc_org c) mod added_part c" using y ge st by simp
      then have xi: "int x = int (added_start ?s) + int ((x - vc_org c) mod added_part c)" by (simp only: flip: of_nat_add)
      have "num_org_elements ?s \<le> num_org_elements_padded ?s"
        using shard_checks_the_shard [of c r] by (simp add: shard_checks_def)
      then have "(int (org_end ?s) - int (org_start ?s)) + int (num_org_vocab_padding ?s) = int (org_part c)"
        using shard_checks_the_shard [of c r]
        by (simp add: num_org_vocab_padding_def num_org_elements_def shard_sizes [OF c] shard_checks_def)
      then have "int x - (int (added_start ?s) - (int (org_end ?s) - int (org_start ?s)) - int (num_org_vocab_padding ?s))
          = int (local_row c x)"
        using xi ge by (simp add: local_row_def)
      then show ?thesis unfolding get_masked_input_and_mask_def org added Let_def using True ge by (simp add: of_mask_def)
    qed
  qed
qed

section \<open>The sharded lookup is the lookup\<close>

definition shard_param :: "vocab_cfg \<Rightarrow> nat \<Rightarrow> nat \<Rightarrow> real list list \<Rightarrow> real list list" where
  "shard_param c width r loaded =
     (let s = the_shard c r; rows = take (org_end s - org_start s) (drop (org_start s) loaded)
      in rows @ replicate (org_part c + added_part c - length rows) (replicate width 0))"

lemma shard_param_row:
  assumes c: "vocab_ok c" and l: "length loaded = vc_org c"
  shows "weight_loader c width (the_shard c r) loaded = Ok (shard_param c width r loaded)"
    "length (shard_param c width r loaded) = org_part c + added_part c"
    "x < vc_org c \<Longrightarrow> r = owner c x \<Longrightarrow> local_row c x < org_part c + added_part c
       \<and> shard_param c width r loaded ! local_row c x = loaded ! x"
proof -
  let ?s = "the_shard c r"
  let ?rows = "take (org_end ?s - org_start ?s) (drop (org_start ?s) loaded)"
  have bound: "org_end ?s - org_start ?s \<le> org_part c" "org_end ?s \<le> vc_org c"
    using min_gap [of "r * org_part c" "org_part c" "vc_org c"] by (simp_all add: the_shard_def Let_def)
  then have len: "length ?rows = org_end ?s - org_start ?s" by (simp add: l)
  show "weight_loader c width ?s loaded = Ok (shard_param c width r loaded)"
    by (simp add: weight_loader_def shard_param_def Let_def l shard_sizes [OF c])
  show "length (shard_param c width r loaded) = org_part c + added_part c"
    using len bound by (simp add: shard_param_def Let_def)
  assume x: "x < vc_org c" "r = owner c x"
  then have r: "r = x div org_part c" by (simp add: owner_def)
  have p: "0 < org_part c" using x(1) parts(3) [OF c] by (cases "org_part c = 0") auto
  have xe: "x = r * org_part c + x mod org_part c" unfolding r by simp
  have loc: "local_row c x = x mod org_part c" using x(1) by (simp add: local_row_def)
  have st: "org_start ?s = r * org_part c" using xe x(1) by (simp add: the_shard_def Let_def)
  have "x < org_end ?s" using in_block_iff [OF p, of r x] r x(1) by (simp add: the_shard_def Let_def)
  then have lt: "local_row c x < length ?rows" unfolding len loc using xe st by linarith
  have "?rows ! local_row c x = loaded ! x"
    using lt xe loc st l x(1) by simp
  then show "local_row c x < org_part c + added_part c \<and> shard_param c width r loaded ! local_row c x = loaded ! x"
    using lt len bound(1) by (simp add: shard_param_def Let_def nth_append)
qed

definition part_row :: "vocab_cfg \<Rightarrow> nat \<Rightarrow> real list list \<Rightarrow> nat \<Rightarrow> int \<Rightarrow> real list" where
  "part_row c width loaded r x = (if r = owner c (nat x) then loaded ! nat x else replicate width 0)"

lemma shard_forward_parts:
  assumes c: "vocab_ok c" and l: "length loaded = vc_org c" and tp: "1 < vc_tp c"
    and xs: "\<forall>x \<in> set xs. 0 \<le> x \<and> x < int (vc_org c)"
  shows "shard_forward (vc_tp c) width (the_shard c r) (shard_param c width r loaded) xs
    = Ok (map (part_row c width loaded r) xs)"
proof -
  have "(let (y, mask) = get_masked_input_and_mask (the_shard c r) x
         in rbind (embed_row (shard_param c width r loaded) y) (\<lambda>row. Ok (if mask then replicate width 0 else row)))
      = Ok (part_row c width loaded r x)" if "x \<in> set xs" for x
  proof -
    have x: "nat x < vc_org c" "int (nat x) = x" using xs that by auto
    then have sz: "nat x < vc_size c" using c by (simp add: vocab_ok_def)
    have "0 < org_part c" using x(1) parts(3) [OF c] by (cases "org_part c = 0") auto
    then show ?thesis
      using mask_spec [OF c sz, of r, unfolded x(2)] shard_param_row(3) [OF c l x(1), of r width]
      by (auto simp: part_row_def embed_row_def shard_param_row(2) [OF c l])
  qed
  then show ?thesis using tp
    by (auto simp: shard_forward_def mapR_Ok_iff list_all2_conv_all_nth)
qed

lemma foldr_rows:
  "foldr (map2 f) (map (\<lambda>r. map (g r) xs) rs) (map z xs) = map (\<lambda>x. foldr f (map (\<lambda>r. g r x) rs) (z x)) xs"
  by (induction rs) (simp_all add: map2_map_map)

lemma one_row_sums:
  assumes "distinct rs" "length row = width"
  shows "foldr (map2 (+)) (map (\<lambda>r. if r = k then row else replicate width (0 :: real)) rs) (replicate width 0)
    = (if k \<in> set rs then row else replicate width 0)"
  using assms(1)
proof (induction rs)
  case (Cons r rs)
  have "map2 (+) (replicate width 0) row = row" "map2 (+) row (replicate width 0) = row"
    "map2 (+) (replicate width 0) (replicate width (0 :: real)) = replicate width 0"
    using assms(2) by (simp_all add: list_eq_iff_nth_eq)
  then show ?case using Cons by auto
qed simp

text \<open>C32: The vocabulary-parallel lookup is the lookup: for every number of workers among whom the table can be
  dealt out, masking, looking up in the local shard and summing over the workers gives for each token of the
  original vocabulary exactly its row of the loaded table.\<close>

theorem vocab_parallel_embedding_equiv:
  assumes c: "vocab_ok c" and l: "length loaded = vc_org c" "\<forall>row \<in> set loaded. length row = width"
    and xs: "\<forall>x \<in> set xs. 0 \<le> x \<and> x < int (vc_org c)"
  shows "embedding_forward c width loaded xs = Ok (map (\<lambda>x. loaded ! nat x) xs)"
proof (cases "1 < vc_tp c")
  case True
  have "mapR (\<lambda>rank. rbind (get_indices c rank) (\<lambda>s. rbind (weight_loader c width s loaded) (\<lambda>param.
            shard_forward (vc_tp c) width s param xs))) [0..<vc_tp c]
      = Ok (map (\<lambda>r. map (part_row c width loaded r) xs) [0..<vc_tp c])"
    by (simp add: mapR_Ok_iff list_all2_conv_all_nth get_indices_the_shard [OF c] shard_param_row(1) [OF c l(1)]
        shard_forward_parts [OF c l(1) True xs])
  moreover have "all_reduce (length xs) width (map (\<lambda>r. map (part_row c width loaded r) xs) [0..<vc_tp c])
      = map (\<lambda>x. loaded ! nat x) xs"
  proof -
    have "foldr (map2 (+)) (map (\<lambda>r. part_row c width loaded r x) [0..<vc_tp c]) (replicate width 0) = loaded ! nat x"
      if "x \<in> set xs" for x
    proof -
      have x: "nat x < vc_org c" using xs that by auto
      then have "length (loaded ! nat x) = width" "owner c (nat x) < vc_tp c"
        using l owner_less [OF c, of "nat x"] c by (simp_all add: vocab_ok_def)
      then show ?thesis using one_row_sums [of "[0..<vc_tp c]" "loaded ! nat x" width "owner c (nat x)"]
        by (simp add: part_row_def)
    qed
    then show ?thesis
      unfolding all_reduce_def map_replicate_const [symmetric] foldr_rows by (simp add: map_replicate_const)
  qed
  ultimately show ?thesis using True by (simp add: embedding_forward_def)
next
  case False
  then have tp: "vc_tp c = 1" using c by (simp add: vocab_ok_def)
  have "shard_forward (vc_tp c) width (the_shard c 0) (shard_param c width 0 loaded) xs = Ok (map (\<lambda>x. loaded ! nat x) xs)"
  proof -
    have "embed_row (shard_param c width 0 loaded) x = Ok (loaded ! nat x)" if "x \<in> set xs" for x
    proof -
      have x: "nat x < vc_org c" "0 \<le> x" using xs that by auto
      have "owner c (nat x) = 0" using owner_less [OF c, of "nat x"] x(1) c tp by (simp add: vocab_ok_def)
      moreover have "nat x < org_part c" using x(1) parts(3) [OF c] tp by simp
      ultimately show ?thesis
        using shard_param_row(3) [OF c l(1) x(1), of 0 width] x
        by (simp add: embed_row_def shard_param_row(2) [OF c l(1)] local_row_def)
    qed
    then show ?thesis by (simp add: shard_forward_def tp mapR_Ok_iff list_all2_conv_all_nth)
  qed
  then show ?thesis
    by (simp add: embedding_forward_def tp get_indices_the_shard [OF c] shard_param_row(1) [OF c l(1)])
qed

section \<open>Gathered logits are indexed by token\<close>

lemma nth_concat_block:
  assumes "k < n" "length (concat (map f [0..<k])) = s" "l < length (f k)"
  shows "concat (map f [0..<n]) ! (s + l) = f k ! l"
proof -
  have "[0..<n] = [0..<k] @ k # [Suc k..<n]"
    using assms(1) by (metis le_add_diff_inverse less_imp_le_nat upt_add_eq_append upt_conv_Cons zero_le)
  then have "concat (map f [0..<n]) = concat (map f [0..<k]) @ f k @ concat (map f [Suc k..<n])" by simp
  then show ?thesis using assms(2,3) by (simp add: nth_append)
qed

definition base_part :: "vocab_cfg \<Rightarrow> nat \<Rightarrow> nat list" where
  "base_part c r = (let a = r * (org_part c + added_part c) in [a..<a + num_org_elements (the_shard c r)])"

definition more_part :: "vocab_cfg \<Rightarrow> nat \<Rightarrow> nat list" where
  "more_part c r = (let a = r * (org_part c + added_part c) + org_part c in [a..<a + num_added_elements (the_shard c r)])"

definition pad_part :: "vocab_cfg \<Rightarrow> nat \<Rightarrow> nat list" where
  "pad_part c r = (let a = r * (org_part c + added_part c); p = org_part c
     in [a + num_org_elements (the_shard c r)..<a + p] @ [a + p + num_added_elements (the_shard c r)..<a + p + added_part c])"

lemma shard_parts_Ok:
  assumes "vocab_ok c"
  shows "shard_parts c (org_part c + added_part c) r = Ok (base_part c r, more_part c r, pad_part c r)"
  by (simp add: shard_parts_def get_indices_the_shard [OF assms] shard_sizes [OF assms] Let_def base_part_def more_part_def
      pad_part_def algebra_simps)

lemma shard_counts:
  assumes "vocab_ok c"
  shows "num_org_elements (the_shard c r) = min (Suc r * org_part c) (vc_org c) - min (r * org_part c) (vc_org c)"
    "num_org_elements (the_shard c r) \<le> org_part c"
    "num_added_elements (the_shard c r) = min (Suc r * added_part c + vc_org c) (vc_size c) - min (r * added_part c + vc_org c) (vc_size c)"
    "num_added_elements (the_shard c r) \<le> added_part c"
proof -
  show "num_org_elements (the_shard c r) = min (Suc r * org_part c) (vc_org c) - min (r * org_part c) (vc_org c)"
    "num_added_elements (the_shard c r) = min (Suc r * added_part c + vc_org c) (vc_size c) - min (r * added_part c + vc_org c) (vc_size c)"
    by (simp_all add: the_shard_def num_org_elements_def num_added_elements_def Let_def add.commute)
  show "num_org_elements (the_shard c r) \<le> org_part c" "num_added_elements (the_shard c r) \<le> added_part c"
    using shard_checks_the_shard [of c r] by (simp_all add: shard_checks_def shard_sizes [OF assms])
qed

lemma parts_length:
  assumes "vocab_ok c"
  shows "length (concat (map (base_part c) [0..<k])) = min (k * org_part c) (vc_org c)"
    "length (concat (map (more_part c) [0..<k])) = min (k * added_part c + vc_org c) (vc_size c) - vc_org c"
proof -
  show "length (concat (map (base_part c) [0..<k])) = min (k * org_part c) (vc_org c)"
  proof (induction k)
    case (Suc k)
    have "min (k * org_part c) (vc_org c) \<le> min (Suc k * org_part c) (vc_org c)" by (intro min.mono) simp_all
    then show ?case using Suc by (simp add: base_part_def Let_def shard_counts(1) [OF assms])
  qed simp
  show "length (concat (map (more_part c) [0..<k])) = min (k * added_part c + vc_org c) (vc_size c) - vc_org c"
  proof (induction k)
    case 0
    show ?case by simp
  next
    case (Suc k)
    have "vc_org c \<le> vc_size c" using assms by (simp add: vocab_ok_def)
    then have "min (k * added_part c + vc_org c) (vc_size c) \<le> min (Suc k * added_part c + vc_org c) (vc_size c)"
      "vc_org c \<le> min (k * added_part c + vc_org c) (vc_size c)"
      by (auto intro: min.mono)
    then show ?case using Suc by (simp add: more_part_def Let_def shard_counts(3) [OF assms])
  qed
qed

lemma upt_split: "i \<le> j \<Longrightarrow> j \<le> k \<Longrightarrow> mset [i..<k] = mset [i..<j] + mset [j..<k]"
  by (metis le_add_diff_inverse mset_append upt_add_eq_append)

lemma parts_cover:
  assumes "vocab_ok c"
  shows "mset (concat (map (base_part c) [0..<k])) + mset (concat (map (more_part c) [0..<k]))
      + mset (concat (map (pad_part c) [0..<k])) = mset [0..<k * (org_part c + added_part c)]"
proof (induction k)
  case (Suc k)
  let ?a = "k * (org_part c + added_part c)" and ?n = "num_org_elements (the_shard c k)" and ?m = "num_added_elements (the_shard c k)"
  note le = shard_counts(2,4) [OF assms, of k]
  have "mset [0..<Suc k * (org_part c + added_part c)] = mset [0..<?a] + mset [?a..<?a + org_part c + added_part c]"
    by (subst upt_split [of 0 ?a]) (simp_all add: algebra_simps)
  also have "mset [?a..<?a + org_part c + added_part c]
      = mset [?a..<?a + ?n] + mset [?a + ?n..<?a + org_part c] + (mset [?a + org_part c..<?a + org_part c + ?m]
        + mset [?a + org_part c + ?m..<?a + org_part c + added_part c])"
  proof -
    have "mset [?a..<?a + org_part c + added_part c] = mset [?a..<?a + org_part c] + mset [?a + org_part c..<?a + org_part c + added_part c]"
      "mset [?a..<?a + org_part c] = mset [?a..<?a + ?n] + mset [?a + ?n..<?a + org_part c]"
      "mset [?a + org_part c..<?a + org_part c + added_part c]
        = mset [?a + org_part c..<?a + org_part c + ?m] + mset [?a + org_part c + ?m..<?a + org_part c + added_part c]"
      using le by (simp_all only: upt_split add_le_cancel_left le_add1)
    then show ?thesis by (simp only:)
  qed
  finally have e: "mset [0..<Suc k * (org_part c + added_part c)]
      = mset [0..<?a] + (mset (base_part c k) + mset (more_part c k) + mset (pad_part c k))"
    by (simp only: base_part_def more_part_def pad_part_def Let_def mset_append ac_simps)
  have s: "mset (concat (map f [0..<Suc k])) = mset (concat (map f [0..<k])) + mset (f k)" for f :: "nat \<Rightarrow> nat list" by simp
  show ?case unfolding e s Suc [symmetric] by (simp only: ac_simps)
qed simp

definition full_mapping :: "vocab_cfg \<Rightarrow> nat list" where
  "full_mapping c = concat (map (base_part c) [0..<vc_tp c]) @ concat (map (more_part c) [0..<vc_tp c])
     @ concat (map (pad_part c) [0..<vc_tp c])"

lemma full_mapping_mset: "vocab_ok c \<Longrightarrow> mset (full_mapping c) = mset [0..<vc_padded c]"
  using parts_cover [of c "vc_tp c"] parts(2) [of c]
  by (simp only: full_mapping_def mset_append mult.commute add.assoc)

lemma mapping_is_full:
  assumes c: "vocab_ok c" and tp: "2 \<le> vc_tp c"
  shows "get_sharded_to_full_mapping c = Ok (Some (full_mapping c))"
proof -
  have d: "divide (vc_padded c) (vc_tp c) = Ok (org_part c + added_part c)"
    using parts(2) [OF c] tp by (simp add: divide_def)
  have "mapR (shard_parts c (org_part c + added_part c)) [0..<vc_tp c]
      = Ok (map (\<lambda>r. (base_part c r, more_part c r, pad_part c r)) [0..<vc_tp c])"
    by (simp add: mapR_Ok_iff list_all2_conv_all_nth shard_parts_Ok [OF c])
  moreover have "length (full_mapping c) = vc_padded c"
    using arg_cong [OF full_mapping_mset [OF c], of size] by simp
  ultimately show ?thesis
    using tp by (simp add: get_sharded_to_full_mapping_def d full_mapping_def Let_def o_def)
qed

lemma full_mapping_at:
  assumes c: "vocab_ok c" and x: "x < vc_size c"
  shows "full_mapping c ! x = owner c x * (org_part c + added_part c) + local_row c x"
proof -
  let ?r = "owner c x"
  have r: "?r < vc_tp c" by (rule owner_less [OF c x])
  have bl: "length (concat (map (base_part c) [0..<vc_tp c])) = vc_org c"
    using parts_length(1) [OF c, of "vc_tp c"] parts(3) [OF c] by (simp add: mult.commute)
  show ?thesis
  proof (cases "x < vc_org c")
    case True
    then have p: "0 < org_part c" using parts(3) [OF c] by (cases "org_part c = 0") auto
    have xe: "x = ?r * org_part c + x mod org_part c" using True by (simp add: owner_def)
    have pre: "length (concat (map (base_part c) [0..<?r])) = ?r * org_part c"
      using parts_length(1) [OF c, of ?r] xe True by simp
    have "x mod org_part c < num_org_elements (the_shard c ?r)"
      using xe True mod_less_divisor [OF p, of x] by (simp add: shard_counts(1) [OF c])
    then have l: "x mod org_part c < length (base_part c ?r)" by (simp add: base_part_def Let_def)
    have "concat (map (base_part c) [0..<vc_tp c]) ! x = base_part c ?r ! (x mod org_part c)"
      using nth_concat_block [OF r pre l] xe by simp
    then show ?thesis using True bl l by (simp add: full_mapping_def nth_append base_part_def Let_def local_row_def)
  next
    case False
    let ?y = "x - vc_org c"
    have q: "0 < added_part c" using parts(4) [OF c] x False by (cases "added_part c = 0") auto
    have ye: "?y = ?r * added_part c + ?y mod added_part c" using False by (simp add: owner_def)
    have pre: "length (concat (map (more_part c) [0..<?r])) = ?r * added_part c"
      using parts_length(2) [OF c, of ?r] ye x False by simp
    have "?y mod added_part c < num_added_elements (the_shard c ?r)"
      using ye x False mod_less_divisor [OF q, of ?y] by (simp add: shard_counts(3) [OF c])
    then have l: "?y mod added_part c < length (more_part c ?r)" by (simp add: more_part_def Let_def)
    have "concat (map (more_part c) [0..<vc_tp c]) ! ?y = more_part c ?r ! (?y mod added_part c)"
      using nth_concat_block [OF r pre l] ye by simp
    moreover have "?y < length (concat (map (more_part c) [0..<vc_tp c]))"
      using parts_length(2) [OF c, of "vc_tp c"] parts(4) [OF c] x False by (simp add: mult.commute)
    ultimately show ?thesis
      using False bl l by (simp add: full_mapping_def nth_append more_part_def Let_def local_row_def)
  qed
qed

text \<open>The reindexing of gathered logits fits the sharding: with two or more workers the mapping exists and is
  a permutation of all gathered positions, and for every token, original or added, exactly one worker's mask is
  off, and the mapping sends the token to the position of that worker's local row in the gathered tensor.\<close>

theorem sharded_mapping_inverts:
  assumes c: "vocab_ok c" and tp: "2 \<le> vc_tp c"
  shows "\<exists>ret. get_sharded_to_full_mapping c = Ok (Some ret) \<and> mset ret = mset [0..<vc_padded c]
    \<and> (\<forall>x < vc_size c. \<exists>r < vc_tp c. \<exists>s. get_indices c r = Ok s \<and> \<not> snd (get_masked_input_and_mask s (int x))
        \<and> ret ! x = r * (vc_padded c div vc_tp c) + nat (fst (get_masked_input_and_mask s (int x)))
        \<and> (\<forall>r' < vc_tp c. r' \<noteq> r \<longrightarrow> (\<forall>s'. get_indices c r' = Ok s' \<longrightarrow> snd (get_masked_input_and_mask s' (int x)))))"
proof -
  have "vc_padded c div vc_tp c = org_part c + added_part c" using parts(2) [OF c] tp by simp
  moreover have "\<exists>r < vc_tp c. \<exists>s. get_indices c r = Ok s \<and> \<not> snd (get_masked_input_and_mask s (int x))
        \<and> full_mapping c ! x = r * (org_part c + added_part c) + nat (fst (get_masked_input_and_mask s (int x)))
        \<and> (\<forall>r' < vc_tp c. r' \<noteq> r \<longrightarrow> (\<forall>s'. get_indices c r' = Ok s' \<longrightarrow> snd (get_masked_input_and_mask s' (int x))))"
    if "x < vc_size c" for x
    using owner_less [OF c that] full_mapping_at [OF c that] mask_spec [OF c that]
    by (intro exI [of _ "owner c x"] conjI exI [of _ "the_shard c (owner c x)"])
      (simp_all add: get_indices_the_shard [OF c])
  ultimately show ?thesis
    using mapping_is_full [OF c tp] full_mapping_mset [OF c] by simp
qed

section \<open>The properties on a small table\<close>

definition demo_vocab :: vocab_cfg where
  "demo_vocab = \<lparr>vc_padded = 8, vc_org_padded = 4, vc_size = 5, vc_org = 3, vc_tp = 2\<rparr>"

lemma demo_vocab_ok: "vocab_ok demo_vocab" "vc_tp demo_vocab = 2" "vocab_cfg_init 5 (Some 3) 4 2 = Ok demo_vocab"
  by (simp_all add: vocab_ok_def demo_vocab_def vocab_cfg_init_def pad_vocab_size_def)

theorem vocab_parallel_embedding_equiv_witness:
  "embedding_forward demo_vocab 1 [[5], [6], [7]] [2, 0, 1] = Ok [[7], [5], [6]]"
proof -
  have l: "length [[5], [6], [7 :: real]] = vc_org demo_vocab" "\<forall>row \<in> set [[5], [6], [7 :: real]]. length row = 1"
    and x: "\<forall>x \<in> set [2, 0, 1 :: int]. 0 \<le> x \<and> x < int (vc_org demo_vocab)"
    by (simp_all add: demo_vocab_def)
  show ?thesis using vocab_parallel_embedding_equiv [OF demo_vocab_ok(1) l x] by simp
qed

theorem sharded_mapping_inverts_witness:
  "get_sharded_to_full_mapping demo_vocab = Ok (Some [0, 1, 4, 2, 3, 5, 6, 7])
   \<and> mset [0, 1, 4, 2, 3, 5, 6, 7] = mset [0..<8]"
proof -
  have "2 \<le> vc_tp demo_vocab" by (simp add: demo_vocab_ok)
  from sharded_mapping_inverts [OF demo_vocab_ok(1) this]
  obtain ret where r: "get_sharded_to_full_mapping demo_vocab = Ok (Some ret)" "mset ret = mset [0..<8]"
    by (auto simp: demo_vocab_def)
  have "get_sharded_to_full_mapping demo_vocab = Ok (Some [0, 1, 4, 2, 3, 5, 6, 7])" by code_simp
  then show ?thesis using r by simp
qed

end
