(* ===== verification/Intake.thy ===== *)
theory Intake
imports Scheduler_Steps Dynamic_Chunk
begin

text \<open>
  How requests reach the scheduler (\<^verbatim>\<open>process_input_requests\<close> and the handlers it calls in
  \<^verbatim>\<open>python/sglang/srt/managers/scheduler.py\<close>) and the sessions that continue earlier requests
  (\<^verbatim>\<open>python/sglang/srt/managers/session_controller.py\<close>).  A session is the list of the identities of its
  requests, in the store of the scheduler.  The multimodal preprocessor and the grammar backend are arguments.
\<close>

section \<open>State\<close>

record 'd generate_input =
  gi_rid :: string
  gi_text :: "pystr option"
  gi_ids :: "int list"
  gi_image :: "'d option"
  gi_params :: sampling_params
  gi_return_logprob :: bool
  gi_logprob_start :: int
  gi_top_logprobs :: nat
  gi_stream :: bool
  gi_arrival :: "real option"
  gi_lora :: "string option"
  gi_embeds :: "real list list option"
  gi_session :: "string option"
  gi_session_rid :: "string option"

text \<open>\<open>ic_image\<close> expands the image tokens and gives the number of image tokens of the result; the backend finds
  a grammar in its cache or starts to build it.\<close>

record ('g, 'd) intake_cfg =
  ic_tokenizer :: "tokenizer option"
  ic_max_req_len :: int
  ic_max_input_len :: int
  ic_overlap :: bool
  ic_first_rank :: bool
  ic_chunk_orig :: "int option"
  ic_slo_ttft :: real
  ic_profiler :: bool
  ic_image :: "int list \<Rightarrow> 'd \<Rightarrow> int list \<times> nat option"
  ic_backend :: "((string \<times> pystr \<Rightarrow> 'g option) \<times> (string \<times> pystr \<Rightarrow> 'g)) option"

record ('g, 'm, 'c) intake =
  in_sched :: "('g, 'm, 'c) scheduler"
  in_sessions :: "string \<rightharpoonup> nat list"
  in_qps :: "nat list"
  in_next :: nat
  in_monitor :: monitor
  in_ttft :: real
  in_dc :: dc
  in_start :: real

text \<open>A queue bounded at 10000 entries drops the oldest.\<close>

definition qps_append :: "nat \<Rightarrow> nat list \<Rightarrow> nat list" where
  "qps_append i q = (let q = q @ [i] in drop (length q - 10000) q)"

definition enqueue :: "'g req \<Rightarrow> ('g, 'm, 'c) intake \<Rightarrow> ('g, 'm, 'c) intake" where
  "enqueue r st = st\<lparr>in_sched := (put_req r (in_sched st))\<lparr>sh_wait := sh_wait (in_sched st) @ [oid r]\<rparr>,
                     in_qps := qps_append (oid r) (in_qps st)\<rparr>"

definition enqueue_grammar :: "'g req \<Rightarrow> ('g, 'm, 'c) intake \<Rightarrow> ('g, 'm, 'c) intake" where
  "enqueue_grammar r st =
     (let s = in_sched st
      in st\<lparr>in_sched := (put_req r s)\<lparr>sh_gq := (sh_gq s)[sh_cur s := sh_gq s ! sh_cur s @ [oid r]]\<rparr>\<rparr>)"

section \<open>Sessions\<close>

text \<open>The requests after the one named are dropped; all of them when it is not there.\<close>

fun back_to :: "(nat \<Rightarrow> 'g req) \<Rightarrow> string \<Rightarrow> nat list \<Rightarrow> nat list" where
  "back_to h r [] = []"
| "back_to h r (i # is) = (let js = back_to h r is in if js \<noteq> [] then i # js else if rid (h i) = r then [i] else [])"

definition history :: "(nat \<Rightarrow> 'g req) \<Rightarrow> string option \<Rightarrow> nat list \<Rightarrow> nat list" where
  "history h target is = (case target of None \<Rightarrow> [] | Some r \<Rightarrow> back_to h r is)"

definition answered :: "'g req \<Rightarrow> int list" where
  "answered r = (case max_new_tokens (params r) of None \<Rightarrow> output_ids r | Some m \<Rightarrow> py_take (output_ids r) m)"

definition create_req ::
  "nat \<Rightarrow> real \<Rightarrow> tokenizer option \<Rightarrow> string \<Rightarrow> 'd generate_input \<Rightarrow> (nat \<Rightarrow> 'g req) \<Rightarrow> nat list \<Rightarrow> 'g req \<times> nat list" where
  "create_req new now tok sid g h is =
     (let is = history h (gi_session_rid g) is;
          ids = (if is = [] then gi_ids g else origin_input_ids (h (last is)) @ answered (h (last is)) @ gi_ids g);
          unpadded = (if is = [] then gi_ids g else origin_input_ids_unpadded (h (last is)) @ answered (h (last is)) @ gi_ids g);
          r = req_init new now (gi_rid g) None ids (gi_params g) False 0 False (Some unpadded) (gi_lora g) None (Some sid)
                False True None;
          r = (if is = [] then r else r\<lparr>image_inputs := image_inputs (h (last is))\<rparr>);
          r = r\<lparr>tokenizer_of := tok\<rparr>
      in if gi_session_rid g \<noteq> None \<and> is = [] then (r\<lparr>finished_reason := Some FINISH_ABORT\<rparr>, is)
         else (r, is @ [new]))"

section \<open>The handlers\<close>

definition plain_req :: "('g, 'd) intake_cfg \<Rightarrow> nat \<Rightarrow> real \<Rightarrow> 'd generate_input \<Rightarrow> 'g req" where
  "plain_req c new now g =
     (let ids = (case gi_embeds g of None \<Rightarrow> gi_ids g | Some e \<Rightarrow> replicate (length e) 1)
      in (req_init new now (gi_rid g) (gi_text g) ids (gi_params g) (gi_return_logprob g) (gi_top_logprobs g) (gi_stream g)
            None (gi_lora g) (gi_embeds g) None (ic_overlap c) (ic_first_rank c) (gi_arrival g))\<lparr>tokenizer_of := ic_tokenizer c\<rparr>)"

definition set_max_new :: "int \<Rightarrow> 'g req \<Rightarrow> 'g req" where
  "set_max_new n r = r\<lparr>params := (params r)\<lparr>max_new_tokens := Some n\<rparr>\<rparr>"

text \<open>Expanding the images; the result is aborted when it is too long.  Of the image inputs only the number of image
  tokens is kept, which the scheduler reads; merging new images into those of a session leaves it as it is.  The
  assertion of the merge, that the pixel arrays have the same shape, is not modelled.\<close>

definition take_images :: "('g, 'd) intake_cfg \<Rightarrow> 'd generate_input \<Rightarrow> 'g req \<Rightarrow> bool \<times> 'g req" where
  "take_images c g r = (case gi_image g of
      None \<Rightarrow> (True, r)
    | Some d \<Rightarrow>
        let (ids, n) = ic_image c (origin_input_ids r) d;
            r = r\<lparr>origin_input_ids := ids, image_inputs := (case image_inputs r of None \<Rightarrow> Some n | Some k \<Rightarrow> Some k)\<rparr>
        in if int (length ids) \<ge> ic_max_input_len c
           then (False, set_max_new 0 (r\<lparr>origin_input_ids := [0], image_inputs := None, finished_reason := Some FINISH_ABORT\<rparr>))
           else (True, r))"

definition fit_limits :: "('g, 'd) intake_cfg \<Rightarrow> 'd generate_input \<Rightarrow> int list \<Rightarrow> 'g req \<Rightarrow> 'g req" where
  "fit_limits c g given r =
     (let r = r\<lparr>logprob_start_len := (if gi_logprob_start g = -1 then int (length given) - 1 else gi_logprob_start g)\<rparr>;
          r = (if int (length (origin_input_ids r)) > ic_max_input_len c
               then r\<lparr>origin_input_ids := py_take (origin_input_ids r) (ic_max_input_len c)\<rparr> else r)
      in set_max_new (min (case max_new_tokens (params r) of None \<Rightarrow> 2 ^ 30 | Some m \<Rightarrow> m)
                       (ic_max_req_len c - int (length (origin_input_ids r)) - 1)) r)"

text \<open>The flag says whether the grammar must still be built.\<close>

definition find_grammar :: "('g, 'd) intake_cfg \<Rightarrow> 'g req \<Rightarrow> (bool \<times> 'g req) res" where
  "find_grammar c r =
     (if json_schema (params r) = None \<and> regex (params r) = None then Ok (False, r)
      else case ic_backend c of
        None \<Rightarrow> Err AssertionError
      | Some (cached, future) \<Rightarrow>
          let key = (case json_schema (params r) of Some j \<Rightarrow> (''json'', j)
                     | None \<Rightarrow> (''regex'', case regex (params r) of None \<Rightarrow> [] | Some x \<Rightarrow> x))
          in Ok (case cached key of
                   Some gr \<Rightarrow> (False, r\<lparr>grammar := Some gr\<rparr>)
                 | None \<Rightarrow> (True, r\<lparr>grammar := Some (future key)\<rparr>)))"

definition accept_req ::
  "('g, 'd) intake_cfg \<Rightarrow> 'd generate_input \<Rightarrow> int list \<Rightarrow> 'g req \<Rightarrow> ('g, 'm, 'c) intake \<Rightarrow> ('g, 'm, 'c) intake res" where
  "accept_req c g given r st =
     (let (ok, r) = take_images c g r
      in if \<not> ok then Ok (enqueue r st)
         else rbind (find_grammar c (fit_limits c g given r)) (\<lambda>(building, r).
                Ok (if building then enqueue_grammar r st else enqueue r st)))"

text \<open>The identity of the new request is taken from a counter.  The input ids of a request with embeddings
  are replaced before its limits are computed.\<close>

definition handle_generate_request ::
  "('g, 'd) intake_cfg \<Rightarrow> real \<Rightarrow> 'd generate_input \<Rightarrow> ('g, 'm, 'c) intake \<Rightarrow> ('g, 'm, 'c) intake res" where
  "handle_generate_request c now g st =
     (let i = in_next st; st = st\<lparr>in_next := Suc i\<rparr>
      in case (case gi_session g of None \<Rightarrow> None | Some sid \<Rightarrow> map_option (Pair sid) (in_sessions st sid)) of
           None \<Rightarrow>
             let r = plain_req c i now g
             in if gi_session g \<noteq> None then Ok (enqueue (r\<lparr>finished_reason := Some FINISH_ABORT\<rparr>) st)
                else accept_req c g (origin_input_ids r) r st
         | Some (sid, is) \<Rightarrow>
             let (r, is) = create_req i now (ic_tokenizer c) sid g (sh_objs (in_sched st)) is;
                 st = st\<lparr>in_sessions := (in_sessions st)(sid \<mapsto> is)\<rparr>
             in if finished_reason r = Some FINISH_ABORT then Ok (enqueue r st) else accept_req c g (gi_ids g) r st)"

definition embedding_req :: "('g, 'd) intake_cfg \<Rightarrow> nat \<Rightarrow> real \<Rightarrow> 'd generate_input \<Rightarrow> 'g req" where
  "embedding_req c new now g =
     (let r = (req_init new now (gi_rid g) (gi_text g) (gi_ids g) (gi_params g) False 0 False None None None None False True
                 (gi_arrival g))\<lparr>tokenizer_of := ic_tokenizer c\<rparr>
      in if int (length (origin_input_ids r)) \<ge> ic_max_input_len c
         then r\<lparr>origin_input_ids := py_take (origin_input_ids r) (ic_max_input_len c)\<rparr> else r)"

definition handle_embedding_request ::
  "('g, 'd) intake_cfg \<Rightarrow> real \<Rightarrow> 'd generate_input \<Rightarrow> ('g, 'm, 'c) intake \<Rightarrow> ('g, 'm, 'c) intake" where
  "handle_embedding_request c now g st =
     (let i = in_next st; s = in_sched st
      in st\<lparr>in_next := Suc i, in_sched := (put_req (embedding_req c i now g) s)\<lparr>sh_wait := sh_wait s @ [i]\<rparr>\<rparr>)"

text \<open>Aborting deletes the first waiting request of that name, else marks one of the running batch.\<close>

definition abort_request :: "string \<Rightarrow> ('g, 'm, 'c) intake \<Rightarrow> ('g, 'm, 'c) intake" where
  "abort_request r st =
     (let s = in_sched st; named = (\<lambda>i. rid (sh_objs s i) = r)
      in if list_ex named (sh_wait s)
         then st\<lparr>in_sched := s\<lparr>sh_wait := takeWhile (\<lambda>i. \<not> named i) (sh_wait s) @ drop 1 (dropWhile (\<lambda>i. \<not> named i) (sh_wait s))\<rparr>\<rparr>
         else case running_batch s of
                None \<Rightarrow> st
              | Some b \<Rightarrow> (case find (\<lambda>i. named i \<and> \<not> finished (sh_objs s i)) (batch_ids s b) of
                    None \<Rightarrow> st
                  | Some i \<Rightarrow> st\<lparr>in_sched := put_req ((sh_objs s i)\<lparr>to_abort := True\<rparr>) s\<rparr>))"

definition open_session :: "string \<Rightarrow> ('g, 'm, 'c) intake \<Rightarrow> string \<times> ('g, 'm, 'c) intake" where
  "open_session sid st = (sid, if in_sessions st sid = None then st\<lparr>in_sessions := (in_sessions st)(sid \<mapsto> [])\<rparr> else st)"

definition close_session :: "string \<Rightarrow> ('g, 'm, 'c) intake \<Rightarrow> ('g, 'm, 'c) intake" where
  "close_session sid st = st\<lparr>in_sessions := (in_sessions st)(sid := None)\<rparr>"

text \<open>Flushing.  The state of the chunk controller and the monitored times are reset in any case; the cache and
  the pools are cleared only when nothing waits and the first stage runs nothing.\<close>

definition reset_monitoring :: "('g, 'd) intake_cfg \<Rightarrow> ('g, 'm, 'c) intake \<Rightarrow> ('g, 'm, 'c) intake" where
  "reset_monitoring c st =
     (let d = dc_reset (in_dc st); m = in_monitor st
      in st\<lparr>in_sched := (case ic_chunk_orig c of
                            None \<Rightarrow> in_sched st
                          | Some n \<Rightarrow> if n = 0 then in_sched st
                                     else (in_sched st)\<lparr>sh_chunk_size := Some n, sh_max_prefill := n\<rparr>),
            in_dc := d\<lparr>dc_alp := map_option reset_runtime_calibration (dc_alp d)\<rparr>,
            in_monitor := m\<lparr>mn_metrics := None, mn_tpot := mn_slo_tpot m * 0.5\<rparr>,
            in_ttft := ic_slo_ttft c * 0.5, in_qps := []\<rparr>)"

definition clear_memory :: "('c \<Rightarrow> 'c) \<Rightarrow> ('g, 'm, 'c) scheduler \<Rightarrow> ('g, 'm, 'c) scheduler" where
  "clear_memory reset s =
     (let w = sh_world s; m = w_mem w
      in put_world (w\<lparr>w_cache := reset (w_cache w),
                      w_mem := m\<lparr>m_rpool := rp_clear (m_rpool m), m_kv := kv_clear (m_kv m)\<rparr>\<rparr>) s)"

definition flush_cache ::
  "('g, 'd) intake_cfg \<Rightarrow> ('c \<Rightarrow> 'c) \<Rightarrow> real \<Rightarrow> ('g, 'm, 'c) intake \<Rightarrow> bool \<times> ('g, 'm, 'c) intake" where
  "flush_cache c reset now st =
     (let st = (reset_monitoring c st)\<lparr>in_start := now\<rparr>; s = in_sched st
      in if sh_wait s = [] \<and> (case sh_run s ! 0 of None \<Rightarrow> True | Some b \<Rightarrow> batch_ids s b = [])
         then (True, st\<lparr>in_sched := clear_memory reset s\<rparr>)
         else (False, st))"

text \<open>A weight update carries the answer of the model worker.\<close>

datatype 'd message = Generate "'d generate_input" | Embedding "'d generate_input" | Flush | Abort string
  | UpdateWeights bool | WorkerCall | Profile | OpenSession string | CloseSession string | Unknown

definition handle_message ::
  "('g, 'd) intake_cfg \<Rightarrow> ('c \<Rightarrow> 'c) \<Rightarrow> real \<Rightarrow> 'd message \<Rightarrow> ('g, 'm, 'c) intake \<Rightarrow> ('g, 'm, 'c) intake res" where
  "handle_message c reset now msg st = (case msg of
      Generate g \<Rightarrow> handle_generate_request c now g st
    | Embedding g \<Rightarrow> Ok (handle_embedding_request c now g st)
    | Flush \<Rightarrow> Ok (snd (flush_cache c reset now st))
    | Abort r \<Rightarrow> Ok (abort_request r st)
    | UpdateWeights success \<Rightarrow>
        if success
        then let (flushed, st) = flush_cache c reset now st in rbind (assertR flushed) (\<lambda>_. Ok st)
        else Ok st
    | WorkerCall \<Rightarrow> Ok st
    | Profile \<Rightarrow> if ic_profiler c then Ok st else Err RuntimeError
    | OpenSession sid \<Rightarrow> Ok (snd (open_session sid st))
    | CloseSession sid \<Rightarrow> Ok (close_session sid st)
    | Unknown \<Rightarrow> Err ValueError)"

definition process_input_requests ::
  "('g, 'd) intake_cfg \<Rightarrow> ('c \<Rightarrow> 'c) \<Rightarrow> real \<Rightarrow> 'd message list \<Rightarrow> ('g, 'm, 'c) intake \<Rightarrow> ('g, 'm, 'c) intake res" where
  "process_input_requests c reset now = foldR (handle_message c reset now)"

text \<open>The idle check: which of its two warnings is given.  With several stages it waits until no stage has a
  batch.\<close>

definition check_memory :: "('g, 'c) cache_ops \<Rightarrow> nat \<Rightarrow> int \<Rightarrow> ('g, 'm, 'c) scheduler \<Rightarrow> bool \<times> bool" where
  "check_memory ops pp max_total s =
     (if pp > 1 \<and> list_ex (\<lambda>l. l \<noteq> None) (sh_last s) then (False, False)
      else (int (kv_available_size (m_kv (w_mem (sh_world s)))) + op_evictable_size ops (w_cache (sh_world s)) \<noteq> max_total,
            length (rp_free (m_rpool (w_mem (sh_world s)))) \<noteq> rp_size (m_rpool (w_mem (sh_world s)))))"

end
