(* ===== verification/Intake_Facts.thy ===== *)
theory Intake_Facts
imports Intake Scheduler_Keeps
begin

text \<open>
  Facts on the intake of requests: what a message does to the queues of the scheduler, the limits a queued
  request respects, and which history a session continues.
\<close>

section \<open>What one message does\<close>

definition queued :: "('g, 'm, 'c) scheduler \<Rightarrow> nat set" where
  "queued s = set (sh_wait s) \<union> \<Union> (set ` set (sh_gq s))"

text \<open>Batches and slots stay; no queued request disappears but those whose name is in \<open>A\<close>; old objects keep name
  and state.\<close>

definition received :: "string set \<Rightarrow> ('g, 'm, 'c) intake \<Rightarrow> ('g, 'm, 'c) intake \<Rightarrow> bool" where
  "received A st st' \<longleftrightarrow> (let s = in_sched st; s' = in_sched st' in
     sh_bats s' = sh_bats s \<and> sh_run s' = sh_run s \<and> sh_last s' = sh_last s \<and> sh_pending s' = sh_pending s
     \<and> sh_chunk s' = sh_chunk s \<and> sh_cur s' = sh_cur s \<and> sh_next s' = sh_next s \<and> sh_pol s' = sh_pol s
     \<and> length (sh_gq s') = length (sh_gq s) \<and> in_next st \<le> in_next st'
     \<and> (\<forall>i < in_next st. rid (sh_objs s' i) = rid (sh_objs s i) \<and> pp_idx (sh_objs s' i) = pp_idx (sh_objs s i)
          \<and> same_req (sh_objs s i) (sh_objs s' i))
     \<and> (\<forall>i \<in> queued s. i \<in> queued s' \<or> rid (sh_objs s i) \<in> A)
     \<and> (\<forall>i < in_next st'. i < in_next st \<or> i \<in> queued s' \<or> rid (sh_objs s' i) \<in> A))"

text \<open>The new identities are not used yet, and the queues are fit for the next scheduling step.\<close>

definition intake_ok :: "('g, 'm, 'c) intake \<Rightarrow> bool" where
  "intake_ok st \<longleftrightarrow> (let s = in_sched st in store_ok s \<and> queue_ok s \<and> sh_cur s < length (sh_gq s)
     \<and> (\<forall>i \<in> queued s \<union> {c. Some c \<in> set (sh_chunk s)}. i < in_next st))"

lemma received_refl [simp, intro]: "received A st st"
  by (simp add: received_def Let_def)

lemma received_trans:
  assumes "received A st st'" "received B st' st''" "\<forall>i \<in> queued (in_sched st). i < in_next st"
  shows "received (A \<union> B) st st''"
proof -
  have "i \<in> queued (in_sched st'') \<or> rid (sh_objs (in_sched st) i) \<in> A \<union> B" if i: "i \<in> queued (in_sched st)" for i
  proof -
    have "rid (sh_objs (in_sched st') i) = rid (sh_objs (in_sched st) i)"
      using assms(1,3) i by (simp add: received_def Let_def)
    moreover have "i \<in> queued (in_sched st') \<or> rid (sh_objs (in_sched st) i) \<in> A"
      using assms(1) i by (simp add: received_def Let_def)
    moreover have "i \<in> queued (in_sched st') \<Longrightarrow> i \<in> queued (in_sched st'') \<or> rid (sh_objs (in_sched st') i) \<in> B"
      using assms(2) by (simp add: received_def Let_def)
    ultimately show ?thesis by auto
  qed
  moreover have "rid (sh_objs (in_sched st'') i) = rid (sh_objs (in_sched st) i)
      \<and> pp_idx (sh_objs (in_sched st'') i) = pp_idx (sh_objs (in_sched st) i)
      \<and> same_req (sh_objs (in_sched st) i) (sh_objs (in_sched st'') i)" if "i < in_next st" for i
    using assms(1,2) that by (auto simp: received_def Let_def intro: same_req_trans)
  moreover have "i < in_next st \<or> i \<in> queued (in_sched st'') \<or> rid (sh_objs (in_sched st'') i) \<in> A \<union> B" if i: "i < in_next st''" for i
  proof (cases "i < in_next st'")
    case True
    then have "i < in_next st \<or> i \<in> queued (in_sched st') \<or> rid (sh_objs (in_sched st') i) \<in> A"
      using assms(1) by (simp add: received_def Let_def)
    moreover have "i \<in> queued (in_sched st') \<Longrightarrow> i \<in> queued (in_sched st'') \<or> rid (sh_objs (in_sched st') i) \<in> B"
      "rid (sh_objs (in_sched st'') i) = rid (sh_objs (in_sched st') i)"
      using assms(2) True by (simp_all add: received_def Let_def)
    ultimately show ?thesis by auto
  next
    case False
    then show ?thesis using assms(2) i by (auto simp: received_def Let_def)
  qed
  ultimately show ?thesis using assms(1,2) by (simp add: received_def Let_def)
qed

lemma queued_simps:
  "queued (put_req r s) = queued s" "queued (put_world w s) = queued s"
  by (simp_all add: queued_def put_req_def put_world_def)

lemma union_nth: "\<Union> (set ` set xss) = {x. \<exists>j < length xss. x \<in> set (xss ! j)}"
  by (auto simp: set_conv_nth [of xss])

lemma gq_append:
  assumes "k < length gq"
  shows "\<Union> (set ` set (gq[k := gq ! k @ xs])) = \<Union> (set ` set gq) \<union> set xs"
  using assms unfolding union_nth by (auto simp: nth_list_update split: if_splits)

section \<open>A new request\<close>

text \<open>The two ways a request with a fresh identity is queued.\<close>

definition queued_anew :: "'g req \<Rightarrow> ('g, 'm, 'c) intake \<Rightarrow> ('g, 'm, 'c) intake \<Rightarrow> bool" where
  "queued_anew r st st' \<longleftrightarrow> oid r = in_next st \<and> in_next st' = Suc (in_next st)
     \<and> (let s = in_sched st; s' = in_sched st' in
        s' = (put_req r s)\<lparr>sh_wait := sh_wait s @ [in_next st]\<rparr>
        \<or> s' = (put_req r s)\<lparr>sh_gq := (sh_gq s)[sh_cur s := sh_gq s ! sh_cur s @ [in_next st]]\<rparr>)"

lemma queued_anew_keeps:
  assumes "queued_anew r st st'" "intake_ok st"
  shows "intake_ok st' \<and> received {} st st'"
proof -
  let ?s = "in_sched st" and ?s' = "in_sched st'" and ?n = "in_next st"
  have q: "oid r = ?n" "in_next st' = Suc ?n"
    and c: "?s' = (put_req r ?s)\<lparr>sh_wait := sh_wait ?s @ [?n]\<rparr>
        \<or> ?s' = (put_req r ?s)\<lparr>sh_gq := (sh_gq ?s)[sh_cur ?s := sh_gq ?s ! sh_cur ?s @ [?n]]\<rparr>"
    using assms(1) by (auto simp: queued_anew_def Let_def)
  have ok: "store_ok ?s" "queue_ok ?s" "sh_cur ?s < length (sh_gq ?s)" "\<forall>i \<in> queued ?s \<union> {c. Some c \<in> set (sh_chunk ?s)}. i < ?n"
    using assms(2) by (simp_all add: intake_ok_def Let_def)
  have fresh: "?n \<notin> queued ?s" "Some ?n \<notin> set (sh_chunk ?s)" using ok(4) by auto
  have objs: "sh_objs ?s' = (sh_objs ?s)(?n := r)" "sh_chunk ?s' = sh_chunk ?s" "sh_pol ?s' = sh_pol ?s" "sh_cur ?s' = sh_cur ?s"
    "sh_bats ?s' = sh_bats ?s" "sh_run ?s' = sh_run ?s" "sh_last ?s' = sh_last ?s" "sh_pending ?s' = sh_pending ?s"
    "sh_next ?s' = sh_next ?s" "length (sh_gq ?s') = length (sh_gq ?s)"
    using c q by (auto simp: put_req_def)
  have new: "set (sh_wait ?s' @ sh_gq ?s' ! sh_cur ?s') = insert ?n (set (sh_wait ?s @ sh_gq ?s ! sh_cur ?s))"
    "distinct (sh_wait ?s' @ sh_gq ?s' ! sh_cur ?s')" "queued ?s' = insert ?n (queued ?s)"
  proof -
    have notin: "?n \<notin> set (sh_wait ?s)" "?n \<notin> set (sh_gq ?s ! sh_cur ?s)"
      using fresh(1) ok(3) by (auto simp: queued_def)
    show "set (sh_wait ?s' @ sh_gq ?s' ! sh_cur ?s') = insert ?n (set (sh_wait ?s @ sh_gq ?s ! sh_cur ?s))"
      "distinct (sh_wait ?s' @ sh_gq ?s' ! sh_cur ?s')" "queued ?s' = insert ?n (queued ?s)"
      using c
    proof (atomize (full), elim disjE, goal_cases)
      case 1
      then show ?case using ok(2) notin by (simp add: queue_ok_def put_req_def queued_def)
    next
      case 2
      then show ?case using ok(2,3) notin gq_append [OF ok(3), of "[?n]"] by (simp add: queue_ok_def put_req_def queued_def)
    qed
  qed
  have "store_ok ?s'" using ok(1) objs(1,5) q(1) by (simp add: store_ok_def named_def)
  moreover have "queue_ok ?s'" using ok(2) new objs fresh(2) by (auto simp: queue_ok_def)
  moreover have "\<forall>i \<in> queued ?s' \<union> {c. Some c \<in> set (sh_chunk ?s')}. i < in_next st'"
    using ok(4) new(3) objs(2) q(2) by (simp add: ball_Un less_SucI)
  ultimately have "intake_ok st'" using ok(3) objs(4,10) by (simp add: intake_ok_def Let_def)
  moreover have "received {} st st'" using objs new(3) q(2) by (simp add: received_def Let_def less_Suc_eq)
  ultimately show ?thesis by blast
qed

text \<open>The limits of a request that was not refused.\<close>

definition within_limits :: "('g, 'd) intake_cfg \<Rightarrow> 'g req \<Rightarrow> bool" where
  "within_limits c r \<longleftrightarrow> (\<exists>m. max_new_tokens (params r) = Some m
     \<and> int (length (origin_input_ids r)) \<le> ic_max_input_len c
     \<and> int (length (origin_input_ids r)) + m < ic_max_req_len c)"

lemma fit_limits_within: "0 \<le> ic_max_input_len c \<Longrightarrow> within_limits c (fit_limits c g given r)"
  by (auto simp: within_limits_def fit_limits_def set_max_new_def Let_def py_take_nonneg)

lemma fit_limits_oid: "oid (fit_limits c g given r) = oid r"
  by (simp add: fit_limits_def set_max_new_def Let_def)

lemma find_grammar_same:
  "find_grammar c r = Ok (b, r') \<Longrightarrow> oid r' = oid r \<and> params r' = params r \<and> origin_input_ids r' = origin_input_ids r"
  by (auto simp: find_grammar_def Let_def split: if_splits option.splits)

lemma accept_req_outcome:
  assumes "accept_req c g given r st = Ok st'" "0 \<le> ic_max_input_len c"
  shows "\<exists>r'. oid r' = oid r \<and> (st' = enqueue r' st \<or> st' = enqueue_grammar r' st)
     \<and> (finished_reason r' = Some FINISH_ABORT \<or> within_limits c r')"
proof (cases "fst (take_images c g r)")
  case False
  let ?r = "snd (take_images c g r)"
  have "oid ?r = oid r" "finished_reason ?r = Some FINISH_ABORT"
    using False by (auto simp: take_images_def set_max_new_def Let_def split: option.splits prod.splits if_splits)
  moreover have "st' = enqueue ?r st" using assms(1) False by (simp add: accept_req_def case_prod_beta Let_def)
  ultimately show ?thesis by blast
next
  case True
  let ?r = "fit_limits c g given (snd (take_images c g r))"
  obtain b r' where f: "find_grammar c ?r = Ok (b, r')" and s: "st' = (if b then enqueue_grammar r' st else enqueue r' st)"
    using assms(1) True by (auto simp: accept_req_def case_prod_beta Let_def elim!: rbind_OkE)
  have "oid (snd (take_images c g r)) = oid r"
    using True by (auto simp: take_images_def set_max_new_def Let_def split: option.splits prod.splits if_splits)
  then have "oid r' = oid r" using find_grammar_same [OF f] by (simp add: fit_limits_oid)
  moreover have "within_limits c r'"
    using find_grammar_same [OF f] fit_limits_within [OF assms(2), of g given "snd (take_images c g r)"]
    by (simp add: within_limits_def)
  ultimately show ?thesis using s by auto
qed

lemma enqueue_anew:
  assumes "oid r = in_next st" "in_sched st1 = in_sched st" "in_next st1 = Suc (in_next st)"
  shows "queued_anew r st (enqueue r st1)" "queued_anew r st (enqueue_grammar r st1)"
  using assms by (simp_all add: queued_anew_def enqueue_def enqueue_grammar_def Let_def)

lemma create_req_oid: "create_req new now tok sid g h hist = (r, hist') \<Longrightarrow> oid r = new"
  by (auto simp: create_req_def Let_def req_init_def split: if_splits)

lemma plain_req_oid: "oid (plain_req c new now g) = new"
  by (simp add: plain_req_def req_init_def Let_def)

lemma generate_outcome:
  assumes "handle_generate_request c now g st = Ok st'" "0 \<le> ic_max_input_len c"
  shows "\<exists>r. queued_anew r st st' \<and> (finished_reason r = Some FINISH_ABORT \<or> within_limits c r)"
proof (cases "gi_session g = None \<or> in_sessions st (the (gi_session g)) = None")
  case True
  let ?r = "plain_req c (in_next st) now g"
  have none: "(case gi_session g of None \<Rightarrow> None | Some sid \<Rightarrow> map_option (Pair sid) (in_sessions st sid)) = None"
    using True by (auto split: option.splits)
  show ?thesis
  proof (cases "gi_session g = None")
    case True
    then have "accept_req c g (origin_input_ids ?r) ?r (st\<lparr>in_next := Suc (in_next st)\<rparr>) = Ok st'"
      using assms(1) none by (simp add: handle_generate_request_def Let_def)
    from accept_req_outcome [OF this assms(2)] obtain r where
      "oid r = in_next st" "st' = enqueue r (st\<lparr>in_next := Suc (in_next st)\<rparr>) \<or> st' = enqueue_grammar r (st\<lparr>in_next := Suc (in_next st)\<rparr>)"
      "finished_reason r = Some FINISH_ABORT \<or> within_limits c r" by (auto simp: plain_req_oid)
    then show ?thesis by (intro exI [of _ r]) (auto intro: enqueue_anew)
  next
    case False
    then obtain sid where "gi_session g = Some sid" "in_sessions st sid = None" using \<open>gi_session g = None \<or> _\<close> by auto
    then have "st' = enqueue (?r\<lparr>finished_reason := Some FINISH_ABORT\<rparr>) (st\<lparr>in_next := Suc (in_next st)\<rparr>)"
      using assms(1) by (simp add: handle_generate_request_def Let_def)
    then show ?thesis
      by (intro exI [of _ "?r\<lparr>finished_reason := Some FINISH_ABORT\<rparr>"]) (auto simp: plain_req_oid intro!: enqueue_anew)
  qed
next
  case False
  then obtain sid hist where s: "gi_session g = Some sid" "in_sessions st sid = Some hist" by auto
  obtain r hist' where r: "create_req (in_next st) now (ic_tokenizer c) sid g (sh_objs (in_sched st)) hist = (r, hist')"
    by (meson surj_pair)
  let ?st = "st\<lparr>in_next := Suc (in_next st), in_sessions := (in_sessions st)(sid \<mapsto> hist')\<rparr>"
  note o = create_req_oid [OF r]
  show ?thesis
  proof (cases "finished_reason r = Some FINISH_ABORT")
    case True
    then have "st' = enqueue r ?st" using assms(1) s r by (simp add: handle_generate_request_def Let_def)
    then show ?thesis using True o by (intro exI [of _ r]) (auto intro!: enqueue_anew)
  next
    case False
    then have "accept_req c g (gi_ids g) r ?st = Ok st'" using assms(1) s r by (simp add: handle_generate_request_def Let_def)
    from accept_req_outcome [OF this assms(2)] obtain r' where
      "oid r' = in_next st" "st' = enqueue r' ?st \<or> st' = enqueue_grammar r' ?st"
      "finished_reason r' = Some FINISH_ABORT \<or> within_limits c r'" using o by auto
    then show ?thesis by (intro exI [of _ r']) (auto intro: enqueue_anew)
  qed
qed

lemma embedding_anew: "queued_anew (embedding_req c (in_next st) now g) st (handle_embedding_request c now g st)"
  by (simp add: handle_embedding_request_def queued_anew_def embedding_req_def req_init_def Let_def)

section \<open>The other messages\<close>

lemma sub_list_ok:
  assumes "set xs \<subseteq> set (sh_wait s)" "distinct xs" "queue_ok s"
  shows "queue_ok (s\<lparr>sh_wait := xs\<rparr>)"
  using assms by (auto simp: queue_ok_def)

lemma dropping_first:
  assumes "list_ex P xs" "distinct xs"
  defines "ys \<equiv> takeWhile (\<lambda>i. \<not> P i) xs @ drop 1 (dropWhile (\<lambda>i. \<not> P i) xs)"
  shows "set ys \<subseteq> set xs" "distinct ys" "i \<in> set xs \<Longrightarrow> i \<notin> set ys \<Longrightarrow> P i"
proof -
  obtain y zs where d: "dropWhile (\<lambda>i. \<not> P i) xs = y # zs"
    using assms(1) by (cases "dropWhile (\<lambda>i. \<not> P i) xs") (auto simp: list_ex_iff)
  have P: "P y" using hd_dropWhile [of "\<lambda>i. \<not> P i" xs] d by simp
  have xs: "xs = takeWhile (\<lambda>i. \<not> P i) xs @ y # zs" using takeWhile_dropWhile_id [of "\<lambda>i. \<not> P i" xs] d by simp
  have ys: "ys = takeWhile (\<lambda>i. \<not> P i) xs @ zs" by (simp add: ys_def d)
  define us where "us = takeWhile (\<lambda>i. \<not> P i) xs"
  have e: "xs = us @ y # zs" "ys = us @ zs" using xs ys by (simp_all add: us_def)
  show "set ys \<subseteq> set xs" "distinct ys" "i \<in> set xs \<Longrightarrow> i \<notin> set ys \<Longrightarrow> P i"
    using assms(2) P unfolding e by auto
qed

lemma marking_keeps:
  assumes "intake_ok st"
  defines "st' i \<equiv> st\<lparr>in_sched := put_req ((sh_objs (in_sched st) i)\<lparr>to_abort := True\<rparr>) (in_sched st)\<rparr>"
  shows "intake_ok (st' i) \<and> received A st (st' i)"
proof -
  let ?s = "in_sched st"
  note ok = assms(1) [unfolded intake_ok_def Let_def]
  have o: "oid (sh_objs ?s i) = i" using ok by (simp add: store_ok_def named_def)
  then have s: "in_sched (st' i) = ?s\<lparr>sh_objs := (sh_objs ?s)(i := (sh_objs ?s i)\<lparr>to_abort := True\<rparr>)\<rparr>" "in_next (st' i) = in_next st"
    by (simp_all add: st'_def put_req_def)
  have "store_ok (in_sched (st' i))" using ok by (simp add: s store_ok_def named_def)
  moreover have "queue_ok (in_sched (st' i))" using ok by (simp add: s queue_ok_def)
  moreover have q: "queued (in_sched (st' i)) = queued ?s" by (simp add: s queued_def)
  ultimately have "intake_ok (st' i)" using ok unfolding intake_ok_def Let_def s(2) q by (simp add: s)
  moreover have "received A st (st' i)" using q by (simp add: received_def s same_req_def finished_def)
  ultimately show ?thesis by blast
qed

lemma shortened_keeps:
  assumes "intake_ok st" "set ys \<subseteq> set (sh_wait (in_sched st))" "distinct ys"
    "\<forall>i \<in> set (sh_wait (in_sched st)) - set ys. rid (sh_objs (in_sched st) i) = n"
  defines "st' \<equiv> st\<lparr>in_sched := (in_sched st)\<lparr>sh_wait := ys\<rparr>\<rparr>"
  shows "intake_ok st' \<and> received {n} st st'"
proof -
  let ?s = "in_sched st"
  note ok = assms(1) [unfolded intake_ok_def Let_def]
  have s: "in_sched st' = ?s\<lparr>sh_wait := ys\<rparr>" "in_next st' = in_next st" by (simp_all add: st'_def)
  have "store_ok (in_sched st')" using ok by (simp add: s store_ok_def)
  moreover have "queue_ok (in_sched st')" using sub_list_ok [OF assms(2,3)] ok by (simp add: s)
  moreover have q: "queued (in_sched st') \<subseteq> queued ?s" using assms(2) by (auto simp: s queued_def)
  moreover have "\<forall>i \<in> queued ?s. i \<in> queued (in_sched st') \<or> rid (sh_objs ?s i) = n"
    using assms(4) by (auto simp: s queued_def)
  moreover have "\<forall>i \<in> queued (in_sched st') \<union> {c. Some c \<in> set (sh_chunk (in_sched st'))}. i < in_next st'"
    using ok q by (auto simp: s)
  ultimately show ?thesis using ok by (simp add: intake_ok_def received_def s)
qed

lemma abort_keeps:
  assumes "intake_ok st"
  shows "intake_ok (abort_request n st) \<and> received {n} st (abort_request n st)"
proof -
  let ?s = "in_sched st" and ?named = "\<lambda>i. rid (sh_objs (in_sched st) i) = n"
  note ok = assms [unfolded intake_ok_def Let_def]
  show ?thesis
  proof (cases "list_ex ?named (sh_wait ?s)")
    case True
    have d: "distinct (sh_wait ?s)" using ok by (simp add: queue_ok_def)
    note D = dropping_first [OF True d]
    let ?ys = "takeWhile (\<lambda>i. \<not> ?named i) (sh_wait ?s) @ drop 1 (dropWhile (\<lambda>i. \<not> ?named i) (sh_wait ?s))"
    have a: "abort_request n st = st\<lparr>in_sched := ?s\<lparr>sh_wait := ?ys\<rparr>\<rparr>" using True by (simp add: abort_request_def Let_def)
    show ?thesis unfolding a using shortened_keeps [OF assms, of ?ys n] D by blast
  next
    case False
    have "abort_request n st = st \<or> (\<exists>i. abort_request n st = st\<lparr>in_sched := put_req ((sh_objs ?s i)\<lparr>to_abort := True\<rparr>) ?s\<rparr>)"
      using False by (auto simp: abort_request_def Let_def split: option.splits)
    then show ?thesis using assms marking_keeps [OF assms] by auto
  qed
qed

text \<open>A step that touches none of the places of requests.\<close>

lemma places_keep:
  assumes "intake_ok st" "in_next st' = in_next st"
    "sh_objs (in_sched st') = sh_objs (in_sched st)" "sh_bats (in_sched st') = sh_bats (in_sched st)"
    "sh_run (in_sched st') = sh_run (in_sched st)" "sh_last (in_sched st') = sh_last (in_sched st)"
    "sh_pending (in_sched st') = sh_pending (in_sched st)" "sh_chunk (in_sched st') = sh_chunk (in_sched st)"
    "sh_cur (in_sched st') = sh_cur (in_sched st)" "sh_next (in_sched st') = sh_next (in_sched st)"
    "sh_wait (in_sched st') = sh_wait (in_sched st)" "sh_gq (in_sched st') = sh_gq (in_sched st)"
    "sh_pol (in_sched st') = sh_pol (in_sched st)"
  shows "intake_ok st' \<and> received A st st'"
proof -
  have q: "queued (in_sched st') = queued (in_sched st)" using assms by (simp add: queued_def)
  have "intake_ok st' = intake_ok st" unfolding intake_ok_def Let_def store_ok_def queue_ok_def q assms(2-) ..
  moreover have "received A st st'" using q assms(2-) by (simp add: received_def Let_def)
  ultimately show ?thesis using assms(1) by simp
qed

lemma reset_monitoring_keeps:
  "intake_ok st \<Longrightarrow> intake_ok ((reset_monitoring c st)\<lparr>in_start := now\<rparr>) \<and> received A st ((reset_monitoring c st)\<lparr>in_start := now\<rparr>)"
  by (rule places_keep) (simp_all add: reset_monitoring_def Let_def split: option.split)

lemma clear_memory_keeps:
  "intake_ok st \<Longrightarrow> intake_ok (st\<lparr>in_sched := clear_memory reset (in_sched st)\<rparr>)
     \<and> received A st (st\<lparr>in_sched := clear_memory reset (in_sched st)\<rparr>)"
  by (rule places_keep) (simp_all add: clear_memory_def put_world_def Let_def)

lemma flush_keeps:
  assumes "intake_ok st"
  shows "intake_ok (snd (flush_cache c reset now st)) \<and> received {} st (snd (flush_cache c reset now st))"
proof -
  let ?st = "(reset_monitoring c st)\<lparr>in_start := now\<rparr>"
  have 1: "intake_ok ?st" "received {} st ?st" using reset_monitoring_keeps [OF assms] by auto
  have "snd (flush_cache c reset now st) = ?st \<or> snd (flush_cache c reset now st) = ?st\<lparr>in_sched := clear_memory reset (in_sched ?st)\<rparr>"
    by (simp add: flush_cache_def Let_def)
  moreover have "\<forall>i \<in> queued (in_sched st). i < in_next st" using assms by (simp add: intake_ok_def Let_def)
  ultimately show ?thesis using 1 clear_memory_keeps [OF 1(1)] received_trans [OF 1(2)] by (metis Un_empty)
qed

definition aborted :: "'d message \<Rightarrow> string set" where
  "aborted msg = (case msg of Abort n \<Rightarrow> {n} | _ \<Rightarrow> {})"

lemma message_keeps:
  assumes "handle_message c reset now msg st = Ok st'" "intake_ok st" "0 \<le> ic_max_input_len c"
  shows "intake_ok st' \<and> received (aborted msg) st st'"
proof (cases msg)
  case (Generate g)
  then show ?thesis using generate_outcome [of c now g st st'] assms queued_anew_keeps [OF _ assms(2)]
    by (auto simp: handle_message_def aborted_def)
next
  case (Embedding g)
  then show ?thesis using queued_anew_keeps [OF embedding_anew assms(2)] assms(1)
    by (auto simp: handle_message_def aborted_def)
next
  case Flush
  then show ?thesis using flush_keeps [OF assms(2)] assms(1) by (auto simp: handle_message_def aborted_def)
next
  case (Abort n)
  then show ?thesis using abort_keeps [OF assms(2)] assms(1) by (auto simp: handle_message_def aborted_def)
next
  case (UpdateWeights b)
  then show ?thesis using flush_keeps [OF assms(2), of c reset now] assms(1,2)
    by (auto simp: handle_message_def aborted_def case_prod_beta elim!: rbind_OkE split: if_splits)
next
  case (OpenSession s)
  then show ?thesis using assms(1,2)
    by (auto simp: handle_message_def aborted_def open_session_def intake_ok_def received_def Let_def split: if_splits)
next
  case (CloseSession s)
  then show ?thesis using assms(1,2)
    by (auto simp: handle_message_def aborted_def close_session_def intake_ok_def received_def Let_def)
qed (use assms(1,2) in \<open>auto simp: handle_message_def aborted_def split: if_splits\<close>)

lemma messages_keep:
  assumes "process_input_requests c reset now msgs st = Ok st'" "intake_ok st" "0 \<le> ic_max_input_len c"
  shows "intake_ok st' \<and> received (\<Union> (aborted ` set msgs)) st st'"
  using assms(1,2)
proof (induction msgs arbitrary: st)
  case (Cons msg msgs)
  obtain st1 where 1: "handle_message c reset now msg st = Ok st1" "process_input_requests c reset now msgs st1 = Ok st'"
    using Cons.prems(1) by (auto simp: process_input_requests_def elim: rbind_OkE)
  have k: "intake_ok st1 \<and> received (aborted msg) st st1" by (rule message_keeps [OF 1(1) Cons.prems(2) assms(3)])
  have "\<forall>i \<in> queued (in_sched st). i < in_next st" using Cons.prems(2) by (simp add: intake_ok_def Let_def)
  then show ?case using Cons.IH [OF 1(2)] k received_trans by fastforce
qed (simp add: process_input_requests_def)

section \<open>Properties\<close>

text \<open>C25: Whatever messages a scheduler receives, the new requests get identities of their own, so the queues stay
  fit for the next scheduling step (no request twice, none queued that is being chunked, objects under their
  identities), batches and slots are untouched, and a queued request leaves the queues only when a message
  aborts its name.\<close>

theorem intake_keeps_queues:
  assumes "process_input_requests c reset now msgs st = Ok st'" "intake_ok st" "0 \<le> ic_max_input_len c"
  shows "intake_ok st' \<and> sh_bats (in_sched st') = sh_bats (in_sched st) \<and> sh_run (in_sched st') = sh_run (in_sched st)
    \<and> sh_last (in_sched st') = sh_last (in_sched st) \<and> sh_chunk (in_sched st') = sh_chunk (in_sched st)
    \<and> (\<forall>i \<in> queued (in_sched st). i \<in> queued (in_sched st') \<or> Abort (rid (sh_objs (in_sched st) i)) \<in> set msgs)
    \<and> (\<forall>i < in_next st. finished (sh_objs (in_sched st') i) = finished (sh_objs (in_sched st) i))"
proof -
  have k: "intake_ok st'" "received (\<Union> (aborted ` set msgs)) st st'" using messages_keep [OF assms] by auto
  have a: "Abort n \<in> set msgs" if n: "n \<in> \<Union> (aborted ` set msgs)" for n
  proof -
    obtain msg where m: "msg \<in> set msgs" "n \<in> aborted msg" using n by blast
    from m(2) have "msg = Abort n" by (simp add: aborted_def split: message.splits)
    then show ?thesis using m(1) by simp
  qed
  have "\<forall>i \<in> queued (in_sched st). i \<in> queued (in_sched st') \<or> rid (sh_objs (in_sched st) i) \<in> \<Union> (aborted ` set msgs)"
    using k(2) by (simp add: received_def Let_def)
  then have "\<forall>i \<in> queued (in_sched st). i \<in> queued (in_sched st') \<or> Abort (rid (sh_objs (in_sched st) i)) \<in> set msgs"
    using a by blast
  then show ?thesis using k by (simp add: received_def same_req_def Let_def)
qed

text \<open>C29: An accepted generation request is queued exactly once, at the end of the waiting queue or of the grammar
  queue of the current stage, under a new identity, and unless it was refused its input and its token limit fit
  the limits of the server together; no other request changes.\<close>

theorem intake_limits:
  assumes "handle_generate_request c now g st = Ok st'" "0 \<le> ic_max_input_len c"
  shows "\<exists>r. oid r = in_next st \<and> in_next st' = Suc (in_next st) \<and> sh_objs (in_sched st') = (sh_objs (in_sched st))(in_next st := r)
    \<and> (sh_wait (in_sched st') = sh_wait (in_sched st) @ [in_next st] \<and> sh_gq (in_sched st') = sh_gq (in_sched st)
       \<or> sh_wait (in_sched st') = sh_wait (in_sched st)
         \<and> sh_gq (in_sched st') = (sh_gq (in_sched st))[sh_cur (in_sched st) := sh_gq (in_sched st) ! sh_cur (in_sched st) @ [in_next st]])
    \<and> (finished_reason r = Some FINISH_ABORT
       \<or> (\<exists>m. max_new_tokens (params r) = Some m \<and> int (length (origin_input_ids r)) \<le> ic_max_input_len c
            \<and> int (length (origin_input_ids r)) + m < ic_max_req_len c))"
proof -
  obtain r where r: "queued_anew r st st'" "finished_reason r = Some FINISH_ABORT \<or> within_limits c r"
    using generate_outcome [OF assms] by blast
  show ?thesis
    by (rule exI [of _ r]) (use r in \<open>auto simp: queued_anew_def within_limits_def put_req_def Let_def\<close>)
qed

section \<open>Sessions\<close>

lemma back_to_none: "\<forall>i \<in> set is. rid (h i) \<noteq> q \<Longrightarrow> back_to h q is = []"
  by (induction "is") simp_all

lemma back_to_last: "rid (h i) = q \<Longrightarrow> \<forall>j \<in> set post. rid (h j) \<noteq> q \<Longrightarrow> back_to h q (pre @ i # post) = pre @ [i]"
  by (induction pre) (simp_all add: back_to_none)

text \<open>C30: A request of a session that names an earlier request continues the last one of that name: its input is
  the earlier input, the tokens the earlier request was allowed to answer with, and the new tokens, and the
  history ends with the two.  Naming none starts afresh.  A name that is not in the history aborts the request
  and leaves the session without any history.\<close>

theorem session_continues:
  assumes "create_req new now tok sid g h hist = (r, hist')"
  shows "(gi_session_rid g = None \<longrightarrow> hist' = [new] \<and> origin_input_ids r = gi_ids g)
    \<and> (\<forall>q pre i post. gi_session_rid g = Some q \<and> hist = pre @ i # post \<and> rid (h i) = q \<and> (\<forall>j \<in> set post. rid (h j) \<noteq> q)
         \<longrightarrow> hist' = pre @ [i, new] \<and> origin_input_ids r = origin_input_ids (h i) @ answered (h i) @ gi_ids g
            \<and> image_inputs r = image_inputs (h i) \<and> finished_reason r = None)
    \<and> (\<forall>q. gi_session_rid g = Some q \<and> (\<forall>i \<in> set hist. rid (h i) \<noteq> q) \<longrightarrow> hist' = [] \<and> finished_reason r = Some FINISH_ABORT)"
proof (intro conjI allI impI)
  assume "gi_session_rid g = None"
  then show "hist' = [new]" "origin_input_ids r = gi_ids g"
    using assms by (auto simp: create_req_def history_def req_init_def Let_def)
next
  fix q pre i post
  assume a: "gi_session_rid g = Some q \<and> hist = pre @ i # post \<and> rid (h i) = q \<and> (\<forall>j \<in> set post. rid (h j) \<noteq> q)"
  then have "history h (gi_session_rid g) hist = pre @ [i]" by (simp add: history_def back_to_last)
  then show "hist' = pre @ [i, new]" "origin_input_ids r = origin_input_ids (h i) @ answered (h i) @ gi_ids g"
    "image_inputs r = image_inputs (h i)" "finished_reason r = None"
    using assms by (auto simp: create_req_def req_init_def Let_def)
next
  fix q assume a: "gi_session_rid g = Some q \<and> (\<forall>i \<in> set hist. rid (h i) \<noteq> q)"
  then have "history h (gi_session_rid g) hist = []" by (simp add: history_def back_to_none)
  then show "hist' = []" "finished_reason r = Some FINISH_ABORT"
    using assms a by (auto simp: create_req_def Let_def)
qed

text \<open>Flushing looks at the first stage only: it gives back all slots although another stage runs a batch.\<close>

lemma flush_ignores_other_stages:
  assumes "sh_wait (in_sched st) = []" "sh_run (in_sched st) ! 0 = None"
  shows "fst (flush_cache c reset now st)
    \<and> kv_free (m_kv (w_mem (sh_world (in_sched (snd (flush_cache c reset now st)))))) = kv_free (kv_clear (m_kv (w_mem (sh_world (in_sched st)))))"
  using assms
  by (auto simp: flush_cache_def reset_monitoring_def clear_memory_def put_world_def Let_def split: option.split)

end
