(* ===== verification/Intake_Demo.thy ===== *)
theory Intake_Demo
imports Intake_Facts Scheduler_Demo
begin

text \<open>The intake on a concrete scheduler: a session of two requests, and an aborted one.\<close>

definition ask :: "string \<Rightarrow> int list \<Rightarrow> string option \<Rightarrow> string option \<Rightarrow> unit generate_input" where
  "ask n ids session after =
     \<lparr>gi_rid = n, gi_text = None, gi_ids = ids, gi_image = None, gi_params = default_params, gi_return_logprob = False,
      gi_logprob_start = -1, gi_top_logprobs = 0, gi_stream = False, gi_arrival = Some 0, gi_lora = None, gi_embeds = None,
      gi_session = session, gi_session_rid = after\<rparr>"

definition door :: "(unit, unit) intake_cfg" where
  "door = \<lparr>ic_tokenizer = Some demo_tokenizer, ic_max_req_len = 10, ic_max_input_len = 5, ic_overlap = False,
     ic_first_rank = True, ic_chunk_orig = None, ic_slo_ttft = 1, ic_profiler = False, ic_image = (\<lambda>ids _. (ids, None)),
     ic_backend = None\<rparr>"

definition open_state :: "(unit, unit, chunk_cache) intake" where
  "open_state = \<lparr>in_sched = step_state, in_sessions = Map.empty, in_qps = [], in_next = 2,
     in_monitor = \<lparr>mn_slo_tpot = 1, mn_tpot = 0, mn_metrics = None, mn_max_total = 8\<rparr>, in_ttft = 0, in_dc = dc_init None, in_start = 0\<rparr>"

lemma open_ok: "intake_ok open_state"
  by (simp add: intake_ok_def open_state_def step_ok queued_def) (simp add: step_state_def)

text \<open>A plain request, a session request that is refused, and the abortion of the request that waited.\<close>

definition three_messages :: "unit message list" where
  "three_messages = [Generate (ask ''b'' [1, 2, 3] None None), Generate (ask ''c'' [4] (Some ''s'') None), Abort ''a'']"

lemma demo_name: "rid (sh_objs step_state i) = ''a''"
  by (simp add: step_state_def demo_defs)

lemma plain_b: "\<exists>r. handle_generate_request door 0 (ask ''b'' [1, 2, 3] None None) open_state = Ok (enqueue r (open_state\<lparr>in_next := 3\<rparr>))
    \<and> rid r = ''b'' \<and> oid r = 2 \<and> origin_input_ids r = [1, 2, 3] \<and> max_new_tokens (params r) = Some 6"
  by (rule exI [of _ "fit_limits door (ask ''b'' [1, 2, 3] None None) [1, 2, 3] (plain_req door 2 0 (ask ''b'' [1, 2, 3] None None))"])
    (simp add: handle_generate_request_def accept_req_def take_images_def find_grammar_def fit_limits_def set_max_new_def
      plain_req_def door_def ask_def open_state_def default_params_def req_init_def Let_def)

theorem intake_limits_witness:
  "\<exists>st' r. handle_generate_request door 0 (ask ''b'' [1, 2, 3] None None) open_state = Ok st' \<and> oid r = 2
     \<and> sh_objs (in_sched st') 2 = r \<and> sh_wait (in_sched st') = [1, 2] \<and> max_new_tokens (params r) = Some 6"
proof -
  obtain r0 where r0: "handle_generate_request door 0 (ask ''b'' [1, 2, 3] None None) open_state = Ok (enqueue r0 (open_state\<lparr>in_next := 3\<rparr>))"
    "max_new_tokens (params r0) = Some 6" "oid r0 = 2"
    using plain_b by blast
  have "0 \<le> ic_max_input_len door" by (simp add: door_def)
  from intake_limits [OF r0(1) this] obtain r where
    "oid r = 2" "sh_objs (in_sched (enqueue r0 (open_state\<lparr>in_next := 3\<rparr>))) 2 = r"
    by (auto simp: open_state_def)
  moreover have "sh_objs (in_sched (enqueue r0 (open_state\<lparr>in_next := 3\<rparr>))) 2 = r0"
    "sh_wait (in_sched (enqueue r0 (open_state\<lparr>in_next := 3\<rparr>))) = [1, 2]"
    using r0(3) by (simp_all add: enqueue_def put_req_def open_state_def step_state_def)
  ultimately show ?thesis using r0 by auto
qed

theorem intake_keeps_queues_witness:
  "\<exists>st'. process_input_requests door id 0 three_messages open_state = Ok st' \<and> intake_ok st' \<and> sh_wait (in_sched st') = [2, 3]"
proof -
  obtain r where r: "handle_generate_request door 0 (ask ''b'' [1, 2, 3] None None) open_state = Ok (enqueue r (open_state\<lparr>in_next := 3\<rparr>))"
    "rid r = ''b''" "oid r = 2"
    using plain_b by blast
  let ?q = "(plain_req door 3 0 (ask ''c'' [4] (Some ''s'') None))\<lparr>finished_reason := Some FINISH_ABORT\<rparr>"
  let ?st1 = "enqueue r (open_state\<lparr>in_next := 3\<rparr>)"
  have c: "handle_generate_request door 0 (ask ''c'' [4] (Some ''s'') None) ?st1 = Ok (enqueue ?q (?st1\<lparr>in_next := 4\<rparr>))"
    by (simp add: handle_generate_request_def ask_def open_state_def enqueue_def Let_def)
  have o: "oid ?q = 3" "rid ?q = ''c''" by (simp_all add: plain_req_def ask_def req_init_def Let_def)
  let ?st2 = "enqueue ?q (?st1\<lparr>in_next := 4\<rparr>)"
  have w: "sh_wait (in_sched (abort_request ''a'' ?st2)) = [2, 3]"
    using r(2,3) o by (simp add: abort_request_def enqueue_def put_req_def open_state_def step_state_def demo_defs Let_def)
  have run: "process_input_requests door id 0 three_messages open_state = Ok (abort_request ''a'' ?st2)"
    by (simp add: process_input_requests_def three_messages_def handle_message_def r(1) c)
  have "0 \<le> ic_max_input_len door" by (simp add: door_def)
  from intake_keeps_queues [OF run open_ok this] show ?thesis using run w by auto
qed

text \<open>The history holds requests 1 and 2, named a and b; the new one continues a, whose answer is [7, 8], of which it was
  allowed one token.\<close>

definition two_reqs :: "nat \<Rightarrow> unit req" where
  "two_reqs i = demo_req\<lparr>oid := i, rid := (if i = 1 then ''a'' else ''b''), output_ids := [7, 8],
     params := default_params\<lparr>max_new_tokens := Some 1\<rparr>\<rparr>"

theorem session_continues_witness:
  "case create_req 3 0 None ''s'' (ask ''c'' [9] (Some ''s'') (Some ''a'')) two_reqs [1, 2] of
     (r, hist) \<Rightarrow> hist = [1, 3] \<and> origin_input_ids r = [10, 11, 7, 9]"
proof -
  obtain r hist where c: "create_req 3 0 None ''s'' (ask ''c'' [9] (Some ''s'') (Some ''a'')) two_reqs [1, 2] = (r, hist)"
    by (meson surj_pair)
  have "gi_session_rid (ask ''c'' [9] (Some ''s'') (Some ''a'')) = Some ''a'' \<and> [1, 2] = [] @ 1 # [2::nat] \<and> rid (two_reqs 1) = ''a''
      \<and> (\<forall>j \<in> set [2]. rid (two_reqs j) \<noteq> ''a'')"
    by (simp add: ask_def two_reqs_def)
  then have "hist = [] @ [1, 3]
      \<and> origin_input_ids r = origin_input_ids (two_reqs 1) @ answered (two_reqs 1) @ gi_ids (ask ''c'' [9] (Some ''s'') (Some ''a''))"
    using session_continues [OF c] by blast
  moreover have "origin_input_ids (two_reqs 1) = [10, 11]" "answered (two_reqs 1) = [7]"
    by (simp_all add: two_reqs_def answered_def demo_defs py_take_nonneg)
  ultimately show ?thesis using c by (simp add: ask_def)
qed

end
