(* ===== verification/Overlap_Worker.thy ===== *)
theory Overlap_Worker
imports Memory_Pool
begin

text \<open>
  The worker client of the overlapped scheduler (\<^verbatim>\<open>TpModelWorkerClient\<close> in
  \<^verbatim>\<open>python/sglang/srt/managers/tp_worker_overlap_thread.py\<close>).  The scheduler puts a batch into a queue and
  goes on with placeholders, negative numbers, for the tokens the batch will produce; a thread takes the batches,
  replaces the placeholders in their input by the tokens produced meanwhile, runs the model and records its
  tokens.  Places of placeholders are reused in a ring.  The model worker is an argument.
\<close>

section \<open>State\<close>

record fwd_batch =
  fb_ids :: "int list"
  fb_bs :: nat

record pipe_batch =
  pb_bs :: nat
  pb_out :: "int list"

record work_item =
  tk_batch :: "fwd_batch option"
  tk_pipe :: "pipe_batch option"
  tk_ct :: nat
  tk_cur :: nat
  tk_pp :: nat

record client_cfg =
  cc_pp :: nat
  cc_rank :: nat
  cc_limit :: nat

record client =
  cl_ct :: "nat list"
  cl_map :: "int list list"
  cl_in :: "work_item list"
  cl_out :: "int list list"
  cl_alive :: bool

definition client_init :: "nat \<Rightarrow> nat \<Rightarrow> nat \<Rightarrow> client_cfg \<times> client" where
  "client_init pp rank max_running =
     (\<lparr>cc_pp = pp, cc_rank = rank, cc_limit = max_running * 1\<rparr>,
      \<lparr>cl_ct = replicate pp 0, cl_map = replicate pp (replicate (max_running * 2) 0), cl_in = [], cl_out = [], cl_alive = True\<rparr>)"

section \<open>The thread\<close>

text \<open>A negative input is the place of its token; the index of the others is clamped to 0.\<close>

definition resolve_future_token_ids :: "int list \<Rightarrow> int list \<Rightarrow> int list res" where
  "resolve_future_token_ids m = mapR (\<lambda>x. rbind (py_index m (max (- x) 0)) (\<lambda>v. Ok (if x < 0 then v else x)))"

text \<open>Assigning to a slice of a tensor: the sizes must agree, a single element is repeated.\<close>

definition put_slice :: "int list \<Rightarrow> nat \<Rightarrow> nat \<Rightarrow> int list \<Rightarrow> int list res" where
  "put_slice m a b xs =
     (let a = min a (length m); b = max a (min b (length m)); n = b - a
      in if length xs = n then Ok (take a m @ xs @ drop b m)
         else if length xs = 1 then Ok (take a m @ replicate n (hd xs) @ drop b m)
         else Err RuntimeError)"

definition record_tokens :: "work_item \<Rightarrow> nat \<Rightarrow> int list \<Rightarrow> client \<Rightarrow> client res" where
  "record_tokens t bs toks st =
     rbind (put_slice (cl_map st ! tk_pp t) (tk_ct t + 1) (tk_ct t + bs + 1) toks) (\<lambda>m.
       Ok (st\<lparr>cl_map := (cl_map st)[tk_pp t := m], cl_out := cl_out st @ [toks]\<rparr>))"

text \<open>The model worker gets the batch with its placeholders replaced.  It is a function of the batch, the batch of
  the stage and the stage: the tokens it would produce, whatever the caches on the device hold; its in-place changes of
  the copied input ids and sampling information are not seen by the scheduler and not modelled.  A stage that is not the last one and has no
  batch to finish produces nothing.\<close>

definition run_task ::
  "client_cfg \<Rightarrow> (fwd_batch option \<Rightarrow> pipe_batch option \<Rightarrow> nat \<Rightarrow> int list) \<Rightarrow> work_item \<Rightarrow> client \<Rightarrow> client res" where
  "run_task cfg model t st = (case tk_batch t of
      Some b \<Rightarrow>
        rbind (resolve_future_token_ids (cl_map st ! tk_cur t) (fb_ids b)) (\<lambda>ids.
        let toks = model (Some (b\<lparr>fb_ids := ids\<rparr>)) (tk_pipe t) (tk_cur t);
            bs = (if cc_rank cfg = cc_pp cfg - 1 then Some (fb_bs b) else map_option pb_bs (tk_pipe t))
        in case bs of
             None \<Rightarrow> Ok st
           | Some n \<Rightarrow> if n = 0 then Ok st else record_tokens t n toks st)
    | None \<Rightarrow> (case tk_pipe t of
        None \<Rightarrow> Ok (st\<lparr>cl_alive := False\<rparr>)
      | Some p \<Rightarrow> record_tokens t (pb_bs p) (model None (Some p) (tk_cur t)) st))"

definition forward_thread_step ::
  "client_cfg \<Rightarrow> (fwd_batch option \<Rightarrow> pipe_batch option \<Rightarrow> nat \<Rightarrow> int list) \<Rightarrow> client \<Rightarrow> client res" where
  "forward_thread_step cfg model st = (case cl_in st of
      [] \<Rightarrow> Ok st
    | t # ts \<Rightarrow> if cl_alive st then run_task cfg model t (st\<lparr>cl_in := ts\<rparr>) else Ok st)"

section \<open>The calls of the scheduler\<close>

definition advance :: "client_cfg \<Rightarrow> nat \<Rightarrow> nat \<Rightarrow> client \<Rightarrow> client res" where
  "advance cfg i n st =
     (if cc_limit cfg = 0 then Err ZeroDivisionError
      else Ok (st\<lparr>cl_ct := (cl_ct st)[i := (cl_ct st ! i + n) mod cc_limit cfg]\<rparr>))"

text \<open>The placeholders of a batch of \<open>n\<close> requests when the counter stands at \<open>ct\<close>.\<close>

definition placeholders :: "nat \<Rightarrow> nat \<Rightarrow> int list" where
  "placeholders ct n = map (\<lambda>k. - int (ct + 1 + k)) [0..<n]"

definition push :: "fwd_batch option \<Rightarrow> pipe_batch option \<Rightarrow> nat \<Rightarrow> nat \<Rightarrow> client \<Rightarrow> client" where
  "push b p cur pp st =
     st\<lparr>cl_in := cl_in st @ [\<lparr>tk_batch = b, tk_pipe = p, tk_ct = cl_ct st ! pp, tk_cur = cur, tk_pp = pp\<rparr>]\<rparr>"

definition forward_batch_generation ::
  "client_cfg \<Rightarrow> nat \<Rightarrow> nat \<Rightarrow> fwd_batch \<Rightarrow> pipe_batch option \<Rightarrow> client \<Rightarrow> (int list \<times> client) res" where
  "forward_batch_generation cfg cur pp b p st =
     (let ids = placeholders (cl_ct st ! cur) (fb_bs b); st = push (Some b) p cur pp st
      in rbind (if cc_rank cfg = cc_pp cfg - 1 then advance cfg cur (fb_bs b) st
                else case p of None \<Rightarrow> Ok st | Some q \<Rightarrow> advance cfg pp (pb_bs q) st) (\<lambda>st. Ok (ids, st)))"

definition forward_batch_pipeline ::
  "client_cfg \<Rightarrow> nat \<Rightarrow> nat \<Rightarrow> pipe_batch \<Rightarrow> client \<Rightarrow> (int list \<times> client) res" where
  "forward_batch_pipeline cfg cur pp p st =
     rbind (advance cfg pp (pb_bs p) (push None (Some p) cur pp st)) (\<lambda>st. Ok (pb_out p, st))"

text \<open>Taking a result waits for one.\<close>

definition resolve_batch_result :: "client \<Rightarrow> (int list \<times> client) option" where
  "resolve_batch_result st = (case cl_out st of [] \<Rightarrow> None | x # xs \<Rightarrow> Some (x, st\<lparr>cl_out := xs\<rparr>))"

section \<open>Interleaving\<close>

text \<open>The scheduler calls and takes results, the thread works; a result that is not there yet is waited for.\<close>

datatype call = Gen nat nat fwd_batch "pipe_batch option" | Pipe nat nat pipe_batch

definition do_call :: "client_cfg \<Rightarrow> call \<Rightarrow> client \<Rightarrow> client res" where
  "do_call cfg c st = (case c of
      Gen cur pp b p \<Rightarrow> rbind (forward_batch_generation cfg cur pp b p st) (\<lambda>(_, st). Ok st)
    | Pipe cur pp p \<Rightarrow> rbind (forward_batch_pipeline cfg cur pp p st) (\<lambda>(_, st). Ok st))"

datatype event = Call call | Work | Take

definition do_event ::
  "client_cfg \<Rightarrow> (fwd_batch option \<Rightarrow> pipe_batch option \<Rightarrow> nat \<Rightarrow> int list) \<Rightarrow> event \<Rightarrow> int list list \<times> client
     \<Rightarrow> (int list list \<times> client) res" where
  "do_event cfg model e s = (case s of (taken, st) \<Rightarrow> (case e of
      Call c \<Rightarrow> rbind (do_call cfg c st) (\<lambda>st. Ok (taken, st))
    | Work \<Rightarrow> rbind (forward_thread_step cfg model st) (\<lambda>st. Ok (taken, st))
    | Take \<Rightarrow> (case resolve_batch_result st of None \<Rightarrow> Ok (taken, st) | Some (x, st) \<Rightarrow> Ok (taken @ [x], st))))"

definition calls_of :: "event list \<Rightarrow> call list" where
  "calls_of es = concat (map (\<lambda>e. case e of Call c \<Rightarrow> [c] | _ \<Rightarrow> []) es)"

lemma foldR_snoc: "foldR f (xs @ [x]) s = rbind (foldR f xs s) (f x)"
proof (induction xs arbitrary: s)
  case (Cons y xs)
  then show ?case by (cases "f y s") auto
qed (simp add: rbind_def split: sum.split)

text \<open>Calls neither look at nor change what the thread keeps.\<close>

lemma do_call_push:
  assumes "do_call cfg c st = Ok st'"
  obtains t where "cl_in st' = cl_in st @ [t]" "cl_map st' = cl_map st" "cl_out st' = cl_out st" "cl_alive st' = cl_alive st"
  using assms
  by (auto simp: do_call_def forward_batch_generation_def forward_batch_pipeline_def advance_def push_def Let_def
      elim!: rbind_OkE split: call.splits if_splits option.splits)

lemma do_call_local:
  assumes "do_call cfg c st = Ok st'" "cl_ct u = cl_ct st"
  shows "\<exists>u' t. do_call cfg c u = Ok u' \<and> cl_ct u' = cl_ct st' \<and> cl_in st' = cl_in st @ [t] \<and> cl_in u' = cl_in u @ [t]
     \<and> cl_map u' = cl_map u \<and> cl_out u' = cl_out u \<and> cl_alive u' = cl_alive u"
  using assms
  by (auto simp: do_call_def forward_batch_generation_def forward_batch_pipeline_def advance_def push_def Let_def
      elim!: rbind_OkE split: call.splits if_splits option.splits)

lemma run_task_local:
  assumes "run_task cfg model t st = Ok st'"
    and "cl_map u = cl_map st" "cl_out u = taken @ cl_out st" "cl_alive u = cl_alive st"
  shows "\<exists>u'. run_task cfg model t u = Ok u' \<and> cl_map u' = cl_map st' \<and> cl_out u' = taken @ cl_out st'
     \<and> cl_alive u' = cl_alive st' \<and> cl_ct st' = cl_ct st \<and> cl_in st' = cl_in st"
  using assms
  by (auto simp: run_task_def record_tokens_def Let_def elim!: rbind_OkE split: option.splits if_splits)

text \<open>C23: However the calls of the scheduler, the steps of the thread and the taking of results are interleaved,
  the outcome is that of making all calls first and then working on the first of the queued tasks in their order;
  results are taken in the order of the tasks.\<close>

theorem interleaving_irrelevant:
  assumes "foldR (do_event cfg model) es ([], st0) = Ok (taken, st)" "cl_in st0 = []" "cl_out st0 = []"
  shows "\<exists>sc sw k. foldR (do_call cfg) (calls_of es) st0 = Ok sc \<and> cl_ct st = cl_ct sc
     \<and> foldR (run_task cfg model) (take k (cl_in sc)) st0 = Ok sw \<and> k \<le> length (cl_in sc)
     \<and> cl_in st = drop k (cl_in sc) \<and> cl_map st = cl_map sw \<and> cl_alive st = cl_alive sw \<and> taken @ cl_out st = cl_out sw"
  using assms(1)
proof (induction es arbitrary: taken st rule: rev_induct)
  case Nil
  then show ?case using assms(2,3) by (intro exI [of _ st0] exI [of _ 0]) (simp add: calls_of_def)
next
  case (snoc e es)
  obtain taken1 st1 where 1: "foldR (do_event cfg model) es ([], st0) = Ok (taken1, st1)"
    and e: "do_event cfg model e (taken1, st1) = Ok (taken, st)"
    using snoc.prems by (auto simp: foldR_snoc elim!: rbind_OkE)
  obtain sc sw k where ih: "foldR (do_call cfg) (calls_of es) st0 = Ok sc" "cl_ct st1 = cl_ct sc"
    "foldR (run_task cfg model) (take k (cl_in sc)) st0 = Ok sw" "k \<le> length (cl_in sc)"
    "cl_in st1 = drop k (cl_in sc)" "cl_map st1 = cl_map sw" "cl_alive st1 = cl_alive sw" "taken1 @ cl_out st1 = cl_out sw"
    using snoc.IH [OF 1] by blast
  show ?case
  proof (cases e)
    case (Call c)
    then have d: "do_call cfg c st1 = Ok st" "taken = taken1" using e by (auto simp: do_event_def elim!: rbind_OkE)
    obtain sc' t where c: "do_call cfg c sc = Ok sc'" "cl_ct sc' = cl_ct st" "cl_in st = cl_in st1 @ [t]" "cl_in sc' = cl_in sc @ [t]"
      using do_call_local [OF d(1), of sc] ih(2) by auto
    have same: "cl_map st = cl_map st1" "cl_out st = cl_out st1" "cl_alive st = cl_alive st1"
      using do_call_push [OF d(1)] by auto
    have "calls_of (es @ [e]) = calls_of es @ [c]" by (simp add: calls_of_def Call)
    then have "foldR (do_call cfg) (calls_of (es @ [e])) st0 = Ok sc'" using ih(1) c(1) by (simp add: foldR_snoc)
    then show ?thesis using ih c same d(2) by (intro exI [of _ sc'] exI [of _ sw] exI [of _ k]) simp
  next
    case Work
    then have w: "forward_thread_step cfg model st1 = Ok st" "taken = taken1" using e by (auto simp: do_event_def elim!: rbind_OkE)
    have cs: "calls_of (es @ [e]) = calls_of es" by (simp add: calls_of_def Work)
    show ?thesis
    proof (cases "cl_in st1 = [] \<or> \<not> cl_alive st1")
      case True
      then have "st = st1" using w(1) by (auto simp: forward_thread_step_def split: list.splits)
      then show ?thesis using ih cs w(2) by (intro exI [of _ sc] exI [of _ sw] exI [of _ k]) simp
    next
      case False
      then obtain t ts where t: "cl_in st1 = t # ts" "cl_alive st1" by (cases "cl_in st1") auto
      have r: "run_task cfg model t (st1\<lparr>cl_in := ts\<rparr>) = Ok st" using w(1) t by (simp add: forward_thread_step_def)
      obtain u where u: "run_task cfg model t sw = Ok u" "cl_map u = cl_map st" "cl_out u = taken1 @ cl_out st" "cl_alive u = cl_alive st"
        and st: "cl_ct st = cl_ct st1" "cl_in st = ts"
        using run_task_local [OF r, of sw taken1] ih(6,7,8) by auto
      have k: "k < length (cl_in sc)" "cl_in sc ! k = t" "drop (Suc k) (cl_in sc) = ts"
        using ih(4,5) t(1) by (metis drop_eq_Nil leI list.distinct(1), metis ih(5) t(1) drop_eq_Nil leI list.distinct(1) nth_via_drop,
          metis ih(5) t(1) drop_Suc list.sel(3) tl_drop)
      then have "foldR (run_task cfg model) (take (Suc k) (cl_in sc)) st0 = Ok u"
        using ih(3) u(1) by (simp add: take_Suc_conv_app_nth foldR_snoc)
      then show ?thesis using ih cs w(2) u st k by (intro exI [of _ sc] exI [of _ u] exI [of _ "Suc k"]) simp
    qed
  next
    case Take
    have cs: "calls_of (es @ [e]) = calls_of es" by (simp add: calls_of_def Take)
    from e Take have "taken @ cl_out st = taken1 @ cl_out st1 \<and> cl_ct st = cl_ct st1 \<and> cl_in st = cl_in st1 \<and> cl_map st = cl_map st1
        \<and> cl_alive st = cl_alive st1"
      by (auto simp: do_event_def resolve_batch_result_def split: list.splits)
    then show ?thesis using ih cs by (intro exI [of _ sc] exI [of _ sw] exI [of _ k]) simp
  qed
qed

section \<open>Placeholders are resolved\<close>

text \<open>The last stage: every micro-batch is its own.  \<open>calls\<close> gives the batches in the order of the calls.\<close>

type_synonym gen_calls = "(nat \<times> fwd_batch \<times> pipe_batch option) list"

definition gens :: "gen_calls \<Rightarrow> call list" where
  "gens xs = map (\<lambda>(i, b, p). Gen i i b p) xs"

text \<open>How many placeholders micro-batch \<open>c\<close> has used up after \<open>k\<close> calls.\<close>

definition used_up :: "gen_calls \<Rightarrow> nat \<Rightarrow> nat \<Rightarrow> nat" where
  "used_up xs c k = sum_list (map (\<lambda>(i, b, p). if i = c then fb_bs b else 0) (take k xs))"

definition fits :: "nat \<Rightarrow> nat \<Rightarrow> gen_calls \<Rightarrow> bool" where
  "fits pp bound xs \<longleftrightarrow> (\<forall>(i, b, p) \<in> set xs. i < pp \<and> 0 < fb_bs b \<and> fb_bs b \<le> bound)"

lemma used_up_Suc: "k < length xs \<Longrightarrow> used_up xs c (Suc k) = used_up xs c k + (if fst (xs ! k) = c then fb_bs (fst (snd (xs ! k))) else 0)"
  by (simp add: used_up_def take_Suc_conv_app_nth case_prod_beta)

lemma used_up_mono: "j \<le> k \<Longrightarrow> used_up xs c j \<le> used_up xs c k"
proof -
  assume "j \<le> k"
  then have "take k xs = take j xs @ take (k - j) (drop j xs)" by (metis le_add_diff_inverse take_add)
  then show ?thesis by (simp add: used_up_def)
qed

lemma used_up_snoc: "used_up (xs @ [x]) c k = (if k \<le> length xs then used_up xs c k else used_up xs c (length xs) + (if fst x = c then fb_bs (fst (snd x)) else 0))"
  by (cases x) (simp add: used_up_def)

lemma calls_run:
  assumes "cc_rank cfg = cc_pp cfg - 1" "cc_limit cfg = bound" "0 < bound" "fits (cc_pp cfg) bound xs"
    "cl_ct st = replicate (cc_pp cfg) 0" "cl_in st = []"
  shows "\<exists>sc. foldR (do_call cfg) (gens xs) st = Ok sc \<and> length (cl_ct sc) = cc_pp cfg
    \<and> (\<forall>c < cc_pp cfg. cl_ct sc ! c = used_up xs c (length xs) mod bound)
    \<and> cl_in sc = map (\<lambda>k. \<lparr>tk_batch = Some (fst (snd (xs ! k))), tk_pipe = snd (snd (xs ! k)),
        tk_ct = used_up xs (fst (xs ! k)) k mod bound, tk_cur = fst (xs ! k), tk_pp = fst (xs ! k)\<rparr>) [0..<length xs]"
  using assms(4)
proof (induction xs rule: rev_induct)
  case Nil
  then show ?case using assms(5,6) by (simp add: gens_def used_up_def)
next
  case (snoc x xs)
  obtain i b p where x: "x = (i, b, p)" by (cases x)
  have i: "i < cc_pp cfg" "fits (cc_pp cfg) bound xs" using snoc.prems by (auto simp: fits_def x)
  obtain sc where sc: "foldR (do_call cfg) (gens xs) st = Ok sc" "length (cl_ct sc) = cc_pp cfg"
    "\<forall>c < cc_pp cfg. cl_ct sc ! c = used_up xs c (length xs) mod bound"
    "cl_in sc = map (\<lambda>k. \<lparr>tk_batch = Some (fst (snd (xs ! k))), tk_pipe = snd (snd (xs ! k)),
        tk_ct = used_up xs (fst (xs ! k)) k mod bound, tk_cur = fst (xs ! k), tk_pp = fst (xs ! k)\<rparr>) [0..<length xs]"
    using snoc.IH [OF i(2)] by blast
  let ?t = "\<lparr>tk_batch = Some b, tk_pipe = p, tk_ct = cl_ct sc ! i, tk_cur = i, tk_pp = i\<rparr>"
  have "do_call cfg (Gen i i b p) sc = Ok (sc\<lparr>cl_in := cl_in sc @ [?t], cl_ct := (cl_ct sc)[i := (cl_ct sc ! i + fb_bs b) mod bound]\<rparr>)"
    using assms(1,2,3) by (simp add: do_call_def forward_batch_generation_def advance_def push_def Let_def)
  moreover have "gens (xs @ [x]) = gens xs @ [Gen i i b p]" by (simp add: gens_def x)
  ultimately show ?case
    using sc i(1) by (auto simp: foldR_snoc used_up_snoc x nth_append nth_list_update mod_simps intro!: map_cong)
qed

text \<open>What the thread keeps after \<open>k\<close> of the tasks: the tokens of a batch stay at its places as long as no more
  than \<open>bound\<close> placeholders of its micro-batch have been given out, its own included.\<close>

definition ring_inv :: "nat \<Rightarrow> nat \<Rightarrow> gen_calls \<Rightarrow> nat \<Rightarrow> client \<Rightarrow> bool" where
  "ring_inv pp bound xs k st \<longleftrightarrow> length (cl_map st) = pp \<and> (\<forall>c < pp. length (cl_map st ! c) = 2 * bound)
     \<and> length (cl_out st) = k \<and> (\<forall>i < k. length (cl_out st ! i) = fb_bs (fst (snd (xs ! i))))
     \<and> (\<forall>i < k. \<forall>c. fst (xs ! i) = c \<and> used_up xs c k \<le> used_up xs c i + bound \<longrightarrow>
          (\<forall>t < fb_bs (fst (snd (xs ! i))). cl_map st ! c ! (used_up xs c i mod bound + 1 + t) = cl_out st ! i ! t))"

text \<open>Places are reused in a ring of \<open>bound\<close> places, but a batch may extend beyond its end.\<close>

lemma ring_apart:
  assumes "x < bound" "n \<le> d" "d + b \<le> bound" "0 < b" "t < n"
  shows "x + 1 + t < (x + d) mod bound + 1 \<or> (x + d) mod bound + b + 1 \<le> x + 1 + (t::nat)"
proof (cases "x + d < bound")
  case True
  then show ?thesis using assms by simp
next
  case False
  then have m: "(x + d) mod bound = x + d - bound" using assms by (simp add: le_mod_geq)
  have "x + d - bound + b + 1 \<le> x + 1 + t" using assms False by arith
  then show ?thesis by (simp add: m)
qed

lemma put_slice_inside:
  assumes "a + length xs \<le> length m"
  shows "put_slice m a (a + length xs) xs = Ok (take a m @ xs @ drop (a + length xs) m)"
  using assms by (simp add: put_slice_def Let_def min_def)

lemma put_slice_nth:
  assumes "a + length xs \<le> length m"
  shows "j < a \<or> a + length xs \<le> j \<Longrightarrow> (take a m @ xs @ drop (a + length xs) m) ! j = m ! j"
    and "t < length xs \<Longrightarrow> (take a m @ xs @ drop (a + length xs) m) ! (a + t) = xs ! t"
  using assms by (auto simp: nth_append)

lemma ring_step:
  assumes inv: "ring_inv pp bound xs k st" and k: "k < length xs" and f: "fits pp bound xs" and pos: "0 < bound"
    and x: "xs ! k = (c, b, p)" and toks: "length toks = fb_bs b"
  defines "a \<equiv> used_up xs c k mod bound + 1"
  defines "st' \<equiv> st\<lparr>cl_map := (cl_map st)[c := take a (cl_map st ! c) @ toks @ drop (a + fb_bs b) (cl_map st ! c)],
    cl_out := cl_out st @ [toks]\<rparr>"
  shows "ring_inv pp bound xs (Suc k) st'"
    and "put_slice (cl_map st ! c) a (a + fb_bs b) toks = Ok (take a (cl_map st ! c) @ toks @ drop (a + fb_bs b) (cl_map st ! c))"
proof -
  note I = inv [unfolded ring_inv_def]
  have cb: "c < pp" "0 < fb_bs b" "fb_bs b \<le> bound" using f k x by (auto simp: fits_def dest!: nth_mem)
  have len: "length (cl_map st ! c) = 2 * bound" "length (cl_map st) = pp" using I cb(1) by auto
  have room: "a + fb_bs b \<le> 2 * bound" using cb pos unfolding a_def by (metis Suc_eq_plus1 Suc_leI add_mono mod_less_divisor mult_2)
  have room': "a + length toks \<le> length (cl_map st ! c)" using room len toks by simp
  show "put_slice (cl_map st ! c) a (a + fb_bs b) toks = Ok (take a (cl_map st ! c) @ toks @ drop (a + fb_bs b) (cl_map st ! c))"
    using put_slice_inside [OF room'] toks by simp
  have map': "cl_map st' ! d = (if d = c then take a (cl_map st ! c) @ toks @ drop (a + fb_bs b) (cl_map st ! c) else cl_map st ! d)" for d
    using cb(1) len(2) by (simp add: st'_def)
  have used: "used_up xs d (Suc k) = used_up xs d k + (if c = d then fb_bs b else 0)" for d
    using k x by (simp add: used_up_Suc)
  have keep: "cl_map st' ! d ! (used_up xs d i mod bound + 1 + t) = cl_out st' ! i ! t"
    if i: "i < Suc k" "fst (xs ! i) = d" "used_up xs d (Suc k) \<le> used_up xs d i + bound" "t < fb_bs (fst (snd (xs ! i)))" for i d t
  proof (cases "i = k")
    case True
    then have "d = c" "t < length toks" using i x toks by auto
    moreover have "cl_out st' ! k = toks" using I by (simp add: st'_def nth_append)
    ultimately show ?thesis using True put_slice_nth(2) [OF room', of t] toks by (simp add: map' a_def)
  next
    case False
    then have ik: "i < k" using i(1) by simp
    have old: "cl_map st ! d ! (used_up xs d i mod bound + 1 + t) = cl_out st ! i ! t"
    proof -
      have "used_up xs d k \<le> used_up xs d i + bound" using i(3) used [of d] by linarith
      then show ?thesis using I ik i(2,4) by blast
    qed
    have out: "cl_out st' ! i = cl_out st ! i" using I ik by (simp add: st'_def nth_append)
    show ?thesis
    proof (cases "d = c")
      case True
      define n where "n = used_up xs c k - used_up xs c i"
      have "used_up xs c (Suc i) \<le> used_up xs c k" using ik by (intro used_up_mono) simp
      moreover have "used_up xs c (Suc i) = used_up xs c i + fb_bs (fst (snd (xs ! i)))" using ik k i(2) True by (simp add: used_up_Suc)
      ultimately have n: "fb_bs (fst (snd (xs ! i))) \<le> n" "used_up xs c k = used_up xs c i + n" by (auto simp: n_def)
      have "n + fb_bs b \<le> bound" using i(3) used n(2) True by simp
      from ring_apart [OF _ n(1) this cb(2) i(4), of "used_up xs c i mod bound"] pos
      have "used_up xs c i mod bound + 1 + t < a \<or> a + length toks \<le> used_up xs c i mod bound + 1 + t"
        using n(2) toks by (auto simp: a_def mod_simps)
      from put_slice_nth(1) [OF room' this] show ?thesis using old out True toks by (simp add: map')
    next
      case False
      then show ?thesis using old out by (simp add: map')
    qed
  qed
  have lens: "\<forall>i < Suc k. length (cl_out st' ! i) = fb_bs (fst (snd (xs ! i)))" "length (cl_out st') = Suc k" "length (cl_map st') = pp"
    using I toks x by (auto simp: st'_def nth_append less_Suc_eq)
  moreover have "\<forall>d < pp. length (cl_map st' ! d) = 2 * bound" using I toks len room by (auto simp: map')
  ultimately show "ring_inv pp bound xs (Suc k) st'" using keep by (simp add: ring_inv_def)
qed

text \<open>Resolving the placeholders of a batch reads their places.\<close>

lemma resolve_placeholders:
  assumes "a + n < length m"
  shows "resolve_future_token_ids m (placeholders a n) = Ok (map (\<lambda>t. m ! (a + 1 + t)) [0..<n])"
proof -
  have "nat (1 - (- int a - int i)) = Suc (a + i)" for i by arith
  then show ?thesis using assms
    by (auto simp: resolve_future_token_ids_def placeholders_def mapR_Ok_iff list_all2_conv_all_nth py_index_def)
qed

definition ids_ok :: "nat \<Rightarrow> gen_calls \<Rightarrow> bool" where
  "ids_ok bound xs \<longleftrightarrow> (\<forall>(i, b, p) \<in> set xs. \<forall>x \<in> set (fb_ids b). - 2 * int bound < x)"

lemma resolve_ids_ok:
  assumes "length m = 2 * bound" "0 < bound" "\<forall>x \<in> set ids. - 2 * int bound < x"
  shows "\<exists>out. resolve_future_token_ids m ids = Ok out"
  using assms(3)
proof (induction ids)
  case (Cons x ids)
  have "\<exists>v. py_index m (max (- x) 0) = Ok v" using assms(1,2) Cons.prems by (auto simp: py_index_def)
  then show ?case using Cons by (auto simp: resolve_future_token_ids_def)
qed (simp add: resolve_future_token_ids_def)

lemma tasks_run:
  assumes cfg: "cc_rank cfg = cc_pp cfg - 1" and f: "fits (cc_pp cfg) bound xs" "ids_ok bound xs" and pos: "0 < bound"
    and model: "\<forall>b p i. length (model (Some b) p i) = fb_bs b"
    and tasks: "tasks = map (\<lambda>k. \<lparr>tk_batch = Some (fst (snd (xs ! k))), tk_pipe = snd (snd (xs ! k)),
        tk_ct = used_up xs (fst (xs ! k)) k mod bound, tk_cur = fst (xs ! k), tk_pp = fst (xs ! k)\<rparr>) [0..<length xs]"
    and init: "ring_inv (cc_pp cfg) bound xs 0 st0"
  shows "k \<le> length xs \<Longrightarrow> \<exists>st. foldR (run_task cfg model) (take k tasks) st0 = Ok st \<and> ring_inv (cc_pp cfg) bound xs k st"
proof (induction k)
  case 0
  then show ?case using init by simp
next
  case (Suc k)
  have k: "k < length xs" "k < length tasks" using Suc.prems(1) tasks by auto
  obtain st1 where st1: "foldR (run_task cfg model) (take k tasks) st0 = Ok st1" "ring_inv (cc_pp cfg) bound xs k st1"
    using Suc by auto
  obtain c b p where x: "xs ! k = (c, b, p)" by (cases "xs ! k")
  have "xs ! k \<in> set xs" using k(1) by simp
  then have b: "0 < fb_bs b" "c < cc_pp cfg" "\<forall>x \<in> set (fb_ids b). - 2 * int bound < x" using f x by (auto simp: fits_def ids_ok_def)
  have t: "tasks ! k = \<lparr>tk_batch = Some b, tk_pipe = p, tk_ct = used_up xs c k mod bound, tk_cur = c, tk_pp = c\<rparr>"
    using k tasks x by simp
  have "length (cl_map st1 ! c) = 2 * bound" using st1(2) b(2) by (simp add: ring_inv_def)
  then obtain ids where ids: "resolve_future_token_ids (cl_map st1 ! c) (fb_ids b) = Ok ids"
    using resolve_ids_ok pos b(3) by blast
  let ?toks = "model (Some (b\<lparr>fb_ids := ids\<rparr>)) p c"
  have toks: "length ?toks = fb_bs b" using model by simp
  have "run_task cfg model (tasks ! k) st1 = record_tokens (tasks ! k) (fb_bs b) ?toks st1"
    using b(1) cfg ids by (simp add: run_task_def t)
  then show ?case using ring_step [OF st1(2) k(1) f(1) pos x toks] st1(1) k(2)
    by (simp add: record_tokens_def t take_Suc_conv_app_nth foldR_snoc)
qed

text \<open>All calls and all tasks of the last stage.\<close>

lemma last_stage_run:
  assumes init: "client_init pp (pp - 1) max_running = (cfg, st0)" and pos: "0 < max_running"
    and f: "fits pp max_running xs" "ids_ok max_running xs"
    and model: "\<forall>b p i. length (model (Some b) p i) = fb_bs b" and j: "j \<le> length xs"
  obtains sc sw where "foldR (do_call cfg) (gens xs) st0 = Ok sc" "length (cl_in sc) = length xs"
    "foldR (run_task cfg model) (take j (cl_in sc)) st0 = Ok sw" "ring_inv pp max_running xs j sw"
    "\<forall>c < pp. cl_ct sc ! c = used_up xs c (length xs) mod max_running"
proof -
  have cfg: "cc_rank cfg = cc_pp cfg - 1" "cc_limit cfg = max_running" "cc_pp cfg = pp"
    and st0: "cl_ct st0 = replicate (cc_pp cfg) 0" "cl_in st0 = []" "cl_map st0 = replicate pp (replicate (max_running * 2) 0)" "cl_out st0 = []"
    using init by (auto simp: client_init_def)
  have f': "fits (cc_pp cfg) max_running xs" using f cfg(3) by simp
  have inv: "ring_inv (cc_pp cfg) max_running xs 0 st0" using st0 cfg(3) by (simp add: ring_inv_def)
  obtain sc where sc: "foldR (do_call cfg) (gens xs) st0 = Ok sc" "\<forall>c < cc_pp cfg. cl_ct sc ! c = used_up xs c (length xs) mod max_running"
    and tasks: "cl_in sc = map (\<lambda>k. \<lparr>tk_batch = Some (fst (snd (xs ! k))), tk_pipe = snd (snd (xs ! k)),
        tk_ct = used_up xs (fst (xs ! k)) k mod max_running, tk_cur = fst (xs ! k), tk_pp = fst (xs ! k)\<rparr>) [0..<length xs]"
    using calls_run [OF cfg(1,2) pos f' st0(1,2)] by blast
  obtain sw where "foldR (run_task cfg model) (take j (cl_in sc)) st0 = Ok sw \<and> ring_inv (cc_pp cfg) max_running xs j sw"
    using tasks_run [OF cfg(1) f' f(2) pos model tasks inv j] by blast
  then show ?thesis using that [of sc sw] sc tasks cfg(3) by simp
qed

text \<open>C22: On the last stage every call and every task succeeds, and the placeholders handed out for a batch are
  replaced by exactly the tokens that batch produced, whenever the batch that uses them is run before more than
  \<open>max_running\<close> placeholders of the same micro-batch, those of the batch itself included, have been given out.\<close>

theorem placeholders_resolved:
  assumes init: "client_init pp (pp - 1) max_running = (cfg, st0)" and pos: "0 < max_running"
    and f: "fits pp max_running xs" "ids_ok max_running xs"
    and model: "\<forall>b p i. length (model (Some b) p i) = fb_bs b"
    and ij: "i < j" "j \<le> length xs" "xs ! i = (c, b, p)" "used_up xs c j \<le> used_up xs c i + max_running"
  shows "\<exists>sc sw si ids si'. foldR (do_call cfg) (gens xs) st0 = Ok sc
     \<and> foldR (do_call cfg) (gens (take i xs)) st0 = Ok si \<and> forward_batch_generation cfg c c b p si = Ok (ids, si')
     \<and> length ids = fb_bs b \<and> foldR (run_task cfg model) (take j (cl_in sc)) st0 = Ok sw
     \<and> resolve_future_token_ids (cl_map sw ! c) ids = Ok (cl_out sw ! i)"
proof -
  have cfg: "cc_rank cfg = cc_pp cfg - 1" "cc_limit cfg = max_running" using init by (auto simp: client_init_def)
  obtain sc sw where run: "foldR (do_call cfg) (gens xs) st0 = Ok sc" "length (cl_in sc) = length xs"
    "foldR (run_task cfg model) (take j (cl_in sc)) st0 = Ok sw" and I: "ring_inv pp max_running xs j sw"
    by (rule last_stage_run [OF init pos f model ij(2)])
  have fi: "fits pp max_running (take i xs)" "ids_ok max_running (take i xs)"
    using f set_take_subset [of i xs] unfolding fits_def ids_ok_def by blast+
  obtain si where si: "foldR (do_call cfg) (gens (take i xs)) st0 = Ok si"
    "\<forall>c < pp. cl_ct si ! c = used_up (take i xs) c (length (take i xs)) mod max_running"
    by (rule last_stage_run [OF init pos fi model le0])
  have "xs ! i \<in> set xs" using ij(1,2) by simp
  then have c: "c < pp" "fb_bs b \<le> max_running" using f ij(3) by (auto simp: fits_def)
  have "cl_ct si ! c = used_up xs c i mod max_running" using si(2) c(1) ij by (simp add: used_up_def)
  then obtain si' where ids: "forward_batch_generation cfg c c b p si = Ok (placeholders (used_up xs c i mod max_running) (fb_bs b), si')"
    using cfg pos by (simp add: forward_batch_generation_def advance_def Let_def)
  have len: "length (cl_map sw ! c) = 2 * max_running" "length (cl_out sw ! i) = fb_bs b"
    using I c(1) ij by (auto simp: ring_inv_def)
  have toks: "cl_map sw ! c ! (used_up xs c i mod max_running + 1 + t) = cl_out sw ! i ! t" if "t < fb_bs b" for t
    using I ij that by (auto simp: ring_inv_def)
  have "used_up xs c i mod max_running + fb_bs b < length (cl_map sw ! c)"
    using len(1) c(2) pos by (metis add_less_le_mono mod_less_divisor mult_2)
  from resolve_placeholders [OF this]
  have "resolve_future_token_ids (cl_map sw ! c) (placeholders (used_up xs c i mod max_running) (fb_bs b)) = Ok (cl_out sw ! i)"
    using toks len(2) by (auto intro!: nth_equalityI)
  moreover have "length (placeholders (used_up xs c i mod max_running) (fb_bs b)) = fb_bs b" by (simp add: placeholders_def)
  ultimately show ?thesis using run si(1) ids by blast
qed

text \<open>C39: The bound is sharp.  When exactly \<open>max_running\<close> placeholders have been given out, the next batch takes the
  first place again: the first placeholder of the first batch, -1, is from then on replaced by a token of another
  request.\<close>

theorem placeholders_overrun:
  assumes init: "client_init 1 0 max_running = (cfg, st0)" and pos: "0 < max_running"
    and f: "fits 1 max_running xs" "ids_ok max_running xs"
    and model: "\<forall>b p i. length (model (Some b) p i) = fb_bs b"
    and k: "0 < k" "k < length xs" "used_up xs 0 k = max_running" and x: "xs ! 0 = (0, b, p)"
  shows "\<exists>sc sw ids st1. foldR (do_call cfg) (gens xs) st0 = Ok sc
     \<and> forward_batch_generation cfg 0 0 b p st0 = Ok (ids, st1) \<and> ids ! 0 = -1
     \<and> foldR (run_task cfg model) (take (Suc k) (cl_in sc)) st0 = Ok sw
     \<and> resolve_future_token_ids (cl_map sw ! 0) [-1] = Ok [cl_out sw ! k ! 0]"
proof -
  have cfg: "cc_rank cfg = cc_pp cfg - 1" "cc_limit cfg = max_running" "cl_ct st0 = [0]" using init by (auto simp: client_init_def)
  have init': "client_init 1 (1 - 1) max_running = (cfg, st0)" using init by simp
  have le: "Suc k \<le> length xs" using k(2) by simp
  obtain sc sw where run: "foldR (do_call cfg) (gens xs) st0 = Ok sc" "length (cl_in sc) = length xs"
    "foldR (run_task cfg model) (take (Suc k) (cl_in sc)) st0 = Ok sw" and I: "ring_inv 1 max_running xs (Suc k) sw"
    by (rule last_stage_run [OF init' pos f model le])
  have in0: "xs ! 0 \<in> set xs" "xs ! k \<in> set xs" by (rule nth_mem, use k in linarith)+
  then have b: "0 < fb_bs b" "fst (xs ! k) = 0" "fb_bs (fst (snd (xs ! k))) \<le> max_running" "0 < fb_bs (fst (snd (xs ! k)))"
    using f x by (auto simp: fits_def)
  obtain st1 where "forward_batch_generation cfg 0 0 b p st0 = Ok (placeholders 0 (fb_bs b), st1)"
    using cfg pos by (simp add: forward_batch_generation_def advance_def Let_def)
  moreover have "placeholders 0 (fb_bs b) ! 0 = -1" using b(1) by (simp add: placeholders_def)
  moreover have "resolve_future_token_ids (cl_map sw ! 0) [-1] = Ok [cl_out sw ! k ! 0]"
  proof -
    have "used_up xs 0 (Suc k) \<le> used_up xs 0 k + max_running" using used_up_Suc [OF k(2), of 0] b by simp
    then have "cl_map sw ! 0 ! (used_up xs 0 k mod max_running + 1 + 0) = cl_out sw ! k ! 0"
      using I [unfolded ring_inv_def] b(2,4) lessI [of k] by blast
    then have "cl_map sw ! 0 ! 1 = cl_out sw ! k ! 0" using k(3) by simp
    moreover have "1 < length (cl_map sw ! 0)" using I pos by (auto simp: ring_inv_def)
    ultimately show ?thesis by (cases "cl_map sw ! 0") (simp_all add: resolve_future_token_ids_def py_index_def)
  qed
  ultimately show ?thesis using run by blast
qed

section \<open>A concrete run\<close>

text \<open>Two places; every batch has one request, and the model counts on from its input.\<close>

definition one :: "int \<Rightarrow> fwd_batch" where
  "one x = \<lparr>fb_ids = [x], fb_bs = 1\<rparr>"

definition counting :: "fwd_batch option \<Rightarrow> pipe_batch option \<Rightarrow> nat \<Rightarrow> int list" where
  "counting b p i = (case b of None \<Rightarrow> [] | Some b \<Rightarrow> map (\<lambda>_. hd (fb_ids b) + 1) [0..<fb_bs b])"

lemma counting_len: "\<forall>b p i. length (counting (Some b) p i) = fb_bs b"
  by (simp add: counting_def)

definition tiny :: "client_cfg \<times> client" where
  "tiny = client_init 1 0 2"

theorem interleaving_irrelevant_witness:
  "\<exists>st sc sw k. foldR (do_event (fst tiny) counting)
        [Call (Gen 0 0 (one 5) None), Work, Call (Gen 0 0 (one (-1)) None), Take, Work] ([], snd tiny) = Ok ([[6]], st) \<and> cl_out st = [[7]]
     \<and> foldR (do_call (fst tiny)) [Gen 0 0 (one 5) None, Gen 0 0 (one (-1)) None] (snd tiny) = Ok sc
     \<and> foldR (run_task (fst tiny) counting) (take k (cl_in sc)) (snd tiny) = Ok sw \<and> cl_out sw = [[6], [7]]"
proof -
  let ?es = "[Call (Gen 0 0 (one 5) None), Work, Call (Gen 0 0 (one (-1)) None), Take, Work]"
  have "\<exists>st. foldR (do_event (fst tiny) counting) ?es ([], snd tiny) = Ok ([[6]], st) \<and> cl_out st = [[7]]"
    by (simp add: tiny_def client_init_def do_event_def do_call_def forward_batch_generation_def advance_def push_def
        placeholders_def forward_thread_step_def run_task_def resolve_future_token_ids_def py_index_def record_tokens_def
        put_slice_def counting_def one_def resolve_batch_result_def numeral_2_eq_2)
  then obtain st where st: "foldR (do_event (fst tiny) counting) ?es ([], snd tiny) = Ok ([[6]], st)" "cl_out st = [[7]]" by blast
  have "cl_in (snd tiny) = []" "cl_out (snd tiny) = []" by (simp_all add: tiny_def client_init_def)
  from interleaving_irrelevant [OF st(1) this] obtain sc sw k where "foldR (do_call (fst tiny)) (calls_of ?es) (snd tiny) = Ok sc"
    "foldR (run_task (fst tiny) counting) (take k (cl_in sc)) (snd tiny) = Ok sw" "[[6]] @ cl_out st = cl_out sw"
    by blast
  moreover have "calls_of ?es = [Gen 0 0 (one 5) None, Gen 0 0 (one (-1)) None]" by (simp add: calls_of_def)
  ultimately show ?thesis using st by (metis append_Cons append_Nil)
qed

definition three_ones :: gen_calls where
  "three_ones = [(0, one 5, None), (0, one 8, None), (0, one 20, None)]"

lemma three_fit: "fits 1 2 three_ones" "ids_ok 2 three_ones"
  by (simp_all add: fits_def ids_ok_def three_ones_def one_def)

lemma tiny_init: "client_init 1 0 2 = (fst tiny, snd tiny)" "client_init 1 (1 - 1) 2 = (fst tiny, snd tiny)"
  by (simp_all add: tiny_def)

theorem placeholders_resolved_witness:
  "\<exists>sc sw si ids si'. foldR (do_call (fst tiny)) (gens three_ones) (snd tiny) = Ok sc
     \<and> foldR (do_call (fst tiny)) (gens (take 0 three_ones)) (snd tiny) = Ok si
     \<and> forward_batch_generation (fst tiny) 0 0 (one 5) None si = Ok (ids, si') \<and> length ids = fb_bs (one 5)
     \<and> foldR (run_task (fst tiny) counting) (take 2 (cl_in sc)) (snd tiny) = Ok sw
     \<and> resolve_future_token_ids (cl_map sw ! 0) ids = Ok (cl_out sw ! 0)"
  by (rule placeholders_resolved [OF tiny_init(2) _ three_fit counting_len])
    (simp_all add: three_ones_def used_up_def one_def numeral_2_eq_2)

theorem placeholders_overrun_witness:
  "\<exists>sc sw ids st1. foldR (do_call (fst tiny)) (gens three_ones) (snd tiny) = Ok sc
     \<and> forward_batch_generation (fst tiny) 0 0 (one 5) None (snd tiny) = Ok (ids, st1) \<and> ids ! 0 = -1
     \<and> foldR (run_task (fst tiny) counting) (take (Suc 2) (cl_in sc)) (snd tiny) = Ok sw
     \<and> resolve_future_token_ids (cl_map sw ! 0) [-1] = Ok [cl_out sw ! 2 ! 0]"
  by (rule placeholders_overrun [OF tiny_init(1) _ three_fit counting_len])
    (simp_all add: three_ones_def used_up_def one_def numeral_2_eq_2)

end
