(* ===== verification/Detokenizer.thy ===== *)
theory Detokenizer
imports Request "HOL-Library.Sublist"
begin

text \<open>
  Incremental detokenization (\<^verbatim>\<open>DetokenizerManager\<close> in
  \<^verbatim>\<open>python/sglang/srt/managers/detokenizer_manager.py\<close> and \<^verbatim>\<open>find_printable_text\<close> of
  \<^verbatim>\<open>python/sglang/utils.py\<close>).  Every message of the scheduler has a row per request, with all token ids from
  a little before the end of the prompt on; the manager keeps per request the text decoded so far and a window
  into the ids.  The decoder of the tokenizer is an argument.  Code points stand for characters.
\<close>

section \<open>State\<close>

record decode_status =
  ds_vid :: int
  ds_text :: pystr
  ds_ids :: "int list"
  ds_surr :: int
  ds_read :: int

record detok_row =
  dr_rid :: string
  dr_vid :: int
  dr_text :: pystr
  dr_ids :: "int list"
  dr_read :: int
  dr_reason :: "finish_reason option"
  dr_no_trim :: bool
  dr_skip :: bool
  dr_spaces :: bool

text \<open>A dictionary of limited capacity, in the order of insertion: when it is full, setting an item first removes the
  oldest one, also when the key is there already.\<close>

definition ldict_set :: "nat \<Rightarrow> 'k \<Rightarrow> 'v \<Rightarrow> ('k \<times> 'v) list \<Rightarrow> ('k \<times> 'v) list res" where
  "ldict_set cap k v d =
     rbind (if length d \<ge> cap then (if d = [] then Err KeyError else Ok (tl d)) else Ok d) (\<lambda>d.
       Ok (if k \<in> fst ` set d then map (\<lambda>(k', v'). if k' = k then (k, v) else (k', v')) d else d @ [(k, v)]))"

definition ldict_get :: "'k \<Rightarrow> ('k \<times> 'v) list \<Rightarrow> 'v res" where
  "ldict_get k d = (case map_of d k of None \<Rightarrow> Err KeyError | Some v \<Rightarrow> Ok v)"

text \<open>Changing an object of the dictionary in place.\<close>

definition ldict_change :: "'k \<Rightarrow> 'v \<Rightarrow> ('k \<times> 'v) list \<Rightarrow> ('k \<times> 'v) list" where
  "ldict_change k v = map (\<lambda>(k', v'). if k' = k then (k', v) else (k', v'))"

section \<open>Texts\<close>

definition is_chinese_char :: "nat \<Rightarrow> bool" where
  "is_chinese_char cp \<longleftrightarrow>
     (cp \<ge> 19968 \<and> cp \<le> 40959) \<or> (cp \<ge> 13312 \<and> cp \<le> 19903) \<or> (cp \<ge> 131072 \<and> cp \<le> 173791) \<or> (cp \<ge> 173824 \<and> cp \<le> 177983)
     \<or> (cp \<ge> 177984 \<and> cp \<le> 178207) \<or> (cp \<ge> 178208 \<and> cp \<le> 183983) \<or> (cp \<ge> 63744 \<and> cp \<le> 64255) \<or> (cp \<ge> 194560 \<and> cp \<le> 195103)"

text \<open>Up to and including the last blank; nothing when there is none.\<close>

definition upto_last_blank :: "pystr \<Rightarrow> pystr" where
  "upto_last_blank s = rev (dropWhile (\<lambda>c. c \<noteq> 32) (rev s))"

definition find_printable_text :: "pystr \<Rightarrow> pystr" where
  "find_printable_text s =
     (if s \<noteq> [] \<and> last s = 10 then s
      else if length s > 0 \<and> is_chinese_char (last s) then s
      else if length s > 1 \<and> is_chinese_char (s ! (length s - 2)) then butlast s
      else upto_last_blank s)"

text \<open>The text before the first occurrence of a stop string.\<close>

fun before_first :: "pystr \<Rightarrow> pystr \<Rightarrow> pystr option" where
  "before_first p [] = (if p = [] then Some [] else None)"
| "before_first p (c # s) =
     (if take (length p) (c # s) = p then Some [] else map_option (Cons c) (before_first p s))"

text \<open>A matched token 0 and a matched empty string count as none.\<close>

definition trim_matched_ids :: "int list \<Rightarrow> finish_reason option \<Rightarrow> bool \<Rightarrow> int list res" where
  "trim_matched_ids out reason no_trim =
     (if no_trim then Ok out
      else case reason of
        Some (FINISH_MATCHED_TOKEN t) \<Rightarrow> if t = 0 then Ok out else rbind (assertR (out \<noteq> [])) (\<lambda>_. Ok (butlast out))
      | _ \<Rightarrow> Ok out)"

definition trim_matched_text :: "pystr \<Rightarrow> finish_reason option \<Rightarrow> bool \<Rightarrow> pystr" where
  "trim_matched_text out reason no_trim =
     (if no_trim then out
      else case reason of
        Some (FINISH_MATCHED_STR m) \<Rightarrow>
          (if m = [] then out else case before_first m out of None \<Rightarrow> out | Some pre \<Rightarrow> pre)
      | _ \<Rightarrow> out)"

section \<open>One message\<close>

text \<open>A request that is new, or whose decoding was restarted, gets a fresh status.\<close>

definition noted :: "detok_row \<Rightarrow> decode_status option \<Rightarrow> decode_status" where
  "noted row s = (case s of
      Some s \<Rightarrow> if ds_vid s = dr_vid row then s\<lparr>ds_ids := dr_ids row\<rparr>
               else \<lparr>ds_vid = dr_vid row, ds_text = dr_text row, ds_ids = dr_ids row, ds_surr = 0, ds_read = dr_read row\<rparr>
    | None \<Rightarrow> \<lparr>ds_vid = dr_vid row, ds_text = dr_text row, ds_ids = dr_ids row, ds_surr = 0, ds_read = dr_read row\<rparr>)"

definition known :: "detok_row \<Rightarrow> (string \<times> decode_status) list \<Rightarrow> bool" where
  "known row d = (case map_of d (dr_rid row) of None \<Rightarrow> False | Some s \<Rightarrow> ds_vid s = dr_vid row)"

definition note_row ::
  "nat \<Rightarrow> detok_row \<Rightarrow> (string \<times> decode_status) list \<Rightarrow> (string \<times> decode_status) list res" where
  "note_row cap row d =
     (let s = noted row (map_of d (dr_rid row))
      in if known row d then Ok (ldict_change (dr_rid row) s d) else ldict_set cap (dr_rid row) s d)"

definition read_part :: "detok_row \<Rightarrow> decode_status \<Rightarrow> int list res" where
  "read_part row s = trim_matched_ids (py_drop (ds_ids s) (ds_surr s)) (dr_reason row) (dr_no_trim row)"

definition surr_part :: "decode_status \<Rightarrow> int list" where
  "surr_part s = py_slice (ds_ids s) (ds_surr s) (ds_read s)"

fun note_rows ::
  "nat \<Rightarrow> detok_row list \<Rightarrow> (string \<times> decode_status) list
     \<Rightarrow> (int list list \<times> int list list \<times> (string \<times> decode_status) list) res" where
  "note_rows cap [] d = Ok ([], [], d)"
| "note_rows cap (row # rows) d =
     rbind (note_row cap row d) (\<lambda>d.
     let s = noted row (map_of d (dr_rid row))
     in rbind (read_part row s) (\<lambda>read.
        rbind (note_rows cap rows d) (\<lambda>(reads, surrs, d). Ok (read # reads, surr_part s # surrs, d))))"

text \<open>The window moves on when new text is complete; otherwise only its printable part is shown.\<close>

definition emit :: "detok_row \<Rightarrow> pystr \<Rightarrow> pystr \<Rightarrow> decode_status \<Rightarrow> pystr \<times> decode_status" where
  "emit row surr_text read_text s =
     (let new_text = drop (length surr_text) read_text;
          (new_text, s) =
            (if dr_reason row \<noteq> None then (new_text, s)
             else if new_text \<noteq> [] \<and> \<not> ends_with_replacement new_text
             then ([], s\<lparr>ds_text := ds_text s @ new_text, ds_surr := ds_read s, ds_read := int (length (ds_ids s))\<rparr>)
             else (find_printable_text new_text, s))
      in (trim_matched_text (ds_text s @ new_text) (dr_reason row) (dr_no_trim row), s))"

fun emit_rows ::
  "detok_row list \<Rightarrow> pystr list \<Rightarrow> pystr list \<Rightarrow> (string \<times> decode_status) list
     \<Rightarrow> (pystr list \<times> (string \<times> decode_status) list) res" where
  "emit_rows (row # rows) (st # sts) (rt # rts) d =
     rbind (ldict_get (dr_rid row) d) (\<lambda>s.
     let (out, s) = emit row st rt s
     in rbind (emit_rows rows sts rts (ldict_change (dr_rid row) s d)) (\<lambda>(outs, d). Ok (out # outs, d)))"
| "emit_rows _ _ _ d = Ok ([], d)"

text \<open>The options of the first row serve for all.\<close>

definition process_tokens ::
  "(bool \<Rightarrow> bool \<Rightarrow> int list \<Rightarrow> pystr) \<Rightarrow> nat \<Rightarrow> detok_row list \<Rightarrow> (string \<times> decode_status) list
     \<Rightarrow> (pystr list \<times> (string \<times> decode_status) list) res" where
  "process_tokens dec cap rows d =
     rbind (note_rows cap rows d) (\<lambda>(reads, surrs, d).
     case rows of
       [] \<Rightarrow> Err IndexError
     | row # _ \<Rightarrow> emit_rows rows (map (dec (dr_skip row) (dr_spaces row)) surrs) (map (dec (dr_skip row) (dr_spaces row)) reads) d)"

definition DETOK_CAPACITY :: nat where
  "DETOK_CAPACITY = 2 ^ 15"

section \<open>Rows do not disturb each other\<close>

text \<open>What a row does to the status of its own request.\<close>

definition row_step ::
  "(int list \<Rightarrow> pystr) \<Rightarrow> detok_row \<Rightarrow> decode_status option \<Rightarrow> (pystr \<times> decode_status) res" where
  "row_step f row so =
     (let s = noted row so in rbind (read_part row s) (\<lambda>read. Ok (emit row (f (surr_part s)) (f read) s)))"

lemma map_of_change: "map_of (ldict_change k v d) j = (if j = k \<and> map_of d k \<noteq> None then Some v else map_of d j)"
  by (induction d) (auto simp: ldict_change_def)

lemma change_keys: "map fst (ldict_change k v d) = map fst d" "length (ldict_change k v d) = length d"
  by (induction d) (auto simp: ldict_change_def)

lemma map_of_replace:
  "map_of (map (\<lambda>(k', v'). if k' = k then (k, v) else (k', v')) d) j = (if j = k \<and> map_of d k \<noteq> None then Some v else map_of d j)"
  by (induction d) auto

lemma map_of_append_one: "map_of d k = None \<Longrightarrow> map_of (d @ [(k, v)]) j = (if j = k then Some v else map_of d j)"
  by (simp add: map_of_append map_add_def split: option.splits)

lemma map_of_set_room:
  assumes "length d < cap" "ldict_set cap k v d = Ok d'"
  shows "map_of d' j = (if j = k then Some v else map_of d j)" "length d' \<le> Suc (length d)"
proof -
  have d': "d' = (if k \<in> fst ` set d then map (\<lambda>(k', v'). if k' = k then (k, v) else (k', v')) d else d @ [(k, v)])"
    using assms by (simp add: ldict_set_def)
  have "k \<in> fst ` set d \<longleftrightarrow> map_of d k \<noteq> None" by (simp add: map_of_eq_None_iff)
  then show "map_of d' j = (if j = k then Some v else map_of d j)"
    unfolding d' using map_of_replace [of k v d j] map_of_append_one [of d k v j] by (cases "map_of d k") simp_all
  show "length d' \<le> Suc (length d)" by (simp add: d')
qed

lemma head_apart: "distinct (map f (x # xs)) \<Longrightarrow> k < length xs \<Longrightarrow> f (xs ! k) \<noteq> f x"
  by (metis distinct.simps(2) image_eqI list.set_map list.simps(9) nth_mem)

lemma noted_again: "noted row (Some (noted row so)) = noted row so"
  by (simp add: noted_def split: option.splits)

lemma note_row_room:
  assumes "length d < cap"
  shows "\<exists>d'. note_row cap row d = Ok d' \<and> length d' \<le> Suc (length d)
     \<and> (\<forall>j. map_of d' j = (if j = dr_rid row then Some (noted row (map_of d j)) else map_of d j))"
proof (cases "known row d")
  case True
  then have "map_of d (dr_rid row) \<noteq> None" by (auto simp: known_def split: option.splits)
  then show ?thesis using True by (auto simp: note_row_def map_of_change change_keys)
next
  case False
  have "\<exists>d'. ldict_set cap (dr_rid row) (noted row (map_of d (dr_rid row))) d = Ok d'" using assms by (simp add: ldict_set_def)
  then show ?thesis using False map_of_set_room [OF assms] by (fastforce simp: note_row_def)
qed

lemma note_rows_room:
  assumes "note_rows cap rows d = Ok (reads, surrs, d')" "length d + length rows \<le> cap" "distinct (map dr_rid rows)"
  shows "length reads = length rows \<and> length surrs = length rows
    \<and> (\<forall>j. map_of d' j = (case find (\<lambda>row. dr_rid row = j) rows of None \<Rightarrow> map_of d j | Some row \<Rightarrow> Some (noted row (map_of d j))))
    \<and> (\<forall>k < length rows. let s = noted (rows ! k) (map_of d (dr_rid (rows ! k))) in
         read_part (rows ! k) s = Ok (reads ! k) \<and> surrs ! k = surr_part s)"
  using assms
proof (induction rows arbitrary: d reads surrs)
  case (Cons row rows)
  obtain d1 where d1: "note_row cap row d = Ok d1" "length d1 \<le> Suc (length d)"
    "\<forall>j. map_of d1 j = (if j = dr_rid row then Some (noted row (map_of d j)) else map_of d j)"
    using note_row_room [of d cap row] Cons.prems(2) by auto
  obtain read reads1 surrs1 where r: "read_part row (noted row (map_of d (dr_rid row))) = Ok read"
    "note_rows cap rows d1 = Ok (reads1, surrs1, d')" "reads = read # reads1"
    "surrs = surr_part (noted row (map_of d (dr_rid row))) # surrs1"
    using Cons.prems(1) d1(1,3) by (auto simp: noted_again Let_def elim!: rbind_OkE)
  have ih: "length reads1 = length rows \<and> length surrs1 = length rows
    \<and> (\<forall>j. map_of d' j = (case find (\<lambda>row. dr_rid row = j) rows of None \<Rightarrow> map_of d1 j | Some row \<Rightarrow> Some (noted row (map_of d1 j))))
    \<and> (\<forall>k < length rows. let s = noted (rows ! k) (map_of d1 (dr_rid (rows ! k))) in
         read_part (rows ! k) s = Ok (reads1 ! k) \<and> surrs1 ! k = surr_part s)"
    using Cons.IH [OF r(2)] Cons.prems(2,3) d1(2) by simp
  have other: "dr_rid (rows ! k) \<noteq> dr_rid row" if "k < length rows" for k
    by (rule head_apart [OF Cons.prems(3) that])
  have none: "find (\<lambda>row'. dr_rid row' = dr_rid row) rows = None"
    using Cons.prems(3) unfolding find_None_iff by simp (metis imageI)
  have "map_of d' j = (case find (\<lambda>row. dr_rid row = j) (row # rows) of None \<Rightarrow> map_of d j | Some row \<Rightarrow> Some (noted row (map_of d j)))" for j
    using ih d1(3) none by (auto split: option.splits)
  moreover have "\<forall>k < length (row # rows). let s = noted ((row # rows) ! k) (map_of d (dr_rid ((row # rows) ! k))) in
         read_part ((row # rows) ! k) s = Ok (reads ! k) \<and> surrs ! k = surr_part s"
    using ih r(1) d1(3) other unfolding r(3,4) by (auto simp: less_Suc_eq_0_disj Let_def)
  ultimately show ?case using ih r(3,4) by simp
qed simp

lemma emit_rows_each:
  assumes "emit_rows rows sts rts d = Ok (outs, d')" "length sts = length rows" "length rts = length rows" "distinct (map dr_rid rows)"
  shows "length outs = length rows \<and> (\<forall>k < length rows. \<exists>s. map_of d (dr_rid (rows ! k)) = Some s
       \<and> emit (rows ! k) (sts ! k) (rts ! k) s = (outs ! k, the (map_of d' (dr_rid (rows ! k)))) \<and> map_of d' (dr_rid (rows ! k)) \<noteq> None)
     \<and> (\<forall>j. j \<notin> dr_rid ` set rows \<longrightarrow> map_of d' j = map_of d j)"
  using assms
proof (induction rows arbitrary: sts rts d outs)
  case (Cons row rows)
  obtain st sts1 rt rts1 where c: "sts = st # sts1" "rts = rt # rts1" using Cons.prems(2,3) by (cases sts; cases rts) auto
  obtain s out s1 outs1 where e: "map_of d (dr_rid row) = Some s" "emit row st rt s = (out, s1)"
    "emit_rows rows sts1 rts1 (ldict_change (dr_rid row) s1 d) = Ok (outs1, d')" "outs = out # outs1"
    using Cons.prems(1) by (auto simp: c ldict_get_def elim!: rbind_OkE split: option.splits prod.splits)
  have ih: "length outs1 = length rows \<and> (\<forall>k < length rows. \<exists>s. map_of (ldict_change (dr_rid row) s1 d) (dr_rid (rows ! k)) = Some s
       \<and> emit (rows ! k) (sts1 ! k) (rts1 ! k) s = (outs1 ! k, the (map_of d' (dr_rid (rows ! k)))) \<and> map_of d' (dr_rid (rows ! k)) \<noteq> None)
     \<and> (\<forall>j. j \<notin> dr_rid ` set rows \<longrightarrow> map_of d' j = map_of (ldict_change (dr_rid row) s1 d) j)"
    using Cons.IH [OF e(3)] Cons.prems c by simp
  have other: "dr_rid (rows ! k) \<noteq> dr_rid row" if "k < length rows" for k
    by (rule head_apart [OF Cons.prems(4) that])
  have self: "map_of d' (dr_rid row) = Some s1" using ih Cons.prems(4) e(1) by (auto simp: map_of_change)
  show ?case
  proof (intro conjI allI impI)
    show "length outs = length (row # rows)" using ih e(4) by simp
    fix k assume "k < length (row # rows)"
    then consider "k = 0" | k' where "k = Suc k'" "k' < length rows" by (cases k) auto
    then show "\<exists>s. map_of d (dr_rid ((row # rows) ! k)) = Some s
       \<and> emit ((row # rows) ! k) (sts ! k) (rts ! k) s = (outs ! k, the (map_of d' (dr_rid ((row # rows) ! k))))
       \<and> map_of d' (dr_rid ((row # rows) ! k)) \<noteq> None"
    proof cases
      case 1
      then show ?thesis using e self c by simp
    next
      case 2
      then show ?thesis using ih other c e(4) by (simp add: map_of_change)
    qed
  next
    fix j assume "j \<notin> dr_rid ` set (row # rows)"
    then show "map_of d' j = map_of d j" using ih by (simp add: map_of_change)
  qed
qed simp

text \<open>As long as the dictionary has room, a message treats its rows independently: every output and the new
  status of its request depend on the row and the old status of that request only, and the status of a request
  without a row stays.\<close>

theorem detok_rows_independent:
  assumes "process_tokens dec cap rows d = Ok (outs, d')" "length d + length rows \<le> cap" "distinct (map dr_rid rows)"
  shows "length outs = length rows
    \<and> (\<forall>k < length rows. \<exists>s. row_step (dec (dr_skip (hd rows)) (dr_spaces (hd rows))) (rows ! k) (map_of d (dr_rid (rows ! k))) = Ok (outs ! k, s)
         \<and> map_of d' (dr_rid (rows ! k)) = Some s)
    \<and> (\<forall>j. j \<notin> dr_rid ` set rows \<longrightarrow> map_of d' j = map_of d j)"
proof -
  let ?f = "dec (dr_skip (hd rows)) (dr_spaces (hd rows))"
  obtain reads surrs d1 where n: "note_rows cap rows d = Ok (reads, surrs, d1)"
    and e: "emit_rows rows (map ?f surrs) (map ?f reads) d1 = Ok (outs, d')"
    using assms(1) by (auto simp: process_tokens_def elim!: rbind_OkE split: list.splits)
  note N = note_rows_room [OF n assms(2,3)]
  have len: "length (map ?f surrs) = length rows" "length (map ?f reads) = length rows" using N by auto
  note E = emit_rows_each [OF e len assms(3)]
  have found: "find (\<lambda>row. dr_rid row = dr_rid (rows ! k)) rows = Some (rows ! k)" if k: "k < length rows" for k
  proof -
    have "dr_rid (rows ! j) \<noteq> dr_rid (rows ! k)" if "j < k" for j
      using assms(3) k that nth_eq_iff_index_eq [OF assms(3), of j k] by simp
    then show ?thesis using k by (auto simp: find_Some_iff)
  qed
  have "\<exists>s. row_step ?f (rows ! k) (map_of d (dr_rid (rows ! k))) = Ok (outs ! k, s) \<and> map_of d' (dr_rid (rows ! k)) = Some s"
    if k: "k < length rows" for k
  proof -
    let ?s = "noted (rows ! k) (map_of d (dr_rid (rows ! k)))"
    have "map_of d1 (dr_rid (rows ! k)) = Some ?s" using N found [OF k] by simp
    moreover have "read_part (rows ! k) ?s = Ok (reads ! k)" "surrs ! k = surr_part ?s" using N k by (auto simp: Let_def)
    ultimately show ?thesis using E k len by (fastforce simp: row_step_def Let_def)
  qed
  moreover have "find (\<lambda>row. dr_rid row = j) rows = None" if "j \<notin> dr_rid ` set rows" for j
    using that by (auto simp: find_None_iff)
  ultimately show ?thesis using E N by auto
qed

section \<open>Incremental decoding is decoding\<close>

text \<open>The rows of one request, one after the other.\<close>

fun decode_run ::
  "(int list \<Rightarrow> pystr) \<Rightarrow> detok_row list \<Rightarrow> decode_status option \<Rightarrow> (pystr list \<times> decode_status option) res" where
  "decode_run f [] so = Ok ([], so)"
| "decode_run f (row # rows) so =
     rbind (row_step f row so) (\<lambda>(out, s).
     rbind (decode_run f rows (Some s)) (\<lambda>(outs, so). Ok (out # outs, so)))"

text \<open>What incremental decoding relies on: text decoded from the middle on continues the text before, wherever that
  does not end within a character.\<close>

definition continues :: "(int list \<Rightarrow> pystr) \<Rightarrow> bool" where
  "continues f \<longleftrightarrow> (\<forall>pre mid post. (pre = [] \<or> mid \<noteq> []) \<and> \<not> ends_with_replacement (f (pre @ mid)) \<longrightarrow>
     f (pre @ mid @ post) = f (pre @ mid) @ drop (length (f mid)) (f (mid @ post)))"

text \<open>All text after the prompt.\<close>

definition answer_text :: "(int list \<Rightarrow> pystr) \<Rightarrow> pystr \<Rightarrow> nat \<Rightarrow> int list \<Rightarrow> pystr" where
  "answer_text f t0 n ids = t0 @ drop (length (f (take n ids))) (f ids)"

definition window_ok :: "(int list \<Rightarrow> pystr) \<Rightarrow> pystr \<Rightarrow> nat \<Rightarrow> decode_status \<Rightarrow> int list \<Rightarrow> bool" where
  "window_ok f t0 n s ids \<longleftrightarrow> (\<exists>pre mid post. ids = pre @ mid @ post \<and> ds_surr s = int (length pre)
     \<and> ds_read s = int (length pre + length mid) \<and> (pre = [] \<or> mid \<noteq> []) \<and> \<not> ends_with_replacement (f (pre @ mid))
     \<and> n \<le> length (pre @ mid) \<and> length (f (take n ids)) \<le> length (f (pre @ mid)) \<and> ds_text s = answer_text f t0 n (pre @ mid))"

lemma window_grows: "window_ok f t0 n s ids \<Longrightarrow> prefix ids ids' \<Longrightarrow> window_ok f t0 n s ids'"
proof -
  assume "window_ok f t0 n s ids" "prefix ids ids'"
  then obtain pre mid post more where w: "ids = pre @ mid @ post" "ds_surr s = int (length pre)" "ds_read s = int (length pre + length mid)"
    "pre = [] \<or> mid \<noteq> []" "\<not> ends_with_replacement (f (pre @ mid))" "n \<le> length (pre @ mid)"
    "length (f (take n ids)) \<le> length (f (pre @ mid))" "ds_text s = answer_text f t0 n (pre @ mid)" "ids' = ids @ more"
    by (auto simp: window_ok_def prefix_def)
  then have "take n ids' = take n ids" by simp
  then show ?thesis unfolding window_ok_def using w by (intro exI [of _ pre] exI [of _ mid] exI [of _ "post @ more"]) simp
qed

lemma blank_prefix: "prefix (upto_last_blank s) s"
proof -
  have "rev s = takeWhile (\<lambda>c. c \<noteq> 32) (rev s) @ dropWhile (\<lambda>c. c \<noteq> 32) (rev s)" by simp
  then have "s = rev (dropWhile (\<lambda>c. c \<noteq> 32) (rev s)) @ rev (takeWhile (\<lambda>c. c \<noteq> 32) (rev s))" by (metis rev_append rev_rev_ident)
  then show ?thesis unfolding upto_last_blank_def prefix_def by blast
qed

lemma printable_prefix: "prefix (find_printable_text s) s"
  unfolding find_printable_text_def by (simp only: blank_prefix prefixeq_butlast prefix_order.refl if_True if_False split: if_split) simp

text \<open>One streamed row.\<close>

lemma stream_step:
  assumes f: "continues f" and w: "window_ok f t0 n s ids" and r: "dr_reason row = None" "ds_vid s = dr_vid row" "dr_ids row = ids"
  shows "\<exists>out s'. row_step f row (Some s) = Ok (out, s') \<and> prefix out (answer_text f t0 n ids) \<and> window_ok f t0 n s' ids
    \<and> ds_vid s' = ds_vid s"
proof -
  obtain pre mid post where W: "ids = pre @ mid @ post" "ds_surr s = int (length pre)" "ds_read s = int (length pre + length mid)"
    "pre = [] \<or> mid \<noteq> []" "\<not> ends_with_replacement (f (pre @ mid))" "n \<le> length (pre @ mid)"
    "length (f (take n ids)) \<le> length (f (pre @ mid))" "ds_text s = answer_text f t0 n (pre @ mid)"
    using w by (auto simp: window_ok_def)
  let ?s = "s\<lparr>ds_ids := ids\<rparr>" and ?new = "drop (length (f mid)) (f (mid @ post))"
  have noted: "noted row (Some s) = ?s" using r by (simp add: noted_def)
  have parts: "surr_part ?s = mid" "py_drop (ds_ids ?s) (ds_surr ?s) = mid @ post"
    using W py_slice_nat [of ids "length pre" "length pre + length mid"] by (simp_all add: surr_part_def)
  have read: "read_part row ?s = Ok (mid @ post)" using r parts(2) by (simp add: read_part_def trim_matched_ids_def)
  have all: "f ids = f (pre @ mid) @ ?new" using f W(1,4,5) by (simp add: continues_def)
  have take: "take n ids = take n (pre @ mid)" using W(1,6) by simp
  have ans: "answer_text f t0 n ids = ds_text s @ ?new"
    using W(7,8) all take by (simp add: answer_text_def)
  have step: "row_step f row (Some s) = Ok (emit row (f mid) (f (mid @ post)) ?s)"
    using noted parts(1) read by (simp add: row_step_def)
  show ?thesis
  proof (cases "?new \<noteq> [] \<and> \<not> ends_with_replacement ?new")
    case True
    let ?s' = "?s\<lparr>ds_text := ds_text s @ ?new, ds_surr := ds_read s, ds_read := int (length ids)\<rparr>"
    have e: "emit row (f mid) (f (mid @ post)) ?s = (ds_text s @ ?new, ?s')"
      using r True by (simp add: emit_def trim_matched_text_def Let_def)
    have post: "post \<noteq> []" using True by auto
    have clean: "\<not> ends_with_replacement (f ids)"
      unfolding all using True by (auto simp: ends_with_replacement_def)
    have "window_ok f t0 n ?s' ids"
      unfolding window_ok_def
      by (rule exI [of _ "pre @ mid"], rule exI [of _ post], rule exI [of _ "[]"])
        (use W post clean ans all take in auto)
    then show ?thesis using step e ans by simp
  next
    case False
    have e: "emit row (f mid) (f (mid @ post)) ?s = (ds_text s @ find_printable_text ?new, ?s)"
      using r False by (auto simp: emit_def trim_matched_text_def Let_def)
    have "window_ok f t0 n ?s ids" using w by (simp add: window_ok_def)
    then show ?thesis using step e ans printable_prefix [of ?new] by simp
  qed
qed

text \<open>The text up to the first occurrence of a stop string, or all of it when there is none.\<close>

definition cut_at :: "pystr \<Rightarrow> pystr \<Rightarrow> pystr \<Rightarrow> bool" where
  "cut_at m t out \<longleftrightarrow>
     (if \<exists>a b. t = a @ m @ b
      then (\<exists>b. t = out @ m @ b) \<and> (\<forall>a b. t = a @ m @ b \<longrightarrow> length out \<le> length a)
      else out = t)"

lemma before_first_cut:
  assumes "m \<noteq> []"
  shows "cut_at m t (case before_first m t of None \<Rightarrow> t | Some a \<Rightarrow> a)"
proof -
  have "(case before_first m t of None \<Rightarrow> \<forall>a b. t \<noteq> a @ m @ b
      | Some out \<Rightarrow> (\<exists>b. t = out @ m @ b) \<and> (\<forall>a b. t = a @ m @ b \<longrightarrow> length out \<le> length a))"
  proof (induction t)
    case Nil
    then show ?case using assms by simp
  next
    case (Cons c t)
    show ?case
    proof (cases "prefix m (c # t)")
      case True
      then have "take (length m) (c # t) = m" by (auto simp: prefix_def)
      then show ?thesis using True by (auto simp: prefix_def)
    next
      case False
      have no: "take (length m) (c # t) \<noteq> m" using False take_is_prefix by metis
      have away: "\<exists>a'. a = c # a' \<and> t = a' @ m @ b" if "c # t = a @ m @ b" for a b
        using that False by (cases a) (auto simp: prefix_def)
      show ?thesis
      proof (cases "before_first m t")
        case None
        then have "\<forall>a b. t \<noteq> a @ m @ b" using Cons by simp
        then have "\<forall>a b. c # t \<noteq> a @ m @ b" using away by blast
        moreover have "before_first m (c # t) = None" using no None by simp
        ultimately show ?thesis by simp
      next
        case (Some out)
        then have t: "\<exists>b. t = out @ m @ b" "\<forall>a b. t = a @ m @ b \<longrightarrow> length out \<le> length a" using Cons by simp_all
        have "length (c # out) \<le> length a" if "c # t = a @ m @ b" for a b
          using away [OF that] t(2) by auto
        moreover have "\<exists>b. c # t = (c # out) @ m @ b" using t(1) by simp
        moreover have "before_first m (c # t) = Some (c # out)" using no Some by simp
        ultimately show ?thesis by (simp del: append.simps)
      qed
    qed
  qed
  then show ?thesis by (auto simp: cut_at_def split: option.splits)
qed

text \<open>What the last output has to be, given the text \<open>txt\<close> of token ids: a matched stop token is not shown and a
  matched stop string cuts the text, unless the request asks not to trim.\<close>

definition final_text_ok ::
  "finish_reason \<Rightarrow> bool \<Rightarrow> (int list \<Rightarrow> pystr) \<Rightarrow> int list \<Rightarrow> pystr \<Rightarrow> bool" where
  "final_text_ok reason no_trim txt ids out \<longleftrightarrow>
     (case reason of
        FINISH_MATCHED_TOKEN t \<Rightarrow> out = txt (if no_trim \<or> t = 0 then ids else butlast ids)
      | FINISH_MATCHED_STR m \<Rightarrow> (if no_trim \<or> m = [] then out = txt ids else cut_at m (txt ids) out)
      | _ \<Rightarrow> out = txt ids)"

text \<open>The last row, which brings at least one new token.\<close>

lemma final_step:
  assumes f: "continues f" and w: "window_ok f t0 n s old" and r: "ds_vid s = dr_vid row" "dr_ids row = old @ new" "new \<noteq> []"
    "dr_reason row = Some reason"
  shows "\<exists>out s'. row_step f row (Some s) = Ok (out, s')
    \<and> final_text_ok reason (dr_no_trim row) (answer_text f t0 n) (dr_ids row) out"
proof -
  let ?ids = "dr_ids row"
  obtain pre mid post0 where "old = pre @ mid @ post0" and W: "ds_surr s = int (length pre)" "ds_read s = int (length pre + length mid)"
    "pre = [] \<or> mid \<noteq> []" "\<not> ends_with_replacement (f (pre @ mid))" "n \<le> length (pre @ mid)"
    "length (f (take n old)) \<le> length (f (pre @ mid))" "ds_text s = answer_text f t0 n (pre @ mid)"
    using w by (auto simp: window_ok_def)
  then obtain post where post: "?ids = pre @ mid @ post" "post \<noteq> []" using r(2,3) by auto
  have take: "take n old = take n (pre @ mid)" using \<open>old = _\<close> W(5) by simp
  let ?s = "s\<lparr>ds_ids := ?ids\<rparr>" and ?new = "\<lambda>post. drop (length (f mid)) (f (mid @ post))"
  have noted: "noted row (Some s) = ?s" using r(1) by (simp add: noted_def)
  have parts: "surr_part ?s = mid" "py_drop (ds_ids ?s) (ds_surr ?s) = mid @ post"
    using W post py_slice_nat [of ?ids "length pre" "length pre + length mid"] by (simp_all add: surr_part_def)
  have ans: "answer_text f t0 n (pre @ mid @ q) = ds_text s @ ?new q" for q
  proof -
    have "f (pre @ mid @ q) = f (pre @ mid) @ ?new q" using f W(3,4) unfolding continues_def by blast
    moreover have "take n (pre @ mid @ q) = take n old" using take W(5) by simp
    ultimately have "answer_text f t0 n (pre @ mid @ q) = t0 @ drop (length (f (take n old))) (f (pre @ mid) @ ?new q)"
      by (simp only: answer_text_def)
    then show ?thesis using W(6,7) unfolding answer_text_def take [symmetric] by simp
  qed
  have step: "\<exists>s'. row_step f row (Some s) = Ok (fst (emit row (f mid) (f (mid @ q)) ?s), s')"
    if "trim_matched_ids (mid @ post) (dr_reason row) (dr_no_trim row) = Ok (mid @ q)" for q
    using noted parts that by (simp add: row_step_def read_part_def) (metis prod.collapse)
  have out: "fst (emit row (f mid) (f (mid @ q)) ?s)
      = trim_matched_text (answer_text f t0 n (pre @ mid @ q)) (dr_reason row) (dr_no_trim row)" for q
    using r(4) ans [of q] by (simp add: emit_def Let_def)
  show ?thesis
  proof (cases "\<exists>t. reason = FINISH_MATCHED_TOKEN t \<and> t \<noteq> 0 \<and> \<not> dr_no_trim row")
    case True
    have "trim_matched_ids (mid @ post) (dr_reason row) (dr_no_trim row) = Ok (mid @ butlast post)"
      using True r(4) post(2) by (auto simp: trim_matched_ids_def butlast_append)
    from step [OF this] out [of "butlast post"] True r(4) show ?thesis
      by (auto simp: final_text_ok_def trim_matched_text_def post butlast_append)
  next
    case False
    then have "trim_matched_ids (mid @ post) (dr_reason row) (dr_no_trim row) = Ok (mid @ post)"
      using r(4) by (auto simp: trim_matched_ids_def split: finish_reason.splits)
    from step [OF this] obtain s' where "row_step f row (Some s) = Ok (fst (emit row (f mid) (f (mid @ post)) ?s), s')" ..
    moreover have "final_text_ok reason (dr_no_trim row) (answer_text f t0 n) ?ids (fst (emit row (f mid) (f (mid @ post)) ?s))"
      using out [of post] False r(4)
      by (cases reason) (auto simp: final_text_ok_def trim_matched_text_def post before_first_cut)
    ultimately show ?thesis by blast
  qed
qed

text \<open>The rows of one request after its first.\<close>

fun growing :: "int list \<Rightarrow> detok_row list \<Rightarrow> bool" where
  "growing ids [] \<longleftrightarrow> True"
| "growing ids (row # rows) \<longleftrightarrow> prefix ids (dr_ids row) \<and> growing (dr_ids row) rows"

lemma run_streams:
  assumes f: "continues f"
  shows "window_ok f t0 n s ids \<Longrightarrow> growing ids rows \<Longrightarrow> \<forall>row \<in> set rows. dr_reason row = None \<and> dr_vid row = ds_vid s \<Longrightarrow>
    \<exists>outs s'. decode_run f rows (Some s) = Ok (outs, Some s') \<and> length outs = length rows
      \<and> (\<forall>k < length rows. prefix (outs ! k) (answer_text f t0 n (dr_ids (rows ! k))))
      \<and> window_ok f t0 n s' (if rows = [] then ids else dr_ids (last rows)) \<and> ds_vid s' = ds_vid s"
proof (induction rows arbitrary: s ids)
  case (Cons row rows)
  have w: "window_ok f t0 n s (dr_ids row)" using window_grows Cons.prems(1,2) by auto
  have r: "dr_reason row = None" "ds_vid s = dr_vid row" using Cons.prems(3) by auto
  obtain out s1 where 1: "row_step f row (Some s) = Ok (out, s1)" "prefix out (answer_text f t0 n (dr_ids row))"
    "window_ok f t0 n s1 (dr_ids row)" "ds_vid s1 = ds_vid s"
    using stream_step [OF f w r refl] by blast
  obtain outs s' where 2: "decode_run f rows (Some s1) = Ok (outs, Some s')" "length outs = length rows"
    "\<forall>k < length rows. prefix (outs ! k) (answer_text f t0 n (dr_ids (rows ! k)))"
    "window_ok f t0 n s' (if rows = [] then dr_ids row else dr_ids (last rows))" "ds_vid s' = ds_vid s1"
    using Cons.IH [OF 1(3)] Cons.prems(2,3) 1(4) by auto
  then show ?case using 1 by (auto simp: less_Suc_eq_0_disj)
qed simp

lemma growing_last: "growing ids (rows @ [row]) \<Longrightarrow> prefix (if rows = [] then ids else dr_ids (last rows)) (dr_ids row)"
  by (induction rows arbitrary: ids) auto

lemma growing_butlast: "growing ids (rows @ [row]) \<Longrightarrow> growing ids rows"
  by (induction rows arbitrary: ids) auto

lemma growing_prefix: "growing ids rows \<Longrightarrow> row \<in> set rows \<Longrightarrow> prefix ids (dr_ids row)"
  by (induction rows arbitrary: ids) (auto intro: prefix_order.trans)

lemma prefix_butlast: "prefix p q \<Longrightarrow> prefix q ids \<Longrightarrow> ids \<noteq> q \<Longrightarrow> prefix p (butlast ids)"
  by (auto simp: prefix_def butlast_append)

lemma decode_run_snoc:
  "decode_run f (rows @ [row]) so = rbind (decode_run f rows so) (\<lambda>(outs, so).
      rbind (row_step f row so) (\<lambda>(out, s). Ok (outs @ [out], Some s)))"
  by (induction rows arbitrary: so) (auto simp: rbind_def split: sum.splits prod.splits)

lemma decode_run_fresh:
  assumes "rows \<noteq> []" "dr_vid (hd rows) = v" "dr_text (hd rows) = t0" "dr_read (hd rows) = n"
  shows "decode_run f rows None = decode_run f rows (Some \<lparr>ds_vid = v, ds_text = t0, ds_ids = [], ds_surr = 0, ds_read = n\<rparr>)"
  using assms by (cases rows) (simp_all add: row_step_def noted_def)

text \<open>Any decoder with the property above decodes incrementally what it decodes at once.\<close>

lemma decoding_complete:
  assumes f: "continues f"
    and rows: "\<forall>row \<in> set (rows @ [final]). dr_vid row = v \<and> dr_text row = t0 \<and> dr_read row = int (length p)"
      "\<forall>row \<in> set rows. dr_reason row = None"
    and grow: "growing p (rows @ [final])" "dr_ids final \<noteq> (if rows = [] then p else dr_ids (last rows))"
    and p: "\<not> ends_with_replacement (f p)"
    and final: "dr_reason final = Some reason"
  shows "\<exists>outs s. decode_run f (rows @ [final]) None = Ok (outs, s) \<and> length outs = Suc (length rows)
    \<and> final_text_ok reason (dr_no_trim final) (answer_text f t0 (length p)) (dr_ids final) (last outs)
    \<and> (\<forall>k < length rows. prefix (outs ! k) (answer_text f t0 (length p) (dr_ids (rows ! k))))"
proof -
  let ?n = "length p"
  let ?s0 = "\<lparr>ds_vid = v, ds_text = t0, ds_ids = [], ds_surr = 0, ds_read = int ?n\<rparr>"
  let ?old = "if rows = [] then p else dr_ids (last rows)"
  have fresh: "decode_run f (rows @ [final]) None = decode_run f (rows @ [final]) (Some ?s0)"
    by (rule decode_run_fresh) (use rows(1) in \<open>cases rows; simp\<close>)+
  have w0: "window_ok f t0 ?n ?s0 p"
    unfolding window_ok_def
    by (rule exI [of _ "[]"], rule exI [of _ p], rule exI [of _ "[]"]) (use p in \<open>auto simp: answer_text_def\<close>)
  have st: "\<forall>row \<in> set rows. dr_reason row = None \<and> dr_vid row = ds_vid ?s0" using rows by simp
  from run_streams [OF f w0 growing_butlast [OF grow(1)] st] obtain outs s' where
    r: "decode_run f rows (Some ?s0) = Ok (outs, Some s')" "length outs = length rows"
      "\<forall>k < length rows. prefix (outs ! k) (answer_text f t0 ?n (dr_ids (rows ! k)))" "window_ok f t0 ?n s' ?old" "ds_vid s' = v"
    by auto
  obtain new where new: "dr_ids final = ?old @ new" using growing_last [OF grow(1)] by (auto simp: prefix_def)
  have n: "new \<noteq> []" using grow(2) new by auto
  obtain out s'' where fin: "row_step f final (Some s') = Ok (out, s'')"
      "final_text_ok reason (dr_no_trim final) (answer_text f t0 ?n) (dr_ids final) out"
    using final_step [OF f r(4) _ new n final] r(5) rows(1) by auto
  have "decode_run f (rows @ [final]) None = Ok (outs @ [out], Some s'')"
    unfolding fresh by (simp add: decode_run_snoc r(1) fin(1))
  then show ?thesis using r(2,3) fin(2) by (auto simp: nth_append)
qed

section \<open>Byte-level tokenizers\<close>

text \<open>A byte-level tokenizer has a sequence of bytes for every token (none for a special token that is skipped) and
  decodes the bytes of all tokens together as UTF-8, as \<^verbatim>\<open>bytes.decode('utf-8', errors='replace')\<close> does: every
  maximal part that begins a character but does not complete it, and every byte that cannot begin one, becomes the
  replacement character.  A state is the number of bytes a character still needs, the bounds of the next
  one, and what has been read of it.\<close>

type_synonym utf8_state = "nat \<times> nat \<times> nat \<times> nat"

definition clean :: utf8_state where
  "clean = (0, 0, 0, 0)"

definition utf8_start :: "nat \<Rightarrow> pystr \<times> utf8_state" where
  "utf8_start b =
     (if b < 128 then ([b], clean)
      else if 194 \<le> b \<and> b \<le> 223 then ([], (1, 128, 191, b - 192))
      else if b = 224 then ([], (2, 160, 191, 0))
      else if b = 237 then ([], (2, 128, 159, 13))
      else if 225 \<le> b \<and> b \<le> 239 then ([], (2, 128, 191, b - 224))
      else if b = 240 then ([], (3, 144, 191, 0))
      else if 241 \<le> b \<and> b \<le> 243 then ([], (3, 128, 191, b - 240))
      else if b = 244 then ([], (3, 128, 143, 4))
      else ([REPLACEMENT_CHAR], clean))"

definition utf8_step :: "utf8_state \<Rightarrow> nat \<Rightarrow> pystr \<times> utf8_state" where
  "utf8_step st b = (case st of (k, lo, hi, acc) \<Rightarrow>
     if k = 0 then utf8_start b
     else if lo \<le> b \<and> b \<le> hi
     then (if k = 1 then ([64 * acc + (b - 128)], clean) else ([], (k - 1, 128, 191, 64 * acc + (b - 128))))
     else (case utf8_start b of (out, st) \<Rightarrow> (REPLACEMENT_CHAR # out, st)))"

fun utf8_run :: "utf8_state \<Rightarrow> nat list \<Rightarrow> pystr \<times> utf8_state" where
  "utf8_run st [] = ([], st)"
| "utf8_run st (b # bs) = (case utf8_step st b of (out, st) \<Rightarrow> (case utf8_run st bs of (outs, st) \<Rightarrow> (out @ outs, st)))"

definition utf8_flush :: "utf8_state \<Rightarrow> pystr" where
  "utf8_flush st = (if fst st = 0 then [] else [REPLACEMENT_CHAR])"

definition utf8_decode :: "nat list \<Rightarrow> pystr" where
  "utf8_decode bs = (case utf8_run clean bs of (out, st) \<Rightarrow> out @ utf8_flush st)"

definition byte_decode :: "(int \<Rightarrow> nat list) \<Rightarrow> int list \<Rightarrow> pystr" where
  "byte_decode bytes ids = utf8_decode (concat (map bytes ids))"

lemma utf8_run_append:
  "utf8_run st (xs @ ys) = (case utf8_run st xs of (out, st) \<Rightarrow> (case utf8_run st ys of (outs, st) \<Rightarrow> (out @ outs, st)))"
  by (induction xs arbitrary: st) (auto split: prod.splits)

text \<open>The states that occur.\<close>

definition utf8_ok :: "utf8_state \<Rightarrow> bool" where
  "utf8_ok st \<longleftrightarrow> (case st of (k, lo, hi, acc) \<Rightarrow> (k = 0 \<longrightarrow> st = clean) \<and> (0 < k \<longrightarrow> 128 \<le> lo \<and> hi \<le> 191))"

lemma utf8_start_ok: "utf8_ok (snd (utf8_start b))"
  by (auto simp: utf8_start_def utf8_ok_def clean_def)

lemma utf8_step_ok: "utf8_ok st \<Longrightarrow> utf8_ok (snd (utf8_step st b))"
  using utf8_start_ok [of b]
  by (auto simp: utf8_step_def split: prod.splits if_splits) (auto simp: utf8_ok_def clean_def)

lemma utf8_run_ok: "utf8_ok st \<Longrightarrow> utf8_ok (snd (utf8_run st bs))"
proof (induction bs arbitrary: st)
  case (Cons b bs)
  have "utf8_ok (snd (utf8_run (snd (utf8_step st b)) bs))" by (rule Cons.IH [OF utf8_step_ok [OF Cons.prems]])
  then show ?case by (auto split: prod.splits)
qed simp

text \<open>A byte that continues a character cannot begin one.\<close>

lemma utf8_start_tail: "128 \<le> b \<Longrightarrow> b \<le> 191 \<Longrightarrow> utf8_start b = ([REPLACEMENT_CHAR], clean)"
  by (simp add: utf8_start_def)

text \<open>Decoding that starts within a character catches up: when the decoding of the whole has come to the end of a
  character, so has the decoding of its end.\<close>

lemma utf8_catches_up:
  "utf8_ok st \<Longrightarrow> snd (utf8_run st bs) = clean \<Longrightarrow> snd (utf8_run clean bs) = clean"
proof (induction bs arbitrary: st)
  case Nil
  then show ?case by simp
next
  case (Cons b bs)
  obtain k lo hi acc where st: "st = (k, lo, hi, acc)" by (metis prod.exhaust)
  have run: "snd (utf8_run st' (b # bs)) = snd (utf8_run (snd (utf8_step st' b)) bs)" for st'
    by (simp split: prod.splits)
  show ?case
  proof (cases "0 < k \<and> lo \<le> b \<and> b \<le> hi")
    case True
    then have "snd (utf8_step clean b) = clean"
      using Cons.prems(1) utf8_start_tail [of b] by (simp add: st utf8_ok_def utf8_step_def clean_def)
    moreover have "snd (utf8_run clean bs) = clean"
      by (rule Cons.IH [OF utf8_step_ok [OF Cons.prems(1), of b]]) (use Cons.prems(2) run in simp)
    ultimately show ?thesis using run [of clean] by simp
  next
    case False
    then have "snd (utf8_step st b) = snd (utf8_step clean b)"
      by (auto simp: st utf8_step_def clean_def split: prod.splits)
    then show ?thesis using Cons.prems(2) run by simp
  qed
qed

lemma utf8_split:
  assumes "snd (utf8_run clean xs) = clean"
  shows "utf8_decode (xs @ ys) = utf8_decode xs @ utf8_decode ys"
  using assms
  by (auto simp: utf8_decode_def utf8_run_append utf8_flush_def clean_def split: prod.splits)

lemma utf8_clean:
  assumes "\<not> ends_with_replacement (utf8_decode xs)"
  shows "snd (utf8_run clean xs) = clean"
proof -
  obtain out st where r: "utf8_run clean xs = (out, st)" by (metis prod.exhaust)
  have "utf8_ok st" using utf8_run_ok [of clean xs] r by (simp add: utf8_ok_def clean_def)
  moreover have "fst st = 0" using assms r by (auto simp: utf8_decode_def utf8_flush_def ends_with_replacement_def split: if_splits)
  ultimately show ?thesis using r by (auto simp: utf8_ok_def)
qed

lemma byte_decode_continues: "continues (byte_decode bytes)"
  unfolding continues_def
proof (intro allI impI)
  fix pre mid post
  let ?b = "\<lambda>ids. concat (map bytes ids)"
  assume "(pre = [] \<or> mid \<noteq> []) \<and> \<not> ends_with_replacement (byte_decode bytes (pre @ mid))"
  then have whole: "snd (utf8_run clean (?b pre @ ?b mid)) = clean"
    using utf8_clean [of "?b pre @ ?b mid"] by (simp add: byte_decode_def)
  have "utf8_ok (snd (utf8_run clean (?b pre)))" by (rule utf8_run_ok) (simp add: utf8_ok_def clean_def)
  moreover have "snd (utf8_run (snd (utf8_run clean (?b pre))) (?b mid)) = clean"
    using whole by (auto simp: utf8_run_append split: prod.splits)
  ultimately have "snd (utf8_run clean (?b mid)) = clean" by (rule utf8_catches_up)
  then show "byte_decode bytes (pre @ mid @ post)
      = byte_decode bytes (pre @ mid) @ drop (length (byte_decode bytes mid)) (byte_decode bytes (mid @ post))"
    using utf8_split [OF whole, of "?b post"] utf8_split [of "?b mid" "?b post"] by (simp add: byte_decode_def)
qed

text \<open>C24: Incremental decoding loses and invents nothing, for every byte-level tokenizer and however its tokens cut
  characters.  When the messages of a request carry growing token ids and the last one ends it, the last output is
  the initial text and everything that decoding all ids at once adds to the prompt: without the stop token when one
  was matched (a token with id 0 is not trimmed), cut before the first occurrence of the stop string when one
  was matched, and whole for the other endings or when the request asks not to trim.  Every output before is a
  prefix of that text for the ids known then.  The prompt must not end within a character.\<close>

theorem incremental_decoding_complete:
  assumes rows: "\<forall>row \<in> set (rows @ [final]). dr_vid row = v \<and> dr_text row = t0 \<and> dr_read row = int (length p)"
      "\<forall>row \<in> set rows. dr_reason row = None"
    and grow: "growing p (rows @ [final])" "dr_ids final \<noteq> (if rows = [] then p else dr_ids (last rows))"
    and p: "\<not> ends_with_replacement (byte_decode bytes p)"
    and final: "dr_reason final = Some reason"
  shows "\<exists>outs s. decode_run (byte_decode bytes) (rows @ [final]) None = Ok (outs, s) \<and> length outs = Suc (length rows)
    \<and> final_text_ok reason (dr_no_trim final)
        (\<lambda>ids. t0 @ drop (length (byte_decode bytes p)) (byte_decode bytes ids)) (dr_ids final) (last outs)
    \<and> (\<forall>k < length rows. prefix (outs ! k)
         (t0 @ drop (length (byte_decode bytes p)) (byte_decode bytes (dr_ids (rows ! k)))))"
proof -
  let ?f = "byte_decode bytes"
  have ans: "answer_text ?f t0 (length p) ids = t0 @ drop (length (?f p)) (?f ids)" if "prefix p ids" for ids
    using that by (auto simp: answer_text_def prefix_def)
  have pre: "prefix p (dr_ids row)" if "row \<in> set (rows @ [final])" for row using growing_prefix [OF grow(1) that] .
  have "prefix p (if rows = [] then p else dr_ids (last rows))" using pre by auto
  then have "prefix p (butlast (dr_ids final))"
    by (rule prefix_butlast [OF _ growing_last [OF grow(1)] grow(2)])
  moreover have "prefix p (dr_ids final)" using pre by simp
  ultimately have fin: "final_text_ok reason (dr_no_trim final) (answer_text ?f t0 (length p)) (dr_ids final) out
      \<longleftrightarrow> final_text_ok reason (dr_no_trim final) (\<lambda>ids. t0 @ drop (length (?f p)) (?f ids)) (dr_ids final) out" for out
    by (simp add: final_text_ok_def ans split: finish_reason.split)
  have each: "\<forall>k < length rows. answer_text ?f t0 (length p) (dr_ids (rows ! k)) = t0 @ drop (length (?f p)) (?f (dr_ids (rows ! k)))"
    using pre by (simp add: ans)
  show ?thesis
    using decoding_complete [OF byte_decode_continues rows grow p final] fin each by auto
qed

section \<open>A full dictionary\<close>

text \<open>C40: When the dictionary is full, a message with a row of the request that has been in it longest, followed by
  the first row of a new request, fails: making room for the new one removes the status of the other, which is
  needed again when its text is emitted.\<close>

theorem full_dictionary_fails:
  assumes full: "length d = cap" "d = (dr_rid old, s) # rest" "distinct (map fst d)"
    and old: "ds_vid s = dr_vid old" "dr_reason old = None" and new: "map_of d (dr_rid new) = None" "dr_reason new = None"
  shows "process_tokens dec cap [old, new] d = Err KeyError"
proof -
  have apart: "dr_rid new \<noteq> dr_rid old" "map_of rest (dr_rid old) = None" "map_of rest (dr_rid new) = None"
    using full(2,3) new by (auto simp: map_of_eq_None_iff split: if_splits)
  let ?d = "ldict_change (dr_rid old) (s\<lparr>ds_ids := dr_ids old\<rparr>) d"
  have d1: "note_row cap old d = Ok ?d" using full(2) old by (simp add: note_row_def known_def noted_def)
  have rest: "ldict_change (dr_rid old) (s\<lparr>ds_ids := dr_ids old\<rparr>) rest = rest"
    using apart(2) by (force simp: ldict_change_def map_of_eq_None_iff intro!: map_idI)
  have dd: "?d = (dr_rid old, s\<lparr>ds_ids := dr_ids old\<rparr>) # rest" using full(2) rest by (simp add: ldict_change_def)
  let ?n = "\<lparr>ds_vid = dr_vid new, ds_text = dr_text new, ds_ids = dr_ids new, ds_surr = 0, ds_read = dr_read new\<rparr>"
  have d2: "note_row cap new ?d = Ok (rest @ [(dr_rid new, ?n)])"
  proof -
    have "dr_rid new \<notin> fst ` set rest" using apart(3) by (simp add: map_of_eq_None_iff)
    then show ?thesis using apart full(1,2) unfolding dd by (simp add: note_row_def known_def noted_def ldict_set_def Let_def)
  qed
  have "\<exists>reads surrs. note_rows cap [old, new] d = Ok (reads, surrs, rest @ [(dr_rid new, ?n)])"
    using d1 d2 old(2) new(2) by (simp add: read_part_def trim_matched_ids_def Let_def)
  moreover have "ldict_get (dr_rid old) (rest @ [(dr_rid new, ?n)]) = Err KeyError"
    using apart by (simp add: ldict_get_def map_of_append map_add_def)
  moreover have "length surrs = 2 \<and> length reads = 2" if "note_rows cap [old, new] d = Ok (reads, surrs, x)" for reads surrs x
    using that by (auto elim!: rbind_OkE simp: Let_def)
  ultimately show ?thesis
    by (auto simp: process_tokens_def numeral_2_eq_2 length_Suc_conv)
qed

section \<open>Concrete runs\<close>

text \<open>Every token is a character.\<close>

definition chars :: "int list \<Rightarrow> pystr" where
  "chars ids = map nat ids"

definition line :: "string \<Rightarrow> int list \<Rightarrow> finish_reason option \<Rightarrow> detok_row" where
  "line n ids reason = \<lparr>dr_rid = n, dr_vid = 0, dr_text = [], dr_ids = ids, dr_read = 1, dr_reason = reason, dr_no_trim = False,
     dr_skip = True, dr_spaces = True\<rparr>"

text \<open>Tokens 1 and 2 are the two bytes of one character; token 7 is a stop token.  While only the first byte is
  there nothing is shown.\<close>

definition demo_bytes :: "int \<Rightarrow> nat list" where
  "demo_bytes t = (if t = 1 then [195] else if t = 2 then [169] else [nat t])"

theorem incremental_decoding_complete_witness:
  "\<exists>outs s. decode_run (byte_decode demo_bytes)
      ([line ''a'' [72, 1] None, line ''a'' [72, 1, 2] None] @ [line ''a'' [72, 1, 2, 33, 7] (Some (FINISH_MATCHED_TOKEN 7))]) None
      = Ok (outs, s) \<and> prefix (outs ! 1) [233] \<and> last outs = [233, 33]"
proof -
  let ?rows = "[line ''a'' [72, 1] None, line ''a'' [72, 1, 2] None]" and ?f = "byte_decode demo_bytes"
  let ?final = "line ''a'' [72, 1, 2, 33, 7] (Some (FINISH_MATCHED_TOKEN 7))"
  have texts: "?f [72] = [72]" "?f [72, 1, 2] = [72, 233]" "?f [72, 1, 2, 33] = [72, 233, 33]"
    by (simp_all add: byte_decode_def demo_bytes_def utf8_decode_def utf8_step_def utf8_start_def utf8_flush_def clean_def)
  have "\<exists>outs s. decode_run ?f (?rows @ [?final]) None = Ok (outs, s) \<and> length outs = Suc (length ?rows)
    \<and> final_text_ok (FINISH_MATCHED_TOKEN 7) (dr_no_trim ?final) (\<lambda>ids. [] @ drop (length (?f [72])) (?f ids)) (dr_ids ?final) (last outs)
    \<and> (\<forall>k < length ?rows. prefix (outs ! k) ([] @ drop (length (?f [72])) (?f (dr_ids (?rows ! k)))))"
    by (rule incremental_decoding_complete [where v = 0])
      (auto simp: line_def texts ends_with_replacement_def REPLACEMENT_CHAR_def)
  then show ?thesis by (auto simp: line_def texts final_text_ok_def less_Suc_eq_0_disj dest: spec [of _ 1])
qed

definition kept :: decode_status where
  "kept = \<lparr>ds_vid = 0, ds_text = [], ds_ids = [1], ds_surr = 0, ds_read = 1\<rparr>"

theorem detok_rows_independent_witness:
  "\<exists>outs d'. process_tokens (\<lambda>_ _. chars) 3 [line ''b'' [72, 105] None, line ''a'' [1, 105, 33] None] [(''a'', kept)] = Ok (outs, d')
     \<and> outs = [[105], [105, 33]]"
proof -
  let ?rows = "[line ''b'' [72, 105] None, line ''a'' [1, 105, 33] None]"
  have "\<exists>d'. process_tokens (\<lambda>_ _. chars) 3 ?rows [(''a'', kept)] = Ok ([[105], [105, 33]], d')"
    by (simp add: process_tokens_def note_row_def known_def noted_def ldict_set_def ldict_change_def ldict_get_def read_part_def
        trim_matched_ids_def surr_part_def emit_def trim_matched_text_def line_def kept_def chars_def py_drop_def py_bound_def
        py_slice_def ends_with_replacement_def REPLACEMENT_CHAR_def Let_def)
  then obtain d' where p: "process_tokens (\<lambda>_ _. chars) 3 ?rows [(''a'', kept)] = Ok ([[105], [105, 33]], d')" by blast
  have "length [(''a'', kept)] + length ?rows \<le> 3" "distinct (map dr_rid ?rows)" by (simp_all add: line_def)
  from detok_rows_independent [OF p this] show ?thesis using p by blast
qed

theorem full_dictionary_fails_witness:
  "process_tokens (\<lambda>_ _. chars) 1 [line ''a'' [1, 105] None, line ''b'' [72, 105] None] [(''a'', kept)] = Err KeyError"
  by (rule full_dictionary_fails [where s = kept and rest = "[]"]) (simp_all add: line_def kept_def)

end
