(* ===== verification/Spec2Isabelle.thy ===== *)
theory Spec2Isabelle
imports PP_Counter Memory_Pool Sampling_Params Request Penalizers Sampling_Batch_Info Prefix_Cache
  Chunk_Cache Schedule_Batch Batch_Ops Batch_Rows Batch_Steps Batch_Demo Batch_Rebalancer
  Radix_Cache Radix_Locks Radix_Evict Radix_Req Schedule_Policy Prefill_Adder ALP_Scheduler Dynamic_Chunk Chunk_Decision
  Jump_Forward Scheduler Scheduler_Steps Scheduler_Places Scheduler_Keeps Scheduler_Demo
  Batch_Results Result_Facts Result_Demo Embedding_Results Embedding_Demo RW_Lock Jump_Map Vocab_Parallel
  Intake Intake_Facts Intake_Demo Overlap_Worker Detokenizer
begin

text \<open>
  A verification development for FastPP, a serving engine for large language models with pipeline
  parallelism.  It models the core of the runtime, the Python package \<^verbatim>\<open>python/sglang/srt\<close>, as definitions
  that compute, and proves what makes each part correct.

  \<^bold>\<open>The program.\<close>  A request enters through the HTTP server and the tokenizer manager, and reaches a
  \<^emph>\<open>scheduler\<close> worker as a message.  Each worker runs an event loop, one iteration per micro-batch: it takes
  in messages, decides the size of a prefill chunk, forms the next batch, hands it to the model worker and
  processes the result, whose tokens go to the \<^emph>\<open>detokenizer\<close> and back.  With several pipeline stages the
  loop cycles through one micro-batch per stage (\<^verbatim>\<open>PPCounter\<close>), and the scheduler has a running batch, a
  last batch and a request being chunked for every stage.  A batch owns slots of two memory pools: a row of
  the request table and one KV-cache slot per token.  The prefix cache (a radix tree, or the chunk cache
  when it is disabled) owns the slots of finished prefixes and lends them to requests that lock them.

  \<^bold>\<open>Theories and code.\<close>  Paths are relative to \<^verbatim>\<open>src/python/sglang/srt\<close> unless they start with
  \<^verbatim>\<open>python\<close>.
  \<^item> \<open>Prelude\<close>: errors as values (\<open>res\<close>, \<open>rbind\<close>), Python slices and indexing, loops that may fail.
  \<^item> \<open>PP_Counter\<close>: the class \<^verbatim>\<open>PPCounter\<close> of \<^verbatim>\<open>utils.py\<close>.
  \<^item> \<open>Memory_Pool\<close>: \<^verbatim>\<open>ReqToTokenPool\<close> with its write log and the slot allocator
    \<^verbatim>\<open>BaseTokenToKVPool\<close> of \<^verbatim>\<open>mem_cache/memory_pool.py\<close>.
  \<^item> \<open>Sampling_Params\<close>: \<^verbatim>\<open>sampling/sampling_params.py\<close>.
  \<^item> \<open>Request\<close>: \<^verbatim>\<open>Req\<close> and the finish reasons of \<^verbatim>\<open>managers/schedule_batch.py\<close>.
  \<^item> \<open>Penalizers\<close>: \<^verbatim>\<open>sampling/penaltylib\<close>, the orchestrator and its four penalizers.
  \<^item> \<open>Sampling_Batch_Info\<close>: \<^verbatim>\<open>sampling/sampling_batch_info.py\<close> and its use in
    \<^verbatim>\<open>model_executor/model_runner.py\<close>.
  \<^item> \<open>Prefix_Cache\<close>, \<open>Chunk_Cache\<close>: the cache interface \<^verbatim>\<open>mem_cache/base_prefix_cache.py\<close> and
    \<^verbatim>\<open>mem_cache/chunk_cache.py\<close>.
  \<^item> \<open>Radix_Cache\<close> (matching, insertion), \<open>Radix_Locks\<close> (reference counts), \<open>Radix_Evict\<close>
    (eviction), \<open>Radix_Req\<close> (the requests' side): \<^verbatim>\<open>mem_cache/radix_cache.py\<close>.
  \<^item> \<open>Schedule_Batch\<close> (allocation, extend), \<open>Batch_Ops\<close> (filter, merge, split, mix, retract, decode),
    \<open>Jump_Forward\<close> (jump-forward decoding, the batch for the model worker): \<^verbatim>\<open>ScheduleBatch\<close> of
    \<^verbatim>\<open>managers/schedule_batch.py\<close>.
  \<^item> \<open>Batch_Rebalancer\<close>: \<^verbatim>\<open>managers/batch_rebalancer.py\<close>.
  \<^item> \<open>Schedule_Policy\<close>, \<open>Prefill_Adder\<close>: \<^verbatim>\<open>managers/schedule_policy.py\<close>.
  \<^item> \<open>ALP_Scheduler\<close>: \<^verbatim>\<open>managers/alp_scheduler.py\<close>, the runtime predictor.
  \<^item> \<open>Dynamic_Chunk\<close> (metrics, greedy strategy, propagation, samples), \<open>Chunk_Decision\<close> (the strategy
    with the predictor): \<^verbatim>\<open>managers/dynamic_chunk_controller.py\<close>.
  \<^item> \<open>Scheduler\<close> (\<^verbatim>\<open>get_next_batch_to_run\<close> and all it calls), \<open>Batch_Results\<close> and \<open>Embedding_Results\<close>
    (results of a forward pass, streaming), \<open>Intake\<close> (messages, sessions, flushing, the idle check):
    \<^verbatim>\<open>managers/scheduler.py\<close> and \<^verbatim>\<open>managers/session_controller.py\<close>.
  \<^item> \<open>Overlap_Worker\<close>: \<^verbatim>\<open>managers/tp_worker_overlap_thread.py\<close>, the queues and the token placeholders
    between scheduler and forwarding thread.
  \<^item> \<open>Detokenizer\<close>: \<^verbatim>\<open>managers/detokenizer_manager.py\<close> and \<^verbatim>\<open>find_printable_text\<close> of
    \<^verbatim>\<open>python/sglang/utils.py\<close>.
  \<^item> \<open>RW_Lock\<close>: \<^verbatim>\<open>aio_rwlock.py\<close>; \<open>Jump_Map\<close>: \<^verbatim>\<open>constrained/outlines_jump_forward.py\<close>;
    \<open>Vocab_Parallel\<close>: \<^verbatim>\<open>layers/vocab_parallel_embedding.py\<close>.

  \<^bold>\<open>How state and operations correspond.\<close>  A class is a \<open>record\<close> of its attributes, a method a function from
  the state to a result and the new state; a method that may raise returns \<open>res\<close>.  Objects that are shared
  and mutated have an identity: requests (\<open>oid\<close>), batches (\<open>b_id\<close>), tree nodes (\<open>nid\<close>) and penalizer
  orchestrators.  Up to the batch operations a batch holds its requests as values; the scheduler keeps an
  object store (\<open>sh_objs\<close>, \<open>sh_bats\<close>) from identities to current values, because there the same request
  sits in several queues and batches, and reads a batch with the current values (\<open>the_batch\<close>).  What batches
  share (pools, cache, penalizers) is the record \<open>world\<close>, taken and returned.  A stale reference to a tree
  node is an error.  The caches are reached through a record of their methods (\<open>cache_ops\<close>), as in the code.

  \<^bold>\<open>Interfaces.\<close>  \<open>slot_pool\<close> (\<open>Memory_Pool\<close>): slots are handed out and taken back, none lost or doubled;
  both pools are interpretations.  \<open>prefix_cache\<close> (\<open>Prefix_Cache\<close>), extended by \<open>locking_cache\<close>
  (\<open>Prefill_Adder\<close>), and \<open>finishing_cache\<close> (\<open>Jump_Forward\<close>), extended by \<open>request_cache\<close>
  (\<open>Scheduler_Steps\<close>) and \<open>result_cache\<close> (\<open>Result_Facts\<close>): what batches, adder and scheduler rely on of a
  cache; each is interpreted by the chunk cache and by the radix cache.  The properties of clients of a cache
  are stated for the interpretations.

  \<^bold>\<open>What the lemmas show.\<close>
  \<^item> Memory: slots are never given to two owners, under any run of allocations, frees and free groups; the
    rows of the request table are written by exactly the owner of the row (\<open>Memory_Pool\<close>,
    \<open>Schedule_Batch\<close>, \<open>Batch_Steps\<close>).
  \<^item> Batches: filter, merge and split are indexing, appending and distributing one list of rows
    (\<open>Batch_Rows\<close>); retraction leaves room for the next step; rebalancing neither loses nor copies a row and
    reaches its target; penalties commute with filtering and merging, and their factored form equals applying them in sequence,
    whatever the order of the set of penalizers.
  \<^item> Radix tree: insertion refines extending a trie, matching finds the longest cached prefix, eviction never
    touches a locked node and frees enough, the counters agree with the tree over any disciplined run, and a
    request's lock moves with its prefix and is returned at its end.
  \<^item> Admission and policy: a request is admitted with one lock and full charge or not at all, chunks respect
    the budget, a policy permutes the queue.
  \<^item> Chunk size: the predictor's covariance stays positive semidefinite and over any run an update moves the
    prediction towards the observation; the decisions respect latency target, bounds and the running requests; all workers agree.
  \<^item> Scheduler: a step loses no unfinished request and keeps the store well formed
    (\<open>Scheduler_Steps\<close>, \<open>Scheduler_Places\<close>, \<open>Scheduler_Keeps\<close>); processing a result gives every live
    request exactly its token and, with the chunk cache, releases exactly what finished requests held
    (\<open>Result_Facts\<close>); intake
    keeps the queues fit for the next step and within the limits (\<open>Intake_Facts\<close>).
  \<^item> Overlap and output: interleaving with the forwarding thread does not matter, placeholders become the right
    tokens within the stated bound and wrong ones beyond it; incremental decoding ends with the text of
    decoding everything.
  \<^item> The lock excludes and drains; forced jumps terminate and emit exactly what the automaton forces; the sharded embedding is the
    embedding.
  The theories \<open>Batch_Demo\<close>, \<open>Scheduler_Demo\<close>, \<open>Result_Demo\<close>, \<open>Embedding_Demo\<close> and \<open>Intake_Demo\<close> apply the properties to
  concrete states, so that no hypothesis is empty; elsewhere the witnesses follow their theorem.

  \<^bold>\<open>Bounds and termination.\<close>  Loops over lists are structural recursion.  Insertion into and eviction from the
  radix tree are functions with a measure (length of the key, number of nodes).  The jump loops may run forever
  in the code and are \<open>partial_function (option)\<close>: their properties state when they return.  No fuel is used.
  Event loops and locks are folds over arbitrary event lists or inductive step relations.

  \<^bold>\<open>Conventions.\<close>  Integers are unbounded as in Python; sizes that are never negative are naturals.  Floats are
  reals (logits carry infinities and NaN); rounding is not modelled.  Tensors are lists, with the broadcasting and
  index errors of \<^verbatim>\<open>torch\<close> where the code can meet them.  Clock readings, random numbers and fresh
  identifiers are arguments.  \<^verbatim>\<open>heapq\<close> is modelled by its result, the least entry.  Tokenizers, grammar
  objects, the multimodal preprocessor, the model worker and collective operations are parameters; hypotheses on
  them state what their documentation promises.  The detokenizer's decoder is any byte-level one: UTF-8 decoding of
  the tokens' bytes with invalid parts replaced, as Python specifies it.  Statistics and logging are left out, as is the synchronisation of grammar masks through \<^verbatim>\<open>next_batch_sampling_info\<close>.  A method of the lock between two waits
  is one step, since the event loop does not switch tasks there.

  \<^bold>\<open>Not modelled.\<close>  Data-parallel attention in the scheduler;
  quantised and packed weights of the embedding.  Entirely left out: the numeric layers, kernels and models and
  their loading (their content is floating-point tensor algebra of \<^verbatim>\<open>torch\<close> and \<^verbatim>\<open>triton\<close>, not code of
  the repository that decides anything); process groups and shared-memory transport (\<^verbatim>\<open>distributed\<close>, calls to
  NCCL and operating-system primitives); the HTTP server, the OpenAI adapter and command-line arguments (input and
  output formats); the frontend language (\<^verbatim>\<open>python/sglang/lang\<close>), which is a client of the server; benchmarks,
  tests, examples and the router.  The manifest lists these parts with their reasons.
\<close>

end
